(* ===== verification/Prelude.thy ===== *)
theory Prelude
  imports Main "HOL-Library.Word" "HOL-Library.List_Lexorder" "HOL-Library.AList"
begin

text \<open>
  The shared vocabulary of the development: bytes and machine words, Go slices, strings and
  maps, error results, and the generic lemmas on association lists, sorted lists and words
  that the component theories use.

  \<^item> A Go \<open>[]byte\<close> whose \<open>nil\<close> matters is a \<open>slice\<close>, that is \<open>bytes option\<close> with \<open>None\<close> for
    \<open>nil\<close>; where the code never tells \<open>nil\<close> from empty it is plain \<open>bytes\<close>.
  \<^item> A Go \<open>string\<close> is a byte sequence, compared byte by byte; \<open>lit\<close> turns a literal into one.
    The order on \<open>bytes\<close> is the lexicographic order of \<open>HOL-Library.List_Lexorder\<close>, which is
    the order of \<open>bytes.Compare\<close> and of Go's string comparison.
  \<^item> A Go \<open>map\<close> is an association list with distinct keys. \<open>range\<close> over a Go map visits the
    entries in an unspecified order; in the model it is the order of the list, and since the
    theorems quantify over all such lists they hold for every order of iteration.
  \<^item> A function that returns an error or panics returns \<open>gerr + 'a\<close>, \<open>Inl\<close> being the error.
\<close>

unbundle bit_operations_syntax

named_theorems gomap_simps \<open>lookup and key facts for Go maps\<close>

subsection \<open>Types\<close>

type_synonym byte = "8 word"
type_synonym bytes = "byte list"
type_synonym gostring = "bytes"
type_synonym slice = "bytes option"
type_synonym u32 = "32 word"
type_synonym u64 = "64 word"
type_synonym ('k, 'v) gomap = "('k \<times> 'v) list"

datatype gerr =
    DBError
  | ErrOutOfBounds
  | ErrResourceNotFound
  | ErrUnexpectedEOF
  | ErrOverflow
  | ErrMsg string
  | Panic string

definition lit :: "string \<Rightarrow> gostring" where
  "lit s = map of_char s"

text \<open>Sequencing of fallible steps: the first error is returned, as the early returns do.\<close>

definition rbind :: "'e + 'a \<Rightarrow> ('a \<Rightarrow> 'e + 'b) \<Rightarrow> 'e + 'b" where
  "rbind m f = (case m of Inl e \<Rightarrow> Inl e | Inr x \<Rightarrow> f x)"

lemma rbind_simps [simp]:
  "rbind (Inl e) f = Inl e"
  "rbind (Inr x) f = f x"
  by (simp_all add: rbind_def)

lemma rbind_Inr_conv: "rbind m f = Inr y \<longleftrightarrow> (\<exists>x. m = Inr x \<and> f x = Inr y)"
  by (cases m) auto

lemma rbind_assoc: "rbind (rbind m f) g = rbind m (\<lambda>x. rbind (f x) g)"
  by (cases m) auto

text \<open>A loop over a slice or over the entries of a map whose body may fail.\<close>

fun rfold :: "('s \<Rightarrow> 'a \<Rightarrow> 'e + 's) \<Rightarrow> 'a list \<Rightarrow> 's \<Rightarrow> 'e + 's" where
  "rfold f [] s = Inr s"
| "rfold f (x # xs) s = rbind (f s x) (rfold f xs)"

lemma rfold_append: "rfold f (xs @ ys) s = rbind (rfold f xs s) (rfold f ys)"
  by (induction xs arbitrary: s) (auto simp: rbind_def split: sum.splits)

lemma rfold_map: "rfold f (map g xs) s = rfold (\<lambda>s x. f s (g x)) xs s"
  by (induction xs arbitrary: s) (auto simp: rbind_def split: sum.splits)

lemma rfold_total:
  assumes "\<And>s x. x \<in> set xs \<Longrightarrow> f s x = Inr (g s x)"
  shows "rfold f xs s = Inr (foldl g s xs)"
  using assms by (induction xs arbitrary: s) auto

text \<open>A loop whose body succeeds while an invariant holds succeeds and keeps it.\<close>

lemma rfold_invariant:
  assumes "P s []"
    and "\<And>s pre x. P s pre \<Longrightarrow> x \<in> set xs \<Longrightarrow> \<exists>s'. f s x = Inr s' \<and> P s' (pre @ [x])"
  shows "\<exists>s'. rfold f xs s = Inr s' \<and> P s' xs"
proof -
  have "\<exists>s'. rfold f ys s = Inr s' \<and> P s' (pre @ ys)"
    if "set ys \<subseteq> set xs" and "P s pre" for ys pre s
    using that
  proof (induction ys arbitrary: s pre)
    case Nil
    then show ?case by auto
  next
    case (Cons y ys)
    from Cons.prems obtain s1 where "f s y = Inr s1" "P s1 (pre @ [y])"
      using assms(2) by fastforce
    with Cons.IH [of s1 "pre @ [y]"] Cons.prems show ?case by auto
  qed
  from this [of xs s "[]"] assms(1) show ?thesis by simp
qed

text \<open>
  A loop whose body updates the receiver and may return an error: the updates made before the
  error stay, as they do when a Go method returns early.
\<close>

fun efold :: "('a \<Rightarrow> 's \<Rightarrow> gerr option \<times> 's) \<Rightarrow> 'a list \<Rightarrow> 's \<Rightarrow> gerr option \<times> 's" where
  "efold f [] s = (None, s)"
| "efold f (x # xs) s = (case f x s of (Some e, s') \<Rightarrow> (Some e, s') | (None, s') \<Rightarrow> efold f xs s')"

lemma efold_invariant:
  assumes "P s []"
    and "\<And>s pre x post. P s pre \<Longrightarrow> xs = pre @ x # post \<Longrightarrow> \<exists>s'. f x s = (None, s') \<and> P s' (pre @ [x])"
  shows "\<exists>s'. efold f xs s = (None, s') \<and> P s' xs"
proof -
  have "\<exists>s'. efold f ys s = (None, s') \<and> P s' (pre @ ys)"
    if "xs = pre @ ys" and "P s pre" for ys pre s
    using that
  proof (induction ys arbitrary: s pre)
    case Nil
    then show ?case by auto
  next
    case (Cons y ys)
    from Cons.prems obtain s1 where "f y s = (None, s1)" "P s1 (pre @ [y])"
      using assms(2) by blast
    with Cons.IH [of "pre @ [y]" s1] Cons.prems show ?case by auto
  qed
  from this [of "[]" xs s] assms(1) show ?thesis by simp
qed

subsection \<open>Go maps\<close>

text \<open>
  \<open>mget\<close>, \<open>mput\<close> and \<open>mdel\<close> are \<open>m[k]\<close> with its presence flag, \<open>m[k] = v\<close> and \<open>delete(m, k)\<close>.
  \<open>gomap_ok\<close> is the well-formedness of a Go map: no key twice.
\<close>

abbreviation mget :: "('k, 'v) gomap \<Rightarrow> 'k \<Rightarrow> 'v option" where
  "mget \<equiv> map_of"

abbreviation mput :: "'k \<Rightarrow> 'v \<Rightarrow> ('k, 'v) gomap \<Rightarrow> ('k, 'v) gomap" where
  "mput \<equiv> AList.update"

abbreviation mdel :: "'k \<Rightarrow> ('k, 'v) gomap \<Rightarrow> ('k, 'v) gomap" where
  "mdel \<equiv> AList.delete"

definition gomap_ok :: "('k, 'v) gomap \<Rightarrow> bool" where
  "gomap_ok m = distinct (map fst m)"

lemma mget_mput [gomap_simps, simp]: "mget (mput k v m) k' = (if k' = k then Some v else mget m k')"
  by (simp add: update_conv')

lemma mget_mdel [gomap_simps, simp]: "mget (mdel k m) k' = (if k' = k then None else mget m k')"
  by (simp add: delete_conv')

lemma gomap_ok_Nil [gomap_simps, simp]: "gomap_ok []"
  by (simp add: gomap_ok_def)

lemma gomap_ok_mput [gomap_simps, simp]: "gomap_ok m \<Longrightarrow> gomap_ok (mput k v m)"
  by (simp add: gomap_ok_def distinct_update)

lemma gomap_ok_mdel [gomap_simps, simp]: "gomap_ok m \<Longrightarrow> gomap_ok (mdel k m)"
  by (simp add: gomap_ok_def distinct_delete)

lemma mget_filter_keys [gomap_simps]:
  "mget (filter (\<lambda>(k, v). P k) m) k' = (if P k' then mget m k' else None)"
  by (induction m) auto

lemma gomap_ok_filter [gomap_simps, simp]: "gomap_ok m \<Longrightarrow> gomap_ok (filter P m)"
  by (simp add: gomap_ok_def distinct_map_filter)

lemma gomap_in_set: "gomap_ok m \<Longrightarrow> (k, v) \<in> set m \<longleftrightarrow> mget m k = Some v"
  by (simp add: gomap_ok_def)

lemma mget_None_conv: "mget m k = None \<longleftrightarrow> k \<notin> fst ` set m"
  by (simp add: map_of_eq_None_iff)

lemma gomap_keys_mput: "set (map fst (mput k v m)) = insert k (set (map fst m))"
  by (simp add: dom_update dom_map_of_conv_image_fst [symmetric] update_conv')

subsection \<open>Sorted association lists\<close>

text \<open>A list strictly sorted by its keys is determined by the finite map it represents.\<close>

lemma sorted_keys_unique:
  fixes xs ys :: "('k::linorder \<times> 'v) list"
  assumes "sorted_wrt (<) (map fst xs)" and "sorted_wrt (<) (map fst ys)"
    and "map_of xs = map_of ys"
  shows "xs = ys"
proof -
  have d: "distinct (map fst xs)" "distinct (map fst ys)"
    using assms(1,2) by (auto simp: strict_sorted_iff)
  have "set xs = set ys"
  proof -
    have "(k, v) \<in> set xs \<longleftrightarrow> (k, v) \<in> set ys" for k v
      using d assms(3) by (metis map_of_eq_Some_iff)
    then show ?thesis by auto
  qed
  moreover from this have "map fst xs = map fst ys"
    using assms(1,2) by (metis list.set_map strict_sorted_equal)
  ultimately show ?thesis
    using d by (metis (no_types, lifting) assms(3) map_of_eqI list.set_map map_of_is_SomeI
        nth_equalityI length_map nth_map nth_mem prod.collapse option.inject)
qed

end
