(* ===== verification/ProtoWire.thy ===== *)
theory ProtoWire
  imports Prelude
begin

text \<open>
  The protocol-buffer wire primitives the ledger uses for its own encodings
  (\<open>src/vendor/github.com/golang/protobuf/proto/encode.go\<close> and \<open>decode.go\<close>): variable-length
  integers and length-prefixed byte strings, both in the stand-alone form and in the form that
  appends to or consumes from a \<open>proto.Buffer\<close>. A buffer that is read is modelled by the bytes
  that are left from its index on. The locale \<open>codec\<close> is the contract the ledger's marshalling
  code relies on: decoding what was encoded gives the value back and leaves the rest of the
  buffer.
\<close>

subsection \<open>Varints\<close>

function EncodeVarint :: "u64 \<Rightarrow> bytes" where
  "EncodeVarint x =
     (if x > 127 then (0x80 OR ucast (x AND 0x7F)) # EncodeVarint (drop_bit 7 x)
      else [ucast x])"
  by pat_completeness auto
termination
proof (relation "measure unat")
  fix x :: u64
  assume "x > 127"
  then have "unat x > 127" by (simp add: word_less_nat_alt)
  then show "(drop_bit 7 x, x) \<in> measure unat"
    by (simp add: drop_bit_eq_div unat_div)
qed simp

declare EncodeVarint.simps [simp del]

text \<open>\<open>Buffer.EncodeVarint\<close>: the same digits, appended to the buffer.\<close>

function buf_EncodeVarint :: "bytes \<Rightarrow> u64 \<Rightarrow> bytes" where
  "buf_EncodeVarint buf x =
     (if x \<ge> 128 then buf_EncodeVarint (buf @ [ucast (x AND 0x7F) OR 0x80]) (drop_bit 7 x)
      else buf @ [ucast x])"
  by pat_completeness auto
termination
proof (relation "measure (\<lambda>(buf, x). unat x)")
  fix buf :: bytes and x :: u64
  assume "x \<ge> 128"
  then have "unat x \<ge> 128" by (simp add: word_le_nat_alt)
  then show "((buf @ [ucast (x AND 0x7F) OR 0x80], drop_bit 7 x), (buf, x))
      \<in> measure (\<lambda>(buf, x). unat x)"
    by (simp add: drop_bit_eq_div unat_div)
qed simp

declare buf_EncodeVarint.simps [simp del]

text \<open>
  \<open>DecodeVarint\<close> of a byte slice: the value and the number of bytes consumed, \<open>(0, 0)\<close> when the
  slice is too short or the number does not fit. \<open>shift\<close> and \<open>n\<close> are the loop variables.
\<close>

function DecodeVarint_loop :: "bytes \<Rightarrow> nat \<Rightarrow> u64 \<Rightarrow> nat \<Rightarrow> u64 \<times> nat" where
  "DecodeVarint_loop buf shift x n =
     (if shift < 64 then
        if n \<ge> length buf then (0, 0)
        else let b = ucast (buf ! n) :: u64;
                 x' = x OR push_bit shift (b AND 0x7F)
             in if b AND 0x80 = 0 then (x', n + 1)
                else DecodeVarint_loop buf (shift + 7) x' (n + 1)
      else (0, 0))"
  by pat_completeness auto
termination
  by (relation "measure (\<lambda>(buf, shift, x, n). 64 - shift)") auto

declare DecodeVarint_loop.simps [simp del]

definition DecodeVarint :: "bytes \<Rightarrow> u64 \<times> nat" where
  "DecodeVarint buf = DecodeVarint_loop buf 0 0 0"

text \<open>\<open>Buffer.DecodeVarint\<close>: consumes the varint from the unread part of the buffer.\<close>

function buf_DecodeVarint_loop :: "bytes \<Rightarrow> nat \<Rightarrow> u64 \<Rightarrow> gerr + u64 \<times> bytes" where
  "buf_DecodeVarint_loop buf shift x =
     (if shift < 64 then
        case buf of [] \<Rightarrow> Inl ErrUnexpectedEOF
        | b # rest \<Rightarrow>
            let x' = x OR push_bit shift (ucast b AND 0x7F)
            in if b < 0x80 then Inr (x', rest)
               else buf_DecodeVarint_loop rest (shift + 7) x'
      else Inl ErrOverflow)"
  by pat_completeness auto
termination
  by (relation "measure (\<lambda>(buf, shift, x). 64 - shift)") auto

declare buf_DecodeVarint_loop.simps [simp del]

definition buf_DecodeVarint :: "bytes \<Rightarrow> gerr + u64 \<times> bytes" where
  "buf_DecodeVarint buf = buf_DecodeVarint_loop buf 0 0"

subsection \<open>Length-prefixed bytes\<close>

text \<open>
  \<open>len(b)\<close> is a Go \<open>int\<close>; \<open>of_nat\<close> is its conversion to \<open>uint64\<close>, exact for every slice a
  64-bit program can hold.
\<close>

definition buf_EncodeRawBytes :: "bytes \<Rightarrow> bytes \<Rightarrow> bytes" where
  "buf_EncodeRawBytes buf b = buf_EncodeVarint buf (of_nat (length b)) @ b"

definition buf_EncodeStringBytes :: "bytes \<Rightarrow> gostring \<Rightarrow> bytes" where
  "buf_EncodeStringBytes buf s = buf_EncodeVarint buf (of_nat (length s)) @ s"

text \<open>
  The length is read as a signed \<open>int\<close>: a negative one is an error, and so is one that runs past
  the end of the buffer. (The overflow test \<open>end < p.index\<close> of the code cannot differ from the
  second test in the model, where the index is 0 and the length is not negative.)
\<close>

definition buf_DecodeRawBytes :: "bytes \<Rightarrow> gerr + bytes \<times> bytes" where
  "buf_DecodeRawBytes buf =
     rbind (buf_DecodeVarint buf) (\<lambda>(n, rest).
       let nb = sint n in
       if nb < 0 then Inl (ErrMsg ''proto: bad byte length'')
       else if nb > int (length rest) then Inl ErrUnexpectedEOF
       else Inr (take (nat nb) rest, drop (nat nb) rest))"

definition buf_DecodeStringBytes :: "bytes \<Rightarrow> gerr + gostring \<times> bytes" where
  "buf_DecodeStringBytes buf = buf_DecodeRawBytes buf"

subsection \<open>Facts about varints\<close>

lemma EncodeVarint_small: "x \<le> 127 \<Longrightarrow> EncodeVarint x = [ucast x]"
  by (subst EncodeVarint.simps) (simp add: leD)

lemma EncodeVarint_large:
  "127 < x \<Longrightarrow> EncodeVarint x = (0x80 OR ucast (x AND 0x7F)) # EncodeVarint (drop_bit 7 x)"
  by (simp add: EncodeVarint.simps [of x])

lemma EncodeVarint_nonempty [simp]: "EncodeVarint x \<noteq> []"
  by (simp add: EncodeVarint.simps [of x])

lemma word_ge_128_iff: "(x :: u64) \<ge> 128 \<longleftrightarrow> 127 < x"
  by (simp add: word_le_nat_alt word_less_nat_alt) linarith

lemma buf_EncodeVarint_eq: "buf_EncodeVarint buf x = buf @ EncodeVarint x"
proof (induction buf x rule: buf_EncodeVarint.induct)
  case (1 buf x)
  show ?case
  proof (cases "x \<ge> 128")
    case True
    with 1 show ?thesis
      by (simp add: buf_EncodeVarint.simps [of buf x] EncodeVarint_large word_ge_128_iff or.commute)
  next
    case False
    then show ?thesis
      by (subst buf_EncodeVarint.simps) (simp add: EncodeVarint_small word_ge_128_iff not_less leD)
  qed
qed

text \<open>A varint never needs more than \<open>k\<close> bytes for a number of \<open>7 * k\<close> bits.\<close>

lemma length_EncodeVarint_bits:
  "unat x < 2 ^ (7 * k) \<Longrightarrow> 0 < k \<Longrightarrow> length (EncodeVarint x) \<le> k"
proof (induction k arbitrary: x)
  case 0
  then show ?case by simp
next
  case (Suc k)
  show ?case
  proof (cases "127 < x")
    case True
    then have big: "127 < unat x" by (simp add: word_less_nat_alt)
    have k: "0 < k"
    proof (rule ccontr)
      assume "\<not> 0 < k"
      with Suc.prems big show False by simp
    qed
    have "unat (drop_bit 7 x) = unat x div 128"
      by (simp add: drop_bit_eq_div unat_div)
    moreover have "unat x div 128 < 2 ^ (7 * k)"
      using Suc.prems by (simp add: less_mult_imp_div_less power_add mult.commute)
    ultimately show ?thesis
      using Suc.IH [of "drop_bit 7 x"] k True by (simp add: EncodeVarint_large)
  next
    case False
    then show ?thesis by (simp add: EncodeVarint_small not_less)
  qed
qed

lemma length_EncodeVarint_le_10: "length (EncodeVarint x) \<le> 10"
proof (rule length_EncodeVarint_bits)
  have "unat x < 2 ^ 64" using unsigned_less [of x] by simp
  then show "unat x < 2 ^ (7 * 10)" by simp
qed simp

text \<open>The bits a decoding step collects.\<close>

lemma bit_7F_iff: "bit (127 :: nat) n \<longleftrightarrow> n < 7" "bit (127 :: int) n \<longleftrightarrow> n < 7"
  using bit_mask_iff [of 7 n, where 'a = nat] bit_mask_iff [of 7 n, where 'a = int]
  by (auto simp: mask_eq_exp_minus_1)

lemma bit_80_iff: "bit (128 :: nat) n \<longleftrightarrow> n = 7" "bit (128 :: int) n \<longleftrightarrow> n = 7"
  using bit_exp_iff [of 7 n, where 'a = nat] bit_exp_iff [of 7 n, where 'a = int]
  by auto

lemma varint_bits_join:
  fixes x :: u64
  shows "push_bit s (x AND 0x7F) OR push_bit (s + 7) (drop_bit 7 x) = push_bit s x"
proof (rule bit_word_eqI)
  fix n
  assume n: "n < LENGTH(64)"
  have "7 + (n - (s + 7)) = n - s" if "\<not> n - s < 7"
    using that by simp
  then show "bit (push_bit s (x AND 0x7F) OR push_bit (s + 7) (drop_bit 7 x)) n =
      bit (push_bit s x) n"
    using n by (cases "n - s < 7") (auto simp: bit_simps bit_7F_iff)
qed

lemma varint_low_byte:
  fixes x :: u64
  shows "ucast (0x80 OR ucast (x AND 0x7F) :: byte) AND 0x7F = x AND (0x7F :: u64)"
    and "ucast (0x80 OR ucast (x AND 0x7F) :: byte) AND (0x80 :: u64) \<noteq> 0"
proof -
  show "ucast (0x80 OR ucast (x AND 0x7F) :: byte) AND 0x7F = x AND (0x7F :: u64)"
    by (rule bit_word_eqI) (auto simp: bit_simps bit_7F_iff bit_80_iff)
  have "bit (ucast (0x80 OR ucast (x AND 0x7F) :: byte) AND (0x80 :: u64)) 7"
    by (auto simp: bit_simps bit_7F_iff bit_80_iff)
  then show "ucast (0x80 OR ucast (x AND 0x7F) :: byte) AND (0x80 :: u64) \<noteq> 0"
    by auto
qed

lemma byte_less_80_iff: "(b :: byte) < 0x80 \<longleftrightarrow> ucast b AND (0x80 :: u64) = 0"
proof -
  have "b < 0x80 \<longleftrightarrow> \<not> bit b 7"
  proof -
    have "bit b 7 \<longleftrightarrow> odd (unat b div 2 ^ 7)"
      by (metis bit_iff_odd bit_unsigned_iff possible_bit_nat)
    moreover have "unat b < 256" using unsigned_less [of b] by simp
    then have "unat b div 2 ^ 7 < 2" by (simp add: less_mult_imp_div_less)
    then have "odd (unat b div 2 ^ 7) \<longleftrightarrow> unat b div 2 ^ 7 = 1"
      by (auto simp: less_2_cases_iff)
    moreover have "unat b div 2 ^ 7 = 1 \<longleftrightarrow> \<not> unat b < 128"
      using \<open>unat b div 2 ^ 7 < 2\<close> by (auto simp: div_eq_0_iff less_2_cases_iff)
    ultimately show ?thesis
      by (simp add: word_less_nat_alt)
  qed
  moreover have "bit b 7 \<longleftrightarrow> ucast b AND (0x80 :: u64) \<noteq> 0"
  proof -
    have "ucast b AND (0x80 :: u64) = (if bit b 7 then 0x80 else 0)"
      by (rule bit_word_eqI) (auto simp: bit_simps bit_80_iff)
    then show ?thesis by simp
  qed
  ultimately show ?thesis by simp
qed

lemma small_varint_byte:
  fixes x :: u64
  assumes "x \<le> 127"
  shows "ucast (ucast x :: byte) AND 0x7F = x" and "ucast (ucast x :: byte) AND (0x80 :: u64) = 0"
proof -
  have "bit x n \<Longrightarrow> n < 7" for n
  proof (rule ccontr)
    assume "bit x n" and "\<not> n < 7"
    then have "bit (unat x) n" by (simp add: bit_unsigned_iff)
    then have "2 ^ n \<le> unat x"
      by (metis bit_iff_odd div_less even_zero not_le)
    moreover have "(2::nat) ^ 7 \<le> 2 ^ n" using \<open>\<not> n < 7\<close> by (intro power_increasing) auto
    moreover have "unat x \<le> 127" using assms by (simp add: word_le_nat_alt)
    ultimately show False by simp
  qed
  then have "bit x n \<Longrightarrow> n < 8" and "\<not> bit x 7" for n
    by (force, blast)
  with \<open>\<And>n. bit x n \<Longrightarrow> n < 7\<close>
  show "ucast (ucast x :: byte) AND 0x7F = x" and "ucast (ucast x :: byte) AND (0x80 :: u64) = 0"
    by (auto intro!: bit_word_eqI simp: bit_simps bit_7F_iff bit_80_iff)
qed

subsection \<open>Round trips\<close>

text \<open>
  Both decoders, started with \<open>s\<close> bits already read into \<open>acc\<close>, add the encoded number above
  them. The bound says that the number still fits: its top bit is below bit 64.
\<close>

lemma varint_step_bound:
  fixes x :: u64
  assumes "unat x < 2 ^ (64 - s)" and "127 < x" and "s \<le> 63"
  shows "unat (drop_bit 7 x) < 2 ^ (64 - (s + 7))" and "s + 7 \<le> 63"
proof -
  have x: "127 < unat x" using assms(2) by (simp add: word_less_nat_alt)
  show s: "s + 7 \<le> 63"
  proof (rule ccontr)
    assume "\<not> s + 7 \<le> 63"
    then have "64 - s \<le> 7" by simp
    then have "(2::nat) ^ (64 - s) \<le> 2 ^ 7" by (rule power_increasing) simp
    with x assms(1) show False by simp
  qed
  then have e: "64 - s = 7 + (64 - (s + 7))" by simp
  have "(2::nat) ^ (64 - s) = 128 * 2 ^ (64 - (s + 7))"
    unfolding e power_add by simp
  with assms(1) show "unat (drop_bit 7 x) < 2 ^ (64 - (s + 7))"
    by (simp add: drop_bit_eq_div unat_div less_mult_imp_div_less mult.commute)
qed

lemma DecodeVarint_loop_EncodeVarint:
  assumes "unat x < 2 ^ (64 - s)" and "s \<le> 63"
  shows "DecodeVarint_loop (pre @ EncodeVarint x @ rest) s acc (length pre) =
    (acc OR push_bit s x, length pre + length (EncodeVarint x))"
  using assms
proof (induction x arbitrary: s acc pre rule: EncodeVarint.induct)
  case (1 x)
  show ?case
  proof (cases "127 < x")
    case True
    let ?b = "0x80 OR ucast (x AND 0x7F) :: byte"
    let ?acc = "acc OR push_bit s (x AND 0x7F)"
    have "DecodeVarint_loop (pre @ EncodeVarint x @ rest) s acc (length pre) =
        DecodeVarint_loop ((pre @ [?b]) @ EncodeVarint (drop_bit 7 x) @ rest) (s + 7) ?acc
          (length (pre @ [?b]))"
      using "1.prems" True varint_low_byte [of x]
      by (subst DecodeVarint_loop.simps) (simp add: EncodeVarint_large nth_append Let_def del: push_bit_and)
    also have "\<dots> = (?acc OR push_bit (s + 7) (drop_bit 7 x),
        length (pre @ [?b]) + length (EncodeVarint (drop_bit 7 x)))"
      by (rule "1.IH" [OF True]) (use varint_step_bound [OF "1.prems"(1) True "1.prems"(2)] in auto)
    also have "\<dots> = (acc OR push_bit s x, length pre + length (EncodeVarint x))"
      using True varint_bits_join [of s x] by (simp add: EncodeVarint_large or.assoc del: push_bit_and)
    finally show ?thesis .
  next
    case False
    then have x: "x \<le> 127" by simp
    have "DecodeVarint_loop (pre @ [ucast x] @ rest) s acc (length pre) =
        (acc OR push_bit s (ucast (ucast x :: byte) AND 0x7F), length pre + 1)"
      using "1.prems"(2) small_varint_byte(2) [OF x]
      by (subst DecodeVarint_loop.simps) (simp only: Let_def length_append nth_append_length
          append_Cons list.size if_True if_False, simp)
    then show ?thesis
      unfolding small_varint_byte(1) [OF x] EncodeVarint_small [OF x] by simp
  qed
qed

lemma unat_u64_bound: "unat (x :: u64) < 2 ^ (64 - 0)"
  using unsigned_less [of x] by simp

lemma DecodeVarint_EncodeVarint:
  "DecodeVarint (EncodeVarint x @ rest) = (x, length (EncodeVarint x))"
  using DecodeVarint_loop_EncodeVarint [OF unat_u64_bound, of "[]" x rest 0]
  by (simp add: DecodeVarint_def)

lemma buf_DecodeVarint_loop_EncodeVarint:
  assumes "unat x < 2 ^ (64 - s)" and "s \<le> 63"
  shows "buf_DecodeVarint_loop (EncodeVarint x @ rest) s acc = Inr (acc OR push_bit s x, rest)"
  using assms
proof (induction x arbitrary: s acc rule: EncodeVarint.induct)
  case (1 x)
  show ?case
  proof (cases "127 < x")
    case True
    let ?acc = "acc OR push_bit s (x AND 0x7F)"
    have "buf_DecodeVarint_loop (EncodeVarint x @ rest) s acc =
        buf_DecodeVarint_loop (EncodeVarint (drop_bit 7 x) @ rest) (s + 7) ?acc"
      using "1.prems" True varint_low_byte [of x]
      by (subst buf_DecodeVarint_loop.simps)
        (simp add: EncodeVarint_large byte_less_80_iff Let_def del: push_bit_and)
    also have "\<dots> = Inr (?acc OR push_bit (s + 7) (drop_bit 7 x), rest)"
      by (rule "1.IH" [OF True]) (use varint_step_bound [OF "1.prems"(1) True "1.prems"(2)] in auto)
    also have "\<dots> = Inr (acc OR push_bit s x, rest)"
      using varint_bits_join [of s x] by (simp add: or.assoc del: push_bit_and)
    finally show ?thesis .
  next
    case False
    then have x: "x \<le> 127" by simp
    have "(ucast x :: byte) < 0x80"
      unfolding byte_less_80_iff by (rule small_varint_byte(2) [OF x])
    then have "buf_DecodeVarint_loop ([ucast x] @ rest) s acc =
        Inr (acc OR push_bit s (ucast (ucast x :: byte) AND 0x7F), rest)"
      using "1.prems"(2) by (subst buf_DecodeVarint_loop.simps) (simp del: push_bit_and)
    then show ?thesis
      unfolding small_varint_byte(1) [OF x] EncodeVarint_small [OF x] by simp
  qed
qed

lemma buf_DecodeVarint_EncodeVarint:
  "buf_DecodeVarint (EncodeVarint x @ rest) = Inr (x, rest)"
  using buf_DecodeVarint_loop_EncodeVarint [OF unat_u64_bound, of x rest 0]
  by (simp add: buf_DecodeVarint_def)

subsection \<open>The codec contract\<close>

text \<open>
  A pair of an appending encoder and a consuming decoder. \<open>valid\<close> are the values the encoder is
  meant for. Every such encoder is prefix free on them, so encodings can follow each other.
\<close>

locale codec =
  fixes enc :: "bytes \<Rightarrow> 'a \<Rightarrow> bytes"
    and dec :: "bytes \<Rightarrow> gerr + 'a \<times> bytes"
    and valid :: "'a \<Rightarrow> bool"
  assumes enc_append: "enc buf x = buf @ enc [] x"
    and dec_enc: "valid x \<Longrightarrow> dec (enc [] x @ rest) = Inr (x, rest)"
begin

lemma dec_enc_buf: "valid x \<Longrightarrow> dec (enc [] x) = Inr (x, [])"
  using dec_enc [of x "[]"] by simp

lemma enc_inj: "valid x \<Longrightarrow> valid y \<Longrightarrow> enc [] x @ r = enc [] y @ r' \<Longrightarrow> x = y \<and> r = r'"
  using dec_enc [of x r] dec_enc [of y r'] by (metis Inr_inject Pair_inject)

lemma foldl_enc: "foldl enc buf xs = buf @ foldl enc [] xs"
proof (induction xs arbitrary: buf)
  case (Cons x xs)
  show ?case
    using Cons.IH [of "enc buf x"] Cons.IH [of "enc [] x"] enc_append [of buf x]
    by (metis append.assoc foldl_Cons)
qed simp

end

interpretation varint: codec buf_EncodeVarint buf_DecodeVarint "\<lambda>_. True"
  by unfold_locales (simp_all add: buf_EncodeVarint_eq buf_DecodeVarint_EncodeVarint)

text \<open>A length a 64-bit program can hold: it is not negative as a Go \<open>int\<close>.\<close>

definition go_len :: "'a list \<Rightarrow> bool" where
  "go_len xs = (length xs < 2 ^ 63)"

lemma unat_go_len: "go_len xs \<Longrightarrow> unat (of_nat (length xs) :: u64) = length xs"
  by (simp add: go_len_def unat_of_nat)

lemma sint_go_len: "go_len xs \<Longrightarrow> sint (of_nat (length xs) :: u64) = int (length xs)"
proof -
  assume a: "go_len xs"
  then have "sint (of_nat (length xs) :: u64) = signed_take_bit 63 (int (length xs))"
    by (simp add: signed_of_nat)
  also have "\<dots> = int (length xs)"
    using a by (simp add: go_len_def signed_take_bit_int_eq_self)
  finally show ?thesis .
qed

lemma buf_DecodeRawBytes_enc:
  "go_len b \<Longrightarrow> buf_DecodeRawBytes (buf_EncodeRawBytes [] b @ rest) = Inr (b, rest)"
  by (simp add: buf_DecodeRawBytes_def buf_EncodeRawBytes_def buf_EncodeVarint_eq
      buf_DecodeVarint_EncodeVarint sint_go_len Let_def)

interpretation rawbytes: codec buf_EncodeRawBytes buf_DecodeRawBytes go_len
proof
  show "buf_EncodeRawBytes buf x = buf @ buf_EncodeRawBytes [] x" for buf x
    by (simp add: buf_EncodeRawBytes_def buf_EncodeVarint_eq)
qed (rule buf_DecodeRawBytes_enc)

lemma buf_EncodeStringBytes_eq: "buf_EncodeStringBytes = buf_EncodeRawBytes"
  by (simp add: fun_eq_iff buf_EncodeStringBytes_def buf_EncodeRawBytes_def)

interpretation stringbytes: codec buf_EncodeStringBytes buf_DecodeStringBytes go_len
  unfolding buf_EncodeStringBytes_eq buf_DecodeStringBytes_def [abs_def]
  by (rule rawbytes.codec_axioms)

end
