(* ===== verification/LedgerUtil.thy ===== *)
theory LedgerUtil
  imports ProtoWire
begin

text \<open>
  Byte-level helpers of the ledger: \<open>core/ledger/util/util.go\<close> (nil tests, the order-preserving
  encoding of numbers), \<open>core/ledger/statemgmt/commons.go\<close> (composite keys) and the big-endian
  block-number keys of \<open>core/ledger/blockchain.go\<close> and \<open>statemgmt/state/state.go\<close>. The database
  orders its keys bytewise, so what matters is that the encodings can be decoded, are injective
  and keep the order of the numbers they encode.
\<close>

subsection \<open>nil and empty slices\<close>

definition IsNil :: "slice \<Rightarrow> bool" where
  "IsNil b = (b = None \<or> b = Some [])"

definition NotNil :: "slice \<Rightarrow> bool" where
  "NotNil b = (\<not> IsNil b)"

text \<open>The bytes of a slice: \<open>nil\<close> has none.\<close>

definition sbytes :: "slice \<Rightarrow> bytes" where
  "sbytes b = (case b of None \<Rightarrow> [] | Some bs \<Rightarrow> bs)"

lemma sbytes_simps [simp]: "sbytes None = []" "sbytes (Some bs) = bs"
  by (simp_all add: sbytes_def)

lemma IsNil_iff: "IsNil b \<longleftrightarrow> sbytes b = []"
  by (cases b) (auto simp: IsNil_def)

subsection \<open>Big-endian numbers\<close>

text \<open>\<open>binary.BigEndian.PutUint64\<close> and \<open>binary.BigEndian.Uint64\<close> of the standard library.\<close>

definition PutUint64 :: "u64 \<Rightarrow> bytes" where
  "PutUint64 x = [ucast (drop_bit 56 x), ucast (drop_bit 48 x), ucast (drop_bit 40 x),
     ucast (drop_bit 32 x), ucast (drop_bit 24 x), ucast (drop_bit 16 x), ucast (drop_bit 8 x),
     ucast x]"

definition Uint64 :: "bytes \<Rightarrow> gerr + u64" where
  "Uint64 b =
     (if length b < 8 then Inl (Panic ''index out of range'')
      else Inr (ucast (b ! 7) OR push_bit 8 (ucast (b ! 6)) OR push_bit 16 (ucast (b ! 5))
        OR push_bit 24 (ucast (b ! 4)) OR push_bit 32 (ucast (b ! 3))
        OR push_bit 40 (ucast (b ! 2)) OR push_bit 48 (ucast (b ! 1))
        OR push_bit 56 (ucast (b ! 0))))"

definition encodeUint64 :: "u64 \<Rightarrow> bytes" where
  "encodeUint64 number = PutUint64 number"

definition decodeToUint64 :: "bytes \<Rightarrow> gerr + u64" where
  "decodeToUint64 bytes = Uint64 bytes"

lemma length_PutUint64 [simp]: "length (PutUint64 x) = 8"
  by (simp add: PutUint64_def)

lemma Uint64_PutUint64: "Uint64 (PutUint64 x @ r) = Inr x"
proof -
  have "ucast (ucast x :: byte) OR push_bit 8 (ucast (ucast (drop_bit 8 x) :: byte))
      OR push_bit 16 (ucast (ucast (drop_bit 16 x) :: byte))
      OR push_bit 24 (ucast (ucast (drop_bit 24 x) :: byte))
      OR push_bit 32 (ucast (ucast (drop_bit 32 x) :: byte))
      OR push_bit 40 (ucast (ucast (drop_bit 40 x) :: byte))
      OR push_bit 48 (ucast (ucast (drop_bit 48 x) :: byte))
      OR push_bit 56 (ucast (ucast (drop_bit 56 x) :: byte)) = x" (is "?l = x")
  proof (rule bit_word_eqI)
    fix n
    assume n: "n < LENGTH(64)"
    consider "n < 8" | "8 \<le> n" "n < 16" | "16 \<le> n" "n < 24" | "24 \<le> n" "n < 32"
      | "32 \<le> n" "n < 40" | "40 \<le> n" "n < 48" | "48 \<le> n" "n < 56" | "56 \<le> n"
      by linarith
    then show "bit ?l n = bit x n"
      using n by cases (auto simp: bit_simps)
  qed
  then show ?thesis
    by (simp add: Uint64_def PutUint64_def)
qed

lemma decodeToUint64_encodeUint64 [simp]: "decodeToUint64 (encodeUint64 x) = Inr x"
  using Uint64_PutUint64 [of x "[]"] by (simp add: decodeToUint64_def encodeUint64_def)

lemma encodeUint64_inj [simp]: "encodeUint64 x = encodeUint64 y \<longleftrightarrow> x = y"
  by (metis decodeToUint64_encodeUint64 Inr_inject)

text \<open>The number a byte list denotes, most significant byte first.\<close>

definition be_val :: "bytes \<Rightarrow> nat" where
  "be_val bs = foldl (\<lambda>a b. a * 256 + unat b) 0 bs"

lemma foldl_be: "foldl (\<lambda>a b. a * 256 + unat (b :: byte)) a bs = a * 256 ^ length bs + be_val bs"
proof (induction bs arbitrary: a)
  case Nil
  then show ?case by (simp add: be_val_def)
next
  case (Cons b bs)
  show ?case
    using Cons.IH [of "a * 256 + unat b"] Cons.IH [of "unat b"]
    by (simp add: be_val_def algebra_simps)
qed

lemma be_val_simps [simp]:
  "be_val [] = 0" "be_val (b # bs) = unat b * 256 ^ length bs + be_val bs"
  by (simp_all add: be_val_def foldl_be [of "unat b", unfolded be_val_def])

lemma be_val_bound: "be_val bs < 256 ^ length bs"
proof (induction bs)
  case (Cons b bs)
  have "unat b < 256" using unsigned_less [of b] by simp
  then have "(unat b + 1) * 256 ^ length bs \<le> 256 * 256 ^ length bs"
    by (intro mult_right_mono) auto
  then have "unat b * 256 ^ length bs + 256 ^ length bs \<le> 256 ^ length (b # bs)"
    by (simp only: distrib_right mult_1 length_Cons power_Suc)
  with Cons show ?case unfolding be_val_simps by linarith
qed simp

text \<open>Byte lists of one length are ordered as the numbers they denote, whatever follows them.\<close>

lemma be_val_less_append:
  "length xs = length ys \<Longrightarrow> be_val xs < be_val ys \<Longrightarrow> xs @ r < ys @ r'"
proof (induction xs ys rule: list_induct2)
  case Nil
  then show ?case by simp
next
  case (Cons x xs y ys)
  have b: "be_val xs < 256 ^ length xs" "be_val ys < 256 ^ length xs"
    using be_val_bound [of xs] be_val_bound [of ys] Cons.hyps by auto
  have "x < y \<or> x = y \<and> be_val xs < be_val ys"
  proof (rule ccontr)
    assume c: "\<not> (x < y \<or> x = y \<and> be_val xs < be_val ys)"
    then have "x = y \<or> y < x" by auto
    then have "x = y \<or> unat y < unat x" by (simp add: word_less_nat_alt)
    then show False
    proof
      assume "x = y"
      with c Cons show False by auto
    next
      assume "unat y < unat x"
      then have "(unat y + 1) * 256 ^ length xs \<le> unat x * 256 ^ length xs"
        by (intro mult_right_mono) auto
      then have "unat y * 256 ^ length xs + 256 ^ length xs \<le> unat x * 256 ^ length xs"
        by (simp only: distrib_right mult_1)
      with Cons.prems Cons.hyps b show False by simp
    qed
  qed
  with Cons.IH show ?case by auto
qed

lemma be_val_inj: "length xs = length ys \<Longrightarrow> be_val xs = be_val ys \<Longrightarrow> xs = ys"
proof (induction xs ys rule: list_induct2)
  case (Cons x xs y ys)
  have b: "be_val xs < 256 ^ length xs" "be_val ys < 256 ^ length xs"
    using be_val_bound [of xs] be_val_bound [of ys] Cons.hyps by auto
  have "unat x = (unat x * 256 ^ length xs + be_val xs) div 256 ^ length xs"
    "unat y = (unat y * 256 ^ length xs + be_val ys) div 256 ^ length xs"
    using b by auto
  with Cons have "unat x = unat y" by simp
  then have "x = y" by (rule unsigned_word_eqI)
  with Cons show ?case by auto
qed simp

lemma be_val_PutUint64: "be_val (PutUint64 x) = unat x"
proof -
  have d: "unat (ucast (drop_bit k x) :: byte) = unat x div 2 ^ k mod 256" for k
    unfolding unsigned_ucast_eq unat_drop_bit_eq
    by (simp add: drop_bit_eq_div take_bit_eq_mod)
  have z: "unat (ucast x :: byte) = unat x mod 256"
    by (simp add: unsigned_ucast_eq take_bit_eq_mod)
  have h: "unat x div 2 ^ (k + 8) * 256 + unat x div 2 ^ k mod 256 = unat x div 2 ^ k" for k
    using div_mult_mod_eq [of "unat x div 2 ^ k" 256] by (simp add: power_add div_mult2_eq)
  have "unat x < 2 ^ 64" using unsigned_less [of x] by simp
  then have t: "unat x div 2 ^ 56 mod 256 = unat x div 2 ^ 56"
    by (intro mod_less) (simp add: less_mult_imp_div_less)
  show ?thesis
    unfolding be_val_def PutUint64_def foldl.simps d z t
    using h [of 48] h [of 40] h [of 32] h [of 24] h [of 16] h [of 8] h [of 0] by simp
qed

subsection \<open>Order-preserving numbers\<close>

text \<open>
  The loop that looks for the first byte that is not zero: its index and the number of bytes
  from there on, or \<open>(0, 0)\<close> when all eight are zero.
\<close>

fun firstNonZero :: "nat \<Rightarrow> bytes \<Rightarrow> nat \<times> nat" where
  "firstNonZero i [] = (0, 0)"
| "firstNonZero i (b # bs) = (if b \<noteq> 0 then (i, 8 - i) else firstNonZero (i + 1) bs)"

definition EncodeOrderPreservingVarUint64 :: "u64 \<Rightarrow> bytes" where
  "EncodeOrderPreservingVarUint64 number =
     (let bytes = PutUint64 number;
          (startingIndex, size) = firstNonZero 0 bytes;
          sizeBytes = EncodeVarint (of_nat size)
      in sizeBytes ! 0 # take size (drop startingIndex bytes))"

text \<open>The guard of the encoder's panic: the size needs more than one byte.\<close>

definition EncodeOrderPreservingVarUint64_panics :: "u64 \<Rightarrow> bool" where
  "EncodeOrderPreservingVarUint64_panics number =
     (length (EncodeVarint (of_nat (snd (firstNonZero 0 (PutUint64 number))))) > 1)"

text \<open>The decoder panics when a slice bound is out of range.\<close>

definition DecodeOrderPreservingVarUint64 :: "bytes \<Rightarrow> gerr + u64 \<times> nat" where
  "DecodeOrderPreservingVarUint64 bytes =
     (let size = unat (fst (DecodeVarint bytes))
      in if size > 8 \<or> size + 1 > length bytes then Inl (Panic ''slice bounds out of range'')
         else rbind (Uint64 (replicate (8 - size) 0 @ take size (drop 1 bytes)))
                (\<lambda>n. Inr (n, size + 1)))"

text \<open>The significant bytes of a number.\<close>

definition sigbytes :: "u64 \<Rightarrow> bytes" where
  "sigbytes x = dropWhile (\<lambda>b. b = 0) (PutUint64 x)"

lemma firstNonZero_dropWhile:
  "i + length bs = 8 \<Longrightarrow> firstNonZero i bs = (j, n) \<Longrightarrow>
    take n (drop (j - i) bs) = dropWhile (\<lambda>b. b = 0) bs \<and>
    n = length (dropWhile (\<lambda>b. b = 0) bs) \<and> (n \<noteq> 0 \<longrightarrow> i \<le> j)"
proof (induction bs arbitrary: i)
  case Nil
  then show ?case by simp
next
  case (Cons b bs)
  show ?case
  proof (cases "b = 0")
    case True
    with Cons.prems have "firstNonZero (i + 1) bs = (j, n)" by simp
    from Cons.IH [OF _ this] Cons.prems have
      IH: "take n (drop (j - (i + 1)) bs) = dropWhile (\<lambda>b. b = 0) bs"
        "n = length (dropWhile (\<lambda>b. b = 0) bs)" "n \<noteq> 0 \<longrightarrow> i + 1 \<le> j" by auto
    show ?thesis
    proof (cases "n = 0")
      case True
      with IH(2) have "dropWhile (\<lambda>b. b = 0) bs = []" by simp
      with True \<open>b = 0\<close> show ?thesis by (simp del: dropWhile_eq_Nil_conv)
    next
      case False
      with IH have "j - i = Suc (j - (i + 1))" by simp
      with IH \<open>b = 0\<close> show ?thesis by auto
    qed
  next
    case False
    with Cons.prems show ?thesis by auto
  qed
qed

lemma firstNonZero_PutUint64:
  assumes "firstNonZero 0 (PutUint64 x) = (j, n)"
  shows "take n (drop j (PutUint64 x)) = sigbytes x" and "n = length (sigbytes x)"
  using firstNonZero_dropWhile [of 0 "PutUint64 x" j n] assms by (auto simp: sigbytes_def)

lemma length_sigbytes: "length (sigbytes x) \<le> 8"
  unfolding sigbytes_def using length_dropWhile_le [of "\<lambda>b. b = 0" "PutUint64 x"] by simp

lemma size_byte: "n \<le> 8 \<Longrightarrow> EncodeVarint (of_nat n) = [of_nat n]"
proof -
  assume "n \<le> 8"
  then have "(of_nat n :: u64) \<le> 127" by (simp add: word_le_nat_alt unat_of_nat)
  moreover have "(ucast (of_nat n :: u64) :: byte) = of_nat n"
  proof -
    have "unat (ucast (of_nat n :: u64) :: byte) = unat (of_nat n :: byte)"
      using \<open>n \<le> 8\<close> by (simp add: unsigned_ucast_eq unat_of_nat take_bit_eq_mod)
    then show ?thesis by (rule unsigned_word_eqI)
  qed
  ultimately show ?thesis by (simp add: EncodeVarint_small)
qed

lemma EncodeOrderPreserving_eq:
  "EncodeOrderPreservingVarUint64 x = of_nat (length (sigbytes x)) # sigbytes x"
proof -
  obtain j n where jn: "firstNonZero 0 (PutUint64 x) = (j, n)" by fastforce
  from firstNonZero_PutUint64 [OF jn] length_sigbytes [of x] show ?thesis
    by (simp add: EncodeOrderPreservingVarUint64_def jn size_byte)
qed

lemma EncodeOrderPreserving_no_panic: "\<not> EncodeOrderPreservingVarUint64_panics x"
proof -
  obtain j n where jn: "firstNonZero 0 (PutUint64 x) = (j, n)" by fastforce
  from firstNonZero_PutUint64 [OF jn] length_sigbytes [of x] show ?thesis
    by (simp add: EncodeOrderPreservingVarUint64_panics_def jn size_byte)
qed

lemma dropWhile_zero_split:
  "replicate (length bs - length (dropWhile (\<lambda>b. b = 0) bs)) (0 :: byte) @
    dropWhile (\<lambda>b. b = 0) bs = bs"
proof (induction bs)
  case (Cons b bs)
  have "length (dropWhile (\<lambda>b. b = 0) bs) \<le> length bs" by (rule length_dropWhile_le)
  then have "length (b # bs) - length (dropWhile (\<lambda>b. b = 0) bs) =
      Suc (length bs - length (dropWhile (\<lambda>b. b = 0) bs))" by simp
  with Cons show ?case by (cases "b = 0") auto
qed simp

lemma PutUint64_sigbytes: "replicate (8 - length (sigbytes x)) 0 @ sigbytes x = PutUint64 x"
  using dropWhile_zero_split [of "PutUint64 x"] by (simp add: sigbytes_def)

lemma be_val_replicate [simp]: "be_val (replicate n 0 @ bs) = be_val bs"
  by (induction n) auto

lemma be_val_sigbytes: "be_val (sigbytes x) = unat x"
  using be_val_PutUint64 [of x] PutUint64_sigbytes [of x] by (metis be_val_replicate)

text \<open>Fewer significant bytes, smaller number.\<close>

lemma sigbytes_length_less:
  assumes "unat x < unat y"
  shows "length (sigbytes x) \<le> length (sigbytes y)"
proof (rule ccontr)
  assume "\<not> length (sigbytes x) \<le> length (sigbytes y)"
  then have l: "length (sigbytes y) < length (sigbytes x)" by simp
  then obtain b bs where s: "sigbytes x = b # bs" by (cases "sigbytes x") auto
  then have "b \<noteq> 0"
    unfolding sigbytes_def using hd_dropWhile [of "\<lambda>b. b = 0" "PutUint64 x"] by simp
  then have "0 < unat b" by (simp add: unat_gt_0)
  then have "1 * 256 ^ length bs \<le> unat b * 256 ^ length bs" by (intro mult_right_mono) auto
  also have "\<dots> \<le> unat x" using be_val_sigbytes [of x] s by simp
  also have "\<dots> < unat y" by (rule assms)
  also have "\<dots> < 256 ^ length (sigbytes y)"
    using be_val_sigbytes [of y] be_val_bound [of "sigbytes y"] by simp
  also have "\<dots> \<le> 256 ^ length bs" using l s by (intro power_increasing) auto
  finally show False by simp
qed

lemma of_nat_byte_less: "m < n \<Longrightarrow> n \<le> 8 \<Longrightarrow> (of_nat m :: byte) < of_nat n"
  by (simp add: word_less_nat_alt unat_of_nat)

lemma EncodeOrderPreserving_less_append:
  assumes "x < y"
  shows "EncodeOrderPreservingVarUint64 x @ r < EncodeOrderPreservingVarUint64 y @ r'"
proof -
  have u: "unat x < unat y" using assms by (simp add: word_less_nat_alt)
  have "length (sigbytes x) < length (sigbytes y) \<or> length (sigbytes x) = length (sigbytes y)"
    using sigbytes_length_less [OF u] by auto
  then show ?thesis
  proof
    assume "length (sigbytes x) < length (sigbytes y)"
    then show ?thesis
      using of_nat_byte_less length_sigbytes [of y] by (simp add: EncodeOrderPreserving_eq)
  next
    assume l: "length (sigbytes x) = length (sigbytes y)"
    have "sigbytes x @ r < sigbytes y @ r'"
      by (rule be_val_less_append [OF l]) (simp add: be_val_sigbytes u)
    then show ?thesis by (simp add: EncodeOrderPreserving_eq l)
  qed
qed

lemma DecodeOrderPreserving_Encode:
  "DecodeOrderPreservingVarUint64 (EncodeOrderPreservingVarUint64 x @ r) =
    Inr (x, length (EncodeOrderPreservingVarUint64 x))"
proof -
  let ?n = "length (sigbytes x)"
  have n: "?n \<le> 8" by (rule length_sigbytes)
  have "DecodeVarint (EncodeOrderPreservingVarUint64 x @ r) = (of_nat ?n, 1)"
    using DecodeVarint_EncodeVarint [of "of_nat ?n" "sigbytes x @ r"]
    by (simp add: EncodeOrderPreserving_eq size_byte n)
  moreover have "unat (of_nat ?n :: u64) = ?n" using n by (simp add: unat_of_nat)
  ultimately show ?thesis
    using n Uint64_PutUint64 [of x "[]"]
    by (simp add: DecodeOrderPreservingVarUint64_def EncodeOrderPreserving_eq
        PutUint64_sigbytes Let_def)
qed

lemma EncodeOrderPreserving_inj_append:
  assumes "EncodeOrderPreservingVarUint64 x @ r = EncodeOrderPreservingVarUint64 y @ r'"
  shows "x = y \<and> r = r'"
proof -
  have "Inr (x, length (EncodeOrderPreservingVarUint64 x)) =
      (Inr (y, length (EncodeOrderPreservingVarUint64 y)) :: gerr + u64 \<times> nat)"
    using DecodeOrderPreserving_Encode [of x r] DecodeOrderPreserving_Encode [of y r'] assms by simp
  with assms show ?thesis by simp
qed

subsection \<open>Composite keys\<close>

definition stateKeyDelimiter :: bytes where
  "stateKeyDelimiter = [0]"

text \<open>\<open>bytes.Join\<close> of the two parts with the delimiter between them.\<close>

definition ConstructCompositeKey :: "gostring \<Rightarrow> gostring \<Rightarrow> bytes" where
  "ConstructCompositeKey chaincodeID key = chaincodeID @ stateKeyDelimiter @ key"

text \<open>
  \<open>bytes.SplitN(_, delimiter, 2)\<close> cuts at the first zero byte; without one there is a single
  part and indexing the second panics.
\<close>

definition DecodeCompositeKey :: "bytes \<Rightarrow> gerr + gostring \<times> gostring" where
  "DecodeCompositeKey compositeKey =
     (case dropWhile (\<lambda>b. b \<noteq> 0) compositeKey of
        [] \<Rightarrow> Inl (Panic ''index out of range'')
      | _ # key \<Rightarrow> Inr (takeWhile (\<lambda>b. b \<noteq> 0) compositeKey, key))"

lemma DecodeCompositeKey_Construct:
  "0 \<notin> set cc \<Longrightarrow> DecodeCompositeKey (ConstructCompositeKey cc key) = Inr (cc, key)"
proof -
  assume "0 \<notin> set cc"
  then have "b \<in> set cc \<Longrightarrow> b \<noteq> 0" for b by auto
  then show ?thesis
    by (simp add: DecodeCompositeKey_def ConstructCompositeKey_def stateKeyDelimiter_def
        takeWhile_append2 dropWhile_append2)
qed

lemma ConstructCompositeKey_inj:
  assumes "0 \<notin> set cc" "0 \<notin> set cc'"
  shows "ConstructCompositeKey cc k = ConstructCompositeKey cc' k' \<longleftrightarrow> cc = cc' \<and> k = k'"
  using DecodeCompositeKey_Construct [OF assms(1), of k]
    DecodeCompositeKey_Construct [OF assms(2), of k'] by (metis Inr_inject Pair_inject)

lemma ConstructCompositeKey_nonempty [simp]: "ConstructCompositeKey cc k \<noteq> []"
  by (simp add: ConstructCompositeKey_def stateKeyDelimiter_def)

end
