(* ===== verification/StateDelta.thy ===== *)
theory StateDelta
  imports LedgerUtil
begin

text \<open>
  \<open>core/ledger/statemgmt/state_delta.go\<close>: the uncommitted changes of a transaction or of a batch
  of transactions, as a two-level map from chaincode and key to the new and the previous value,
  with merging, hashing and (un)marshalling. A pointer stored in a Go map and updated through it
  is an update of the map's entry.

  \<open>delta_at\<close> reads a delta as a partial function; the locale \<open>overlay\<close> states what the operations
  promise in these terms, and the interpretation \<open>sd\<close> proves it of the code's operations.
\<close>

subsection \<open>Data\<close>

record UpdatedValue =
  Value :: slice
  PreviousValue :: slice

record ChaincodeStateDelta =
  ChaincodeID :: gostring
  UpdatedKVs :: "(gostring, UpdatedValue) gomap"

record StateDelta =
  ChaincodeStateDeltas :: "(gostring, ChaincodeStateDelta) gomap"
  RollBackwards :: bool

subsection \<open>Updated values\<close>

definition UpdatedValue_IsDelete :: "UpdatedValue \<Rightarrow> bool" where
  "UpdatedValue_IsDelete uv = (Value uv = None)"

definition UpdatedValue_GetValue :: "UpdatedValue \<Rightarrow> slice" where
  "UpdatedValue_GetValue uv = Value uv"

definition UpdatedValue_GetPreviousValue :: "UpdatedValue \<Rightarrow> slice" where
  "UpdatedValue_GetPreviousValue uv = PreviousValue uv"

subsection \<open>The changes of one chaincode\<close>

definition newChaincodeStateDelta :: "gostring \<Rightarrow> ChaincodeStateDelta" where
  "newChaincodeStateDelta chaincodeID = \<lparr>ChaincodeID = chaincodeID, UpdatedKVs = []\<rparr>"

definition csd_get :: "ChaincodeStateDelta \<Rightarrow> gostring \<Rightarrow> UpdatedValue option" where
  "csd_get csd key = mget (UpdatedKVs csd) key"

definition csd_set :: "ChaincodeStateDelta \<Rightarrow> gostring \<Rightarrow> slice \<Rightarrow> slice \<Rightarrow> ChaincodeStateDelta" where
  "csd_set csd key updatedValue previousValue =
     (case mget (UpdatedKVs csd) key of
        Some updatedKV \<Rightarrow>
          csd\<lparr>UpdatedKVs := mput key (updatedKV\<lparr>Value := updatedValue\<rparr>) (UpdatedKVs csd)\<rparr>
      | None \<Rightarrow>
          csd\<lparr>UpdatedKVs := mput key \<lparr>Value = updatedValue, PreviousValue = previousValue\<rparr>
                (UpdatedKVs csd)\<rparr>)"

definition csd_remove :: "ChaincodeStateDelta \<Rightarrow> gostring \<Rightarrow> slice \<Rightarrow> ChaincodeStateDelta" where
  "csd_remove csd key previousValue =
     (case mget (UpdatedKVs csd) key of
        Some updatedKV \<Rightarrow>
          csd\<lparr>UpdatedKVs := mput key (updatedKV\<lparr>Value := None\<rparr>) (UpdatedKVs csd)\<rparr>
      | None \<Rightarrow>
          csd\<lparr>UpdatedKVs := mput key \<lparr>Value = None, PreviousValue = previousValue\<rparr>
                (UpdatedKVs csd)\<rparr>)"

definition csd_hasChanges :: "ChaincodeStateDelta \<Rightarrow> bool" where
  "csd_hasChanges csd = (length (UpdatedKVs csd) > 0)"

definition csd_getSortedKeys :: "ChaincodeStateDelta \<Rightarrow> gostring list" where
  "csd_getSortedKeys csd = sort (map fst (UpdatedKVs csd))"

subsection \<open>The delta\<close>

definition NewStateDelta :: StateDelta where
  "NewStateDelta = \<lparr>ChaincodeStateDeltas = [], RollBackwards = False\<rparr>"

definition StateDelta_Get :: "StateDelta \<Rightarrow> gostring \<Rightarrow> gostring \<Rightarrow> UpdatedValue option" where
  "StateDelta_Get sd chaincodeID key =
     (case mget (ChaincodeStateDeltas sd) chaincodeID of
        Some csd \<Rightarrow> csd_get csd key
      | None \<Rightarrow> None)"

text \<open>
  \<open>getOrCreateChaincodeStateDelta\<close> returns a pointer into the map; the callers change the object
  it points to, so the model returns the object and its callers store it back.
\<close>

definition getOrCreateChaincodeStateDelta :: "StateDelta \<Rightarrow> gostring \<Rightarrow> ChaincodeStateDelta" where
  "getOrCreateChaincodeStateDelta sd chaincodeID =
     (case mget (ChaincodeStateDeltas sd) chaincodeID of
        Some csd \<Rightarrow> csd
      | None \<Rightarrow> newChaincodeStateDelta chaincodeID)"

definition StateDelta_Set :: "StateDelta \<Rightarrow> gostring \<Rightarrow> gostring \<Rightarrow> slice \<Rightarrow> slice \<Rightarrow> StateDelta" where
  "StateDelta_Set sd chaincodeID key value previousValue =
     (let csd = getOrCreateChaincodeStateDelta sd chaincodeID
      in sd\<lparr>ChaincodeStateDeltas :=
           mput chaincodeID (csd_set csd key value previousValue) (ChaincodeStateDeltas sd)\<rparr>)"

definition StateDelta_Delete :: "StateDelta \<Rightarrow> gostring \<Rightarrow> gostring \<Rightarrow> slice \<Rightarrow> StateDelta" where
  "StateDelta_Delete sd chaincodeID key previousValue =
     (let csd = getOrCreateChaincodeStateDelta sd chaincodeID
      in sd\<lparr>ChaincodeStateDeltas :=
           mput chaincodeID (csd_remove csd key previousValue) (ChaincodeStateDeltas sd)\<rparr>)"

definition StateDelta_IsUpdatedValueSet :: "StateDelta \<Rightarrow> gostring \<Rightarrow> gostring \<Rightarrow> bool" where
  "StateDelta_IsUpdatedValueSet sd chaincodeID key =
     (case mget (ChaincodeStateDeltas sd) chaincodeID of
        None \<Rightarrow> False
      | Some csd \<Rightarrow> mget (UpdatedKVs csd) key \<noteq> None)"

text \<open>
  \<open>ApplyChanges\<close>: whether the chaincode is known to the receiver is tested once, before the
  entries of the other delta are merged one by one.
\<close>

definition ApplyChanges_entry ::
    "bool \<Rightarrow> gostring \<Rightarrow> StateDelta \<Rightarrow> gostring \<times> UpdatedValue \<Rightarrow> StateDelta" where
  "ApplyChanges_entry existingChaincode chaincodeID sd kv =
     (let key = fst kv; valueHolder = snd kv;
          previousValue =
            (if existingChaincode then
               case StateDelta_Get sd chaincodeID key of
                 Some existingUpdateValue \<Rightarrow> PreviousValue existingUpdateValue
               | None \<Rightarrow> PreviousValue valueHolder
             else PreviousValue valueHolder)
      in if UpdatedValue_IsDelete valueHolder
         then StateDelta_Delete sd chaincodeID key previousValue
         else StateDelta_Set sd chaincodeID key (Value valueHolder) previousValue)"

definition ApplyChanges_chaincode ::
    "StateDelta \<Rightarrow> gostring \<times> ChaincodeStateDelta \<Rightarrow> StateDelta" where
  "ApplyChanges_chaincode sd c =
     foldl (ApplyChanges_entry (mget (ChaincodeStateDeltas sd) (fst c) \<noteq> None) (fst c))
       sd (UpdatedKVs (snd c))"

definition StateDelta_ApplyChanges :: "StateDelta \<Rightarrow> StateDelta \<Rightarrow> StateDelta" where
  "StateDelta_ApplyChanges sd another =
     foldl ApplyChanges_chaincode sd (ChaincodeStateDeltas another)"

definition StateDelta_IsEmpty :: "StateDelta \<Rightarrow> bool" where
  "StateDelta_IsEmpty sd = (length (ChaincodeStateDeltas sd) = 0)"

definition StateDelta_GetUpdatedChaincodeIds :: "StateDelta \<Rightarrow> bool \<Rightarrow> gostring list" where
  "StateDelta_GetUpdatedChaincodeIds sd sorted_ids =
     (let ids = map fst (ChaincodeStateDeltas sd) in if sorted_ids then sort ids else ids)"

definition StateDelta_GetUpdates :: "StateDelta \<Rightarrow> gostring \<Rightarrow> (gostring, UpdatedValue) gomap option" where
  "StateDelta_GetUpdates sd chaincodeID =
     (case mget (ChaincodeStateDeltas sd) chaincodeID of
        None \<Rightarrow> None
      | Some csd \<Rightarrow> Some (UpdatedKVs csd))"

subsection \<open>Hashing\<close>

text \<open>
  The bytes that are hashed. The keys come from the maps themselves, so the lookups succeed; the
  \<open>None\<close> branches (a nil dereference in the code) are not reached.
\<close>

definition csd_hashContent :: "ChaincodeStateDelta \<Rightarrow> bytes" where
  "csd_hashContent csd =
     concat (map (\<lambda>key. key @ (case csd_get csd key of
                                None \<Rightarrow> []
                              | Some uv \<Rightarrow> if UpdatedValue_IsDelete uv then [] else sbytes (Value uv)))
       (csd_getSortedKeys csd))"

definition StateDelta_hashContent :: "StateDelta \<Rightarrow> bytes" where
  "StateDelta_hashContent sd =
     concat (map (\<lambda>chaincodeID. chaincodeID @ (case mget (ChaincodeStateDeltas sd) chaincodeID of
                                None \<Rightarrow> []
                              | Some csd \<Rightarrow> csd_hashContent csd))
       (StateDelta_GetUpdatedChaincodeIds sd True))"

text \<open>\<open>H\<close> is \<open>util.ComputeCryptoHash\<close> (SHAKE256), any function of the bytes.\<close>

definition StateDelta_ComputeCryptoHash :: "(bytes \<Rightarrow> bytes) \<Rightarrow> StateDelta \<Rightarrow> slice" where
  "StateDelta_ComputeCryptoHash H sd =
     (if StateDelta_IsEmpty sd then None else Some (H (StateDelta_hashContent sd)))"

subsection \<open>Marshalling\<close>

definition enc_kv :: "bytes \<Rightarrow> gostring \<times> UpdatedValue \<Rightarrow> bytes" where
  "enc_kv buf kv =
     buf_EncodeRawBytes
       (buf_EncodeRawBytes (buf_EncodeStringBytes buf (fst kv)) (sbytes (Value (snd kv))))
       (sbytes (PreviousValue (snd kv)))"

definition csd_marshal :: "bytes \<Rightarrow> ChaincodeStateDelta \<Rightarrow> bytes" where
  "csd_marshal buffer csd =
     foldl enc_kv (buf_EncodeVarint buffer (of_nat (length (UpdatedKVs csd)))) (UpdatedKVs csd)"

definition enc_chaincode :: "bytes \<Rightarrow> gostring \<times> ChaincodeStateDelta \<Rightarrow> bytes" where
  "enc_chaincode buf c = csd_marshal (buf_EncodeStringBytes buf (fst c)) (snd c)"

definition StateDelta_Marshal :: "StateDelta \<Rightarrow> bytes" where
  "StateDelta_Marshal sd =
     foldl enc_chaincode
       (buf_EncodeVarint [] (of_nat (length (ChaincodeStateDeltas sd)))) (ChaincodeStateDeltas sd)"

text \<open>An empty byte string is read back as \<open>nil\<close>.\<close>

definition nilIfEmpty :: "bytes \<Rightarrow> slice" where
  "nilIfEmpty b = (if length b = 0 then None else Some b)"

definition dec_kv :: "bytes \<Rightarrow> gerr + (gostring \<times> UpdatedValue) \<times> bytes" where
  "dec_kv buffer =
     rbind (buf_DecodeStringBytes buffer) (\<lambda>(key, b1).
     rbind (buf_DecodeRawBytes b1) (\<lambda>(value, b2).
     rbind (buf_DecodeRawBytes b2) (\<lambda>(previousValue, b3).
       Inr ((key, \<lparr>Value = nilIfEmpty value, PreviousValue = nilIfEmpty previousValue\<rparr>), b3))))"

text \<open>
  The loop \<open>for i := 0; i < size; i++\<close>; its first argument is \<open>size - i\<close>. The \<open>make\<close> of a map with
  room for \<open>size\<close> entries before the loop has no effect on the result and is left out; for a
  forged size that is too large for the runtime to serve it does not return.
\<close>

fun csd_unmarshal_loop ::
    "nat \<Rightarrow> bytes \<Rightarrow> (gostring, UpdatedValue) gomap \<Rightarrow> gerr + (gostring, UpdatedValue) gomap \<times> bytes" where
  "csd_unmarshal_loop 0 buffer m = Inr (m, buffer)"
| "csd_unmarshal_loop (Suc n) buffer m =
     rbind (dec_kv buffer) (\<lambda>((key, uv), rest). csd_unmarshal_loop n rest (mput key uv m))"

definition csd_unmarshal :: "ChaincodeStateDelta \<Rightarrow> bytes \<Rightarrow> gerr + ChaincodeStateDelta \<times> bytes" where
  "csd_unmarshal csd buffer =
     rbind (buf_DecodeVarint buffer) (\<lambda>(sz, rest).
     rbind (csd_unmarshal_loop (unat sz) rest []) (\<lambda>(m, rest').
       Inr (csd\<lparr>UpdatedKVs := m\<rparr>, rest')))"

definition dec_chaincode :: "bytes \<Rightarrow> gerr + (gostring \<times> ChaincodeStateDelta) \<times> bytes" where
  "dec_chaincode buffer =
     rbind (buf_DecodeStringBytes buffer) (\<lambda>(chaincodeID, b1).
     rbind (csd_unmarshal (newChaincodeStateDelta chaincodeID) b1) (\<lambda>(csd, b2).
       Inr ((chaincodeID, csd), b2)))"

text \<open>
  \<open>Unmarshal\<close> fills the receiver as it reads, so after an error it holds what was read before it:
  the result is the error, if any, and the receiver.
\<close>

fun Unmarshal_loop ::
    "nat \<Rightarrow> bytes \<Rightarrow> (gostring, ChaincodeStateDelta) gomap \<Rightarrow>
      gerr option \<times> (gostring, ChaincodeStateDelta) gomap" where
  "Unmarshal_loop 0 buffer m = (None, m)"
| "Unmarshal_loop (Suc n) buffer m =
     (case dec_chaincode buffer of
        Inl e \<Rightarrow> (Some e, m)
      | Inr ((chaincodeID, csd), rest) \<Rightarrow> Unmarshal_loop n rest (mput chaincodeID csd m))"

definition StateDelta_Unmarshal :: "StateDelta \<Rightarrow> bytes \<Rightarrow> gerr option \<times> StateDelta" where
  "StateDelta_Unmarshal sd bytes =
     (case buf_DecodeVarint bytes of
        Inl e \<Rightarrow> (Some e, sd)
      | Inr (sz, rest) \<Rightarrow>
          (case Unmarshal_loop (unat sz) rest [] of
             (err, m) \<Rightarrow> (err, sd\<lparr>ChaincodeStateDeltas := m\<rparr>)))"

subsection \<open>Well-formedness\<close>

text \<open>
  No key twice at either level, and every chaincode's changes are filed under its own name.
\<close>

definition csd_wf :: "gostring \<Rightarrow> ChaincodeStateDelta \<Rightarrow> bool" where
  "csd_wf cc csd = (ChaincodeID csd = cc \<and> gomap_ok (UpdatedKVs csd))"

definition sd_wf :: "StateDelta \<Rightarrow> bool" where
  "sd_wf sd = (gomap_ok (ChaincodeStateDeltas sd) \<and>
     (\<forall>(cc, csd) \<in> set (ChaincodeStateDeltas sd). csd_wf cc csd))"

lemma sd_wf_mget: "sd_wf sd \<Longrightarrow> mget (ChaincodeStateDeltas sd) cc = Some csd \<Longrightarrow> csd_wf cc csd"
  by (auto simp: sd_wf_def dest!: map_of_SomeD)

lemma set_mput_subset: "set (mput k v m) \<subseteq> insert (k, v) (set m)"
  by (induction m) auto

lemma sd_wf_mput:
  "sd_wf sd \<Longrightarrow> csd_wf cc csd \<Longrightarrow>
    sd_wf (sd\<lparr>ChaincodeStateDeltas := mput cc csd (ChaincodeStateDeltas sd)\<rparr>)"
  using set_mput_subset [of cc csd "ChaincodeStateDeltas sd"] by (auto simp: sd_wf_def)

lemma csd_wf_new [simp]: "csd_wf cc (newChaincodeStateDelta cc)"
  by (simp add: csd_wf_def newChaincodeStateDelta_def)

lemma csd_wf_getOrCreate: "sd_wf sd \<Longrightarrow> csd_wf cc (getOrCreateChaincodeStateDelta sd cc)"
  by (auto simp: getOrCreateChaincodeStateDelta_def split: option.splits intro: sd_wf_mget)

lemma csd_wf_set: "csd_wf cc csd \<Longrightarrow> csd_wf cc (csd_set csd k v p)"
  by (auto simp: csd_wf_def csd_set_def split: option.splits)

lemma csd_remove_eq_set: "csd_remove csd k p = csd_set csd k None p"
  by (simp add: csd_remove_def csd_set_def)

lemma StateDelta_Delete_eq_Set: "StateDelta_Delete sd cc k p = StateDelta_Set sd cc k None p"
  by (simp add: StateDelta_Delete_def StateDelta_Set_def csd_remove_eq_set)

lemma sd_wf_New [simp]: "sd_wf NewStateDelta"
  by (simp add: sd_wf_def NewStateDelta_def)

lemma sd_wf_Set: "sd_wf sd \<Longrightarrow> sd_wf (StateDelta_Set sd cc k v p)"
  by (simp add: StateDelta_Set_def Let_def sd_wf_mput csd_wf_set csd_wf_getOrCreate)

lemma sd_wf_Delete: "sd_wf sd \<Longrightarrow> sd_wf (StateDelta_Delete sd cc k p)"
  by (simp add: StateDelta_Delete_eq_Set sd_wf_Set)

lemma sd_wf_ApplyChanges_entry: "sd_wf sd \<Longrightarrow> sd_wf (ApplyChanges_entry e cc sd kv)"
  by (simp add: ApplyChanges_entry_def Let_def sd_wf_Set sd_wf_Delete)

lemma sd_wf_ApplyChanges_chaincode: "sd_wf sd \<Longrightarrow> sd_wf (ApplyChanges_chaincode sd c)"
proof -
  have "sd_wf sd \<Longrightarrow> sd_wf (foldl (ApplyChanges_entry e cc) sd kvs)" for e cc kvs
    by (induction kvs arbitrary: sd) (auto simp: sd_wf_ApplyChanges_entry)
  then show "sd_wf sd \<Longrightarrow> sd_wf (ApplyChanges_chaincode sd c)"
    by (simp add: ApplyChanges_chaincode_def)
qed

lemma sd_wf_ApplyChanges: "sd_wf sd \<Longrightarrow> sd_wf (StateDelta_ApplyChanges sd another)"
proof -
  have "sd_wf sd \<Longrightarrow> sd_wf (foldl ApplyChanges_chaincode sd cs)" for cs
    by (induction cs arbitrary: sd) (auto simp: sd_wf_ApplyChanges_chaincode)
  then show "sd_wf sd \<Longrightarrow> sd_wf (StateDelta_ApplyChanges sd another)"
    by (simp add: StateDelta_ApplyChanges_def)
qed

subsection \<open>What the operations do to a lookup\<close>

definition delta_at :: "StateDelta \<Rightarrow> gostring \<times> gostring \<Rightarrow> UpdatedValue option" where
  "delta_at sd x = StateDelta_Get sd (fst x) (snd x)"

text \<open>A write to a key already in the delta keeps the previous value recorded there.\<close>

definition merge_uv :: "UpdatedValue option \<Rightarrow> UpdatedValue \<Rightarrow> UpdatedValue" where
  "merge_uv old uv = (case old of None \<Rightarrow> uv | Some o' \<Rightarrow> o'\<lparr>Value := Value uv\<rparr>)"

lemma csd_get_set:
  "csd_get (csd_set csd k v p) k' =
    (if k' = k then Some (merge_uv (csd_get csd k) \<lparr>Value = v, PreviousValue = p\<rparr>) else csd_get csd k')"
  by (auto simp: csd_get_def csd_set_def merge_uv_def split: option.splits)

lemma delta_at_getOrCreate: "csd_get (getOrCreateChaincodeStateDelta sd cc) k = delta_at sd (cc, k)"
  by (auto simp: getOrCreateChaincodeStateDelta_def delta_at_def StateDelta_Get_def
      newChaincodeStateDelta_def csd_get_def split: option.splits)

lemma delta_at_Set:
  "delta_at (StateDelta_Set sd cc k v p) x =
    (if x = (cc, k) then Some (merge_uv (delta_at sd (cc, k)) \<lparr>Value = v, PreviousValue = p\<rparr>)
     else delta_at sd x)"
proof (cases "fst x = cc")
  case True
  then have "delta_at (StateDelta_Set sd cc k v p) x =
      csd_get (csd_set (getOrCreateChaincodeStateDelta sd cc) k v p) (snd x)"
    by (simp add: delta_at_def StateDelta_Get_def StateDelta_Set_def Let_def)
  with True show ?thesis
    by (cases x) (auto simp: csd_get_set delta_at_getOrCreate)
next
  case False
  then show ?thesis
    by (cases x) (auto simp: delta_at_def StateDelta_Get_def StateDelta_Set_def Let_def)
qed

lemma merge_uv_eta [simp]:
  "merge_uv old \<lparr>Value = Value uv, PreviousValue = PreviousValue uv\<rparr> = merge_uv old uv"
  by (cases uv) simp

lemma delta_at_New [simp]: "delta_at NewStateDelta x = None"
  by (simp add: delta_at_def StateDelta_Get_def NewStateDelta_def)

lemma delta_at_ApplyChanges_entry:
  "delta_at (ApplyChanges_entry e cc sd (k, uv)) x =
    (if x = (cc, k) then Some (merge_uv (delta_at sd (cc, k)) uv) else delta_at sd x)"
proof -
  show ?thesis
    by (cases uv) (auto simp: ApplyChanges_entry_def Let_def UpdatedValue_IsDelete_def
        StateDelta_Delete_eq_Set delta_at_Set delta_at_def [of sd "(cc, k)"] merge_uv_def
        split: option.splits)
qed

lemma delta_at_ApplyChanges_entries:
  "gomap_ok kvs \<Longrightarrow>
    delta_at (foldl (ApplyChanges_entry e cc) sd kvs) x =
    (if fst x = cc then
       case mget kvs (snd x) of None \<Rightarrow> delta_at sd x
       | Some uv \<Rightarrow> Some (merge_uv (delta_at sd x) uv)
     else delta_at sd x)"
proof (induction kvs arbitrary: sd)
  case (Cons kv kvs)
  obtain k uv where kv: "kv = (k, uv)" by fastforce
  with Cons.prems have "gomap_ok kvs" and "mget kvs k = None"
    by (auto simp: gomap_ok_def map_of_eq_None_iff)
  with Cons.IH kv show ?case
    by (cases x) (auto simp: delta_at_ApplyChanges_entry split: option.splits)
qed simp

lemma delta_at_ApplyChanges:
  assumes "sd_wf another"
  shows "delta_at (StateDelta_ApplyChanges sd another) x =
    (case delta_at another x of None \<Rightarrow> delta_at sd x
     | Some uv \<Rightarrow> Some (merge_uv (delta_at sd x) uv))"
proof -
  have "delta_at (foldl ApplyChanges_chaincode sd cs) x =
      (case mget cs (fst x) of None \<Rightarrow> delta_at sd x
       | Some csd \<Rightarrow> (case csd_get csd (snd x) of None \<Rightarrow> delta_at sd x
                      | Some uv \<Rightarrow> Some (merge_uv (delta_at sd x) uv)))"
    if "gomap_ok cs" and "\<forall>(cc, csd) \<in> set cs. csd_wf cc csd" for cs
    using that
  proof (induction cs arbitrary: sd)
    case (Cons c cs)
    obtain cc csd where c: "c = (cc, csd)" by fastforce
    with Cons.prems have ok: "gomap_ok cs" "mget cs cc = None" "gomap_ok (UpdatedKVs csd)"
      by (auto simp: gomap_ok_def map_of_eq_None_iff csd_wf_def)
    with Cons.IH [of "ApplyChanges_chaincode sd c"] Cons.prems c show ?case
      by (auto simp: ApplyChanges_chaincode_def delta_at_ApplyChanges_entries csd_get_def
          split: option.splits)
  qed simp
  then show ?thesis
    using assms by (auto simp: StateDelta_ApplyChanges_def sd_wf_def delta_at_def [of another]
        StateDelta_Get_def split: option.splits)
qed

lemma IsUpdatedValueSet_iff: "StateDelta_IsUpdatedValueSet sd cc k \<longleftrightarrow> delta_at sd (cc, k) \<noteq> None"
  by (auto simp: StateDelta_IsUpdatedValueSet_def delta_at_def StateDelta_Get_def csd_get_def
      split: option.splits)

subsection \<open>Effect on a key-value state\<close>

text \<open>
  \<open>fwd\<close> applies a delta to a state (the values it holds replace those of the state), \<open>bwd\<close> undoes
  it with the previous values it recorded. \<open>records\<close> says that these are the values of a state.
\<close>

definition fwd :: "('x \<Rightarrow> UpdatedValue option) \<Rightarrow> ('x \<Rightarrow> slice) \<Rightarrow> 'x \<Rightarrow> slice" where
  "fwd d st x = (case d x of None \<Rightarrow> st x | Some uv \<Rightarrow> Value uv)"

definition bwd :: "('x \<Rightarrow> UpdatedValue option) \<Rightarrow> ('x \<Rightarrow> slice) \<Rightarrow> 'x \<Rightarrow> slice" where
  "bwd d st x = (case d x of None \<Rightarrow> st x | Some uv \<Rightarrow> PreviousValue uv)"

definition records :: "('x \<Rightarrow> UpdatedValue option) \<Rightarrow> ('x \<Rightarrow> slice) \<Rightarrow> bool" where
  "records d st = (\<forall>x uv. d x = Some uv \<longrightarrow> PreviousValue uv = st x)"

text \<open>
  The contract of a delta: a write is seen by the next lookup of its key and by no other, keeps
  the previous value of a key already written, and a merge is the writes of the second delta
  after those of the first.
\<close>

locale overlay =
  fixes look :: "'d \<Rightarrow> 'x \<Rightarrow> UpdatedValue option"
    and put :: "'d \<Rightarrow> 'x \<Rightarrow> slice \<Rightarrow> slice \<Rightarrow> 'd"
    and merge :: "'d \<Rightarrow> 'd \<Rightarrow> 'd"
    and empty :: 'd
    and ok :: "'d \<Rightarrow> bool"
  assumes look_empty: "look empty x = None"
    and look_put: "look (put d x v p) y =
      (if y = x then Some (merge_uv (look d x) \<lparr>Value = v, PreviousValue = p\<rparr>) else look d y)"
    and look_merge: "ok d' \<Longrightarrow> look (merge d d') x =
      (case look d' x of None \<Rightarrow> look d x | Some uv \<Rightarrow> Some (merge_uv (look d x) uv))"
    and ok_empty: "ok empty"
    and ok_put: "ok d \<Longrightarrow> ok (put d x v p)"
    and ok_merge: "ok d \<Longrightarrow> ok (merge d d')"
begin

lemma fwd_empty: "fwd (look empty) st = st"
  by (simp add: fun_eq_iff fwd_def look_empty)

lemma fwd_put: "fwd (look (put d x v p)) st = (fwd (look d) st)(x := v)"
  by (auto simp: fun_eq_iff fwd_def look_put merge_uv_def split: option.splits)

lemma fwd_merge: "ok d' \<Longrightarrow> fwd (look (merge d d')) st = fwd (look d') (fwd (look d) st)"
  by (auto simp: fun_eq_iff fwd_def look_merge merge_uv_def split: option.splits)

lemma records_empty: "records (look empty) st"
  by (simp add: records_def look_empty)

lemma records_put:
  "records (look d) st \<Longrightarrow> look d x \<noteq> None \<or> p = st x \<Longrightarrow> records (look (put d x v p)) st"
  by (auto simp: records_def look_put merge_uv_def split: option.splits)

lemma records_merge:
  "ok d' \<Longrightarrow> records (look d) st \<Longrightarrow> records (look d') st \<Longrightarrow> records (look (merge d d')) st"
  by (auto simp: records_def look_merge merge_uv_def split: option.splits)

lemma bwd_fwd: "records (look d) st \<Longrightarrow> bwd (look d) (fwd (look d) st) = st"
  by (auto simp: fun_eq_iff bwd_def fwd_def records_def split: option.splits)

text \<open>A whole sequence of writes, and its effect.\<close>

lemma fwd_puts:
  "fwd (look (foldl (\<lambda>d (x, v, p). put d x v p) d ws)) st =
    foldl (\<lambda>st (x, v, p). st(x := v)) (fwd (look d) st) ws"
  by (induction ws arbitrary: d) (auto simp: fwd_put)

end

interpretation sd: overlay delta_at "\<lambda>sd x. StateDelta_Set sd (fst x) (snd x)"
  StateDelta_ApplyChanges NewStateDelta sd_wf
  by unfold_locales (simp_all add: delta_at_Set delta_at_ApplyChanges sd_wf_Set sd_wf_ApplyChanges)

subsection \<open>Hashing does not depend on the order of the maps\<close>

text \<open>Two deltas with the same entries, in whatever order the maps list them.\<close>

definition same_entries :: "StateDelta \<Rightarrow> StateDelta \<Rightarrow> bool" where
  "same_entries a b = (\<forall>cc. rel_option (\<lambda>x y. mget (UpdatedKVs x) = mget (UpdatedKVs y))
     (mget (ChaincodeStateDeltas a) cc) (mget (ChaincodeStateDeltas b) cc))"

lemma sort_keys_cong:
  fixes m m' :: "('k::linorder \<times> 'v) list"
  assumes "gomap_ok m" "gomap_ok m'" "\<And>k. mget m k = None \<longleftrightarrow> mget m' k = None"
  shows "sort (map fst m) = sort (map fst m')"
proof -
  have "set (map fst m) = set (map fst m')"
    using assms(3) by (auto simp: map_of_eq_None_iff)
  with assms(1,2) show ?thesis
    by (metis gomap_ok_def sorted_list_of_set_sort_remdups distinct_remdups_id)
qed

lemma csd_hashContent_cong:
  assumes "csd_wf cc x" "csd_wf cc y" "mget (UpdatedKVs x) = mget (UpdatedKVs y)"
  shows "csd_hashContent x = csd_hashContent y"
proof -
  have "csd_getSortedKeys x = csd_getSortedKeys y"
    unfolding csd_getSortedKeys_def
    by (rule sort_keys_cong) (use assms in \<open>auto simp: csd_wf_def\<close>)
  with assms(3) show ?thesis by (simp add: csd_hashContent_def csd_get_def)
qed

lemma hashContent_same_entries:
  assumes "sd_wf a" "sd_wf b" "same_entries a b"
  shows "StateDelta_hashContent a = StateDelta_hashContent b"
proof -
  have rel: "rel_option (\<lambda>x y. mget (UpdatedKVs x) = mget (UpdatedKVs y))
      (mget (ChaincodeStateDeltas a) cc) (mget (ChaincodeStateDeltas b) cc)" for cc
    using assms(3) by (simp add: same_entries_def)
  have "StateDelta_GetUpdatedChaincodeIds a True = StateDelta_GetUpdatedChaincodeIds b True"
    unfolding StateDelta_GetUpdatedChaincodeIds_def Let_def if_True
    by (rule sort_keys_cong) (use assms rel in \<open>auto simp: sd_wf_def option.rel_sel\<close>)
  moreover have "(case mget (ChaincodeStateDeltas a) cc of None \<Rightarrow> [] | Some x \<Rightarrow> csd_hashContent x) =
      (case mget (ChaincodeStateDeltas b) cc of None \<Rightarrow> [] | Some x \<Rightarrow> csd_hashContent x)" for cc
    using rel [of cc] sd_wf_mget [OF assms(1), of cc] sd_wf_mget [OF assms(2), of cc]
    by (cases "mget (ChaincodeStateDeltas a) cc"; cases "mget (ChaincodeStateDeltas b) cc")
      (auto intro: csd_hashContent_cong)
  ultimately show ?thesis by (simp add: StateDelta_hashContent_def)
qed

lemma same_entries_IsEmpty: "same_entries a b \<Longrightarrow> StateDelta_IsEmpty a = StateDelta_IsEmpty b"
proof -
  have "StateDelta_IsEmpty d \<longleftrightarrow> (\<forall>cc. mget (ChaincodeStateDeltas d) cc = None)" for d
    by (cases "ChaincodeStateDeltas d") (auto simp: StateDelta_IsEmpty_def)
  then show "same_entries a b \<Longrightarrow> ?thesis"
    by (simp add: same_entries_def option.rel_sel)
qed

subsection \<open>Marshalling round trip\<close>

definition norm_slice :: "slice \<Rightarrow> slice" where
  "norm_slice v = (if IsNil v then None else v)"

definition norm_uv :: "UpdatedValue \<Rightarrow> UpdatedValue" where
  "norm_uv uv = \<lparr>Value = norm_slice (Value uv), PreviousValue = norm_slice (PreviousValue uv)\<rparr>"

definition norm_csd :: "ChaincodeStateDelta \<Rightarrow> ChaincodeStateDelta" where
  "norm_csd csd = csd\<lparr>UpdatedKVs := map (\<lambda>(k, uv). (k, norm_uv uv)) (UpdatedKVs csd)\<rparr>"

definition norm_ccs :: "(gostring, ChaincodeStateDelta) gomap \<Rightarrow> (gostring, ChaincodeStateDelta) gomap" where
  "norm_ccs cs = map (\<lambda>(cc, csd). (cc, norm_csd csd)) cs"

text \<open>Every length fits a Go \<open>int\<close>.\<close>

definition kv_sized :: "gostring \<times> UpdatedValue \<Rightarrow> bool" where
  "kv_sized kv = (go_len (fst kv) \<and> go_len (sbytes (Value (snd kv))) \<and>
     go_len (sbytes (PreviousValue (snd kv))))"

definition sd_sized :: "StateDelta \<Rightarrow> bool" where
  "sd_sized sd = (go_len (ChaincodeStateDeltas sd) \<and>
     (\<forall>(cc, csd) \<in> set (ChaincodeStateDeltas sd).
        go_len cc \<and> go_len (UpdatedKVs csd) \<and> (\<forall>kv \<in> set (UpdatedKVs csd). kv_sized kv)))"

lemma nilIfEmpty_sbytes: "nilIfEmpty (sbytes v) = norm_slice v"
  by (cases v) (auto simp: nilIfEmpty_def norm_slice_def IsNil_def)

lemma mput_new: "k \<notin> fst ` set m \<Longrightarrow> mput k v m = m @ [(k, v)]"
  by (induction m) auto

lemma enc_kv_append: "enc_kv buf kv = buf @ enc_kv [] kv"
  unfolding enc_kv_def
  by (metis append.assoc rawbytes.enc_append stringbytes.enc_append)

lemma dec_kv_enc: "kv_sized kv \<Longrightarrow> dec_kv (enc_kv [] kv @ rest) = Inr ((fst kv, norm_uv (snd kv)), rest)"
proof -
  assume s: "kv_sized kv"
  have "enc_kv [] kv @ rest = buf_EncodeStringBytes [] (fst kv) @
      buf_EncodeRawBytes [] (sbytes (Value (snd kv))) @
      buf_EncodeRawBytes [] (sbytes (PreviousValue (snd kv))) @ rest"
    unfolding enc_kv_def by (metis append.assoc rawbytes.enc_append)
  with s show ?thesis
    by (simp add: dec_kv_def kv_sized_def stringbytes.dec_enc rawbytes.dec_enc
        nilIfEmpty_sbytes norm_uv_def)
qed

lemma foldl_enc_kv: "foldl enc_kv buf kvs = buf @ foldl enc_kv [] kvs"
proof (induction kvs arbitrary: buf)
  case (Cons kv kvs)
  show ?case
    using Cons.IH [of "enc_kv buf kv"] Cons.IH [of "enc_kv [] kv"] enc_kv_append [of buf kv]
    by (metis append.assoc foldl_Cons)
qed simp

lemma csd_unmarshal_loop_enc:
  assumes "\<forall>kv \<in> set kvs. kv_sized kv" "distinct (map fst kvs)" "fst ` set m \<inter> fst ` set kvs = {}"
  shows "csd_unmarshal_loop (length kvs) (foldl enc_kv [] kvs @ rest) m =
    Inr (m @ map (\<lambda>(k, uv). (k, norm_uv uv)) kvs, rest)"
  using assms
proof (induction kvs arbitrary: m)
  case (Cons kv kvs)
  obtain k uv where kv: "kv = (k, uv)" by fastforce
  have "foldl enc_kv [] (kv # kvs) @ rest = enc_kv [] kv @ foldl enc_kv [] kvs @ rest"
    using foldl_enc_kv [of "enc_kv [] kv" kvs] by simp
  moreover have "mput k (norm_uv uv) m = m @ [(k, norm_uv uv)]"
    using Cons.prems(3) kv by (intro mput_new) auto
  moreover have "csd_unmarshal_loop (length kvs) (foldl enc_kv [] kvs @ rest) (m @ [(k, norm_uv uv)]) =
      Inr ((m @ [(k, norm_uv uv)]) @ map (\<lambda>(k, uv). (k, norm_uv uv)) kvs, rest)"
    using Cons.prems kv by (intro Cons.IH) auto
  ultimately show ?case
    using Cons.prems(1) kv by (simp add: dec_kv_enc)
qed simp

lemma csd_unmarshal_marshal:
  assumes "csd_wf cc csd" "go_len (UpdatedKVs csd)" "\<forall>kv \<in> set (UpdatedKVs csd). kv_sized kv"
  shows "csd_unmarshal (newChaincodeStateDelta cc) (csd_marshal [] csd @ rest) = Inr (norm_csd csd, rest)"
proof -
  have "csd_marshal [] csd @ rest = EncodeVarint (of_nat (length (UpdatedKVs csd))) @
      foldl enc_kv [] (UpdatedKVs csd) @ rest"
    unfolding csd_marshal_def buf_EncodeVarint_eq
    by (metis append.assoc append_Nil foldl_enc_kv)
  moreover have "csd_unmarshal_loop (length (UpdatedKVs csd)) (foldl enc_kv [] (UpdatedKVs csd) @ rest) [] =
      Inr (map (\<lambda>(k, uv). (k, norm_uv uv)) (UpdatedKVs csd), rest)"
    using csd_unmarshal_loop_enc [of "UpdatedKVs csd" "[]" rest] assms
    by (simp add: csd_wf_def gomap_ok_def)
  ultimately show ?thesis
    using assms(1,2)
    by (cases csd) (simp add: csd_unmarshal_def buf_DecodeVarint_EncodeVarint unat_go_len
        newChaincodeStateDelta_def norm_csd_def csd_wf_def)
qed

lemma csd_marshal_append: "csd_marshal buf csd = buf @ csd_marshal [] csd"
  unfolding csd_marshal_def buf_EncodeVarint_eq
  by (metis append.assoc append_Nil foldl_enc_kv)

lemma enc_chaincode_append: "enc_chaincode buf c = buf @ enc_chaincode [] c"
  unfolding enc_chaincode_def
  by (metis append.assoc csd_marshal_append stringbytes.enc_append)

lemma foldl_enc_chaincode: "foldl enc_chaincode buf cs = buf @ foldl enc_chaincode [] cs"
proof (induction cs arbitrary: buf)
  case (Cons c cs)
  show ?case
    using Cons.IH [of "enc_chaincode buf c"] Cons.IH [of "enc_chaincode [] c"]
      enc_chaincode_append [of buf c]
    by (metis append.assoc foldl_Cons)
qed simp

definition cc_sized :: "gostring \<times> ChaincodeStateDelta \<Rightarrow> bool" where
  "cc_sized c = (csd_wf (fst c) (snd c) \<and> go_len (fst c) \<and> go_len (UpdatedKVs (snd c)) \<and>
     (\<forall>kv \<in> set (UpdatedKVs (snd c)). kv_sized kv))"

lemma dec_chaincode_enc:
  "cc_sized c \<Longrightarrow> dec_chaincode (enc_chaincode [] c @ rest) = Inr ((fst c, norm_csd (snd c)), rest)"
proof -
  assume s: "cc_sized c"
  have "enc_chaincode [] c @ rest = buf_EncodeStringBytes [] (fst c) @ csd_marshal [] (snd c) @ rest"
    unfolding enc_chaincode_def using csd_marshal_append by (metis append.assoc)
  with s show ?thesis
    by (simp add: dec_chaincode_def cc_sized_def stringbytes.dec_enc csd_unmarshal_marshal)
qed

lemma Unmarshal_loop_enc:
  assumes "\<forall>c \<in> set cs. cc_sized c" "distinct (map fst cs)" "fst ` set m \<inter> fst ` set cs = {}"
  shows "Unmarshal_loop (length cs) (foldl enc_chaincode [] cs @ rest) m = (None, m @ norm_ccs cs)"
  using assms
proof (induction cs arbitrary: m)
  case (Cons c cs)
  obtain cc csd where c: "c = (cc, csd)" by fastforce
  have "foldl enc_chaincode [] (c # cs) @ rest = enc_chaincode [] c @ foldl enc_chaincode [] cs @ rest"
    using foldl_enc_chaincode [of "enc_chaincode [] c" cs] by simp
  moreover have "mput cc (norm_csd csd) m = m @ [(cc, norm_csd csd)]"
    using Cons.prems(3) c by (intro mput_new) auto
  moreover have "Unmarshal_loop (length cs) (foldl enc_chaincode [] cs @ rest) (m @ [(cc, norm_csd csd)]) =
      (None, (m @ [(cc, norm_csd csd)]) @ norm_ccs cs)"
    using Cons.prems c by (intro Cons.IH) auto
  ultimately show ?case
    using Cons.prems(1) c by (simp add: dec_chaincode_enc norm_ccs_def)
qed (simp add: norm_ccs_def)

lemma Unmarshal_Marshal_norm:
  assumes "sd_wf sd" and "sd_sized sd"
  shows "StateDelta_Unmarshal recv (StateDelta_Marshal sd) =
    (None, recv\<lparr>ChaincodeStateDeltas := norm_ccs (ChaincodeStateDeltas sd)\<rparr>)"
proof -
  let ?cs = "ChaincodeStateDeltas sd"
  have m: "StateDelta_Marshal sd = EncodeVarint (of_nat (length ?cs)) @ foldl enc_chaincode [] ?cs"
    unfolding StateDelta_Marshal_def buf_EncodeVarint_eq
    by (metis append_Nil foldl_enc_chaincode)
  have "\<forall>c \<in> set ?cs. cc_sized c"
    using assms by (auto simp: sd_wf_def sd_sized_def cc_sized_def)
  then have "Unmarshal_loop (length ?cs) (foldl enc_chaincode [] ?cs) [] = (None, norm_ccs ?cs)"
    using Unmarshal_loop_enc [of ?cs "[]" "[]"] assms(1) by (simp add: sd_wf_def gomap_ok_def)
  then show ?thesis
    using assms(2)
    by (simp add: StateDelta_Unmarshal_def m buf_DecodeVarint_EncodeVarint unat_go_len sd_sized_def)
qed

text \<open>The delta that comes back has the same keys, with normalised values.\<close>

lemma delta_at_norm:
  "delta_at (sd\<lparr>ChaincodeStateDeltas := norm_ccs (ChaincodeStateDeltas sd), RollBackwards := r\<rparr>) x =
    map_option norm_uv (delta_at sd x)"
proof -
  have "mget (norm_ccs cs) cc = map_option norm_csd (mget cs cc)" for cs cc
    by (induction cs) (auto simp: norm_ccs_def)
  moreover have "mget (map (\<lambda>(k, uv). (k, norm_uv uv)) kvs) k = map_option norm_uv (mget kvs k)" for kvs :: "(gostring, UpdatedValue) gomap" and k
    by (induction kvs) auto
  ultimately show ?thesis
    by (simp add: delta_at_def StateDelta_Get_def csd_get_def norm_csd_def split: option.splits)
qed

lemma sd_wf_norm:
  "sd_wf sd \<Longrightarrow> sd_wf (sd\<lparr>ChaincodeStateDeltas := norm_ccs (ChaincodeStateDeltas sd), RollBackwards := r\<rparr>)"
  by (fastforce simp: sd_wf_def csd_wf_def gomap_ok_def norm_ccs_def norm_csd_def comp_def case_prod_beta)

subsection \<open>Properties\<close>

text \<open>
  C9: merging the changes of a transaction into those of the batch. When both deltas recorded the
  values of the state \<open>st\<close> (the committed one, where \<open>State.Set\<close> looks them up), the merged delta
  has the effect of the first followed by the second, and rolling it backwards from there gives
  back \<open>st\<close>.
\<close>

theorem ApplyChanges_compose_and_rollback:
  assumes "sd_wf a" and "sd_wf b" and "records (delta_at a) st" and "records (delta_at b) st"
  shows "fwd (delta_at (StateDelta_ApplyChanges a b)) st = fwd (delta_at b) (fwd (delta_at a) st) \<and>
    bwd (delta_at (StateDelta_ApplyChanges a b))
      (fwd (delta_at (StateDelta_ApplyChanges a b)) st) = st"
  using sd.fwd_merge [OF assms(2)] sd.bwd_fwd sd.records_merge [OF assms(2-4)] by blast

definition ex_delta_a :: StateDelta where
  "ex_delta_a = StateDelta_Set (StateDelta_Set NewStateDelta [7] [1] (Some [10]) None) [7] [2] (Some [20]) (Some [5])"

definition ex_delta_b :: StateDelta where
  "ex_delta_b = StateDelta_Delete (StateDelta_Set NewStateDelta [7] [2] (Some [21]) (Some [5])) [8] [3] (Some [6])"

definition ex_state :: "gostring \<times> gostring \<Rightarrow> slice" where
  "ex_state x = (if x = ([7], [2]) then Some [5] else if x = ([8], [3]) then Some [6] else None)"

lemma ex_delta_wf: "sd_wf ex_delta_a" "sd_wf ex_delta_b"
  by (simp_all add: ex_delta_a_def ex_delta_b_def sd_wf_Set sd_wf_Delete)

lemma ex_delta_records: "records (delta_at ex_delta_a) ex_state" "records (delta_at ex_delta_b) ex_state"
  by (auto simp: records_def ex_delta_a_def ex_delta_b_def StateDelta_Delete_eq_Set delta_at_Set
      merge_uv_def ex_state_def split: if_splits)

theorem ApplyChanges_compose_and_rollback_witness:
  "fwd (delta_at (StateDelta_ApplyChanges ex_delta_a ex_delta_b)) ex_state ([7], [2]) = Some [21] \<and>
   bwd (delta_at (StateDelta_ApplyChanges ex_delta_a ex_delta_b))
     (fwd (delta_at (StateDelta_ApplyChanges ex_delta_a ex_delta_b)) ex_state) = ex_state"
proof -
  have "fwd (delta_at ex_delta_b) st ([7], [2]) = Some [21]" for st
    by (simp add: fwd_def ex_delta_b_def StateDelta_Delete_eq_Set delta_at_Set merge_uv_def)
  with ApplyChanges_compose_and_rollback [OF ex_delta_wf ex_delta_records] show ?thesis by metis
qed

text \<open>
  C27: the hash of a delta depends on its entries only and not on the order in which the Go maps
  happen to list them, so every peer that made the same changes computes the same hash.
\<close>

theorem StateDelta_hash_order_independent:
  assumes "sd_wf a" and "sd_wf b" and "same_entries a b"
  shows "StateDelta_ComputeCryptoHash H a = StateDelta_ComputeCryptoHash H b"
  using assms
  by (simp add: StateDelta_ComputeCryptoHash_def hashContent_same_entries same_entries_IsEmpty)

definition ex_order_a :: StateDelta where
  "ex_order_a = StateDelta_Set (StateDelta_Set NewStateDelta [1] [1] (Some [10]) None) [1] [2] (Some [20]) None"

definition ex_order_b :: StateDelta where
  "ex_order_b = StateDelta_Set (StateDelta_Set NewStateDelta [1] [2] (Some [20]) None) [1] [1] (Some [10]) None"

lemmas ex_order_defs = ex_order_a_def ex_order_b_def StateDelta_Set_def NewStateDelta_def
  getOrCreateChaincodeStateDelta_def newChaincodeStateDelta_def csd_set_def

theorem StateDelta_hash_order_independent_witness:
  "ex_order_a \<noteq> ex_order_b \<and>
   StateDelta_ComputeCryptoHash id ex_order_a = StateDelta_ComputeCryptoHash id ex_order_b"
proof
  show "ex_order_a \<noteq> ex_order_b" by (simp add: ex_order_defs)
  show "StateDelta_ComputeCryptoHash id ex_order_a = StateDelta_ComputeCryptoHash id ex_order_b"
  proof (rule StateDelta_hash_order_independent)
    show "sd_wf ex_order_a" "sd_wf ex_order_b"
      by (simp_all add: ex_order_a_def ex_order_b_def sd_wf_Set)
    show "same_entries ex_order_a ex_order_b"
      by (auto simp: same_entries_def ex_order_defs fun_eq_iff)
  qed
qed

text \<open>
  C26: a marshalled delta is read back as it was, except that an empty value comes back as \<open>nil\<close>
  (a deletion) and that the direction of the receiver is kept. The lengths must fit a Go \<open>int\<close>.
\<close>

theorem StateDelta_Unmarshal_Marshal:
  assumes "sd_wf sd" and "sd_sized sd"
  shows "StateDelta_Unmarshal recv (StateDelta_Marshal sd) =
    (None, recv\<lparr>ChaincodeStateDeltas := norm_ccs (ChaincodeStateDeltas sd)\<rparr>)"
  using assms by (rule Unmarshal_Marshal_norm)

theorem StateDelta_Unmarshal_Marshal_witness:
  "StateDelta_Unmarshal NewStateDelta (StateDelta_Marshal ex_order_a) = (None, ex_order_a)"
proof -
  have "sd_wf ex_order_a" by (simp add: ex_order_a_def sd_wf_Set)
  moreover have "sd_sized ex_order_a"
    by (simp add: ex_order_defs sd_sized_def kv_sized_def go_len_def)
  ultimately have "StateDelta_Unmarshal NewStateDelta (StateDelta_Marshal ex_order_a) =
      (None, NewStateDelta\<lparr>ChaincodeStateDeltas := norm_ccs (ChaincodeStateDeltas ex_order_a)\<rparr>)"
    by (rule StateDelta_Unmarshal_Marshal)
  then show ?thesis
    by (simp add: ex_order_defs norm_ccs_def norm_csd_def norm_uv_def norm_slice_def IsNil_def)
qed

text \<open>The deltas of a single update, and the bytes hashed for them.\<close>

lemma single_Set:
  "StateDelta_Set NewStateDelta cc k v pv = \<lparr>ChaincodeStateDeltas = [(cc, \<lparr>ChaincodeID = cc,
     UpdatedKVs = [(k, \<lparr>Value = v, PreviousValue = pv\<rparr>)]\<rparr>)], RollBackwards = False\<rparr>"
  by (simp add: StateDelta_Set_def NewStateDelta_def getOrCreateChaincodeStateDelta_def newChaincodeStateDelta_def csd_set_def)

lemma single_Delete:
  "StateDelta_Delete NewStateDelta cc k pv = \<lparr>ChaincodeStateDeltas = [(cc, \<lparr>ChaincodeID = cc,
     UpdatedKVs = [(k, \<lparr>Value = None, PreviousValue = pv\<rparr>)]\<rparr>)], RollBackwards = False\<rparr>"
  by (simp add: StateDelta_Delete_def NewStateDelta_def csd_remove_def getOrCreateChaincodeStateDelta_def newChaincodeStateDelta_def)

lemma single_hash:
  "StateDelta_ComputeCryptoHash H (StateDelta_Set NewStateDelta cc k (Some v) pv) = Some (H (cc @ k @ v))"
  "StateDelta_ComputeCryptoHash H (StateDelta_Delete NewStateDelta cc k pv) = Some (H (cc @ k))"
  unfolding single_Set single_Delete
  by (simp_all add: StateDelta_ComputeCryptoHash_def StateDelta_IsEmpty_def StateDelta_hashContent_def
      csd_hashContent_def StateDelta_GetUpdatedChaincodeIds_def csd_getSortedKeys_def csd_get_def UpdatedValue_IsDelete_def)

text \<open>
  C35: The hashed bytes carry no lengths or separators. Even with a hash function without
  collisions, two deltas of one write each have the same hash exactly when chaincode id, key and
  value give the same bytes put together, wherever they are divided, and a write has the hash of a
  deletion whose key is its key followed by its value; so writes to different keys share a hash.
\<close>

theorem StateDelta_hash_ambiguous:
  assumes "inj H"
  shows "(StateDelta_ComputeCryptoHash H (StateDelta_Set NewStateDelta cc k (Some v) pv) =
          StateDelta_ComputeCryptoHash H (StateDelta_Set NewStateDelta cc' k' (Some v') pv') \<longleftrightarrow> cc @ k @ v = cc' @ k' @ v')
    \<and> (StateDelta_ComputeCryptoHash H (StateDelta_Set NewStateDelta cc k (Some v) pv) =
        StateDelta_ComputeCryptoHash H (StateDelta_Delete NewStateDelta cc' k' pv') \<longleftrightarrow> cc @ k @ v = cc' @ k')
    \<and> delta_at (StateDelta_Set NewStateDelta cc k (Some v) pv) = [(cc, k) \<mapsto> \<lparr>Value = Some v, PreviousValue = pv\<rparr>]"
proof -
  have "delta_at (StateDelta_Set NewStateDelta cc k (Some v) pv) = [(cc, k) \<mapsto> \<lparr>Value = Some v, PreviousValue = pv\<rparr>]"
    unfolding single_Set by (auto intro!: ext simp: delta_at_def StateDelta_Get_def csd_get_def)
  with inj_eq [OF assms] show ?thesis unfolding single_hash by simp
qed

theorem StateDelta_hash_ambiguous_witness:
  "inj (id :: bytes \<Rightarrow> bytes) \<and>
   StateDelta_ComputeCryptoHash id (StateDelta_Set NewStateDelta [1] [2] (Some [3]) None) =
     StateDelta_ComputeCryptoHash id (StateDelta_Set NewStateDelta [1, 2] [3] (Some []) None) \<and>
   StateDelta_ComputeCryptoHash id (StateDelta_Set NewStateDelta [1] [2] (Some [3]) None) =
     StateDelta_ComputeCryptoHash id (StateDelta_Delete NewStateDelta [1] [2, 3] None)"
proof -
  have i: "inj (id :: bytes \<Rightarrow> bytes)" by simp
  from StateDelta_hash_ambiguous [OF i, of "[1]" "[2]" "[3]" None "[1, 2]" "[3]" "[]" None, THEN conjunct1, THEN iffD2]
    StateDelta_hash_ambiguous [OF i, of "[1]" "[2]" "[3]" None "[1]" "[2, 3]" "[]" None, THEN conjunct2, THEN conjunct1, THEN iffD2]
  show ?thesis using i by simp
qed

end
