(* ===== verification/DB.thy ===== *)
theory DB
  imports LedgerUtil
begin

text \<open>
  The database wrapper \<open>core/db/db.go\<close>. RocksDB is a C library called through
  \<open>gorocksdb\<close>: it is a parameter \<open>D\<close> of type \<open>'db gorocksdb\<close>, whose fields are the calls the
  program makes on an opened database of the opaque type \<open>'db\<close>. A snapshot is a value of
  \<open>'db\<close> too, the database as it was when the snapshot was taken. What the program relies on is
  stated by \<open>rocksdb_ok D content\<close>, where \<open>content db cf\<close> is the finite map stored in a column
  family. \<open>memdb\<close> is a concrete database that satisfies it.
\<close>

subsection \<open>The RocksDB interface\<close>

datatype cf = BlockchainCF | StateCF | StateDeltaCF | IndexesCF

datatype batch_op = PutCF cf bytes bytes | DeleteCF cf bytes

type_synonym WriteBatch = "batch_op list"

text \<open>
  \<open>Seek D db cf k\<close> lists the key-value pairs that an iterator positioned by \<open>Seek k\<close> visits
  with \<open>Next\<close> until \<open>Valid\<close> fails. The value of an iterator is memory of the library, which it may
  reuse once the iterator moves and frees when it is closed: of a slice that the program keeps of
  the value of \<open>key\<close> beyond that, \<open>ItrMem D key i j x\<close> is what the program later finds at position
  \<open>j\<close> of the \<open>i\<close>-th slice, where there was \<open>x\<close>.
\<close>

record 'db gorocksdb =
  GetCF :: "'db \<Rightarrow> cf \<Rightarrow> bytes \<Rightarrow> gerr + slice"
  Seek :: "'db \<Rightarrow> cf \<Rightarrow> bytes \<Rightarrow> (bytes \<times> bytes) list"
  Write :: "'db \<Rightarrow> WriteBatch \<Rightarrow> gerr + 'db"
  DropColumnFamily :: "'db \<Rightarrow> cf \<Rightarrow> gerr + 'db"
  CreateColumnFamily :: "'db \<Rightarrow> cf \<Rightarrow> gerr + 'db"
  ItrMem :: "bytes \<Rightarrow> nat \<Rightarrow> nat \<Rightarrow> byte \<Rightarrow> byte"

text \<open>What a write batch does to the stored maps: its operations in order.\<close>

type_synonym dbmap = "cf \<Rightarrow> bytes \<rightharpoonup> bytes"

fun apply_op :: "dbmap \<Rightarrow> batch_op \<Rightarrow> dbmap" where
  "apply_op c (PutCF f k v) = c(f := (c f)(k \<mapsto> v))"
| "apply_op c (DeleteCF f k) = c(f := (c f)(k := None))"

definition apply_batch :: "dbmap \<Rightarrow> WriteBatch \<Rightarrow> dbmap" where
  "apply_batch c b = foldl apply_op c b"

lemma apply_batch_simps [simp]:
  "apply_batch c [] = c"
  "apply_batch c (x # b) = apply_batch (apply_op c x) b"
  "apply_batch c (a @ b) = apply_batch (apply_batch c a) b"
  by (simp_all add: apply_batch_def)

text \<open>The documented behaviour of the library: reads return what is stored, an iterator visits
  the stored keys from the sought one on in increasing order, a successful write applies the
  whole batch, and dropping and creating a column family leaves it empty. Reads that fail are left
  out here; the error paths of the program are proved without this assumption.\<close>

definition rocksdb_ok :: "'db gorocksdb \<Rightarrow> ('db \<Rightarrow> dbmap) \<Rightarrow> bool" where
  "rocksdb_ok D content \<longleftrightarrow>
     (\<forall>db f k. GetCF D db f k = Inr (content db f k)) \<and>
     (\<forall>db f k. sorted_wrt (<) (map fst (Seek D db f k)) \<and>
        map_of (Seek D db f k) = (\<lambda>k'. if k \<le> k' then content db f k' else None)) \<and>
     (\<forall>db b db'. Write D db b = Inr db' \<longrightarrow> content db' = apply_batch (content db) b) \<and>
     (\<forall>db f db'. DropColumnFamily D db f = Inr db' \<longrightarrow> content db' = (content db)(f := Map.empty)) \<and>
     (\<forall>db f db'. CreateColumnFamily D db f = Inr db' \<longrightarrow> content db' = (content db)(f := Map.empty))"

lemma rocksdb_okD:
  assumes "rocksdb_ok D content"
  shows rocksdb_get: "GetCF D db f k = Inr (content db f k)"
    and rocksdb_seek_sorted: "sorted_wrt (<) (map fst (Seek D db f k))"
    and rocksdb_seek_map: "map_of (Seek D db f k) k' = (if k \<le> k' then content db f k' else None)"
    and rocksdb_write: "Write D db b = Inr db' \<Longrightarrow> content db' = apply_batch (content db) b"
    and rocksdb_drop: "DropColumnFamily D db f = Inr db' \<Longrightarrow> content db' = (content db)(f := Map.empty)"
    and rocksdb_create: "CreateColumnFamily D db f = Inr db' \<Longrightarrow> content db' = (content db)(f := Map.empty)"
  using assms by (simp_all add: rocksdb_ok_def)

text \<open>
  The memory of iterators keeps its contents. RocksDB does not promise this; theorems that need it
  say so.
\<close>

definition itr_kept :: "'db gorocksdb \<Rightarrow> bool" where
  "itr_kept D \<longleftrightarrow> (\<forall>key i j x. ItrMem D key i j x = x)"

subsection \<open>The wrapper\<close>

text \<open>
  \<open>get\<close> copies the slice with \<open>append([]byte(nil), ...)\<close>: an absent key and an empty value both
  give \<open>nil\<close>.
\<close>

definition appendToNil :: "slice \<Rightarrow> slice" where
  "appendToNil data = (if sbytes data = [] then None else Some (sbytes data))"

definition db_get :: "'db gorocksdb \<Rightarrow> 'db \<Rightarrow> cf \<Rightarrow> bytes \<Rightarrow> gerr + slice" where
  "db_get D db cfHandler key = rbind (GetCF D db cfHandler key) (\<lambda>data. Inr (appendToNil data))"

definition GetFromBlockchainCF :: "'db gorocksdb \<Rightarrow> 'db \<Rightarrow> bytes \<Rightarrow> gerr + slice" where
  "GetFromBlockchainCF D db key = db_get D db BlockchainCF key"

definition GetFromStateCF :: "'db gorocksdb \<Rightarrow> 'db \<Rightarrow> bytes \<Rightarrow> gerr + slice" where
  "GetFromStateCF D db key = db_get D db StateCF key"

definition GetFromStateDeltaCF :: "'db gorocksdb \<Rightarrow> 'db \<Rightarrow> bytes \<Rightarrow> gerr + slice" where
  "GetFromStateDeltaCF D db key = db_get D db StateDeltaCF key"

definition GetFromIndexesCF :: "'db gorocksdb \<Rightarrow> 'db \<Rightarrow> bytes \<Rightarrow> gerr + slice" where
  "GetFromIndexesCF D db key = db_get D db IndexesCF key"

definition getFromSnapshot :: "'db gorocksdb \<Rightarrow> 'db \<Rightarrow> cf \<Rightarrow> bytes \<Rightarrow> gerr + slice" where
  "getFromSnapshot D snapshot cfHandler key =
     rbind (GetCF D snapshot cfHandler key) (\<lambda>data. Inr (appendToNil data))"

definition GetFromBlockchainCFSnapshot :: "'db gorocksdb \<Rightarrow> 'db \<Rightarrow> bytes \<Rightarrow> gerr + slice" where
  "GetFromBlockchainCFSnapshot D snapshot key = getFromSnapshot D snapshot BlockchainCF key"

text \<open>Drops and recreates the two state column families, in this order, stopping at an error.\<close>

definition DeleteState :: "'db gorocksdb \<Rightarrow> 'db \<Rightarrow> gerr + 'db" where
  "DeleteState D db0 =
     rbind (DropColumnFamily D db0 StateCF) (\<lambda>db1.
     rbind (DropColumnFamily D db1 StateDeltaCF) (\<lambda>db2.
     rbind (CreateColumnFamily D db2 StateCF) (\<lambda>db3.
     CreateColumnFamily D db3 StateDeltaCF)))"

lemmas GetFrom_defs = GetFromBlockchainCF_def GetFromStateCF_def GetFromStateDeltaCF_def
  GetFromIndexesCF_def GetFromBlockchainCFSnapshot_def getFromSnapshot_def db_get_def

lemma appendToNil_simps [simp]:
  "appendToNil None = None"
  "appendToNil (Some bs) = (if bs = [] then None else Some bs)"
  by (simp_all add: appendToNil_def)

lemma db_get_ok: "rocksdb_ok D content \<Longrightarrow> db_get D db f k = Inr (appendToNil (content db f k))"
  by (simp add: db_get_def rocksdb_get)

lemma DeleteState_content:
  assumes "rocksdb_ok D content" and "DeleteState D db = Inr db'"
  shows "content db' = (content db)(StateCF := Map.empty, StateDeltaCF := Map.empty)"
proof -
  from assms(2) obtain db1 db2 db3 where
    "DropColumnFamily D db StateCF = Inr db1" "DropColumnFamily D db1 StateDeltaCF = Inr db2"
    "CreateColumnFamily D db2 StateCF = Inr db3" "CreateColumnFamily D db3 StateDeltaCF = Inr db'"
    by (auto simp: DeleteState_def rbind_Inr_conv)
  then show ?thesis
    by (auto simp: rocksdb_drop [OF assms(1)] rocksdb_create [OF assms(1)])
qed

subsection \<open>A concrete database\<close>

definition mem_keys :: "(bytes, bytes) gomap \<Rightarrow> bytes list" where
  "mem_keys m = sort (remdups (map fst m))"

definition memdb :: "(cf \<Rightarrow> (bytes, bytes) gomap) gorocksdb" where
  "memdb =
     \<lparr>GetCF = (\<lambda>db f k. Inr (mget (db f) k)),
      Seek = (\<lambda>db f k. map (\<lambda>k'. (k', the (mget (db f) k'))) (filter (\<lambda>k'. k \<le> k') (mem_keys (db f)))),
      Write = (\<lambda>db b. Inr (foldl (\<lambda>db op. case op of
         PutCF f k v \<Rightarrow> db(f := mput k v (db f)) | DeleteCF f k \<Rightarrow> db(f := mdel k (db f))) db b)),
      DropColumnFamily = (\<lambda>db f. Inr (db(f := []))),
      CreateColumnFamily = (\<lambda>db f. Inr (db(f := []))),
      ItrMem = (\<lambda>key i j x. x)\<rparr>"

definition mem_content :: "(cf \<Rightarrow> (bytes, bytes) gomap) \<Rightarrow> dbmap" where
  "mem_content db f = mget (db f)"

lemma itr_kept_memdb: "itr_kept memdb"
  by (simp add: itr_kept_def memdb_def)

lemma mem_write_content:
  "mem_content (foldl (\<lambda>db op. case op of
      PutCF f k v \<Rightarrow> db(f := mput k v (db f)) | DeleteCF f k \<Rightarrow> db(f := mdel k (db f))) db b) =
    apply_batch (mem_content db) b"
proof (induction b arbitrary: db)
  case Nil
  then show ?case by simp
next
  case (Cons a b)
  have "mem_content (case a of PutCF f k v \<Rightarrow> db(f := mput k v (db f)) | DeleteCF f k \<Rightarrow> db(f := mdel k (db f))) =
      apply_op (mem_content db) a"
    by (cases a) (auto simp: mem_content_def fun_eq_iff update_conv' delete_conv')
  with Cons.IH show ?case by simp
qed

lemma sorted_mem_keys: "sorted_wrt (<) (filter P (mem_keys m))"
  unfolding mem_keys_def by (rule sorted_wrt_filter) (simp add: strict_sorted_iff)

lemma map_of_map_self: "map_of (map (\<lambda>k. (k, f k)) ks) k = (if k \<in> set ks then Some (f k) else None)"
  by (induction ks) auto

lemma rocksdb_ok_memdb: "rocksdb_ok memdb mem_content"
proof -
  have "map_of (Seek memdb db f k) = (\<lambda>k'. if k \<le> k' then mem_content db f k' else None)" for db f k
    by (rule ext) (auto simp: memdb_def mem_content_def mem_keys_def map_of_map_self
        dom_map_of_conv_image_fst [symmetric] domIff)
  moreover have "sorted_wrt (<) (map fst (Seek memdb db f k))" for db f k
    by (simp add: memdb_def sorted_mem_keys comp_def)
  moreover have "mem_content (db(f := [])) = (mem_content db)(f := Map.empty)" for db f
    by (auto simp: mem_content_def fun_eq_iff)
  moreover have "Write memdb db b = Inr db' \<Longrightarrow> mem_content db' = apply_batch (mem_content db) b" for db b db'
    using mem_write_content [of db b] by (auto simp: memdb_def)
  moreover have "DropColumnFamily memdb db f = Inr (db(f := []))"
    "CreateColumnFamily memdb db f = Inr (db(f := []))"
    "GetCF memdb db f k = Inr (mem_content db f k)" for db f k
    by (simp_all add: memdb_def mem_content_def)
  ultimately show ?thesis
    unfolding rocksdb_ok_def by simp
qed

end
