(* ===== verification/BucketTree.thy ===== *)
theory BucketTree
  imports StateDelta DB "HOL-Library.Signed_Division"
begin

text \<open>
  The data structures of the bucket tree, package \<open>core/ledger/statemgmt/buckettree\<close>: the
  configuration (\<open>config.go\<close>), bucket keys and nodes (\<open>bucket_key.go\<close>, \<open>bucket_node.go\<close>), data
  keys and nodes (\<open>data_key.go\<close>, \<open>data_node.go\<close>), the hash of a bucket's contents
  (\<open>bucket_hash.go\<close>), the two deltas (\<open>data_nodes_delta.go\<close>, \<open>bucket_tree_delta.go\<close>), and the
  reads from the database (\<open>db_helper.go\<close>). The package variable \<open>conf\<close> is an argument \<open>c\<close>
  of the functions that read it. A Go \<open>int\<close> is an \<open>int\<close>; \<open>conf_wf\<close> keeps the tree small enough
  that no computed value leaves the 64-bit range. \<open>sdiv\<close> and \<open>smod\<close> are Go's truncating
  \<open>/\<close> and \<open>%\<close>. \<open>panic\<close> is the error \<open>Panic\<close>.
\<close>

subsection \<open>Configuration\<close>

record config =
  maxGroupingAtEachLevel :: int
  lowestLevel :: int
  levelToNumBucketsMap :: "(int, int) gomap"
  hashFunc :: "bytes \<Rightarrow> u32"

text \<open>The entries of \<open>configs map[string]interface{}\<close> the package reads; \<open>None\<close> when the key is
  absent or has another type.\<close>

record configs =
  cfg_numBuckets :: "int option"
  cfg_maxGroupingAtEachLevel :: "int option"
  cfg_hashFunction :: "(bytes \<Rightarrow> u32) option"
  cfg_bucketCacheSize :: "int option"

definition DefaultNumBuckets :: int where
  "DefaultNumBuckets = 10009"

definition DefaultMaxGroupingAtEachLevel :: int where
  "DefaultMaxGroupingAtEachLevel = 10"

text \<open>\<open>fnv.New32a\<close> of the standard library, applied to the whole slice.\<close>

definition fnvHash :: "bytes \<Rightarrow> u32" where
  "fnvHash data = foldl (\<lambda>h b. (h XOR ucast b) * 16777619) 2166136261 data"

partial_function (option) newConfig_loop ::
  "int \<Rightarrow> int \<Rightarrow> int \<Rightarrow> (int, int) gomap \<Rightarrow> (gerr + int \<times> (int, int) gomap) option" where
  "newConfig_loop maxGrouping numBucketAtCurrentLevel currentLevel levelInfoMap =
     (if numBucketAtCurrentLevel > 1
      then (if maxGrouping = 0 then Some (Inl (Panic ''integer divide by zero''))
            else let p = numBucketAtCurrentLevel sdiv maxGrouping;
                     numBucketAtParentLevel =
                       (if numBucketAtCurrentLevel smod maxGrouping \<noteq> 0 then p + 1 else p)
                 in newConfig_loop maxGrouping numBucketAtParentLevel (currentLevel + 1)
                      (mput (currentLevel + 1) numBucketAtParentLevel levelInfoMap))
      else Some (Inr (currentLevel, levelInfoMap)))"

definition newConfig :: "int \<Rightarrow> int \<Rightarrow> (bytes \<Rightarrow> u32) \<Rightarrow> (gerr + config) option" where
  "newConfig numBuckets maxGrouping hf =
     (case newConfig_loop maxGrouping numBuckets 0 [(0, numBuckets)] of
        None \<Rightarrow> None
      | Some (Inl e) \<Rightarrow> Some (Inl e)
      | Some (Inr (currentLevel, levelInfoMap)) \<Rightarrow>
          Some (Inr \<lparr>maxGroupingAtEachLevel = maxGrouping, lowestLevel = currentLevel,
            levelToNumBucketsMap = foldl (\<lambda>m (k, v). mput (currentLevel - k) v m) [] levelInfoMap,
            hashFunc = hf\<rparr>))"

definition initConfig :: "configs \<Rightarrow> (gerr + config) option" where
  "initConfig cfgs =
     newConfig (case cfg_numBuckets cfgs of Some n \<Rightarrow> n | None \<Rightarrow> DefaultNumBuckets)
       (case cfg_maxGroupingAtEachLevel cfgs of Some g \<Rightarrow> g | None \<Rightarrow> DefaultMaxGroupingAtEachLevel)
       (case cfg_hashFunction cfgs of Some f \<Rightarrow> f | None \<Rightarrow> fnvHash)"

text \<open>A map of ints read at an absent key gives 0.\<close>

definition getNumBuckets :: "config \<Rightarrow> int \<Rightarrow> gerr + int" where
  "getNumBuckets c level =
     (if level < 0 \<or> level > lowestLevel c then Inl (Panic ''level out of range'')
      else Inr (case mget (levelToNumBucketsMap c) level of Some n \<Rightarrow> n | None \<Rightarrow> 0))"

definition computeBucketHash :: "config \<Rightarrow> bytes \<Rightarrow> u32" where
  "computeBucketHash c data = hashFunc c data"

definition getNumBucketsAtLowestLevel :: "config \<Rightarrow> gerr + int" where
  "getNumBucketsAtLowestLevel c = getNumBuckets c (lowestLevel c)"

definition computeParentBucketNumber :: "config \<Rightarrow> int \<Rightarrow> gerr + int" where
  "computeParentBucketNumber c bucketNumber =
     (if maxGroupingAtEachLevel c = 0 then Inl (Panic ''integer divide by zero'')
      else let p = bucketNumber sdiv maxGroupingAtEachLevel c in
        Inr (if bucketNumber smod maxGroupingAtEachLevel c \<noteq> 0 then p + 1 else p))"

subsection \<open>Bucket keys\<close>

record bucketKey =
  bk_level :: int
  bk_number :: int

definition newBucketKey :: "config \<Rightarrow> int \<Rightarrow> int \<Rightarrow> gerr + bucketKey" where
  "newBucketKey c level bucketNumber =
     (if level > lowestLevel c \<or> level < 0 then Inl (Panic ''Invalid Level'')
      else rbind (getNumBuckets c level) (\<lambda>n.
        if bucketNumber < 1 \<or> bucketNumber > n then Inl (Panic ''Invalid bucket number'')
        else Inr \<lparr>bk_level = level, bk_number = bucketNumber\<rparr>))"

definition newBucketKeyAtLowestLevel :: "config \<Rightarrow> int \<Rightarrow> gerr + bucketKey" where
  "newBucketKeyAtLowestLevel c bucketNumber = newBucketKey c (lowestLevel c) bucketNumber"

definition constructRootBucketKey :: "config \<Rightarrow> gerr + bucketKey" where
  "constructRootBucketKey c = newBucketKey c 0 1"

text \<open>\<open>int(x)\<close> of a \<open>uint64\<close> keeps the bits: it is \<open>sint\<close>. Slicing past the end panics.\<close>

definition decodeBucketKey :: "bytes \<Rightarrow> gerr + bucketKey" where
  "decodeBucketKey keyBytes =
     (if length keyBytes < 1 then Inl (Panic ''slice bounds out of range'')
      else let (level, numBytesRead) = DecodeVarint (drop 1 keyBytes) in
        if length keyBytes < numBytesRead + 1 then Inl (Panic ''slice bounds out of range'')
        else let (bucketNumber, _) = DecodeVarint (drop (numBytesRead + 1) keyBytes) in
          Inr \<lparr>bk_level = sint level, bk_number = sint bucketNumber\<rparr>)"

definition getParentKey :: "config \<Rightarrow> bucketKey \<Rightarrow> gerr + bucketKey" where
  "getParentKey c bk =
     rbind (computeParentBucketNumber c (bk_number bk)) (\<lambda>p. newBucketKey c (bk_level bk - 1) p)"

definition bk_equals :: "bucketKey \<Rightarrow> bucketKey \<Rightarrow> bool" where
  "bk_equals a b \<longleftrightarrow> bk_level a = bk_level b \<and> bk_number a = bk_number b"

definition getChildIndex :: "config \<Rightarrow> bucketKey \<Rightarrow> bucketKey \<Rightarrow> gerr + int" where
  "getChildIndex c bk childKey =
     (let first = (bk_number bk - 1) * maxGroupingAtEachLevel c + 1;
          last = bk_number bk * maxGroupingAtEachLevel c
      in if bk_number childKey < first \<or> bk_number childKey > last
         then Inl (Panic ''not a valid child bucket'')
         else Inr (bk_number childKey - first))"

definition getChildKey :: "config \<Rightarrow> bucketKey \<Rightarrow> int \<Rightarrow> gerr + bucketKey" where
  "getChildKey c bk index =
     newBucketKey c (bk_level bk + 1) ((bk_number bk - 1) * maxGroupingAtEachLevel c + 1 + index)"

definition bk_getEncodedBytes :: "bucketKey \<Rightarrow> bytes" where
  "bk_getEncodedBytes bk =
     [0] @ EncodeVarint (word_of_int (bk_level bk)) @ EncodeVarint (word_of_int (bk_number bk))"

definition bk_clone :: "config \<Rightarrow> bucketKey \<Rightarrow> gerr + bucketKey" where
  "bk_clone c bk = newBucketKey c (bk_level bk) (bk_number bk)"

subsection \<open>Bucket nodes\<close>

record bucketNode =
  bn_key :: bucketKey
  childrenCryptoHash :: "slice list"
  childrenUpdated :: "bool list"
  markedForDeletion :: bool

definition newBucketNode :: "config \<Rightarrow> bucketKey \<Rightarrow> bucketNode" where
  "newBucketNode c bk =
     (let maxChildren = nat (maxGroupingAtEachLevel c) in
      \<lparr>bn_key = bk, childrenCryptoHash = replicate maxChildren None,
       childrenUpdated = replicate maxChildren False, markedForDeletion = False\<rparr>)"

fun unmarshalBucketNode_loop :: "nat \<Rightarrow> bytes \<Rightarrow> gerr + slice list" where
  "unmarshalBucketNode_loop 0 buf = Inr []"
| "unmarshalBucketNode_loop (Suc n) buf =
     (case buf_DecodeRawBytes buf of
        Inl e \<Rightarrow> Inl (Panic ''this error should not occur'')
      | Inr (childCryptoHash, buf') \<Rightarrow>
          rbind (unmarshalBucketNode_loop n buf') (\<lambda>hs.
            Inr ((if IsNil (Some childCryptoHash) then None else Some childCryptoHash) # hs)))"

definition unmarshalBucketNode :: "config \<Rightarrow> bucketKey \<Rightarrow> bytes \<Rightarrow> gerr + bucketNode" where
  "unmarshalBucketNode c bk serializedBytes =
     rbind (unmarshalBucketNode_loop (nat (maxGroupingAtEachLevel c)) serializedBytes) (\<lambda>hs.
       Inr ((newBucketNode c bk)\<lparr>childrenCryptoHash := hs\<rparr>))"

definition bn_marshal :: "bucketNode \<Rightarrow> bytes" where
  "bn_marshal bn = foldl (\<lambda>buf h. buf_EncodeRawBytes buf (sbytes h)) [] (childrenCryptoHash bn)"

definition setChildCryptoHash :: "config \<Rightarrow> bucketNode \<Rightarrow> bucketKey \<Rightarrow> slice \<Rightarrow> gerr + bucketNode" where
  "setChildCryptoHash c bn childKey cryptoHash =
     rbind (getChildIndex c (bn_key bn) childKey) (\<lambda>i.
       if nat i < length (childrenCryptoHash bn) \<and> nat i < length (childrenUpdated bn)
       then Inr (bn\<lparr>childrenCryptoHash := (childrenCryptoHash bn)[nat i := cryptoHash],
                    childrenUpdated := (childrenUpdated bn)[nat i := True]\<rparr>)
       else Inl (Panic ''index out of range''))"

definition mergeBucketNode :: "bucketNode \<Rightarrow> bucketNode \<Rightarrow> gerr + bucketNode" where
  "mergeBucketNode bn another =
     (if \<not> bk_equals (bn_key bn) (bn_key another)
      then Inl (Panic ''Nodes with different keys can not be merged'')
      else rfold (\<lambda>bn (i, childCryptoHash).
          if length (childrenUpdated bn) \<le> i then Inl (Panic ''index out of range'')
          else if \<not> childrenUpdated bn ! i then
            (if length (childrenCryptoHash bn) \<le> i then Inl (Panic ''index out of range'')
             else if IsNil (childrenCryptoHash bn ! i)
             then Inr (bn\<lparr>childrenCryptoHash := (childrenCryptoHash bn)[i := childCryptoHash]\<rparr>)
             else Inr bn)
          else Inr bn)
        (enumerate 0 (childrenCryptoHash another)) bn)"

text \<open>
  The debug message of the loop evaluates \<open>getChildKey\<close> for every child that has a hash, so an
  invalid child key panics here.
\<close>

definition bn_computeCryptoHash ::
  "(bytes \<Rightarrow> bytes) \<Rightarrow> config \<Rightarrow> bucketNode \<Rightarrow> gerr + slice \<times> bucketNode" where
  "bn_computeCryptoHash H c bn =
     rbind (rfold (\<lambda>(content, numChildren) (i, childCryptoHash).
         if NotNil childCryptoHash
         then rbind (getChildKey c (bn_key bn) (int i)) (\<lambda>_.
           Inr (content @ sbytes childCryptoHash, numChildren + 1))
         else Inr (content, numChildren))
       (enumerate 0 (childrenCryptoHash bn)) ([], 0 :: nat))
     (\<lambda>(cryptoHashContent, numChildren).
       if numChildren = 0 then Inr (None, bn\<lparr>markedForDeletion := True\<rparr>)
       else if numChildren = 1 then Inr (Some cryptoHashContent, bn)
       else Inr (Some (H cryptoHashContent), bn))"

subsection \<open>Data keys and nodes\<close>

record dataKey =
  dk_bucketKey :: bucketKey
  compositeKey :: bytes

record dataNode =
  dn_key :: dataKey
  dn_value :: slice

definition newDataKey :: "config \<Rightarrow> gostring \<Rightarrow> gostring \<Rightarrow> gerr + dataKey" where
  "newDataKey c chaincodeID key =
     (let ck = ConstructCompositeKey chaincodeID key; bucketHash = computeBucketHash c ck in
      rbind (getNumBucketsAtLowestLevel c) (\<lambda>n.
        if n = 0 then Inl (Panic ''integer divide by zero'')
        else let bucketNumber = int (unat bucketHash) smod n + 1 in
          rbind (newBucketKeyAtLowestLevel c bucketNumber) (\<lambda>bk.
            Inr \<lparr>dk_bucketKey = bk, compositeKey = ck\<rparr>)))"

definition encodeBucketNumber :: "int \<Rightarrow> bytes" where
  "encodeBucketNumber bucketNumber = EncodeOrderPreservingVarUint64 (word_of_int bucketNumber)"

definition decodeBucketNumber :: "bytes \<Rightarrow> gerr + int \<times> nat" where
  "decodeBucketNumber encodedBytes =
     rbind (DecodeOrderPreservingVarUint64 encodedBytes) (\<lambda>(bucketNum, bytesConsumed).
       Inr (sint bucketNum, bytesConsumed))"

definition minimumPossibleDataKeyBytesFor :: "bucketKey \<Rightarrow> bytes" where
  "minimumPossibleDataKeyBytesFor bk = encodeBucketNumber (bk_number bk) @ [0]"

definition minimumPossibleDataKeyBytes :: "int \<Rightarrow> gostring \<Rightarrow> gostring \<Rightarrow> bytes" where
  "minimumPossibleDataKeyBytes bucketNumber chaincodeID key =
     encodeBucketNumber bucketNumber @ ConstructCompositeKey chaincodeID key"

definition dk_getEncodedBytes :: "dataKey \<Rightarrow> bytes" where
  "dk_getEncodedBytes k = encodeBucketNumber (bk_number (dk_bucketKey k)) @ compositeKey k"

definition newDataKeyFromEncodedBytes :: "config \<Rightarrow> bytes \<Rightarrow> gerr + dataKey" where
  "newDataKeyFromEncodedBytes c encodedBytes =
     rbind (decodeBucketNumber encodedBytes) (\<lambda>(bucketNum, l).
       rbind (newBucketKeyAtLowestLevel c bucketNum) (\<lambda>bk.
         Inr \<lparr>dk_bucketKey = bk, compositeKey = drop l encodedBytes\<rparr>))"

definition dn_isDelete :: "dataNode \<Rightarrow> bool" where
  "dn_isDelete dn = IsNil (dn_value dn)"

definition dn_getKeyElements :: "dataNode \<Rightarrow> gerr + gostring \<times> gostring" where
  "dn_getKeyElements dn = DecodeCompositeKey (compositeKey (dn_key dn))"

subsection \<open>The hash of a bucket's contents\<close>

record bucketHashCalculator =
  currentChaincodeID :: gostring
  calc_dataNodes :: "dataNode list"
  hashingData :: bytes

definition newBucketHashCalculator :: bucketHashCalculator where
  "newBucketHashCalculator = \<lparr>currentChaincodeID = [], calc_dataNodes = [], hashingData = []\<rparr>"

definition appendSize :: "bucketHashCalculator \<Rightarrow> nat \<Rightarrow> bucketHashCalculator" where
  "appendSize calc n = calc\<lparr>hashingData := hashingData calc @ EncodeVarint (of_nat n)\<rparr>"

definition appendSizeAndData :: "bucketHashCalculator \<Rightarrow> bytes \<Rightarrow> bucketHashCalculator" where
  "appendSizeAndData calc b =
     (let calc = appendSize calc (length b) in calc\<lparr>hashingData := hashingData calc @ b\<rparr>)"

definition appendCurrentChaincodeData :: "bucketHashCalculator \<Rightarrow> gerr + bucketHashCalculator" where
  "appendCurrentChaincodeData calc =
     (if currentChaincodeID calc = [] then Inr calc
      else rfold (\<lambda>calc dn. rbind (dn_getKeyElements dn) (\<lambda>(_, key).
             Inr (appendSizeAndData (appendSizeAndData calc key) (sbytes (dn_value dn)))))
           (calc_dataNodes calc)
           (appendSize (appendSizeAndData calc (currentChaincodeID calc)) (length (calc_dataNodes calc))))"

definition addNextNode :: "bucketHashCalculator \<Rightarrow> dataNode \<Rightarrow> gerr + bucketHashCalculator" where
  "addNextNode calc dn =
     rbind (dn_getKeyElements dn) (\<lambda>(chaincodeID, _).
     rbind (if chaincodeID \<noteq> currentChaincodeID calc
        then rbind (appendCurrentChaincodeData calc) (\<lambda>calc.
          Inr (calc\<lparr>currentChaincodeID := chaincodeID, calc_dataNodes := []\<rparr>))
        else Inr calc) (\<lambda>calc.
     Inr (calc\<lparr>calc_dataNodes := calc_dataNodes calc @ [dn]\<rparr>)))"

definition calc_computeCryptoHash :: "(bytes \<Rightarrow> bytes) \<Rightarrow> bucketHashCalculator \<Rightarrow> gerr + slice" where
  "calc_computeCryptoHash H calc =
     rbind (if currentChaincodeID calc \<noteq> []
        then rbind (appendCurrentChaincodeData calc) (\<lambda>calc.
          Inr (calc\<lparr>currentChaincodeID := [], calc_dataNodes := []\<rparr>))
        else Inr calc) (\<lambda>calc.
     Inr (if hashingData calc = [] then None else Some (H (hashingData calc))))"

text \<open>
  The merge of the updated with the stored nodes of a bucket: both are sorted by composite key,
  an updated node hides the stored one of the same key, and nodes without a value are skipped.
\<close>

definition addUnlessDelete :: "bucketHashCalculator \<Rightarrow> dataNode \<Rightarrow> gerr + bucketHashCalculator" where
  "addUnlessDelete calc dn = (if \<not> dn_isDelete dn then addNextNode calc dn else Inr calc)"

fun mergeLoop ::
  "bucketHashCalculator \<Rightarrow> dataNode list \<Rightarrow> dataNode list \<Rightarrow> gerr + bucketHashCalculator" where
  "mergeLoop calc (u # us) (e # es) =
     (if compositeKey (dn_key u) < compositeKey (dn_key e)
      then rbind (addUnlessDelete calc u) (\<lambda>calc. mergeLoop calc us (e # es))
      else if compositeKey (dn_key u) = compositeKey (dn_key e)
      then rbind (addUnlessDelete calc u) (\<lambda>calc. mergeLoop calc us es)
      else rbind (addUnlessDelete calc e) (\<lambda>calc. mergeLoop calc (u # us) es))"
| "mergeLoop calc us es = rfold addUnlessDelete (if us \<noteq> [] then us else es) calc"

definition computeDataNodesCryptoHash ::
  "(bytes \<Rightarrow> bytes) \<Rightarrow> dataNode list \<Rightarrow> dataNode list \<Rightarrow> gerr + slice" where
  "computeDataNodesCryptoHash H updatedNodes existingNodes =
     rbind (mergeLoop newBucketHashCalculator updatedNodes existingNodes) (calc_computeCryptoHash H)"

subsection \<open>The delta of the data nodes\<close>

record dataNodesDelta =
  byBucket :: "(bucketKey, dataNode list) gomap"

definition dataNodesDelta_add ::
  "config \<Rightarrow> dataNodesDelta \<Rightarrow> gostring \<Rightarrow> gostring \<Rightarrow> slice \<Rightarrow> gerr + dataNodesDelta" where
  "dataNodesDelta_add c dnd chaincodeID key val =
     rbind (newDataKey c chaincodeID key) (\<lambda>dk.
       let bk = dk_bucketKey dk; dn = \<lparr>dn_key = dk, dn_value = val\<rparr>;
           old = (case mget (byBucket dnd) bk of Some ns \<Rightarrow> ns | None \<Rightarrow> [])
       in Inr (dnd\<lparr>byBucket := mput bk (old @ [dn]) (byBucket dnd)\<rparr>))"

definition newDataNodesDelta :: "config \<Rightarrow> StateDelta \<Rightarrow> gerr + dataNodesDelta" where
  "newDataNodesDelta c sd =
     rbind (rfold (\<lambda>dnd chaincodeID.
         rfold (\<lambda>dnd (key, uv).
             dataNodesDelta_add c dnd chaincodeID key
               (if RollBackwards sd then UpdatedValue_GetPreviousValue uv else UpdatedValue_GetValue uv))
           (case StateDelta_GetUpdates sd chaincodeID of Some m \<Rightarrow> m | None \<Rightarrow> []) dnd)
       (StateDelta_GetUpdatedChaincodeIds sd False) \<lparr>byBucket = []\<rparr>)
     (\<lambda>dnd. Inr (dnd\<lparr>byBucket :=
        map (\<lambda>(bk, ns). (bk, sort_key (\<lambda>n. compositeKey (dn_key n)) ns)) (byBucket dnd)\<rparr>))"

fun getAffectedBuckets_loop :: "config \<Rightarrow> bucketKey list \<Rightarrow> gerr + bucketKey list" where
  "getAffectedBuckets_loop c [] = Inr []"
| "getAffectedBuckets_loop c (bk # bks) =
     rbind (bk_clone c bk) (\<lambda>copy. rbind (getAffectedBuckets_loop c bks) (\<lambda>rest. Inr (copy # rest)))"

definition getAffectedBuckets :: "config \<Rightarrow> dataNodesDelta \<Rightarrow> gerr + bucketKey list" where
  "getAffectedBuckets c dnd = getAffectedBuckets_loop c (map fst (byBucket dnd))"

definition getSortedDataNodesFor :: "dataNodesDelta \<Rightarrow> bucketKey \<Rightarrow> dataNode list" where
  "getSortedDataNodesFor dnd bk = (case mget (byBucket dnd) bk of Some ns \<Rightarrow> ns | None \<Rightarrow> [])"

subsection \<open>The delta of the bucket tree\<close>

record bucketTreeDelta =
  byLevel :: "(int, (int, bucketNode) gomap) gomap"

definition newBucketTreeDelta :: bucketTreeDelta where
  "newBucketTreeDelta = \<lparr>byLevel = []\<rparr>"

definition btd_level :: "bucketTreeDelta \<Rightarrow> int \<Rightarrow> (int, bucketNode) gomap" where
  "btd_level btd level = (case mget (byLevel btd) level of Some m \<Rightarrow> m | None \<Rightarrow> [])"

text \<open>
  The code hands out pointers to the nodes of the delta and mutates them in place; the model
  returns the node and stores the changed one back with \<open>putBucketNode\<close>.
\<close>

definition putBucketNode :: "bucketTreeDelta \<Rightarrow> bucketNode \<Rightarrow> bucketTreeDelta" where
  "putBucketNode btd bn =
     btd\<lparr>byLevel := mput (bk_level (bn_key bn))
        (mput (bk_number (bn_key bn)) bn (btd_level btd (bk_level (bn_key bn)))) (byLevel btd)\<rparr>"

definition getOrCreateBucketNode ::
  "config \<Rightarrow> bucketTreeDelta \<Rightarrow> bucketKey \<Rightarrow> bucketNode \<times> bucketTreeDelta" where
  "getOrCreateBucketNode c btd bk =
     (case mget (btd_level btd (bk_level bk)) (bk_number bk) of
        Some bn \<Rightarrow> (bn, btd)
      | None \<Rightarrow> let bn = newBucketNode c bk in (bn, putBucketNode btd bn))"

definition btd_isEmpty :: "bucketTreeDelta \<Rightarrow> bool" where
  "btd_isEmpty btd = (byLevel btd = [])"

definition getBucketNodesAt :: "bucketTreeDelta \<Rightarrow> int \<Rightarrow> bucketNode list" where
  "getBucketNodesAt btd level = map snd (btd_level btd level)"

definition getRootNode :: "bucketTreeDelta \<Rightarrow> gerr + bucketNode" where
  "getRootNode btd =
     (case getBucketNodesAt btd 0 of
        [] \<Rightarrow> Inl (Panic ''This method should be called after processing is completed'')
      | bn # _ \<Rightarrow> Inr bn)"

subsection \<open>Reads from the database\<close>

definition fetchDataNodeFromDB :: "'db gorocksdb \<Rightarrow> 'db \<Rightarrow> dataKey \<Rightarrow> gerr + dataNode option" where
  "fetchDataNodeFromDB D db dk =
     rbind (GetFromStateCF D db (dk_getEncodedBytes dk)) (\<lambda>nodeBytes.
       if IsNil nodeBytes then Inr None else Inr (Some \<lparr>dn_key = dk, dn_value = nodeBytes\<rparr>))"

definition fetchBucketNodeFromDB ::
  "config \<Rightarrow> 'db gorocksdb \<Rightarrow> 'db \<Rightarrow> bucketKey \<Rightarrow> gerr + bucketNode option" where
  "fetchBucketNodeFromDB c D db bk =
     rbind (GetFromStateCF D db (bk_getEncodedBytes bk)) (\<lambda>nodeBytes.
       if IsNil nodeBytes then Inr None
       else rbind (unmarshalBucketNode c bk (sbytes nodeBytes)) (\<lambda>bn. Inr (Some bn)))"

fun fetchDataNodes_loop ::
  "config \<Rightarrow> bucketKey \<Rightarrow> (bytes \<times> bytes) list \<Rightarrow> dataNode list \<Rightarrow> gerr + dataNode list" where
  "fetchDataNodes_loop c bk [] dns = Inr dns"
| "fetchDataNodes_loop c bk ((keyBytes, valueBytes) # itr) dns =
     rbind (newDataKeyFromEncodedBytes c keyBytes) (\<lambda>dk.
       if \<not> bk_equals (dk_bucketKey dk) bk then Inr dns
       else fetchDataNodes_loop c bk itr (dns @ [\<lparr>dn_key = dk, dn_value = Some valueBytes\<rparr>]))"

definition fetchDataNodesFromDBFor ::
  "config \<Rightarrow> 'db gorocksdb \<Rightarrow> 'db \<Rightarrow> bucketKey \<Rightarrow> gerr + dataNode list" where
  "fetchDataNodesFromDBFor c D db bk =
     fetchDataNodes_loop c bk (Seek D db StateCF (minimumPossibleDataKeyBytesFor bk)) []"

subsection \<open>Well-formed configurations\<close>

text \<open>The number of buckets at a level, and what the rest of the development needs of a
  configuration; \<open>newConfig_wf\<close> shows that \<open>newConfig\<close> establishes it.\<close>

definition nb :: "config \<Rightarrow> int \<Rightarrow> int" where
  "nb c level = (case mget (levelToNumBucketsMap c) level of Some n \<Rightarrow> n | None \<Rightarrow> 0)"

definition ceil_div :: "int \<Rightarrow> int \<Rightarrow> int" where
  "ceil_div n g = (n + g - 1) div g"

definition conf_wf :: "config \<Rightarrow> bool" where
  "conf_wf c \<longleftrightarrow> 2 \<le> maxGroupingAtEachLevel c \<and> 1 \<le> lowestLevel c \<and> nb c 0 = 1 \<and>
     (\<forall>l. 0 \<le> l \<and> l < lowestLevel c \<longrightarrow> nb c l = ceil_div (nb c (l + 1)) (maxGroupingAtEachLevel c)) \<and>
     (\<forall>l. 0 \<le> l \<and> l \<le> lowestLevel c \<longrightarrow> 1 \<le> nb c l \<and> nb c l \<le> nb c (lowestLevel c)) \<and>
     lowestLevel c < 2 ^ 63 \<and> nb c (lowestLevel c) + maxGroupingAtEachLevel c < 2 ^ 63"

lemma conf_wfD:
  assumes "conf_wf c"
  shows conf_grouping: "2 \<le> maxGroupingAtEachLevel c"
    and conf_lowest: "1 \<le> lowestLevel c" "lowestLevel c < 2 ^ 63"
    and conf_root: "nb c 0 = 1"
    and conf_level: "0 \<le> l \<Longrightarrow> l < lowestLevel c \<Longrightarrow>
      nb c l = ceil_div (nb c (l + 1)) (maxGroupingAtEachLevel c)"
    and conf_pos: "0 \<le> l \<Longrightarrow> l \<le> lowestLevel c \<Longrightarrow> 1 \<le> nb c l"
    and conf_max: "0 \<le> l \<Longrightarrow> l \<le> lowestLevel c \<Longrightarrow> nb c l \<le> nb c (lowestLevel c)"
    and conf_bound: "nb c (lowestLevel c) + maxGroupingAtEachLevel c < 2 ^ 63"
  using assms by (auto simp: conf_wf_def)

lemma trunc_div_pos:
  assumes "0 \<le> n" and "0 < (g :: int)"
  shows "n sdiv g = n div g" and "n smod g = n mod g"
  using assms by (simp_all add: signed_divide_int_def signed_modulo_int_def sgn_if)

lemma ceil_div_eq:
  assumes "0 \<le> n" and "0 < g"
  shows "(if n smod g \<noteq> 0 then n sdiv g + 1 else n sdiv g) = ceil_div n g"
proof (cases "n mod g = 0")
  case True
  then obtain k where "n = g * k" by (auto simp: mod_eq_0_iff_dvd elim: dvdE)
  then have "n + g - 1 = (g - 1) + k * g" by (simp add: algebra_simps)
  then have "ceil_div n g = k + (g - 1) div g"
    using assms(2) by (simp only: ceil_div_def div_mult_self1)
  then have "ceil_div n g = k"
    using assms(2) by (simp add: div_pos_pos_trivial)
  with True \<open>n = g * k\<close> assms show ?thesis by (simp add: trunc_div_pos)
next
  case False
  have "n + g - 1 = (n mod g - 1) + (n div g + 1) * g"
    by (simp add: algebra_simps)
  then have "ceil_div n g = n div g + 1 + (n mod g - 1) div g"
    using assms(2) by (simp only: ceil_div_def div_mult_self1)
  moreover have "(n mod g - 1) div g = 0"
    using assms(2) False pos_mod_bound [of g n] pos_mod_sign [of g n]
    by (intro div_pos_pos_trivial) linarith+
  ultimately have "ceil_div n g = n div g + 1" by simp
  with False assms show ?thesis by (simp add: trunc_div_pos)
qed

lemma ceil_div_bounds:
  assumes "1 < n" and "2 \<le> g"
  shows "1 \<le> ceil_div n g" and "ceil_div n g < n"
proof -
  show "1 \<le> ceil_div n g"
    unfolding ceil_div_def using assms by (simp add: pos_imp_zdiv_pos_iff int_one_le_iff_zero_less)
  have "n + g - 1 < n * g"
  proof -
    have "0 \<le> (n - 2) * (g - 2)" using assms by simp
    then show ?thesis using assms by (simp add: algebra_simps)
  qed
  moreover have "ceil_div n g * g \<le> n + g - 1"
    unfolding ceil_div_def using div_mult_mod_eq [of "n + g - 1" g] pos_mod_sign [of g "n + g - 1"] assms by linarith
  ultimately have "ceil_div n g * g < n * g" by linarith
  then show "ceil_div n g < n" using assms by simp
qed

lemma newConfig_loop_step:
  assumes "1 < n" and "2 \<le> g"
  shows "newConfig_loop g n l m =
    newConfig_loop g (ceil_div n g) (l + 1) (mput (l + 1) (ceil_div n g) m)"
  using assms ceil_div_eq [of n g] by (subst newConfig_loop.simps) (simp add: Let_def)

text \<open>The level table while the loop runs: levels \<open>0\<close> to \<open>l\<close>, counted from the leaves.\<close>

definition table_ok :: "int \<Rightarrow> int \<Rightarrow> int \<Rightarrow> (int, int) gomap \<Rightarrow> bool" where
  "table_ok g n0 l m \<longleftrightarrow> gomap_ok m \<and> 0 \<le> l \<and> mget m 0 = Some n0 \<and>
     (\<forall>k. 0 \<le> k \<and> k < l \<longrightarrow> (\<exists>v. mget m k = Some v \<and> mget m (k + 1) = Some (ceil_div v g))) \<and>
     (\<forall>k v. mget m k = Some v \<longrightarrow> 0 \<le> k \<and> k \<le> l \<and> 1 \<le> v \<and> v \<le> n0)"

lemma table_ok_step:
  assumes "table_ok g n0 l m" and "mget m l = Some n" and "1 < n" and "2 \<le> g"
  shows "table_ok g n0 (l + 1) (mput (l + 1) (ceil_div n g) m)"
proof -
  note t = assms(1) [unfolded table_ok_def]
  have n: "n \<le> n0" "0 \<le> l" using t assms(2) by auto
  note b = ceil_div_bounds [OF assms(3,4)]
  let ?m = "mput (l + 1) (ceil_div n g) m"
  have steps: "\<exists>v. mget ?m k = Some v \<and> mget ?m (k + 1) = Some (ceil_div v g)"
    if "0 \<le> k" "k < l + 1" for k
  proof (cases "k = l")
    case True
    with assms(2) show ?thesis by simp
  next
    case False
    with that t have "\<exists>v. mget m k = Some v \<and> mget m (k + 1) = Some (ceil_div v g)" by simp
    with False that show ?thesis by simp
  qed
  have vals: "0 \<le> k \<and> k \<le> l + 1 \<and> 1 \<le> v \<and> v \<le> n0" if "mget ?m k = Some v" for k v
  proof (cases "k = l + 1")
    case True
    with that n b show ?thesis by simp
  next
    case False
    with that have "mget m k = Some v" by simp
    with t have "0 \<le> k \<and> k \<le> l \<and> 1 \<le> v \<and> v \<le> n0" by blast
    then show ?thesis by simp
  qed
  from n have "l + 1 \<noteq> 0" by simp
  with t n steps vals show ?thesis
    unfolding table_ok_def by simp
qed

lemma newConfig_loop_terminates:
  assumes "table_ok g n0 l m" and "mget m l = Some n" and "2 \<le> g"
  shows "\<exists>L m'. newConfig_loop g n l m = Some (Inr (L, m')) \<and> table_ok g n0 L m' \<and>
    mget m' L = Some 1 \<and> l \<le> L \<and> L - l < n"
  using assms
proof (induction "nat n" arbitrary: n l m rule: less_induct)
  case less
  then have "1 \<le> n" by (auto simp: table_ok_def)
  show ?case
  proof (cases "1 < n")
    case True
    note b = ceil_div_bounds [OF True \<open>2 \<le> g\<close>]
    have "\<exists>L m'. newConfig_loop g (ceil_div n g) (l + 1) (mput (l + 1) (ceil_div n g) m) =
        Some (Inr (L, m')) \<and> table_ok g n0 L m' \<and> mget m' L = Some 1 \<and> l + 1 \<le> L \<and>
        L - (l + 1) < ceil_div n g"
      by (rule less.hyps) (use b less.prems True table_ok_step in auto)
    then obtain L m' where "newConfig_loop g (ceil_div n g) (l + 1) (mput (l + 1) (ceil_div n g) m) =
        Some (Inr (L, m'))" "table_ok g n0 L m'" "mget m' L = Some 1" "l + 1 \<le> L"
        "L - (l + 1) < ceil_div n g" by blast
    moreover from this b have "L - l < n" "l \<le> L" by linarith+
    ultimately show ?thesis
      by (auto simp: newConfig_loop_step [OF True \<open>2 \<le> g\<close>])
  next
    case False
    with \<open>1 \<le> n\<close> have "n = 1" by simp
    then show ?thesis
      using less.prems by (subst newConfig_loop.simps) auto
  qed
qed

lemma mget_flip:
  assumes "gomap_ok m"
  shows "mget (foldl (\<lambda>a (k, v). mput (L - k) v a) acc m) l =
    (case mget m (L - l) of Some v \<Rightarrow> Some v | None \<Rightarrow> mget acc (l :: int))"
  using assms
proof (induction m arbitrary: acc)
  case Nil
  then show ?case by simp
next
  case (Cons x m)
  obtain k v where x: "x = (k, v)" by force
  from Cons.prems x have "mget m k = None" by (auto simp: gomap_ok_def map_of_eq_None_iff)
  with Cons.IH [of "mput (L - k) v acc"] Cons.prems x show ?case
    by (auto simp: gomap_ok_def split: option.splits)
qed

lemma newConfig_wf:
  assumes "2 \<le> n" and "2 \<le> g" and "n + g < 2 ^ 63"
  shows "\<exists>c. newConfig n g hf = Some (Inr c) \<and> conf_wf c \<and> nb c (lowestLevel c) = n \<and>
    maxGroupingAtEachLevel c = g \<and> hashFunc c = hf"
proof -
  have t0: "table_ok g n 0 [(0, n)]"
    using assms by (auto simp: table_ok_def gomap_ok_def)
  from newConfig_loop_terminates [OF t0 _ assms(2)] obtain L m where
    run: "newConfig_loop g n 0 [(0, n)] = Some (Inr (L, m))" and t: "table_ok g n L m"
    and top: "mget m L = Some 1" and L: "0 \<le> L" "L < n" by auto
  let ?c = "\<lparr>maxGroupingAtEachLevel = g, lowestLevel = L,
    levelToNumBucketsMap = foldl (\<lambda>m (k, v). mput (L - k) v m) [] m, hashFunc = hf\<rparr>"
  have nb: "nb ?c l = (case mget m (L - l) of Some v \<Rightarrow> v | None \<Rightarrow> 0)" for l
    using t by (simp add: nb_def mget_flip table_ok_def split: option.splits)
  have pos: "1 \<le> L"
  proof (rule ccontr)
    assume "\<not> 1 \<le> L"
    with L have "L = 0" by simp
    with top t assms(1) show False by (auto simp: table_ok_def)
  qed
  have def: "mget m k \<noteq> None" if "0 \<le> k" "k \<le> L" for k
    using t top that by (cases "k = L") (force simp: table_ok_def)+
  have step: "nb ?c l = ceil_div (nb ?c (l + 1)) g" if "0 \<le> l" "l < L" for l
  proof -
    from t have "\<forall>k. 0 \<le> k \<and> k < L \<longrightarrow>
        (\<exists>v. mget m k = Some v \<and> mget m (k + 1) = Some (ceil_div v g))"
      unfolding table_ok_def by blast
    from this [rule_format, of "L - (l + 1)"] that obtain v where
      "mget m (L - (l + 1)) = Some v" and "mget m (L - l) = Some (ceil_div v g)" by auto
    then show ?thesis by (simp add: nb)
  qed
  have range: "1 \<le> nb ?c l \<and> nb ?c l \<le> n" if "0 \<le> l" "l \<le> L" for l
    using def [of "L - l"] that t by (auto simp: nb table_ok_def)
  have low: "nb ?c L = n" using t by (simp add: nb table_ok_def)
  have "conf_wf ?c"
    using assms L pos step range low top by (auto simp: conf_wf_def nb)
  with run low show ?thesis
    by (auto simp: newConfig_def)
qed

text \<open>With groups of one the loop never shrinks the level: it does not return.\<close>

lemma newConfig_loop_one_diverges:
  assumes "newConfig_loop 1 n l m = Some r"
  shows "n \<le> 1"
proof -
  have "g = 1 \<longrightarrow> n \<le> 1" if "newConfig_loop g n l m = Some r" for g n l m r
    using that
    by (rule newConfig_loop.raw_induct [rotated, where P = "\<lambda>g n l m r. g = 1 \<longrightarrow> n \<le> 1"])
      (fastforce simp: Let_def signed_divide_int_def signed_modulo_int_def split: if_splits)
  with assms show ?thesis by blast
qed

end
