(* ===== verification/BucketMerkle.thy ===== *)
theory BucketMerkle
  imports BucketTree
begin

text \<open>
  The laws of the bucket tree's parts. Keys: parents, children and the encodings of bucket and
  data keys, whose ranges are disjoint and whose order follows the bucket numbers. The bucket
  hash: the calculator agrees with a reference that groups the entries by chaincode, and what
  it hashes determines the entries. The Merkle tree: \<open>node_hash\<close> is the hash of a node
  computed from the whole state, which the incremental algorithm must reproduce.
\<close>

named_theorems bucket_simps \<open>operations on valid bucket keys\<close>

subsection \<open>Bucket numbers\<close>

definition valid_bk :: "config \<Rightarrow> int \<Rightarrow> int \<Rightarrow> bool" where
  "valid_bk c l b \<longleftrightarrow> 0 \<le> l \<and> l \<le> lowestLevel c \<and> 1 \<le> b \<and> b \<le> nb c l"

definition bkey :: "int \<Rightarrow> int \<Rightarrow> bucketKey" where
  "bkey l b = \<lparr>bk_level = l, bk_number = b\<rparr>"

definition child_no :: "config \<Rightarrow> int \<Rightarrow> nat \<Rightarrow> int" where
  "child_no c b i = (b - 1) * maxGroupingAtEachLevel c + 1 + int i"

definition parent_no :: "config \<Rightarrow> int \<Rightarrow> int" where
  "parent_no c n = ceil_div n (maxGroupingAtEachLevel c)"

definition child_ix :: "config \<Rightarrow> int \<Rightarrow> nat" where
  "child_ix c n = nat ((n - 1) mod maxGroupingAtEachLevel c)"

abbreviation grouping :: "config \<Rightarrow> nat" where
  "grouping c \<equiv> nat (maxGroupingAtEachLevel c)"

lemma bkey_sel [simp]: "bk_level (bkey l b) = l" "bk_number (bkey l b) = b"
  by (simp_all add: bkey_def)

lemma bkey_inj [simp]: "bkey l b = bkey l' b' \<longleftrightarrow> l = l' \<and> b = b'"
  by (auto simp: bkey_def)

lemma bk_equals_iff [bucket_simps, simp]: "bk_equals a b \<longleftrightarrow> a = (b :: bucketKey)"
  by (auto simp: bk_equals_def)

lemma getNumBuckets_valid [bucket_simps]:
  "0 \<le> l \<Longrightarrow> l \<le> lowestLevel c \<Longrightarrow> getNumBuckets c l = Inr (nb c l)"
  by (simp add: getNumBuckets_def nb_def)

lemma newBucketKey_valid [bucket_simps]: "valid_bk c l b \<Longrightarrow> newBucketKey c l b = Inr (bkey l b)"
  by (simp add: newBucketKey_def valid_bk_def getNumBuckets_valid bkey_def)

lemma newBucketKey_cases:
  "newBucketKey c l b = (if valid_bk c l b then Inr (bkey l b) else newBucketKey c l b)"
  "newBucketKey c l b = Inr k \<longleftrightarrow> valid_bk c l b \<and> k = bkey l b"
  by (auto simp: newBucketKey_def valid_bk_def getNumBuckets_valid bkey_def)

lemma bk_clone_valid [bucket_simps]: "valid_bk c l b \<Longrightarrow> bk_clone c (bkey l b) = Inr (bkey l b)"
  by (simp add: bk_clone_def newBucketKey_valid)

lemma ceil_div_minus: "0 < g \<Longrightarrow> ceil_div n g = (n - 1) div g + 1"
  by (simp add: ceil_div_def) (metis add.commute add_diff_eq diff_add_eq div_add_self2 less_irrefl)

lemma child_split: "conf_wf c \<Longrightarrow> n = child_no c (parent_no c n) (child_ix c n)"
  using conf_grouping [of c]
  by (simp add: child_no_def parent_no_def child_ix_def ceil_div_minus)

lemma child_ix_less: "conf_wf c \<Longrightarrow> child_ix c n < grouping c"
  using conf_grouping [of c] by (simp add: child_ix_def nat_less_eq_zless)

lemma parent_of_child [simp]:
  assumes "conf_wf c" and "i < grouping c"
  shows "parent_no c (child_no c b i) = b" and "child_ix c (child_no c b i) = i"
proof -
  let ?g = "maxGroupingAtEachLevel c"
  have g: "0 < ?g" and i: "int i < ?g" using conf_grouping [OF assms(1)] assms(2) by auto
  have "child_no c b i - 1 = int i + (b - 1) * ?g" by (simp add: child_no_def)
  with g i show "parent_no c (child_no c b i) = b" "child_ix c (child_no c b i) = i"
    by (simp_all add: parent_no_def child_ix_def ceil_div_minus)
qed

lemma child_no_eq_iff:
  assumes "conf_wf c" and "i < grouping c" and "j < grouping c"
  shows "child_no c b i = child_no c b' j \<longleftrightarrow> b = b' \<and> i = j"
  using parent_of_child [OF assms(1,2), of b] parent_of_child [OF assms(1,3), of b'] by metis

lemma ceil_div_mono: "0 < g \<Longrightarrow> m \<le> n \<Longrightarrow> ceil_div m g \<le> ceil_div n (g :: int)"
  by (simp add: ceil_div_def zdiv_mono1)

lemma valid_parent:
  assumes "conf_wf c" and "valid_bk c (l + 1) n" and "0 \<le> l"
  shows "valid_bk c l (parent_no c n)"
proof -
  have g: "0 < maxGroupingAtEachLevel c" using conf_grouping [OF assms(1)] by simp
  have "parent_no c n \<le> nb c l"
    using assms conf_level [OF assms(1,3)] ceil_div_mono [OF g, of n "nb c (l + 1)"]
    by (simp add: valid_bk_def parent_no_def)
  moreover have "1 \<le> parent_no c n"
    using assms(2) g by (simp add: parent_no_def ceil_div_minus valid_bk_def pos_imp_zdiv_nonneg_iff)
  ultimately show ?thesis using assms by (simp add: valid_bk_def)
qed

lemma valid_child_bounds:
  assumes "conf_wf c" and "valid_bk c l b" and "i < grouping c"
  shows "1 \<le> child_no c b i"
proof -
  have "0 \<le> (b - 1) * maxGroupingAtEachLevel c"
    using assms conf_grouping [OF assms(1)] by (simp add: valid_bk_def)
  then show ?thesis by (simp add: child_no_def)
qed

lemma computeParentBucketNumber_eq [bucket_simps]:
  "conf_wf c \<Longrightarrow> 0 \<le> n \<Longrightarrow> computeParentBucketNumber c n = Inr (parent_no c n)"
  using conf_grouping [of c] ceil_div_eq [of n "maxGroupingAtEachLevel c"]
  by (simp add: computeParentBucketNumber_def parent_no_def Let_def)

lemma getParentKey_valid [bucket_simps]:
  assumes "conf_wf c" and "valid_bk c (l + 1) n" and "0 \<le> l"
  shows "getParentKey c (bkey (l + 1) n) = Inr (bkey l (parent_no c n))"
  using valid_parent [OF assms] assms
  by (simp add: getParentKey_def computeParentBucketNumber_eq newBucketKey_valid valid_bk_def)

lemma getChildIndex_valid [bucket_simps]:
  assumes "conf_wf c"
  shows "getChildIndex c (bkey l (parent_no c n)) (bkey (l + 1) n) = Inr (int (child_ix c n))"
proof -
  let ?b = "parent_no c n" and ?i = "child_ix c n" and ?g = "maxGroupingAtEachLevel c"
  have "n = (?b - 1) * ?g + 1 + int ?i" using child_split [OF assms, of n] by (simp add: child_no_def)
  moreover have "int ?i < ?g" using child_ix_less [OF assms, of n] by simp
  moreover have "?b * ?g = (?b - 1) * ?g + ?g" by (simp add: algebra_simps)
  ultimately have "\<not> (n < (?b - 1) * ?g + 1 \<or> n > ?b * ?g)" "n - ((?b - 1) * ?g + 1) = int ?i"
    by linarith+
  then show ?thesis by (simp add: getChildIndex_def Let_def)
qed

lemma getChildKey_eq: "getChildKey c (bkey l b) (int i) = newBucketKey c (l + 1) (child_no c b i)"
  by (simp add: getChildKey_def child_no_def)

text \<open>No intermediate value of these computations leaves the range of a 64-bit \<open>int\<close>.\<close>

lemma bucket_arith_bounds:
  assumes "conf_wf c" and "valid_bk c l b" and "l < lowestLevel c"
  shows "b * maxGroupingAtEachLevel c < 2 ^ 63"
proof -
  let ?g = "maxGroupingAtEachLevel c"
  have g: "0 < ?g" using conf_grouping [OF assms(1)] by simp
  have l: "0 \<le> l" "b \<le> nb c l" using assms(2) by (auto simp: valid_bk_def)
  have "b \<le> ceil_div (nb c (l + 1)) ?g" using conf_level [OF assms(1) l(1) assms(3)] l by simp
  then have "b * ?g \<le> ceil_div (nb c (l + 1)) ?g * ?g" using g by simp
  also have "\<dots> \<le> nb c (l + 1) + ?g - 1"
    unfolding ceil_div_def
    using div_mult_mod_eq [of "nb c (l + 1) + ?g - 1" ?g] pos_mod_sign [of ?g "nb c (l + 1) + ?g - 1"] g
    by linarith
  also have "\<dots> < 2 ^ 63"
    using conf_max [OF assms(1), of "l + 1"] conf_bound [OF assms(1)] l assms(3) by linarith
  finally show ?thesis .
qed

subsection \<open>Encoded keys\<close>

lemma word_of_int_u64:
  assumes "0 \<le> x" and "x < 2 ^ 63"
  shows "unat (word_of_int x :: u64) = nat x" and "sint (word_of_int x :: u64) = x"
proof -
  have "uint (word_of_int x :: u64) = x"
    using assms by (simp add: uint_word_of_int_eq take_bit_int_eq_self)
  then show "unat (word_of_int x :: u64) = nat x" by (metis nat_uint_eq)
  show "sint (word_of_int x :: u64) = x"
    using assms by (simp add: signed_of_int signed_take_bit_int_eq_self)
qed

lemma valid_bk_range:
  assumes "conf_wf c" and "valid_bk c l b"
  shows "0 \<le> l" "l < 2 ^ 63" "0 < b" "b < 2 ^ 63"
  using assms conf_lowest [OF assms(1)] conf_max [OF assms(1), of l] conf_bound [OF assms(1)]
    conf_grouping [OF assms(1)]
  by (auto simp: valid_bk_def)

lemma decodeBucketKey_encoded:
  assumes "conf_wf c" and "valid_bk c l b"
  shows "decodeBucketKey (bk_getEncodedBytes (bkey l b)) = Inr (bkey l b)"
proof -
  note r = valid_bk_range [OF assms]
  let ?l = "word_of_int l :: u64" and ?b = "word_of_int b :: u64"
  have "DecodeVarint (EncodeVarint ?l @ EncodeVarint ?b) = (?l, length (EncodeVarint ?l))"
    "DecodeVarint (EncodeVarint ?b) = (?b, length (EncodeVarint ?b))"
    using DecodeVarint_EncodeVarint [of ?l "EncodeVarint ?b"] DecodeVarint_EncodeVarint [of ?b "[]"]
    by simp_all
  then show ?thesis
    using r word_of_int_u64(2) [of l] word_of_int_u64(2) [of b]
    by (simp add: decodeBucketKey_def bk_getEncodedBytes_def bkey_def)
qed

lemma bk_encoded_inj:
  assumes "conf_wf c" "valid_bk c l b" "valid_bk c l' b'"
    and "bk_getEncodedBytes (bkey l b) = bk_getEncodedBytes (bkey l' b')"
  shows "l = l' \<and> b = b'"
  using decodeBucketKey_encoded [OF assms(1,2)] decodeBucketKey_encoded [OF assms(1,3)] assms(4)
  by (metis bkey_inj sum.inject(2))

definition bucket_no :: "config \<Rightarrow> bytes \<Rightarrow> int" where
  "bucket_no c ck = int (unat (hashFunc c ck)) mod nb c (lowestLevel c) + 1"

definition dkey :: "config \<Rightarrow> bytes \<Rightarrow> bytes" where
  "dkey c ck = encodeBucketNumber (bucket_no c ck) @ ck"

definition data_key :: "config \<Rightarrow> bytes \<Rightarrow> dataKey" where
  "data_key c ck = \<lparr>dk_bucketKey = bkey (lowestLevel c) (bucket_no c ck), compositeKey = ck\<rparr>"

lemma data_key_sel [simp]:
  "compositeKey (data_key c ck) = ck"
  "dk_bucketKey (data_key c ck) = bkey (lowestLevel c) (bucket_no c ck)"
  by (simp_all add: data_key_def)

lemma bucket_no_valid:
  assumes "conf_wf c"
  shows "valid_bk c (lowestLevel c) (bucket_no c ck)"
proof -
  have n: "0 < nb c (lowestLevel c)" "0 \<le> lowestLevel c"
    using conf_lowest [OF assms] conf_pos [OF assms, of "lowestLevel c"] by auto
  then show ?thesis
    using pos_mod_bound [OF n(1), of "int (unat (hashFunc c ck))"]
      pos_mod_sign [OF n(1), of "int (unat (hashFunc c ck))"]
    unfolding valid_bk_def bucket_no_def by linarith
qed

lemma newDataKey_eq [bucket_simps]:
  assumes "conf_wf c"
  shows "newDataKey c cc k = Inr (data_key c (ConstructCompositeKey cc k))"
proof -
  have n: "1 \<le> nb c (lowestLevel c)" and l: "1 \<le> lowestLevel c"
    using assms by (simp_all add: conf_pos conf_lowest order.trans [OF zero_le_one])
  then show ?thesis
    using bucket_no_valid [OF assms, of "ConstructCompositeKey cc k"]
    by (simp add: newDataKey_def getNumBucketsAtLowestLevel_def getNumBuckets_valid trunc_div_pos
        newBucketKeyAtLowestLevel_def computeBucketHash_def bucket_no_def newBucketKey_valid
        data_key_def Let_def)
qed

lemma dk_getEncodedBytes_eq [simp]: "dk_getEncodedBytes (data_key c ck) = dkey c ck"
  by (simp add: dk_getEncodedBytes_def dkey_def)

lemma newDataKeyFromEncodedBytes_dkey [bucket_simps]:
  assumes "conf_wf c"
  shows "newDataKeyFromEncodedBytes c (dkey c ck) = Inr (data_key c ck)"
proof -
  note r = valid_bk_range [OF assms bucket_no_valid [OF assms, of ck]]
  then show ?thesis
    using word_of_int_u64(2) [of "bucket_no c ck"] bucket_no_valid [OF assms, of ck]
    by (simp add: newDataKeyFromEncodedBytes_def decodeBucketNumber_def encodeBucketNumber_def
        dkey_def DecodeOrderPreserving_Encode newBucketKeyAtLowestLevel_def newBucketKey_valid data_key_def)
qed

lemma dkey_inj [simp]: "conf_wf c \<Longrightarrow> dkey c a = dkey c b \<longleftrightarrow> a = b"
  by (metis newDataKeyFromEncodedBytes_dkey data_key_sel(1) sum.inject(2))

lemma encodeBucketNumber_less:
  assumes "0 \<le> m" "m < n" "n < 2 ^ 63"
  shows "encodeBucketNumber m @ r < encodeBucketNumber n @ r'"
  unfolding encodeBucketNumber_def
  by (rule EncodeOrderPreserving_less_append)
    (use assms in \<open>simp add: word_less_nat_alt word_of_int_u64\<close>)

lemma append_less_iff: "xs @ ys < xs @ zs \<longleftrightarrow> ys < (zs :: 'a :: linorder list)"
  by (induction xs) auto

lemma append_le_iff: "xs @ ys \<le> xs @ zs \<longleftrightarrow> ys \<le> (zs :: 'a :: linorder list)"
  by (induction xs) auto

lemma dkey_less:
  assumes "conf_wf c"
  shows "dkey c a < dkey c b \<longleftrightarrow>
    bucket_no c a < bucket_no c b \<or> bucket_no c a = bucket_no c b \<and> a < b"
proof -
  note ra = valid_bk_range [OF assms bucket_no_valid [OF assms, of a]]
  note rb = valid_bk_range [OF assms bucket_no_valid [OF assms, of b]]
  consider "bucket_no c a < bucket_no c b" | "bucket_no c b < bucket_no c a"
    | "bucket_no c a = bucket_no c b" by linarith
  then show ?thesis
  proof cases
    case 1
    with ra rb encodeBucketNumber_less [of "bucket_no c a" "bucket_no c b" a b] show ?thesis
      by (simp add: dkey_def)
  next
    case 2
    with ra rb encodeBucketNumber_less [of "bucket_no c b" "bucket_no c a" b a] show ?thesis
      by (simp add: dkey_def)
  next
    case 3
    then show ?thesis by (simp add: dkey_def append_less_iff)
  qed
qed

lemma min_key_le_dkey:
  assumes "conf_wf c" and "valid_bk c (lowestLevel c) b" and "ck \<noteq> []"
  shows "minimumPossibleDataKeyBytesFor (bkey (lowestLevel c) b) \<le> dkey c ck \<longleftrightarrow> b \<le> bucket_no c ck"
proof -
  note ra = valid_bk_range [OF assms(1) bucket_no_valid [OF assms(1), of ck]]
  note rb = valid_bk_range [OF assms(1,2)]
  have "\<not> ck < [0]"
    using assms(3) by (cases ck) auto
  consider "b < bucket_no c ck" | "bucket_no c ck < b" | "b = bucket_no c ck" by linarith
  then show ?thesis
  proof cases
    case 1
    with ra rb encodeBucketNumber_less [of b "bucket_no c ck" "[0]" ck] show ?thesis
      by (simp add: dkey_def minimumPossibleDataKeyBytesFor_def)
  next
    case 2
    with ra rb encodeBucketNumber_less [of "bucket_no c ck" b ck "[0]"] show ?thesis
      by (simp add: dkey_def minimumPossibleDataKeyBytesFor_def)
  next
    case 3
    with \<open>\<not> ck < [0]\<close> show ?thesis
      by (simp add: dkey_def minimumPossibleDataKeyBytesFor_def append_le_iff)
  qed
qed

text \<open>The encodings of data keys start with a positive size byte, those of bucket keys with 0.\<close>

lemma encodeBucketNumber_head:
  assumes "0 < b" and "b < 2 ^ 63"
  shows "\<exists>x xs. encodeBucketNumber b = x # xs \<and> x \<noteq> 0"
proof -
  let ?w = "word_of_int b :: u64"
  have "unat ?w \<noteq> 0" using assms by (simp add: word_of_int_u64)
  then have "sigbytes ?w \<noteq> []"
    using be_val_sigbytes [of ?w] by (auto simp: be_val_def)
  then have "0 < length (sigbytes ?w)" "length (sigbytes ?w) \<le> 8" using length_sigbytes by auto
  then have "(of_nat (length (sigbytes ?w)) :: byte) \<noteq> 0"
    using of_nat_byte_less [of 0 "length (sigbytes ?w)"] by auto
  then show ?thesis by (simp add: encodeBucketNumber_def EncodeOrderPreserving_eq)
qed

lemma dkey_head:
  assumes "conf_wf c"
  shows "\<exists>x xs. dkey c ck = x # xs \<and> x \<noteq> 0"
  using encodeBucketNumber_head [OF valid_bk_range(3,4) [OF assms bucket_no_valid [OF assms]], of ck]
  by (auto simp: dkey_def)

lemma bk_encoded_head: "\<exists>xs. bk_getEncodedBytes k = 0 # xs"
  by (simp add: bk_getEncodedBytes_def)

lemma dkey_neq_bk: "conf_wf c \<Longrightarrow> dkey c ck \<noteq> bk_getEncodedBytes k"
  using dkey_head [of c ck] bk_encoded_head [of k] by auto

lemma bk_less_min_key:
  assumes "conf_wf c" and "valid_bk c (lowestLevel c) b"
  shows "bk_getEncodedBytes k < minimumPossibleDataKeyBytesFor (bkey (lowestLevel c) b)"
  using encodeBucketNumber_head [OF valid_bk_range(3,4) [OF assms]] bk_encoded_head [of k]
  by (auto simp: minimumPossibleDataKeyBytesFor_def word_greater_zero_iff)

subsection \<open>The bucket hash\<close>

text \<open>The chaincode id and the key of a composite key.\<close>

definition cc_of :: "bytes \<Rightarrow> gostring" where
  "cc_of ck = takeWhile (\<lambda>b. b \<noteq> 0) ck"

definition key_of :: "bytes \<Rightarrow> gostring" where
  "key_of ck = tl (dropWhile (\<lambda>b. b \<noteq> 0) ck)"

lemma DecodeCompositeKey_eq: "0 \<in> set ck \<Longrightarrow> DecodeCompositeKey ck = Inr (cc_of ck, key_of ck)"
  by (auto simp: DecodeCompositeKey_def cc_of_def key_of_def dropWhile_eq_Nil_conv split: list.splits)

lemma composite_split: "0 \<in> set ck \<Longrightarrow> ck = ConstructCompositeKey (cc_of ck) (key_of ck)"
proof -
  assume "0 \<in> set ck"
  then have "dropWhile (\<lambda>b. b \<noteq> 0) ck \<noteq> []" by (auto simp: dropWhile_eq_Nil_conv)
  moreover from this have "hd (dropWhile (\<lambda>b. b \<noteq> 0) ck) = 0" using hd_dropWhile by blast
  ultimately have "dropWhile (\<lambda>b. b \<noteq> 0) ck = 0 # key_of ck"
    unfolding key_of_def by (metis list.collapse)
  then show ?thesis
    unfolding ConstructCompositeKey_def stateKeyDelimiter_def cc_of_def
    by (metis append_Cons append_Nil takeWhile_dropWhile_id)
qed

text \<open>A data node of a bucket, from its composite key and value.\<close>

definition dnode :: "config \<Rightarrow> bytes \<times> slice \<Rightarrow> dataNode" where
  "dnode c e = \<lparr>dn_key = data_key c (fst e), dn_value = snd e\<rparr>"

lemma dnode_sel [simp]: "dn_key (dnode c e) = data_key c (fst e)" "dn_value (dnode c e) = snd e"
  by (simp_all add: dnode_def)

text \<open>The reference: entries grouped by chaincode, each group with the sizes of its parts.\<close>

definition enc_sized :: "bytes \<Rightarrow> bytes" where
  "enc_sized b = EncodeVarint (of_nat (length b)) @ b"

definition entry_bytes :: "bytes \<times> slice \<Rightarrow> bytes" where
  "entry_bytes e = enc_sized (key_of (fst e)) @ enc_sized (sbytes (snd e))"

definition group_bytes :: "gostring \<Rightarrow> (bytes \<times> slice) list \<Rightarrow> bytes" where
  "group_bytes cc ns =
     (if cc = [] then []
      else enc_sized cc @ EncodeVarint (of_nat (length ns)) @ concat (map entry_bytes ns))"

abbreviation same_cc :: "gostring \<Rightarrow> bytes \<times> slice \<Rightarrow> bool" where
  "same_cc cc e \<equiv> cc_of (fst e) = cc"

function bucket_content :: "(bytes \<times> slice) list \<Rightarrow> bytes" where
  "bucket_content [] = []"
| "bucket_content (e # es) =
     group_bytes (cc_of (fst e)) (e # takeWhile (same_cc (cc_of (fst e))) es) @
     bucket_content (dropWhile (same_cc (cc_of (fst e))) es)"
  by pat_completeness auto
termination
  by (relation "measure length") (auto simp: le_imp_less_Suc length_dropWhile_le)

definition bucket_hash :: "(bytes \<Rightarrow> bytes) \<Rightarrow> (bytes \<times> slice) list \<Rightarrow> slice" where
  "bucket_hash H es = (let d = bucket_content es in if d = [] then None else Some (H d))"

lemma appendSizeAndData_eq:
  "appendSizeAndData calc b = calc\<lparr>hashingData := hashingData calc @ enc_sized b\<rparr>"
  by (simp add: appendSizeAndData_def appendSize_def enc_sized_def Let_def)

lemma appendCurrentChaincodeData_eq:
  assumes "\<forall>e \<in> set ns. 0 \<in> set (fst e)"
  shows "appendCurrentChaincodeData \<lparr>currentChaincodeID = cc, calc_dataNodes = map (dnode c) ns, hashingData = d\<rparr> =
    Inr \<lparr>currentChaincodeID = cc, calc_dataNodes = map (dnode c) ns, hashingData = d @ group_bytes cc ns\<rparr>"
proof -
  have "rfold (\<lambda>calc dn. rbind (dn_getKeyElements dn) (\<lambda>(_, key).
      Inr (appendSizeAndData (appendSizeAndData calc key) (sbytes (dn_value dn))))) (map (dnode c) ns) calc =
    Inr (calc\<lparr>hashingData := hashingData calc @ concat (map entry_bytes ns)\<rparr>)" for calc
    using assms
    by (induction ns arbitrary: calc)
      (auto simp: dn_getKeyElements_def DecodeCompositeKey_eq appendSizeAndData_eq entry_bytes_def)
  then show ?thesis
    by (simp add: appendCurrentChaincodeData_def group_bytes_def appendSizeAndData_eq appendSize_def)
qed

fun run_content :: "gostring \<Rightarrow> (bytes \<times> slice) list \<Rightarrow> (bytes \<times> slice) list \<Rightarrow> bytes" where
  "run_content cc ns [] = group_bytes cc ns"
| "run_content cc ns (e # es) =
     (if same_cc cc e then run_content cc (ns @ [e]) es
      else group_bytes cc ns @ run_content (cc_of (fst e)) [e] es)"

lemma run_content_eq:
  "run_content cc ns es = group_bytes cc (ns @ takeWhile (same_cc cc) es) @ bucket_content (dropWhile (same_cc cc) es)"
  by (induction cc ns es rule: run_content.induct) auto

lemma calculator_run:
  assumes "\<forall>e \<in> set ns \<union> set es. 0 \<in> set (fst e)"
  shows "rbind (rfold addNextNode (map (dnode c) es)
      \<lparr>currentChaincodeID = cc, calc_dataNodes = map (dnode c) ns, hashingData = d\<rparr>)
      (calc_computeCryptoHash H) =
    Inr (let d' = d @ run_content cc ns es in if d' = [] then None else Some (H d'))"
  using assms
proof (induction es arbitrary: cc ns d)
  case Nil
  then show ?case
    using appendCurrentChaincodeData_eq [of ns cc c d]
    by (simp add: calc_computeCryptoHash_def group_bytes_def)
next
  case (Cons e es)
  have e: "dn_getKeyElements (dnode c e) = Inr (cc_of (fst e), key_of (fst e))"
    using Cons.prems by (simp add: dn_getKeyElements_def DecodeCompositeKey_eq)
  show ?case
  proof (cases "same_cc cc e")
    case True
    with e Cons.IH [of "ns @ [e]" cc d] Cons.prems show ?thesis
      by (simp add: addNextNode_def)
  next
    case False
    have "appendCurrentChaincodeData \<lparr>currentChaincodeID = cc, calc_dataNodes = map (dnode c) ns, hashingData = d\<rparr> =
      Inr \<lparr>currentChaincodeID = cc, calc_dataNodes = map (dnode c) ns, hashingData = d @ group_bytes cc ns\<rparr>"
      by (rule appendCurrentChaincodeData_eq) (use Cons.prems in auto)
    with False e Cons.IH [of "[e]" "cc_of (fst e)" "d @ group_bytes cc ns"] Cons.prems show ?thesis
      by (simp add: addNextNode_def)
  qed
qed

lemma bucket_content_skip_empty: "bucket_content (dropWhile (same_cc []) es) = bucket_content es"
  by (cases es) (auto simp: group_bytes_def)

lemma calculator_hash:
  assumes "\<forall>e \<in> set es. 0 \<in> set (fst e)"
  shows "rbind (rfold addNextNode (map (dnode c) es) newBucketHashCalculator) (calc_computeCryptoHash H) =
    Inr (bucket_hash H es)"
  using calculator_run [of "[]" es c "[]" "[]" H] assms
  by (simp add: newBucketHashCalculator_def run_content_eq bucket_hash_def bucket_content_skip_empty)
    (simp add: group_bytes_def bucket_content_skip_empty)

text \<open>What is hashed determines the entries: no two contents of a bucket collide before hashing.\<close>

definition entry_sized :: "bytes \<times> slice \<Rightarrow> bool" where
  "entry_sized e \<longleftrightarrow> 0 \<in> set (fst e) \<and> cc_of (fst e) \<noteq> [] \<and> go_len (fst e) \<and>
     (\<exists>v. snd e = Some v \<and> go_len v)"

lemma go_len_parts: "go_len ck \<Longrightarrow> go_len (cc_of ck)" "go_len ck \<Longrightarrow> go_len (key_of ck)"
proof -
  show "go_len ck \<Longrightarrow> go_len (cc_of ck)"
    using length_takeWhile_le [of "\<lambda>b. b \<noteq> 0" ck] by (simp add: go_len_def cc_of_def)
  show "go_len ck \<Longrightarrow> go_len (key_of ck)"
    using length_dropWhile_le [of "\<lambda>b. b \<noteq> 0" ck] by (simp add: go_len_def key_of_def)
qed

lemma entry_sizedD:
  assumes "entry_sized e"
  shows "go_len (key_of (fst e))" "go_len (cc_of (fst e))" "go_len (sbytes (snd e))"
  using assms go_len_parts [of "fst e"] by (auto simp: entry_sized_def)

lemma enc_sized_inj:
  "go_len a \<Longrightarrow> go_len b \<Longrightarrow> enc_sized a @ r = enc_sized b @ r' \<Longrightarrow> a = b \<and> r = r'"
  using rawbytes.enc_inj [of a b r r']
  by (simp add: enc_sized_def buf_EncodeRawBytes_def buf_EncodeVarint_eq)

lemma varint_inj_append: "EncodeVarint x @ (r :: bytes) = EncodeVarint y @ r' \<Longrightarrow> x = y \<and> r = r'"
  using varint.enc_inj [where x = x and y = y and r = r and r' = r'] by (simp add: buf_EncodeVarint_eq)

lemma entry_eqI:
  assumes "entry_sized a" "entry_sized b"
    and "cc_of (fst a) = cc_of (fst b)" "key_of (fst a) = key_of (fst b)" "sbytes (snd a) = sbytes (snd b)"
  shows "a = b"
proof -
  have "fst a = fst b"
    using composite_split [of "fst a"] composite_split [of "fst b"] assms by (simp add: entry_sized_def)
  with assms show ?thesis by (auto simp: entry_sized_def prod_eq_iff)
qed

lemma entries_inj:
  assumes "length ns = length ns'" "\<forall>e \<in> set ns \<union> set ns'. entry_sized e \<and> same_cc cc e"
    and "concat (map entry_bytes ns) @ r = concat (map entry_bytes ns') @ r'"
  shows "ns = ns' \<and> r = r'"
  using assms
proof (induction ns ns' arbitrary: rule: list_induct2)
  case Nil
  then show ?case by simp
next
  case (Cons a as b bs)
  have s: "entry_sized a" "entry_sized b" "cc_of (fst a) = cc_of (fst b)" using Cons.prems by auto
  note gl = entry_sizedD(1) [OF s(1)] entry_sizedD(1) [OF s(2)] entry_sizedD(3) [OF s(1)]
    entry_sizedD(3) [OF s(2)]
  from Cons.prems(2) have "enc_sized (key_of (fst a)) @ enc_sized (sbytes (snd a)) @
      concat (map entry_bytes as) @ r = enc_sized (key_of (fst b)) @ enc_sized (sbytes (snd b)) @
      concat (map entry_bytes bs) @ r'"
    by (simp add: entry_bytes_def [of a] entry_bytes_def [of b])
  then have k: "key_of (fst a) = key_of (fst b)" and
    "enc_sized (sbytes (snd a)) @ concat (map entry_bytes as) @ r =
     enc_sized (sbytes (snd b)) @ concat (map entry_bytes bs) @ r'"
    using enc_sized_inj [OF gl(1,2)] by blast+
  then have v: "sbytes (snd a) = sbytes (snd b)" and
    rest: "concat (map entry_bytes as) @ r = concat (map entry_bytes bs) @ r'"
    using enc_sized_inj [OF gl(3,4)] by blast+
  from entry_eqI [OF s k v] Cons.IH [OF _ rest] Cons.prems(1) show ?case by simp
qed

lemma group_bytes_neq_Nil: "cc \<noteq> [] \<Longrightarrow> group_bytes cc ns @ r \<noteq> []"
  by (simp add: group_bytes_def enc_sized_def)

lemma group_bytes_inj:
  assumes "cc \<noteq> []" "cc' \<noteq> []" "go_len cc" "go_len cc'" "go_len ns" "go_len ns'"
    and "\<forall>e \<in> set ns. entry_sized e \<and> same_cc cc e" "\<forall>e \<in> set ns'. entry_sized e \<and> same_cc cc' e"
    and "group_bytes cc ns @ r = group_bytes cc' ns' @ r'"
  shows "ns = ns' \<and> r = r'"
proof -
  from assms(1,2,9) have "enc_sized cc @ EncodeVarint (of_nat (length ns)) @ concat (map entry_bytes ns) @ r =
      enc_sized cc' @ EncodeVarint (of_nat (length ns')) @ concat (map entry_bytes ns') @ r'"
    by (simp add: group_bytes_def)
  then have cc: "cc = cc'" and
    "EncodeVarint (of_nat (length ns)) @ concat (map entry_bytes ns) @ r =
     EncodeVarint (of_nat (length ns')) @ concat (map entry_bytes ns') @ r'"
    using enc_sized_inj [OF assms(3,4)] by blast+
  then have n: "(of_nat (length ns) :: u64) = of_nat (length ns')" and
    rest: "concat (map entry_bytes ns) @ r = concat (map entry_bytes ns') @ r'"
    using varint_inj_append by blast+
  have "length ns = length ns'"
    using n unat_go_len [OF assms(5)] unat_go_len [OF assms(6)] by metis
  from entries_inj [OF this _ rest, of cc] assms(7,8) cc show ?thesis by blast
qed

lemma go_len_takeWhile: "go_len (e # es) \<Longrightarrow> go_len (e # takeWhile P es)"
  using length_takeWhile_le [of P es] by (simp add: go_len_def)

lemma group_entries:
  "\<forall>x \<in> set (e # es). P x \<Longrightarrow>
    \<forall>x \<in> set (e # takeWhile (same_cc (cc_of (fst e))) es). P x \<and> same_cc (cc_of (fst e)) x"
  by (auto dest!: set_takeWhileD)

lemma bucket_content_inj:
  assumes "\<forall>e \<in> set es \<union> set es'. entry_sized e" "go_len es" "go_len es'"
    and "bucket_content es = bucket_content es'"
  shows "es = es'"
  using assms
proof (induction es arbitrary: es' rule: bucket_content.induct)
  case 1
  then show ?case
    using group_bytes_neq_Nil by (cases es') (auto simp: entry_sized_def)
next
  case (2 e es)
  let ?cc = "cc_of (fst e)"
  have "entry_sized e" using "2.prems"(1) by simp
  then have cc: "?cc \<noteq> []" "go_len ?cc" by (simp add: entry_sized_def, rule entry_sizedD)
  from 2 obtain e' es2 where es': "es' = e' # es2"
    using group_bytes_neq_Nil [OF cc(1)] by (cases es') auto
  let ?cc' = "cc_of (fst e')"
  have "entry_sized e'" using "2.prems"(1) es' by simp
  then have cc': "?cc' \<noteq> []" "go_len ?cc'" by (simp add: entry_sized_def, rule entry_sizedD)
  let ?g = "e # takeWhile (same_cc ?cc) es" and ?g' = "e' # takeWhile (same_cc ?cc') es2"
  have eq: "group_bytes ?cc ?g @ bucket_content (dropWhile (same_cc ?cc) es) =
      group_bytes ?cc' ?g' @ bucket_content (dropWhile (same_cc ?cc') es2)"
    using "2.prems"(4) es' by simp
  have gl: "go_len ?g" "go_len ?g'"
    by (rule go_len_takeWhile, use "2.prems"(2,3) es' in simp)+
  have sized: "\<forall>x \<in> set ?g. entry_sized x \<and> same_cc ?cc x"
    by (rule group_entries) (use "2.prems"(1) in simp)
  have sized': "\<forall>x \<in> set ?g'. entry_sized x \<and> same_cc ?cc' x"
    by (rule group_entries) (use "2.prems"(1) es' in simp)
  from group_bytes_inj [OF cc(1) cc'(1) cc(2) cc'(2) gl sized sized' eq]
  have g: "?g = ?g'" and
    rest: "bucket_content (dropWhile (same_cc ?cc) es) = bucket_content (dropWhile (same_cc ?cc') es2)"
    by auto
  have "dropWhile (same_cc ?cc) es = dropWhile (same_cc ?cc') es2"
  proof (rule "2.IH" [OF _ _ _ rest])
    show "\<forall>x \<in> set (dropWhile (same_cc ?cc) es) \<union> set (dropWhile (same_cc ?cc') es2). entry_sized x"
      using "2.prems"(1) es' by (auto dest: set_dropWhileD)
    show "go_len (dropWhile (same_cc ?cc) es)" "go_len (dropWhile (same_cc ?cc') es2)"
      using "2.prems"(2,3) es' length_dropWhile_le [of "same_cc ?cc" es]
        length_dropWhile_le [of "same_cc ?cc'" es2] by (simp_all add: go_len_def)
  qed
  with g es' show ?case by (metis list.inject takeWhile_dropWhile_id)
qed

subsection \<open>Merging updated with stored nodes\<close>

fun merge_entries :: "(bytes \<times> slice) list \<Rightarrow> (bytes \<times> slice) list \<Rightarrow> (bytes \<times> slice) list" where
  "merge_entries (u # us) (e # es) =
     (if fst u < fst e then u # merge_entries us (e # es)
      else if fst u = fst e then u # merge_entries us es
      else e # merge_entries (u # us) es)"
| "merge_entries us es = (if us \<noteq> [] then us else es)"

lemma mergeLoop_eq:
  "mergeLoop calc (map (dnode c) us) (map (dnode c) es) =
    rfold addUnlessDelete (map (dnode c) (merge_entries us es)) calc"
  by (induction us es arbitrary: calc rule: merge_entries.induct) (auto simp: rbind_def split: sum.splits)

definition live :: "(bytes \<times> slice) list \<Rightarrow> (bytes \<times> slice) list" where
  "live es = filter (\<lambda>e. \<not> IsNil (snd e)) es"

lemma addUnlessDelete_live:
  "rfold addUnlessDelete (map (dnode c) es) calc = rfold addNextNode (map (dnode c) (live es)) calc"
  by (induction es arbitrary: calc) (auto simp: live_def addUnlessDelete_def dn_isDelete_def rbind_def split: sum.splits)

lemma computeDataNodesCryptoHash_eq:
  assumes "\<forall>e \<in> set us \<union> set es. 0 \<in> set (fst e)"
  shows "computeDataNodesCryptoHash H (map (dnode c) us) (map (dnode c) es) =
    Inr (bucket_hash H (live (merge_entries us es)))"
proof -
  have "set (merge_entries us es) \<subseteq> set us \<union> set es"
    by (induction us es rule: merge_entries.induct) auto
  then have "set (live (merge_entries us es)) \<subseteq> set us \<union> set es" by (auto simp: live_def)
  with assms have "\<forall>e \<in> set (live (merge_entries us es)). 0 \<in> set (fst e)" by blast
  then show ?thesis
    by (simp add: computeDataNodesCryptoHash_def mergeLoop_eq addUnlessDelete_live calculator_hash)
qed

lemma merge_entries_keys: "fst ` set (merge_entries us es) = fst ` set us \<union> fst ` set es"
  by (induction us es rule: merge_entries.induct) auto

lemma sorted_keys_Cons:
  "sorted_wrt (<) (map fst xs) \<Longrightarrow> \<forall>k \<in> fst ` set xs. fst x < k \<Longrightarrow> sorted_wrt (<) (map fst (x # xs))"
  by simp

lemma merge_entries_sorted:
  assumes "sorted_wrt (<) (map fst us)" "sorted_wrt (<) (map fst es)"
  shows "sorted_wrt (<) (map fst (merge_entries us es))"
  using assms
proof (induction us es rule: merge_entries.induct)
  case (1 u us e es)
  consider "fst u < fst e" | "fst u = fst e" | "fst e < fst u" by fastforce
  then show ?case
  proof cases
    assume a: "fst u < fst e"
    have "sorted_wrt (<) (map fst (u # merge_entries us (e # es)))"
      by (rule sorted_keys_Cons, rule "1.IH"(1) [OF a], unfold merge_entries_keys)
        (use a 1 in \<open>auto dest: less_trans\<close>)
    with a show ?thesis by simp
  next
    assume a: "fst u = fst e"
    have "sorted_wrt (<) (map fst (u # merge_entries us es))"
      by (rule sorted_keys_Cons, rule "1.IH"(2), unfold merge_entries_keys)
        (use a 1 in auto)
    with a show ?thesis by simp
  next
    assume a: "fst e < fst u"
    have "sorted_wrt (<) (map fst (e # merge_entries (u # us) es))"
      by (rule sorted_keys_Cons, rule "1.IH"(3), unfold merge_entries_keys)
        (use a 1 in \<open>auto dest: less_trans\<close>)
    moreover have "\<not> fst u < fst e" "fst u \<noteq> fst e" using a by auto
    ultimately show ?thesis by simp
  qed
qed auto

lemma merge_entries_map:
  assumes "sorted_wrt (<) (map fst us)" "sorted_wrt (<) (map fst es)"
  shows "map_of (merge_entries us es) = map_of es ++ map_of us"
  using assms
proof (induction us es rule: merge_entries.induct)
  case (1 u us e es)
  consider "fst u < fst e" | "fst u = fst e" | "fst e < fst u" by fastforce
  then show ?case
  proof cases
    assume "fst u < fst e"
    with 1 show ?thesis by (auto simp: fun_eq_iff map_add_def)
  next
    assume "fst u = fst e"
    with 1 show ?thesis by (auto simp: fun_eq_iff map_add_def)
  next
    assume a: "fst e < fst u"
    then have "map_of us (fst e) = None"
      using "1.prems"(1) by (auto simp: map_of_eq_None_iff dest: less_trans)
    moreover have "map_of (merge_entries (u # us) es) = map_of es ++ map_of (u # us)"
      by (rule "1.IH"(3)) (use a "1.prems" in auto)
    moreover have "\<not> fst u < fst e" "fst u \<noteq> fst e" using a by auto
    ultimately show ?thesis by (auto simp: fun_eq_iff map_add_def)
  qed
qed (auto simp: map_add_def)

end
