(* ===== verification/BucketStore.thy ===== *)
theory BucketStore
  imports BucketMerkle
begin

text \<open>
  The Merkle tree as a function of the whole state, and the database that stores the state and
  the tree. A state is a finite map from composite keys to non-empty values. \<open>node_hash\<close>
  computes the hash of a tree node from scratch; \<open>tree_db\<close> says that a column family holds
  exactly the data nodes of a state and the bucket nodes of its tree. The reads of
  \<open>db_helper.go\<close> on such a database return the parts of that tree.
\<close>

subsection \<open>The Merkle tree of a state\<close>

type_synonym kvstate = "bytes \<rightharpoonup> bytes"

definition kv_ok :: "kvstate \<Rightarrow> bool" where
  "kv_ok dm \<longleftrightarrow> finite (dom dm) \<and> (\<forall>ck v. dm ck = Some v \<longrightarrow> v \<noteq> [] \<and> 0 \<in> set ck)"

definition hash_ok :: "(bytes \<Rightarrow> bytes) \<Rightarrow> bool" where
  "hash_ok H \<longleftrightarrow> (\<forall>x. length (H x) = 64)"

definition leaf_keys :: "config \<Rightarrow> kvstate \<Rightarrow> int \<Rightarrow> bytes set" where
  "leaf_keys c dm b = {ck \<in> dom dm. bucket_no c ck = b}"

definition leaf_entries :: "config \<Rightarrow> kvstate \<Rightarrow> int \<Rightarrow> (bytes \<times> slice) list" where
  "leaf_entries c dm b = map (\<lambda>ck. (ck, dm ck)) (sorted_list_of_set (leaf_keys c dm b))"

definition combine :: "(bytes \<Rightarrow> bytes) \<Rightarrow> slice list \<Rightarrow> slice" where
  "combine H hs =
     (case filter NotNil hs of
        [] \<Rightarrow> None
      | [h] \<Rightarrow> Some (sbytes h)
      | hs' \<Rightarrow> Some (H (concat (map sbytes hs'))))"

text \<open>The hash of bucket \<open>b\<close> at height \<open>d\<close> above the lowest level.\<close>

fun node_hash :: "(bytes \<Rightarrow> bytes) \<Rightarrow> config \<Rightarrow> kvstate \<Rightarrow> nat \<Rightarrow> int \<Rightarrow> slice" where
  "node_hash H c dm 0 b = bucket_hash H (leaf_entries c dm b)"
| "node_hash H c dm (Suc d) b =
     combine H (map (\<lambda>i. if child_no c b i \<le> nb c (lowestLevel c - int d)
                         then node_hash H c dm d (child_no c b i) else None) [0..<grouping c])"

definition child_hashes :: "(bytes \<Rightarrow> bytes) \<Rightarrow> config \<Rightarrow> kvstate \<Rightarrow> int \<Rightarrow> int \<Rightarrow> slice list" where
  "child_hashes H c dm l b =
     map (\<lambda>i. if child_no c b i \<le> nb c (l + 1)
              then node_hash H c dm (nat (lowestLevel c - l - 1)) (child_no c b i) else None) [0..<grouping c]"

definition bucket_node_hash :: "(bytes \<Rightarrow> bytes) \<Rightarrow> config \<Rightarrow> kvstate \<Rightarrow> int \<Rightarrow> int \<Rightarrow> slice" where
  "bucket_node_hash H c dm l b = node_hash H c dm (nat (lowestLevel c - l)) b"

definition root_hash :: "(bytes \<Rightarrow> bytes) \<Rightarrow> config \<Rightarrow> kvstate \<Rightarrow> slice" where
  "root_hash H c dm = bucket_node_hash H c dm 0 1"

lemma bucket_node_hash_inner:
  assumes "0 \<le> l" "l < lowestLevel c"
  shows "bucket_node_hash H c dm l b = combine H (child_hashes H c dm l b)"
proof -
  have "nat (lowestLevel c - l) = Suc (nat (lowestLevel c - l - 1))" using assms by simp
  moreover have "lowestLevel c - int (nat (lowestLevel c - l - 1)) = l + 1" using assms by simp
  ultimately show ?thesis by (simp add: bucket_node_hash_def child_hashes_def)
qed

lemma child_hashes_nth:
  assumes "i < grouping c"
  shows "child_hashes H c dm l b ! i =
    (if child_no c b i \<le> nb c (l + 1) then bucket_node_hash H c dm (l + 1) (child_no c b i) else None)"
  using assms by (simp add: child_hashes_def bucket_node_hash_def algebra_simps)

lemma length_child_hashes [simp]: "length (child_hashes H c dm l b) = grouping c"
  by (simp add: child_hashes_def)

lemma IsNil_simps [simp]: "IsNil None" "IsNil (Some bs) \<longleftrightarrow> bs = []" "NotNil s \<longleftrightarrow> \<not> IsNil s"
  by (auto simp: IsNil_iff NotNil_def IsNil_def)

text \<open>Hashes are \<open>nil\<close> or not empty, and short enough to be stored.\<close>

definition hash_slice :: "slice \<Rightarrow> bool" where
  "hash_slice s \<longleftrightarrow> (case s of None \<Rightarrow> True | Some h \<Rightarrow> h \<noteq> [] \<and> go_len h)"

lemma hash_slice_IsNil: "hash_slice s \<Longrightarrow> IsNil s \<longleftrightarrow> s = None"
  by (cases s) (auto simp: hash_slice_def)

lemma hash_slice_H: "hash_ok H \<Longrightarrow> hash_slice (Some (H x))"
  by (auto simp: hash_ok_def hash_slice_def go_len_def dest: spec [of _ x])

lemma combine_hash_slice:
  assumes "hash_ok H" and "\<forall>h \<in> set hs. hash_slice h"
  shows "hash_slice (combine H hs)"
proof -
  have one: "hash_slice (Some (sbytes h))" if "filter NotNil hs = h # r" for h r
  proof -
    from that have "h \<in> set hs" "\<not> IsNil h" by (auto simp: filter_eq_Cons_iff)
    with assms(2) show ?thesis by (cases h) (auto simp: hash_slice_def)
  qed
  show ?thesis
    using hash_slice_H [OF assms(1)] one
    by (auto simp: combine_def hash_slice_def [of None] split: list.splits)
qed

lemma node_hash_slice: "hash_ok H \<Longrightarrow> hash_slice (node_hash H c dm d b)"
proof (induction d arbitrary: b)
  case 0
  then show ?case
    using hash_slice_H by (auto simp: bucket_hash_def Let_def hash_slice_def)
next
  case (Suc d)
  then show ?case
    by (auto simp: hash_slice_def [of None] intro!: combine_hash_slice)
qed

lemma child_hashes_slice: "hash_ok H \<Longrightarrow> h \<in> set (child_hashes H c dm l b) \<Longrightarrow> hash_slice h"
  by (auto simp: child_hashes_def node_hash_slice hash_slice_def [of None] split: if_splits)

subsection \<open>Bucket nodes in the database\<close>

definition stored_node :: "config \<Rightarrow> int \<Rightarrow> int \<Rightarrow> slice list \<Rightarrow> bucketNode" where
  "stored_node c l b hs = (newBucketNode c (bkey l b))\<lparr>childrenCryptoHash := hs\<rparr>"

lemma foldl_raw:
  "foldl (\<lambda>buf h. buf_EncodeRawBytes buf (sbytes h)) buf hs = buf @ concat (map (\<lambda>h. buf_EncodeRawBytes [] (sbytes h)) hs)"
proof (induction hs arbitrary: buf)
  case (Cons h hs)
  then show ?case using rawbytes.enc_append [of buf "sbytes h"] by simp
qed simp

lemma bn_marshal_eq:
  "bn_marshal bn = concat (map (\<lambda>h. buf_EncodeRawBytes [] (sbytes h)) (childrenCryptoHash bn))"
  by (simp add: bn_marshal_def foldl_raw)

lemma unmarshalBucketNode_loop_marshal:
  assumes "\<forall>h \<in> set hs. hash_slice h"
  shows "unmarshalBucketNode_loop (length hs)
    (concat (map (\<lambda>h. buf_EncodeRawBytes [] (sbytes h)) hs) @ r) = Inr hs"
  using assms
proof (induction hs)
  case (Cons h hs)
  then have "go_len (sbytes h)" "IsNil (Some (sbytes h)) \<longleftrightarrow> h = None" "h \<noteq> None \<Longrightarrow> Some (sbytes h) = h"
    by (auto simp: hash_slice_def go_len_def split: option.splits)
  with Cons show ?case
    by (auto simp: rawbytes.dec_enc)
qed simp

lemma unmarshal_marshal_node:
  assumes "conf_wf c" and "length (childrenCryptoHash bn) = grouping c"
    and "\<forall>h \<in> set (childrenCryptoHash bn). hash_slice h"
  shows "unmarshalBucketNode c bk (bn_marshal bn) = Inr ((newBucketNode c bk)\<lparr>childrenCryptoHash := childrenCryptoHash bn\<rparr>)"
  using unmarshalBucketNode_loop_marshal [OF assms(3), of "[]"] assms(2)
  by (simp add: unmarshalBucketNode_def bn_marshal_eq)

definition all_nil :: "slice list \<Rightarrow> bool" where
  "all_nil hs \<longleftrightarrow> (\<forall>h \<in> set hs. h = None)"

definition tree_db :: "(bytes \<Rightarrow> bytes) \<Rightarrow> config \<Rightarrow> kvstate \<Rightarrow> (bytes \<rightharpoonup> bytes) \<Rightarrow> bool" where
  "tree_db H c dm m \<longleftrightarrow> kv_ok dm \<and>
     (\<forall>ck. m (dkey c ck) = dm ck) \<and>
     (\<forall>l b. valid_bk c l b \<longrightarrow> l < lowestLevel c \<longrightarrow>
        m (bk_getEncodedBytes (bkey l b)) =
          (if all_nil (child_hashes H c dm l b) then None
           else Some (bn_marshal (stored_node c l b (child_hashes H c dm l b))))) \<and>
     (\<forall>k v. m k = Some v \<longrightarrow>
        (\<exists>ck \<in> dom dm. k = dkey c ck) \<or>
        (\<exists>l b. valid_bk c l b \<and> l < lowestLevel c \<and> k = bk_getEncodedBytes (bkey l b)))"

lemma tree_dbD:
  assumes "tree_db H c dm m"
  shows tree_db_kv_ok: "kv_ok dm"
    and tree_db_data: "m (dkey c ck) = dm ck"
    and tree_db_node: "valid_bk c l b \<Longrightarrow> l < lowestLevel c \<Longrightarrow>
        m (bk_getEncodedBytes (bkey l b)) =
          (if all_nil (child_hashes H c dm l b) then None
           else Some (bn_marshal (stored_node c l b (child_hashes H c dm l b))))"
    and tree_db_keys: "m k = Some v \<Longrightarrow> (\<exists>ck \<in> dom dm. k = dkey c ck) \<or>
        (\<exists>l b. valid_bk c l b \<and> l < lowestLevel c \<and> k = bk_getEncodedBytes (bkey l b))"
  using assms unfolding tree_db_def by (blast, blast, blast, blast)

lemma buf_EncodeRawBytes_neq [simp]: "buf_EncodeRawBytes [] b \<noteq> []"
  by (simp add: buf_EncodeRawBytes_def buf_EncodeVarint_eq)

lemma bn_marshal_neq_Nil: "childrenCryptoHash bn \<noteq> [] \<Longrightarrow> bn_marshal bn \<noteq> []"
  by (cases "childrenCryptoHash bn") (auto simp: bn_marshal_eq)

lemma fetchBucketNode_tree:
  assumes "rocksdb_ok D content" "hash_ok H" "conf_wf c" "tree_db H c dm (content db StateCF)"
    and "valid_bk c l b" "l < lowestLevel c"
  shows "fetchBucketNodeFromDB c D db (bkey l b) =
    Inr (if all_nil (child_hashes H c dm l b) then None
         else Some (stored_node c l b (child_hashes H c dm l b)))"
proof -
  let ?hs = "child_hashes H c dm l b"
  have "?hs \<noteq> []"
    using conf_grouping [OF assms(3)] length_child_hashes [of H c dm l b] by (auto simp del: length_child_hashes)
  then have ne: "bn_marshal (stored_node c l b ?hs) \<noteq> []"
    by (intro bn_marshal_neq_Nil) (simp add: stored_node_def)
  have "unmarshalBucketNode c (bkey l b) (bn_marshal (stored_node c l b ?hs)) = Inr (stored_node c l b ?hs)"
    using unmarshal_marshal_node [OF assms(3), of "stored_node c l b ?hs" "bkey l b"] child_hashes_slice [OF assms(2)]
    by (simp add: stored_node_def)
  with ne show ?thesis
    by (simp add: fetchBucketNodeFromDB_def GetFromStateCF_def db_get_ok [OF assms(1)]
        tree_db_node [OF assms(4-6)])
qed

subsection \<open>Data nodes in the database\<close>

lemma fetchDataNodes_loop_tree:
  assumes "conf_wf c" and "\<forall>ck \<in> set cks. ck \<in> dom dm"
  shows "fetchDataNodes_loop c (bkey (lowestLevel c) b) (map (\<lambda>ck. (dkey c ck, the (dm ck))) cks) acc =
    Inr (acc @ map (\<lambda>ck. dnode c (ck, dm ck)) (takeWhile (\<lambda>ck. bucket_no c ck = b) cks))"
  using assms(2)
proof (induction cks arbitrary: acc)
  case Nil
  then show ?case by simp
next
  case (Cons ck cks)
  then have "\<lparr>dn_key = data_key c ck, dn_value = Some (the (dm ck))\<rparr> = dnode c (ck, dm ck)"
    by (auto simp: dnode_def)
  with Cons show ?case
    by (simp add: newDataKeyFromEncodedBytes_dkey [OF assms(1)])
qed

lemma takeWhile_bucket:
  assumes "conf_wf c" and "sorted_wrt (<) (map (dkey c) cks)" and "\<forall>ck \<in> set cks. b \<le> bucket_no c ck"
  shows "takeWhile (\<lambda>ck. bucket_no c ck = b) cks = filter (\<lambda>ck. bucket_no c ck = b) cks"
  using assms(2,3)
proof (induction cks)
  case (Cons ck cks)
  show ?case
  proof (cases "bucket_no c ck = b")
    case False
    have "bucket_no c x \<noteq> b" if "x \<in> set cks" for x
    proof -
      from that Cons.prems(1) have "dkey c ck < dkey c x" by simp
      then have "bucket_no c ck \<le> bucket_no c x" using dkey_less [OF assms(1)] by auto
      moreover have "b \<le> bucket_no c ck" using Cons.prems(2) by simp
      ultimately show ?thesis using False by linarith
    qed
    with False show ?thesis by (simp add: filter_empty_conv)
  qed (use Cons in simp)
qed simp

lemma sorted_same_bucket:
  assumes "conf_wf c" and "sorted_wrt (<) (map (dkey c) cks)" and "\<forall>ck \<in> set cks. bucket_no c ck = b"
  shows "sorted_wrt (<) cks"
  using assms(2,3) by (induction cks) (auto simp: dkey_less [OF assms(1)])

lemma list_choice:
  "\<forall>x \<in> set xs. \<exists>y. P y \<and> x = f y \<Longrightarrow> \<exists>ys. xs = map f ys \<and> (\<forall>y \<in> set ys. P y)"
proof (induction xs)
  case (Cons x xs)
  then obtain y ys where "P y" "x = f y" "xs = map f ys" "\<forall>y \<in> set ys. P y" by auto
  then have "x # xs = map f (y # ys) \<and> (\<forall>z \<in> set (y # ys). P z)" by simp
  then show ?case by (rule exI [of _ "y # ys"])
qed simp

lemma seek_data:
  assumes "rocksdb_ok D content" "conf_wf c" "tree_db H c dm (content db StateCF)"
    and "\<And>bk. bk_getEncodedBytes bk < lo"
  shows "\<exists>cks. Seek D db StateCF lo = map (\<lambda>ck. (dkey c ck, the (dm ck))) cks \<and> sorted_wrt (<) (map (dkey c) cks) \<and>
      set cks = {ck \<in> dom dm. lo \<le> dkey c ck}"
proof -
  let ?L = "Seek D db StateCF lo" and ?f = "\<lambda>ck. (dkey c ck, the (dm ck))"
  have srt: "sorted_wrt (<) (map fst ?L)" by (rule rocksdb_seek_sorted [OF assms(1)])
  then have dist: "distinct (map fst ?L)" by (simp add: strict_sorted_iff)
  have in_L: "(k, v) \<in> set ?L \<longleftrightarrow> lo \<le> k \<and> content db StateCF k = Some v" for k v
  proof -
    have "(k, v) \<in> set ?L \<longleftrightarrow> map_of ?L k = Some v" using dist by (simp only: map_of_eq_Some_iff)
    also have "\<dots> \<longleftrightarrow> lo \<le> k \<and> content db StateCF k = Some v"
      unfolding rocksdb_seek_map [OF assms(1)] by simp
    finally show ?thesis .
  qed
  have f_iff: "?f ck \<in> set ?L \<longleftrightarrow> lo \<le> dkey c ck" if "ck \<in> dom dm" for ck
    using that in_L [of "dkey c ck" "the (dm ck)"] tree_db_data [OF assms(3), of ck] by auto
  have "\<forall>x \<in> set ?L. \<exists>ck. ck \<in> dom dm \<and> x = ?f ck"
  proof
    fix x
    assume that: "x \<in> set ?L"
    obtain k v where x: "x = (k, v)" by force
    with that in_L have m: "lo \<le> k" "content db StateCF k = Some v" by blast+
    have "k \<noteq> bk_getEncodedBytes bk" for bk using assms(4) [of bk] m(1) by auto
    with tree_db_keys [OF assms(3) m(2)] obtain ck where "ck \<in> dom dm" "k = dkey c ck" by blast
    with m(2) tree_db_data [OF assms(3), of ck] x show "\<exists>ck. ck \<in> dom dm \<and> x = ?f ck" by auto
  qed
  from list_choice [OF this] obtain cks where L: "?L = map ?f cks" and cks: "\<forall>ck \<in> set cks. ck \<in> dom dm"
    by blast
  have "ck \<in> set cks \<longleftrightarrow> ck \<in> dom dm \<and> lo \<le> dkey c ck" for ck
  proof -
    have "?f ck \<in> set ?L \<longleftrightarrow> ck \<in> set cks" if "ck \<in> dom dm"
      using cks assms(2) unfolding L by auto
    with f_iff cks show ?thesis by blast
  qed
  moreover have "sorted_wrt (<) (map (dkey c) cks)" using srt by (simp add: L comp_def)
  ultimately show ?thesis using L by blast
qed

lemma seek_bucket:
  assumes "rocksdb_ok D content" "conf_wf c" "tree_db H c dm (content db StateCF)"
    and "valid_bk c (lowestLevel c) b"
  shows "\<exists>cks. Seek D db StateCF (minimumPossibleDataKeyBytesFor (bkey (lowestLevel c) b)) =
      map (\<lambda>ck. (dkey c ck, the (dm ck))) cks \<and> sorted_wrt (<) (map (dkey c) cks) \<and>
      set cks = {ck \<in> dom dm. b \<le> bucket_no c ck}"
proof -
  have "ck \<noteq> []" if "ck \<in> dom dm" for ck
    using that tree_db_kv_ok [OF assms(3)] by (fastforce simp: kv_ok_def)
  then have "{ck \<in> dom dm. minimumPossibleDataKeyBytesFor (bkey (lowestLevel c) b) \<le> dkey c ck} =
      {ck \<in> dom dm. b \<le> bucket_no c ck}"
    using min_key_le_dkey [OF assms(2,4)] by blast
  with seek_data [OF assms(1-3) bk_less_min_key [OF assms(2,4)]] show ?thesis by simp
qed

lemma fetchDataNodes_tree:
  assumes "rocksdb_ok D content" "conf_wf c" "tree_db H c dm (content db StateCF)"
    and "valid_bk c (lowestLevel c) b"
  shows "fetchDataNodesFromDBFor c D db (bkey (lowestLevel c) b) = Inr (map (dnode c) (leaf_entries c dm b))"
proof -
  obtain cks where L: "Seek D db StateCF (minimumPossibleDataKeyBytesFor (bkey (lowestLevel c) b)) =
      map (\<lambda>ck. (dkey c ck, the (dm ck))) cks"
    and srt: "sorted_wrt (<) (map (dkey c) cks)"
    and set: "set cks = {ck \<in> dom dm. b \<le> bucket_no c ck}"
    using seek_bucket [OF assms] by blast
  let ?ks = "filter (\<lambda>ck. bucket_no c ck = b) cks"
  have "sorted_wrt (<) ?ks"
    by (rule sorted_same_bucket [OF assms(2), of _ b])
      (use sorted_wrt_filter [of "\<lambda>a b. dkey c a < dkey c b" cks] srt in \<open>auto simp: sorted_wrt_map\<close>)
  moreover have "set ?ks = leaf_keys c dm b" using set by (auto simp: leaf_keys_def)
  ultimately have ks: "?ks = sorted_list_of_set (leaf_keys c dm b)"
    by (metis finite_set sorted_list_of_set.idem_if_sorted_distinct strict_sorted_iff)
  have "fetchDataNodesFromDBFor c D db (bkey (lowestLevel c) b) =
      Inr (map (\<lambda>ck. dnode c (ck, dm ck)) (takeWhile (\<lambda>ck. bucket_no c ck = b) cks))"
    using fetchDataNodes_loop_tree [OF assms(2), of cks dm b "[]"] set L
    by (simp add: fetchDataNodesFromDBFor_def)
  also have "takeWhile (\<lambda>ck. bucket_no c ck = b) cks = ?ks"
    by (rule takeWhile_bucket [OF assms(2) srt]) (use set in auto)
  finally show ?thesis
    by (simp add: ks leaf_entries_def comp_def)
qed

end
