(* ===== verification/BucketState.thy ===== *)
theory BucketState
  imports BucketStore
begin

text \<open>
  The bucket tree as a state manager: \<open>bucket_cache.go\<close> and \<open>state_impl.go\<close>. A method that
  returns an error keeps the changes it made to the receiver before, so the methods with an
  error path return the result and the new \<open>StateImpl\<close>. The process-wide database handle is
  the pair of the library \<open>D\<close> and the current database \<open>db\<close>; the package variable \<open>conf\<close> is
  \<open>c\<close>. Locks protect single calls and are not modelled.
\<close>

subsection \<open>The bucket cache\<close>

record bucketCache =
  isEnabled :: bool
  cache_c :: "(bucketKey, bucketNode) gomap"
  cache_size :: u64
  cache_maxSize :: u64

definition defaultBucketCacheMaxSize :: int where
  "defaultBucketCacheMaxSize = 100"

definition newBucketCache :: "int \<Rightarrow> bucketCache" where
  "newBucketCache maxSizeMBs =
     \<lparr>isEnabled = (\<not> maxSizeMBs \<le> 0), cache_c = [], cache_size = 0,
      cache_maxSize = word_of_int (maxSizeMBs * 1024 * 1024)\<rparr>"

text \<open>\<open>unsafe.Sizeof\<close> of the two structs on a 64-bit machine: two ints; a pointer, two slice
  headers and a bool with its padding.\<close>

definition bk_size :: "bucketKey \<Rightarrow> u64" where
  "bk_size bk = 16"

definition bn_size :: "bucketNode \<Rightarrow> u64" where
  "bn_size bn =
     (let numChildHashes = length (childrenCryptoHash bn) in
      64 + (if numChildHashes > 0
            then of_nat (numChildHashes * length (sbytes (childrenCryptoHash bn ! 0))) else 0))"

text \<open>
  The nodes loaded at start-up are made of slices of \<open>itr.Value().Data()\<close>: \<open>DecodeRawBytes(false)\<close> does
  not copy. \<open>aliasedNode\<close> is the node as it is found in the cache afterwards, when the iterator has
  moved on and is closed. Its slices have the lengths they had.
\<close>

definition aliasedSlice :: "'db gorocksdb \<Rightarrow> bytes \<Rightarrow> nat \<Rightarrow> slice \<Rightarrow> slice" where
  "aliasedSlice D key i s = map_option (\<lambda>h. map (\<lambda>j. ItrMem D key i j (h ! j)) [0..<length h]) s"

definition aliasedNode :: "'db gorocksdb \<Rightarrow> bytes \<Rightarrow> bucketNode \<Rightarrow> bucketNode" where
  "aliasedNode D key bn = bn\<lparr>childrenCryptoHash :=
     map (\<lambda>i. aliasedSlice D key i (childrenCryptoHash bn ! i)) [0..<length (childrenCryptoHash bn)]\<rparr>"

fun loadAllBucketNodes_loop ::
  "config \<Rightarrow> 'db gorocksdb \<Rightarrow> (bytes \<times> bytes) list \<Rightarrow> bucketCache \<Rightarrow> gerr + bucketCache" where
  "loadAllBucketNodes_loop c D [] cache = Inr cache"
| "loadAllBucketNodes_loop c D ((key, nodeBytes) # itr) cache =
     (if key = [] then Inl (Panic ''index out of range'')
      else if key ! 0 \<noteq> 0 then Inr cache
      else rbind (decodeBucketKey key) (\<lambda>bKey.
           rbind (unmarshalBucketNode c bKey nodeBytes) (\<lambda>bn.
             let size1 = bk_size bKey + bn_size bn; newSize = cache_size cache + size1 in
             if newSize \<ge> cache_maxSize cache then Inr (cache\<lparr>cache_size := newSize - size1\<rparr>)
             else loadAllBucketNodes_loop c D itr
               (cache\<lparr>cache_size := newSize, cache_c := mput bKey (aliasedNode D key bn) (cache_c cache)\<rparr>))))"

definition loadAllBucketNodesFromDB ::
  "config \<Rightarrow> 'db gorocksdb \<Rightarrow> 'db \<Rightarrow> bucketCache \<Rightarrow> gerr + bucketCache" where
  "loadAllBucketNodesFromDB c D db cache =
     (if \<not> isEnabled cache then Inr cache
      else loadAllBucketNodes_loop c D (Seek D db StateCF [0]) cache)"

definition putWithoutLock :: "bucketCache \<Rightarrow> bucketKey \<Rightarrow> bucketNode \<Rightarrow> bucketCache" where
  "putWithoutLock cache key node0 =
     (if \<not> isEnabled cache then cache
      else let node = node0\<lparr>markedForDeletion := False, childrenUpdated := []\<rparr> in
        case mget (cache_c cache) key of
          Some existingNode \<Rightarrow>
            let newSize = cache_size cache + (bn_size node - bn_size existingNode) in
            if newSize > cache_maxSize cache
            then cache\<lparr>cache_c := mdel key (cache_c cache),
                       cache_size := newSize - (bk_size key + bn_size existingNode)\<rparr>
            else cache\<lparr>cache_c := mput key node (cache_c cache), cache_size := newSize\<rparr>
        | None \<Rightarrow>
            let newSize = cache_size cache + bn_size node in
            if newSize > cache_maxSize cache then cache\<lparr>cache_size := newSize\<rparr>
            else cache\<lparr>cache_c := mput key node (cache_c cache), cache_size := newSize\<rparr>)"

definition cache_get ::
  "config \<Rightarrow> 'db gorocksdb \<Rightarrow> 'db \<Rightarrow> bucketCache \<Rightarrow> bucketKey \<Rightarrow> gerr + bucketNode option" where
  "cache_get c D db cache key =
     (if \<not> isEnabled cache then fetchBucketNodeFromDB c D db key
      else case mget (cache_c cache) key of
          None \<Rightarrow> fetchBucketNodeFromDB c D db key
        | Some bn \<Rightarrow> Inr (Some bn))"

definition removeWithoutLock :: "bucketCache \<Rightarrow> bucketKey \<Rightarrow> bucketCache" where
  "removeWithoutLock cache key =
     (if \<not> isEnabled cache then cache
      else case mget (cache_c cache) key of
          Some node \<Rightarrow> cache\<lparr>cache_size := cache_size cache - (bk_size key + bn_size node),
                              cache_c := mdel key (cache_c cache)\<rparr>
        | None \<Rightarrow> cache)"

subsection \<open>The state implementation\<close>

text \<open>\<open>None\<close> for the pointers that are \<open>nil\<close>.\<close>

record StateImpl =
  si_dataNodesDelta :: "dataNodesDelta option"
  si_bucketTreeDelta :: "bucketTreeDelta option"
  persistedStateHash :: slice
  lastComputedCryptoHash :: slice
  recomputeCryptoHash :: bool
  si_bucketCache :: "bucketCache option"

definition NewStateImpl :: StateImpl where
  "NewStateImpl = \<lparr>si_dataNodesDelta = None, si_bucketTreeDelta = None, persistedStateHash = None,
     lastComputedCryptoHash = None, recomputeCryptoHash = False, si_bucketCache = None\<rparr>"

definition nilPointer :: gerr where
  "nilPointer = Panic ''nil pointer dereference''"

definition si_Initialize ::
  "(bytes \<Rightarrow> bytes) \<Rightarrow> 'db gorocksdb \<Rightarrow> 'db \<Rightarrow> StateImpl \<Rightarrow> configs \<Rightarrow> (gerr + config \<times> StateImpl) option" where
  "si_Initialize H D db st cfgs =
     (case initConfig cfgs of
        None \<Rightarrow> None
      | Some r \<Rightarrow> Some (rbind r (\<lambda>c.
          rbind (constructRootBucketKey c) (\<lambda>rootKey.
          rbind (fetchBucketNodeFromDB c D db rootKey) (\<lambda>rootBucketNode.
          rbind (case rootBucketNode of
                   None \<Rightarrow> Inr st
                 | Some bn \<Rightarrow> rbind (bn_computeCryptoHash H c bn) (\<lambda>(h, _).
                     Inr (st\<lparr>persistedStateHash := h, lastComputedCryptoHash := h\<rparr>))) (\<lambda>st.
          rbind (loadAllBucketNodesFromDB c D db (newBucketCache
              (case cfg_bucketCacheSize cfgs of Some n \<Rightarrow> n | None \<Rightarrow> defaultBucketCacheMaxSize))) (\<lambda>cache.
          Inr (c, st\<lparr>si_bucketCache := Some cache\<rparr>))))))))"

definition si_Get ::
  "config \<Rightarrow> 'db gorocksdb \<Rightarrow> 'db \<Rightarrow> gostring \<Rightarrow> gostring \<Rightarrow> gerr + slice" where
  "si_Get c D db chaincodeID key =
     rbind (newDataKey c chaincodeID key) (\<lambda>dk.
     rbind (fetchDataNodeFromDB D db dk) (\<lambda>dn.
     Inr (case dn of None \<Rightarrow> None | Some dn \<Rightarrow> dn_value dn)))"

definition si_PrepareWorkingSet :: "config \<Rightarrow> StateImpl \<Rightarrow> StateDelta \<Rightarrow> gerr + StateImpl" where
  "si_PrepareWorkingSet c st stateDelta =
     (if StateDelta_IsEmpty stateDelta then Inr st
      else rbind (newDataNodesDelta c stateDelta) (\<lambda>dnd.
        Inr (st\<lparr>si_dataNodesDelta := Some dnd, si_bucketTreeDelta := Some newBucketTreeDelta,
                recomputeCryptoHash := True\<rparr>)))"

text \<open>The levels above the lowest, from the leaves to the root and back.\<close>

definition levels_up :: "config \<Rightarrow> int list" where
  "levels_up c = rev (map int [0..<nat (lowestLevel c)])"

definition levels_down :: "config \<Rightarrow> int list" where
  "levels_down c = map int [0..<nat (lowestLevel c)]"

definition updateBucketCache :: "config \<Rightarrow> StateImpl \<Rightarrow> gerr + StateImpl" where
  "updateBucketCache c st =
     (case si_bucketTreeDelta st of
        None \<Rightarrow> Inr st
      | Some btd \<Rightarrow>
          if btd_isEmpty btd then Inr st
          else case si_bucketCache st of
              None \<Rightarrow> Inl nilPointer
            | Some cache \<Rightarrow> Inr (st\<lparr>si_bucketCache := Some (foldl (\<lambda>cache level.
                foldl (\<lambda>cache bn.
                    if markedForDeletion bn then removeWithoutLock cache (bn_key bn)
                    else putWithoutLock cache (bn_key bn) bn)
                  cache (getBucketNodesAt btd level)) cache (levels_down c))\<rparr>))"

definition si_ClearWorkingSet :: "config \<Rightarrow> StateImpl \<Rightarrow> bool \<Rightarrow> gerr + StateImpl" where
  "si_ClearWorkingSet c st changesPersisted =
     rbind (if changesPersisted
        then updateBucketCache c (st\<lparr>persistedStateHash := lastComputedCryptoHash st\<rparr>)
        else Inr (st\<lparr>lastComputedCryptoHash := persistedStateHash st\<rparr>)) (\<lambda>st.
     Inr (st\<lparr>si_dataNodesDelta := None, si_bucketTreeDelta := None, recomputeCryptoHash := False\<rparr>))"

text \<open>\<open>getOrCreateBucketNode\<close> of the parent followed by \<open>setChildCryptoHash\<close> on it.\<close>

definition setInParent :: "config \<Rightarrow> bucketTreeDelta \<Rightarrow> bucketKey \<Rightarrow> slice \<Rightarrow> gerr + bucketTreeDelta" where
  "setInParent c btd bk cryptoHash =
     rbind (getParentKey c bk) (\<lambda>pk.
       let (parentBucket, btd) = getOrCreateBucketNode c btd pk in
       rbind (setChildCryptoHash c parentBucket bk cryptoHash) (\<lambda>parentBucket.
         Inr (putBucketNode btd parentBucket)))"

definition processDataNode ::
  "(bytes \<Rightarrow> bytes) \<Rightarrow> config \<Rightarrow> 'db gorocksdb \<Rightarrow> 'db \<Rightarrow> dataNodesDelta \<Rightarrow> bucketKey \<Rightarrow> bucketTreeDelta \<Rightarrow>
     gerr option \<times> bucketTreeDelta" where
  "processDataNode H c D db dnd bk btd =
     (case rbind (fetchDataNodesFromDBFor c D db bk) (\<lambda>existingDataNodes.
           rbind (computeDataNodesCryptoHash H (getSortedDataNodesFor dnd bk) existingDataNodes) (\<lambda>cryptoHashForBucket.
           setInParent c btd bk cryptoHashForBucket)) of
        Inl e \<Rightarrow> (Some e, btd)
      | Inr btd' \<Rightarrow> (None, btd'))"

definition processDataNodeDelta ::
  "(bytes \<Rightarrow> bytes) \<Rightarrow> config \<Rightarrow> 'db gorocksdb \<Rightarrow> 'db \<Rightarrow> StateImpl \<Rightarrow> gerr option \<times> StateImpl" where
  "processDataNodeDelta H c D db st =
     (case (si_dataNodesDelta st, si_bucketTreeDelta st) of
        (Some dnd, Some btd) \<Rightarrow>
          (case getAffectedBuckets c dnd of
             Inl e \<Rightarrow> (Some e, st)
           | Inr affectedBuckets \<Rightarrow>
               let (r, btd') = efold (processDataNode H c D db dnd) affectedBuckets btd
               in (r, st\<lparr>si_bucketTreeDelta := Some btd'\<rparr>))
      | _ \<Rightarrow> (Some nilPointer, st))"

text \<open>The part of the loop body up to the test for the root level, and the part after it.\<close>

definition mergeWithStored ::
  "config \<Rightarrow> 'db gorocksdb \<Rightarrow> 'db \<Rightarrow> bucketCache \<Rightarrow> bucketNode \<Rightarrow> gerr + bucketNode" where
  "mergeWithStored c D db cache bn =
     rbind (cache_get c D db cache (bn_key bn)) (\<lambda>dbBucketNode.
       case dbBucketNode of None \<Rightarrow> Inr bn | Some dbNode \<Rightarrow> mergeBucketNode bn dbNode)"

definition processBucketNode ::
  "(bytes \<Rightarrow> bytes) \<Rightarrow> config \<Rightarrow> 'db gorocksdb \<Rightarrow> 'db \<Rightarrow> bucketCache \<Rightarrow> bucketNode \<Rightarrow> bucketTreeDelta \<Rightarrow>
     gerr option \<times> bucketTreeDelta" where
  "processBucketNode H c D db cache bn btd =
     (case mergeWithStored c D db cache bn of
        Inl e \<Rightarrow> (Some e, btd)
      | Inr merged \<Rightarrow>
          (case rbind (bn_computeCryptoHash H c merged) (\<lambda>(cryptoHash, bn').
                setInParent c (putBucketNode btd bn') (bn_key bn') cryptoHash) of
             Inl e \<Rightarrow> (Some e, putBucketNode btd merged)
           | Inr btd' \<Rightarrow> (None, btd')))"

definition processRootNode ::
  "config \<Rightarrow> 'db gorocksdb \<Rightarrow> 'db \<Rightarrow> bucketCache \<Rightarrow> bucketTreeDelta \<Rightarrow> gerr option \<times> bucketTreeDelta" where
  "processRootNode c D db cache btd =
     (case getBucketNodesAt btd 0 of
        [] \<Rightarrow> (None, btd)
      | bn # _ \<Rightarrow> (case mergeWithStored c D db cache bn of
           Inl e \<Rightarrow> (Some e, btd)
         | Inr merged \<Rightarrow> (None, putBucketNode btd merged)))"

definition processLevel ::
  "(bytes \<Rightarrow> bytes) \<Rightarrow> config \<Rightarrow> 'db gorocksdb \<Rightarrow> 'db \<Rightarrow> bucketCache \<Rightarrow> int \<Rightarrow> bucketTreeDelta \<Rightarrow>
     gerr option \<times> bucketTreeDelta" where
  "processLevel H c D db cache level btd =
     (if level = 0 then processRootNode c D db cache btd
      else efold (processBucketNode H c D db cache) (getBucketNodesAt btd level) btd)"

definition processBucketTreeDelta ::
  "(bytes \<Rightarrow> bytes) \<Rightarrow> config \<Rightarrow> 'db gorocksdb \<Rightarrow> 'db \<Rightarrow> StateImpl \<Rightarrow> gerr option \<times> StateImpl" where
  "processBucketTreeDelta H c D db st =
     (case (si_bucketTreeDelta st, si_bucketCache st) of
        (Some btd, Some cache) \<Rightarrow>
          let (r, btd') = efold (processLevel H c D db cache) (levels_up c) btd
          in (r, st\<lparr>si_bucketTreeDelta := Some btd'\<rparr>)
      | _ \<Rightarrow> (Some nilPointer, st))"

definition computeRootNodeCryptoHash ::
  "(bytes \<Rightarrow> bytes) \<Rightarrow> config \<Rightarrow> StateImpl \<Rightarrow> gerr + slice \<times> StateImpl" where
  "computeRootNodeCryptoHash H c st =
     (case si_bucketTreeDelta st of
        None \<Rightarrow> Inl nilPointer
      | Some btd \<Rightarrow>
          rbind (getRootNode btd) (\<lambda>root.
          rbind (bn_computeCryptoHash H c root) (\<lambda>(h, root').
          Inr (h, st\<lparr>si_bucketTreeDelta := Some (putBucketNode btd root')\<rparr>))))"

definition si_ComputeCryptoHash ::
  "(bytes \<Rightarrow> bytes) \<Rightarrow> config \<Rightarrow> 'db gorocksdb \<Rightarrow> 'db \<Rightarrow> StateImpl \<Rightarrow> (gerr + slice) \<times> StateImpl" where
  "si_ComputeCryptoHash H c D db st =
     (if recomputeCryptoHash st then
        (case processDataNodeDelta H c D db st of
           (Some e, st) \<Rightarrow> (Inl e, st)
         | (None, st) \<Rightarrow>
             (case processBucketTreeDelta H c D db st of
                (Some e, st) \<Rightarrow> (Inl e, st)
              | (None, st) \<Rightarrow>
                  (case computeRootNodeCryptoHash H c st of
                     Inl e \<Rightarrow> (Inl e, st)
                   | Inr (h, st) \<Rightarrow>
                       (Inr h, st\<lparr>lastComputedCryptoHash := h, recomputeCryptoHash := False\<rparr>))))
      else (Inr (lastComputedCryptoHash st), st))"

definition addDataNodeChanges :: "config \<Rightarrow> dataNodesDelta \<Rightarrow> WriteBatch \<Rightarrow> gerr + WriteBatch" where
  "addDataNodeChanges c dnd batch =
     rbind (getAffectedBuckets c dnd) (\<lambda>affectedBuckets.
       Inr (batch @ concat (map (\<lambda>bk. map (\<lambda>dn.
           if dn_isDelete dn then DeleteCF StateCF (dk_getEncodedBytes (dn_key dn))
           else PutCF StateCF (dk_getEncodedBytes (dn_key dn)) (sbytes (dn_value dn)))
         (getSortedDataNodesFor dnd bk)) affectedBuckets)))"

definition addBucketNodeChanges :: "config \<Rightarrow> bucketTreeDelta \<Rightarrow> WriteBatch \<Rightarrow> WriteBatch" where
  "addBucketNodeChanges c btd batch =
     batch @ concat (map (\<lambda>level. map (\<lambda>bn.
         if markedForDeletion bn then DeleteCF StateCF (bk_getEncodedBytes (bn_key bn))
         else PutCF StateCF (bk_getEncodedBytes (bn_key bn)) (bn_marshal bn))
       (getBucketNodesAt btd level)) (levels_up c))"

text \<open>
  When the hash cannot be recomputed the code returns \<open>nil\<close>, not the error, and adds nothing to
  the batch. A panic is the only \<open>Inl\<close> of the first component.
\<close>

definition si_AddChangesForPersistence ::
  "(bytes \<Rightarrow> bytes) \<Rightarrow> config \<Rightarrow> 'db gorocksdb \<Rightarrow> 'db \<Rightarrow> StateImpl \<Rightarrow> WriteBatch \<Rightarrow>
     (gerr + WriteBatch) \<times> StateImpl" where
  "si_AddChangesForPersistence H c D db st batch =
     (case si_dataNodesDelta st of
        None \<Rightarrow> (Inr batch, st)
      | Some dnd \<Rightarrow>
          (case (if recomputeCryptoHash st then si_ComputeCryptoHash H c D db st else (Inr None, st)) of
             (Inl (Panic m), st) \<Rightarrow> (Inl (Panic m), st)
           | (Inl e, st) \<Rightarrow> (Inr batch, st)
           | (Inr _, st) \<Rightarrow>
               (case si_bucketTreeDelta st of
                  None \<Rightarrow> (Inl nilPointer, st)
                | Some btd \<Rightarrow>
                    (rbind (addDataNodeChanges c dnd batch) (\<lambda>batch.
                       Inr (addBucketNodeChanges c btd batch)), st))))"

end
