(* ===== verification/BucketDelta.thy ===== *)
theory BucketDelta
  imports BucketState
begin

text \<open>
  What a state delta means for the bucket tree: an update map from composite keys to new
  values. \<open>newDataNodesDelta\<close> sorts the updates into the buckets, and merging a bucket's
  updates with its stored nodes gives the entries of the updated state.
\<close>

subsection \<open>Updates\<close>

type_synonym updates = "bytes \<rightharpoonup> slice"

definition apply_updates :: "updates \<Rightarrow> kvstate \<Rightarrow> kvstate" where
  "apply_updates u dm ck = (case u ck of None \<Rightarrow> dm ck | Some v \<Rightarrow> if IsNil v then None else v)"

definition updates_ok :: "updates \<Rightarrow> bool" where
  "updates_ok u \<longleftrightarrow> finite (dom u) \<and> (\<forall>ck \<in> dom u. 0 \<in> set ck)"

definition update_entries :: "config \<Rightarrow> updates \<Rightarrow> int \<Rightarrow> (bytes \<times> slice) list" where
  "update_entries c u b =
     map (\<lambda>ck. (ck, the (u ck))) (sorted_list_of_set {ck \<in> dom u. bucket_no c ck = b})"

lemma kv_ok_apply: "kv_ok dm \<Longrightarrow> updates_ok u \<Longrightarrow> kv_ok (apply_updates u dm)"
proof -
  assume a: "kv_ok dm" "updates_ok u"
  have "dom (apply_updates u dm) \<subseteq> dom dm \<union> dom u"
    by (auto simp: apply_updates_def split: option.splits)
  then have "finite (dom (apply_updates u dm))"
    using a finite_subset by (fastforce simp: kv_ok_def updates_ok_def)
  moreover have "v \<noteq> [] \<and> 0 \<in> set ck" if "apply_updates u dm ck = Some v" for ck v
    using that a unfolding kv_ok_def updates_ok_def apply_updates_def
    by (cases "u ck") (auto split: if_splits)
  ultimately show ?thesis by (simp add: kv_ok_def)
qed

lemma map_of_entries:
  "map_of (map (\<lambda>ck. (ck, f ck)) (sorted_list_of_set A)) ck = (if finite A \<and> ck \<in> A then Some (f ck) else None)"
proof (cases "finite A")
  case True
  then show ?thesis by (simp add: map_of_map_self)
qed simp

lemma sorted_entries: "sorted_wrt (<) (map fst (map (\<lambda>ck. (ck, f ck)) (sorted_list_of_set A)))"
  by (simp add: comp_def strict_sorted_list_of_set)

lemma live_map:
  assumes "sorted_wrt (<) (map fst es)"
  shows "map_of (live es) ck = (case map_of es ck of Some v \<Rightarrow> if IsNil v then None else Some v | None \<Rightarrow> None)"
proof -
  have "distinct (map fst es)" using assms by (simp add: strict_sorted_iff)
  then show ?thesis
  proof (induction es)
    case (Cons e es)
    then have "map_of es (fst e) = None" by (simp add: map_of_eq_None_iff)
    with Cons show ?case by (auto simp: live_def)
  qed (simp add: live_def)
qed

lemma live_sorted: "sorted_wrt (<) (map fst es) \<Longrightarrow> sorted_wrt (<) (map fst (live es))"
  by (induction es) (auto simp: live_def)

lemma not_IsNil: "\<not> IsNil a \<Longrightarrow> map_option Some a = Some a"
  by (cases a) auto

lemma merged_leaf:
  assumes "kv_ok dm" "updates_ok u"
  shows "live (merge_entries (update_entries c u b) (leaf_entries c dm b)) = leaf_entries c (apply_updates u dm) b"
proof (rule sorted_keys_unique)
  have su: "sorted_wrt (<) (map fst (update_entries c u b))" and sl: "sorted_wrt (<) (map fst (leaf_entries c dm b))"
    for dm unfolding update_entries_def leaf_entries_def by (rule sorted_entries)+
  note sm = merge_entries_sorted [OF su sl]
  show "sorted_wrt (<) (map fst (live (merge_entries (update_entries c u b) (leaf_entries c dm b))))"
    by (rule live_sorted [OF sm])
  show "sorted_wrt (<) (map fst (leaf_entries c (apply_updates u dm) b))" by (rule sl)
  have fin: "finite {ck \<in> dom u. bucket_no c ck = b}" "finite (leaf_keys c dm b)"
      "finite (leaf_keys c (apply_updates u dm) b)"
    using assms kv_ok_apply [OF assms] by (simp_all add: updates_ok_def kv_ok_def leaf_keys_def)
  have mu: "map_of (update_entries c u b) ck = (if bucket_no c ck = b then u ck else None)" for ck
    unfolding update_entries_def map_of_entries using fin(1) by auto
  have ml: "map_of (leaf_entries c dm' b) ck = (if bucket_no c ck = b then map_option Some (dm' ck) else None)"
    if "finite (leaf_keys c dm' b)" for dm' ck
    unfolding leaf_entries_def map_of_entries using that by (auto simp: leaf_keys_def)
  show "map_of (live (merge_entries (update_entries c u b) (leaf_entries c dm b))) =
      map_of (leaf_entries c (apply_updates u dm) b)"
  proof
    fix ck
    have "dm ck \<noteq> Some []" using assms(1) by (auto simp: kv_ok_def)
    then show "map_of (live (merge_entries (update_entries c u b) (leaf_entries c dm b))) ck =
        map_of (leaf_entries c (apply_updates u dm) b) ck"
      unfolding live_map [OF sm] merge_entries_map [OF su sl] ml [OF fin(3)] map_add_def
      by (cases "u ck"; cases "dm ck")
        (auto simp: mu ml [OF fin(2)] apply_updates_def not_IsNil split: option.splits)
  qed
qed

subsection \<open>Sorting the updates into buckets\<close>

definition add_entry :: "config \<Rightarrow> (bucketKey, dataNode list) gomap \<Rightarrow> bytes \<times> slice \<Rightarrow> (bucketKey, dataNode list) gomap" where
  "add_entry c m e =
     (let bk = bkey (lowestLevel c) (bucket_no c (fst e)) in
      mput bk ((case mget m bk of Some ns \<Rightarrow> ns | None \<Rightarrow> []) @ [dnode c e]) m)"

definition in_bucket :: "config \<Rightarrow> bucketKey \<Rightarrow> (bytes \<times> slice) list \<Rightarrow> (bytes \<times> slice) list" where
  "in_bucket c bk es = filter (\<lambda>e. bkey (lowestLevel c) (bucket_no c (fst e)) = bk) es"

lemma mget_add_entries:
  "mget (foldl (add_entry c) m es) bk =
    (if in_bucket c bk es = [] then mget m bk
     else Some ((case mget m bk of Some ns \<Rightarrow> ns | None \<Rightarrow> []) @ map (dnode c) (in_bucket c bk es)))"
  by (induction es arbitrary: m) (auto simp: in_bucket_def add_entry_def Let_def split: option.splits)

lemma gomap_ok_add_entries: "gomap_ok m \<Longrightarrow> gomap_ok (foldl (add_entry c) m es)"
  by (induction es arbitrary: m) (auto simp: add_entry_def Let_def)

lemma dataNodesDelta_add_eq:
  "conf_wf c \<Longrightarrow> dataNodesDelta_add c dnd cc k v =
    Inr (dnd\<lparr>byBucket := add_entry c (byBucket dnd) (ConstructCompositeKey cc k, v)\<rparr>)"
  by (simp add: dataNodesDelta_add_def newDataKey_eq add_entry_def Let_def dnode_def)

text \<open>The entries of a delta in the order the code visits them.\<close>

definition new_value :: "StateDelta \<Rightarrow> UpdatedValue \<Rightarrow> slice" where
  "new_value sd uv = (if RollBackwards sd then PreviousValue uv else Value uv)"

definition cc_entries :: "StateDelta \<Rightarrow> gostring \<times> ChaincodeStateDelta \<Rightarrow> (bytes \<times> slice) list" where
  "cc_entries sd c = map (\<lambda>(k, uv). (ConstructCompositeKey (fst c) k, new_value sd uv)) (UpdatedKVs (snd c))"

definition delta_entries :: "StateDelta \<Rightarrow> (bytes \<times> slice) list" where
  "delta_entries sd = concat (map (cc_entries sd) (ChaincodeStateDeltas sd))"

lemma rfold_byBucket:
  assumes "\<And>dnd x. x \<in> set xs \<Longrightarrow> f dnd x = Inr (dnd\<lparr>byBucket := foldl (add_entry c) (byBucket dnd) (es x)\<rparr>)"
  shows "rfold f xs dnd = Inr (dnd\<lparr>byBucket := foldl (add_entry c) (byBucket dnd) (concat (map es xs))\<rparr>)"
  using assms by (induction xs arbitrary: dnd) auto

lemma concat_singletons: "concat (map (\<lambda>(k, v). [f k v]) xs) = map (\<lambda>(k, v). f k v) xs"
  by (induction xs) auto

lemma newDataNodesDelta_eq:
  assumes "conf_wf c" "sd_wf sd"
  shows "newDataNodesDelta c sd = Inr \<lparr>byBucket = map (\<lambda>(bk, ns). (bk, sort_key (\<lambda>n. compositeKey (dn_key n)) ns))
    (foldl (add_entry c) [] (delta_entries sd))\<rparr>"
proof -
  let ?ccs = "ChaincodeStateDeltas sd"
  let ?inner = "\<lambda>dnd chaincodeID. rfold (\<lambda>dnd (key, uv). dataNodesDelta_add c dnd chaincodeID key
      (if RollBackwards sd then UpdatedValue_GetPreviousValue uv else UpdatedValue_GetValue uv))
      (case StateDelta_GetUpdates sd chaincodeID of Some m \<Rightarrow> m | None \<Rightarrow> []) dnd"
  have inner: "?inner dnd (fst x) = Inr (dnd\<lparr>byBucket := foldl (add_entry c) (byBucket dnd) (cc_entries sd x)\<rparr>)"
    if x: "x \<in> set ?ccs" for dnd x
  proof -
    have "StateDelta_GetUpdates sd (fst x) = Some (UpdatedKVs (snd x))"
      using x assms(2) by (auto simp: StateDelta_GetUpdates_def sd_wf_def gomap_ok_def)
    moreover have "rfold (\<lambda>dnd (key, uv). dataNodesDelta_add c dnd (fst x) key
        (if RollBackwards sd then UpdatedValue_GetPreviousValue uv else UpdatedValue_GetValue uv)) kvs dnd =
      Inr (dnd\<lparr>byBucket := foldl (add_entry c) (byBucket dnd)
        (concat (map (\<lambda>(k, uv). [(ConstructCompositeKey (fst x) k, new_value sd uv)]) kvs))\<rparr>)" for kvs
      by (rule rfold_byBucket)
        (auto simp: dataNodesDelta_add_eq [OF assms(1)] new_value_def UpdatedValue_GetValue_def
          UpdatedValue_GetPreviousValue_def)
    moreover have "concat (map (\<lambda>(k, uv). [(ConstructCompositeKey (fst x) k, new_value sd uv)]) (UpdatedKVs (snd x))) = cc_entries sd x"
      by (simp add: cc_entries_def concat_singletons)
    ultimately show ?thesis by simp
  qed
  have "rfold ?inner (map fst ?ccs) \<lparr>byBucket = []\<rparr> =
      Inr \<lparr>byBucket = foldl (add_entry c) [] (delta_entries sd)\<rparr>"
    using rfold_byBucket [of ?ccs "\<lambda>dnd x. ?inner dnd (fst x)" c "cc_entries sd", OF inner]
    by (simp add: delta_entries_def rfold_map)
  then show ?thesis
    by (simp add: newDataNodesDelta_def StateDelta_GetUpdatedChaincodeIds_def)
qed

text \<open>The update map of a delta, and the delta of the data nodes it leads to.\<close>

definition updates_of :: "StateDelta \<Rightarrow> updates" where
  "updates_of sd ck =
     (if 0 \<in> set ck then map_option (new_value sd) (delta_at sd (cc_of ck, key_of ck)) else None)"

definition cc_ok :: "StateDelta \<Rightarrow> bool" where
  "cc_ok sd \<longleftrightarrow> (\<forall>cc \<in> fst ` set (ChaincodeStateDeltas sd). 0 \<notin> set cc)"

definition dnd_ok :: "config \<Rightarrow> updates \<Rightarrow> dataNodesDelta \<Rightarrow> bool" where
  "dnd_ok c u dnd \<longleftrightarrow> gomap_ok (byBucket dnd) \<and>
     (\<forall>bk. mget (byBucket dnd) bk =
        (if \<exists>ck \<in> dom u. bk = bkey (lowestLevel c) (bucket_no c ck)
         then Some (map (dnode c) (update_entries c u (bk_number bk))) else None))"

lemma cc_key_of_Construct:
  assumes "0 \<notin> set cc"
  shows "cc_of (ConstructCompositeKey cc k) = cc" "key_of (ConstructCompositeKey cc k) = k"
proof -
  have "0 \<in> set (ConstructCompositeKey cc k)"
    by (simp add: ConstructCompositeKey_def stateKeyDelimiter_def)
  from DecodeCompositeKey_eq [OF this] DecodeCompositeKey_Construct [OF assms, of k]
  show "cc_of (ConstructCompositeKey cc k) = cc" "key_of (ConstructCompositeKey cc k) = k" by auto
qed

lemma delta_at_iff:
  assumes "sd_wf sd"
  shows "delta_at sd (cc, k) = Some uv \<longleftrightarrow>
    (\<exists>csd. (cc, csd) \<in> set (ChaincodeStateDeltas sd) \<and> (k, uv) \<in> set (UpdatedKVs csd))"
proof -
  have g: "gomap_ok (ChaincodeStateDeltas sd)" using assms by (simp add: sd_wf_def)
  have "gomap_ok (UpdatedKVs csd)" if "(cc, csd) \<in> set (ChaincodeStateDeltas sd)" for csd
    using that assms by (auto simp: sd_wf_def csd_wf_def)
  then show ?thesis
    using gomap_in_set [OF g] gomap_in_set
    by (fastforce simp: delta_at_def StateDelta_Get_def csd_get_def split: option.splits)
qed

lemma set_delta_entries:
  assumes "sd_wf sd"
  shows "(ck, v) \<in> set (delta_entries sd) \<longleftrightarrow>
    (\<exists>cc k uv. ck = ConstructCompositeKey cc k \<and> delta_at sd (cc, k) = Some uv \<and> v = new_value sd uv)"
  unfolding delta_at_iff [OF assms] by (force simp: delta_entries_def cc_entries_def)

lemma updates_of_iff:
  assumes "sd_wf sd" "cc_ok sd"
  shows "updates_of sd ck = Some v \<longleftrightarrow> (ck, v) \<in> set (delta_entries sd)"
proof
  assume "updates_of sd ck = Some v"
  then obtain uv where "0 \<in> set ck" "delta_at sd (cc_of ck, key_of ck) = Some uv" "v = new_value sd uv"
    by (auto simp: updates_of_def split: if_splits)
  with composite_split [of ck] show "(ck, v) \<in> set (delta_entries sd)"
    unfolding set_delta_entries [OF assms(1)] by blast
next
  assume "(ck, v) \<in> set (delta_entries sd)"
  then obtain cc k uv where ck: "ck = ConstructCompositeKey cc k"
    and uv: "delta_at sd (cc, k) = Some uv" "v = new_value sd uv"
    unfolding set_delta_entries [OF assms(1)] by blast
  then have "0 \<notin> set cc" using assms(2) delta_at_iff [OF assms(1)] by (force simp: cc_ok_def)
  from cc_key_of_Construct [OF this, of k] uv ck show "updates_of sd ck = Some v"
    by (simp add: updates_of_def) (simp add: ConstructCompositeKey_def stateKeyDelimiter_def)
qed

lemma distinct_delta_entries:
  assumes "sd_wf sd" "cc_ok sd"
  shows "distinct (map fst (delta_entries sd))"
proof -
  have "distinct (map fst (concat (map (cc_entries sd) ccs)))"
    if "distinct (map fst ccs)" "\<forall>(cc, csd) \<in> set ccs. csd_wf cc csd \<and> 0 \<notin> set cc" for ccs
    using that
  proof (induction ccs)
    case (Cons x ccs)
    obtain cc csd where x: "x = (cc, csd)" by force
    have "0 \<notin> set cc" "gomap_ok (UpdatedKVs csd)" using Cons.prems x by (auto simp: csd_wf_def)
    then have "distinct (map fst (cc_entries sd x))"
      by (auto simp: cc_entries_def x comp_def case_prod_beta gomap_ok_def distinct_map inj_on_def
          ConstructCompositeKey_inj)
    moreover have "set (map fst (cc_entries sd x)) \<inter> set (map fst (concat (map (cc_entries sd) ccs))) = {}"
    proof (rule ccontr)
      assume "\<not> ?thesis"
      then obtain k cc' csd' k' where "(cc', csd') \<in> set ccs"
        "ConstructCompositeKey cc k = ConstructCompositeKey cc' k'"
        by (fastforce simp: cc_entries_def x)
      moreover from this have "0 \<notin> set cc'" "cc' \<noteq> cc" using Cons.prems x by (auto, force)
      ultimately show False using \<open>0 \<notin> set cc\<close> by (simp add: ConstructCompositeKey_inj)
    qed
    ultimately show ?case using Cons by simp
  qed simp
  from this [of "ChaincodeStateDeltas sd"] assms show ?thesis
    by (fastforce simp: delta_entries_def sd_wf_def gomap_ok_def cc_ok_def)
qed

lemma updates_of_ok:
  assumes "sd_wf sd" "cc_ok sd"
  shows "updates_ok (updates_of sd)"
proof -
  have "dom (updates_of sd) = fst ` set (delta_entries sd)"
    using updates_of_iff [OF assms] by force
  moreover have "\<forall>ck \<in> dom (updates_of sd). 0 \<in> set ck" by (auto simp: updates_of_def split: if_splits)
  ultimately show ?thesis by (simp add: updates_ok_def)
qed

lemma sort_key_dnode:
  "sort_key (\<lambda>n. compositeKey (dn_key n)) (map (dnode c) es) = map (dnode c) (sort_key fst es)"
proof (induction es)
  case (Cons e es)
  have "insort_key (\<lambda>n. compositeKey (dn_key n)) (dnode c e) (map (dnode c) xs) = map (dnode c) (insort_key fst e xs)" for xs
    by (induction xs) auto
  with Cons show ?case by simp
qed simp

lemma strict_sorted_sort_key:
  assumes "distinct (map fst es)"
  shows "sorted_wrt (<) (map fst (sort_key fst es))"
proof -
  have "distinct (map fst (sort_key fst es))"
    using assms by (simp add: distinct_map)
  then show ?thesis by (simp add: strict_sorted_iff)
qed

lemma sorted_bucket_entries:
  assumes "distinct (map fst es)" and "\<And>ck v. u ck = Some v \<longleftrightarrow> (ck, v) \<in> set es"
  shows "sort_key fst (in_bucket c (bkey (lowestLevel c) b) es) = update_entries c u b"
proof (rule sorted_keys_unique)
  let ?in = "in_bucket c (bkey (lowestLevel c) b) es"
  have d: "distinct (map fst ?in)" using assms(1) by (simp add: in_bucket_def distinct_map_filter)
  then show "sorted_wrt (<) (map fst (sort_key fst ?in))" by (rule strict_sorted_sort_key)
  show "sorted_wrt (<) (map fst (update_entries c u b))"
    unfolding update_entries_def by (rule sorted_entries)
  have "dom u = fst ` set es" using assms(2) by force
  then have fin: "finite {ck \<in> dom u. bucket_no c ck = b}" by simp
  have d': "distinct (map fst (sort_key fst ?in))" using d by (simp add: distinct_map)
  show "map_of (sort_key fst ?in) = map_of (update_entries c u b)"
  proof
    fix ck
    have "map_of (sort_key fst ?in) ck = Some v \<longleftrightarrow> bucket_no c ck = b \<and> u ck = Some v" for v
      using d' by (auto simp: in_bucket_def assms(2))
    moreover have "map_of (update_entries c u b) ck = (if bucket_no c ck = b then u ck else None)"
      unfolding update_entries_def map_of_entries using fin by auto
    ultimately show "map_of (sort_key fst ?in) ck = map_of (update_entries c u b) ck"
      by (cases "u ck") (auto simp: option.expand intro: option.expand)
  qed
qed

lemma newDataNodesDelta_ok:
  assumes "conf_wf c" "sd_wf sd" "cc_ok sd"
  shows "\<exists>dnd. newDataNodesDelta c sd = Inr dnd \<and> dnd_ok c (updates_of sd) dnd"
proof -
  let ?es = "delta_entries sd" and ?u = "updates_of sd"
  let ?m = "foldl (add_entry c) [] ?es"
  let ?dnd = "\<lparr>byBucket = map (\<lambda>(bk, ns). (bk, sort_key (\<lambda>n. compositeKey (dn_key n)) ns)) ?m\<rparr>"
  note iff = updates_of_iff [OF assms(2,3)] and dist = distinct_delta_entries [OF assms(2,3)]
  have "mget (byBucket ?dnd) bk = (if \<exists>ck \<in> dom ?u. bk = bkey (lowestLevel c) (bucket_no c ck)
      then Some (map (dnode c) (update_entries c ?u (bk_number bk))) else None)" for bk
  proof (cases "in_bucket c bk ?es = []")
    case True
    have "\<not> (\<exists>ck \<in> dom ?u. bk = bkey (lowestLevel c) (bucket_no c ck))"
    proof
      assume "\<exists>ck \<in> dom ?u. bk = bkey (lowestLevel c) (bucket_no c ck)"
      then obtain ck v where "(ck, v) \<in> set ?es" "bk = bkey (lowestLevel c) (bucket_no c ck)"
        using iff by blast
      with True show False by (auto simp: in_bucket_def filter_empty_conv)
    qed
    with True show ?thesis by (simp add: map_of_map mget_add_entries)
  next
    case False
    then obtain ck v where e: "(ck, v) \<in> set ?es" "bk = bkey (lowestLevel c) (bucket_no c ck)"
      by (auto simp: in_bucket_def filter_empty_conv)
    then have "ck \<in> dom ?u" using iff by blast
    moreover have "sort_key fst (in_bucket c bk ?es) = update_entries c ?u (bk_number bk)"
      using sorted_bucket_entries [OF dist iff, of c "bucket_no c ck"] e by simp
    ultimately show ?thesis
      using False e by (auto simp: map_of_map mget_add_entries sort_key_dnode)
  qed
  moreover have "gomap_ok (byBucket ?dnd)"
    using gomap_ok_add_entries [of "[]" c ?es] by (simp add: gomap_ok_def comp_def case_prod_beta)
  ultimately have "dnd_ok c ?u ?dnd" unfolding dnd_ok_def by blast
  with newDataNodesDelta_eq [OF assms(1,2)] show ?thesis by blast
qed

text \<open>The affected buckets are those of the updated keys.\<close>

definition affected_leaves :: "config \<Rightarrow> updates \<Rightarrow> int set" where
  "affected_leaves c u = bucket_no c ` dom u"

lemma dnd_ok_keys:
  assumes "dnd_ok c u dnd"
  shows "set (map fst (byBucket dnd)) = bkey (lowestLevel c) ` affected_leaves c u"
    and "distinct (map fst (byBucket dnd))"
proof -
  have "bk \<in> set (map fst (byBucket dnd)) \<longleftrightarrow> bk \<in> bkey (lowestLevel c) ` affected_leaves c u" for bk
  proof -
    have "bk \<in> set (map fst (byBucket dnd)) \<longleftrightarrow> mget (byBucket dnd) bk \<noteq> None"
      by (simp add: mget_None_conv)
    also have "\<dots> \<longleftrightarrow> (\<exists>ck \<in> dom u. bk = bkey (lowestLevel c) (bucket_no c ck))"
      using assms by (simp add: dnd_ok_def)
    also have "\<dots> \<longleftrightarrow> bk \<in> bkey (lowestLevel c) ` affected_leaves c u"
      by (simp only: affected_leaves_def image_image image_iff)
    finally show ?thesis .
  qed
  then show "set (map fst (byBucket dnd)) = bkey (lowestLevel c) ` affected_leaves c u" by blast
  show "distinct (map fst (byBucket dnd))"
    using assms by (simp add: dnd_ok_def gomap_ok_def)
qed

lemma getAffectedBuckets_eq:
  assumes "conf_wf c" "dnd_ok c u dnd"
  shows "getAffectedBuckets c dnd = Inr (map fst (byBucket dnd))"
proof -
  have "getAffectedBuckets_loop c bks = Inr bks" if "\<forall>bk \<in> set bks. \<exists>b. valid_bk c (lowestLevel c) b \<and> bk = bkey (lowestLevel c) b" for bks
    using that by (induction bks) (auto simp: bk_clone_valid)
  then show ?thesis
    using dnd_ok_keys(1) [OF assms(2)] bucket_no_valid [OF assms(1)]
    by (fastforce simp: getAffectedBuckets_def affected_leaves_def)
qed

lemma getSortedDataNodes_eq:
  assumes "dnd_ok c u dnd" "b \<in> affected_leaves c u"
  shows "getSortedDataNodesFor dnd (bkey (lowestLevel c) b) = map (dnode c) (update_entries c u b)"
  using assms by (auto simp: dnd_ok_def getSortedDataNodesFor_def affected_leaves_def)

text \<open>The hash of an affected bucket is the hash of its entries in the updated state.\<close>

lemma leaf_hash_computed:
  assumes "rocksdb_ok D content" "conf_wf c" "tree_db H c dm (content db StateCF)"
    and "updates_ok u" "dnd_ok c u dnd" "b \<in> affected_leaves c u"
  shows "rbind (fetchDataNodesFromDBFor c D db (bkey (lowestLevel c) b))
      (computeDataNodesCryptoHash H (getSortedDataNodesFor dnd (bkey (lowestLevel c) b))) =
    Inr (bucket_node_hash H c (apply_updates u dm) (lowestLevel c) b)"
proof -
  note kv = tree_db_kv_ok [OF assms(3)]
  have v: "valid_bk c (lowestLevel c) b"
    using assms(6) bucket_no_valid [OF assms(2)] by (auto simp: affected_leaves_def)
  have fin: "finite (leaf_keys c dm b)" "finite {ck \<in> dom u. bucket_no c ck = b}"
    using kv assms(4) by (auto simp: kv_ok_def leaf_keys_def updates_ok_def)
  have "\<forall>e \<in> set (update_entries c u b) \<union> set (leaf_entries c dm b). 0 \<in> set (fst e)"
    using kv assms(4) fin by (auto simp: update_entries_def leaf_entries_def leaf_keys_def kv_ok_def updates_ok_def)
  then show ?thesis
    using fetchDataNodes_tree [OF assms(1-3) v] getSortedDataNodes_eq [OF assms(5,6)]
      computeDataNodesCryptoHash_eq merged_leaf [OF kv assms(4)]
    by (simp add: bucket_node_hash_def)
qed

end
