(* ===== verification/BucketIncremental.thy ===== *)
theory BucketIncremental
  imports BucketDelta
begin

text \<open>
  The incremental hash computation of the bucket tree. Only the buckets of updated keys and
  their ancestors are recomputed, merged with the stored hashes of the other children. The
  lemmas follow the algorithm: \<open>setInParent\<close> files one child hash, \<open>processDataNodeDelta\<close> fills
  the level above the leaves, \<open>processBucketTreeDelta\<close> completes the levels up to the root, and
  the root's hash is the hash of the whole updated state.
\<close>

subsection \<open>The nodes of a tree delta\<close>

definition node_at :: "bucketTreeDelta \<Rightarrow> int \<Rightarrow> int \<Rightarrow> bucketNode option" where
  "node_at btd l b = mget (btd_level btd l) b"

definition btd_ok :: "bucketTreeDelta \<Rightarrow> bool" where
  "btd_ok btd \<longleftrightarrow> (\<forall>l. gomap_ok (btd_level btd l)) \<and>
     (\<forall>l b bn. node_at btd l b = Some bn \<longrightarrow> bn_key bn = bkey l b)"

lemma btd_level_put:
  "btd_level (putBucketNode btd bn) l =
    (if l = bk_level (bn_key bn) then mput (bk_number (bn_key bn)) bn (btd_level btd l) else btd_level btd l)"
  by (simp add: putBucketNode_def btd_level_def)

lemma node_at_put:
  "node_at (putBucketNode btd bn) l b = (if bn_key bn = bkey l b then Some bn else node_at btd l b)"
  by (auto simp: node_at_def btd_level_put bkey_def)

lemma btd_ok_put: "btd_ok btd \<Longrightarrow> btd_ok (putBucketNode btd bn)"
  by (auto simp: btd_ok_def node_at_put btd_level_put)

lemma btd_ok_new [simp]: "btd_ok newBucketTreeDelta" "node_at newBucketTreeDelta l b = None"
  by (simp_all add: btd_ok_def node_at_def btd_level_def newBucketTreeDelta_def)

text \<open>The nodes at a level, as the code lists them.\<close>

lemma getBucketNodesAt_set:
  assumes "btd_ok btd"
  shows "bn \<in> set (getBucketNodesAt btd l) \<longleftrightarrow> (\<exists>b. node_at btd l b = Some bn)"
    and "distinct (map bn_key (getBucketNodesAt btd l))"
proof -
  have g: "gomap_ok (btd_level btd l)" using assms by (simp add: btd_ok_def)
  show "bn \<in> set (getBucketNodesAt btd l) \<longleftrightarrow> (\<exists>b. node_at btd l b = Some bn)"
    using gomap_in_set [OF g] by (force simp: getBucketNodesAt_def node_at_def)
  have "bn_key bn = bkey l b" if "(b, bn) \<in> set (btd_level btd l)" for b bn
    using that assms gomap_in_set [OF g] by (auto simp: btd_ok_def node_at_def)
  then have "map bn_key (getBucketNodesAt btd l) = map (bkey l) (map fst (btd_level btd l))"
    by (auto simp: getBucketNodesAt_def)
  then show "distinct (map bn_key (getBucketNodesAt btd l))"
    using g by (simp add: gomap_ok_def distinct_map inj_on_def)
qed

subsection \<open>Filing the hash of a child in its parent\<close>

definition partial_node :: "config \<Rightarrow> (int \<Rightarrow> slice) \<Rightarrow> int \<Rightarrow> int \<Rightarrow> int set \<Rightarrow> bucketNode" where
  "partial_node c h l b P =
     \<lparr>bn_key = bkey l b,
      childrenCryptoHash = map (\<lambda>i. if child_no c b i \<in> P then h (child_no c b i) else None) [0..<grouping c],
      childrenUpdated = map (\<lambda>i. child_no c b i \<in> P) [0..<grouping c],
      markedForDeletion = False\<rparr>"

definition level_ok :: "config \<Rightarrow> (int \<Rightarrow> slice) \<Rightarrow> bucketTreeDelta \<Rightarrow> int \<Rightarrow> int set \<Rightarrow> bool" where
  "level_ok c h btd l P \<longleftrightarrow>
     (\<forall>b. node_at btd l b = (if b \<in> parent_no c ` P then Some (partial_node c h l b P) else None))"

lemma partial_node_key [simp]: "bn_key (partial_node c h l b P) = bkey l b"
  by (simp add: partial_node_def)

lemma child_in_iff: "conf_wf c \<Longrightarrow> i < grouping c \<Longrightarrow> child_no c b i \<in> P \<Longrightarrow> b \<in> parent_no c ` P"
  using parent_of_child(1) [of c i b] by (metis imageI)

lemma partial_node_new:
  assumes "conf_wf c" and "b \<notin> parent_no c ` P"
  shows "newBucketNode c (bkey l b) = partial_node c h l b P"
proof -
  have "child_no c b i \<notin> P" if "i < grouping c" for i
    using child_in_iff [OF assms(1) that] assms(2) by blast
  then show ?thesis
    by (auto simp: newBucketNode_def partial_node_def Let_def list_eq_iff_nth_eq)
qed

lemma partial_node_other:
  assumes "conf_wf c" and "b \<noteq> parent_no c n"
  shows "partial_node c h l b (insert n P) = partial_node c h l b P"
proof -
  have "child_no c b i \<noteq> n" if "i < grouping c" for i
    using parent_of_child(1) [OF assms(1) that, of b] assms(2) by auto
  then show ?thesis by (auto simp: partial_node_def list_eq_iff_nth_eq)
qed

lemma setChild_partial:
  assumes "conf_wf c"
  shows "setChildCryptoHash c (partial_node c h l (parent_no c n) P) (bkey (l + 1) n) (h n) =
    Inr (partial_node c h l (parent_no c n) (insert n P))"
proof -
  let ?b = "parent_no c n" and ?i = "child_ix c n"
  have i: "?i < grouping c" by (rule child_ix_less [OF assms])
  have n: "child_no c ?b ?i = n" using child_split [OF assms, of n] by simp
  have other: "child_no c ?b j = n \<longleftrightarrow> j = ?i" if "j < grouping c" for j
    using child_no_eq_iff [OF assms that i, of ?b ?b] n by simp
  have "(map (\<lambda>i. if child_no c ?b i \<in> P then h (child_no c ?b i) else None) [0..<grouping c])[?i := h n] =
      map (\<lambda>i. if child_no c ?b i \<in> insert n P then h (child_no c ?b i) else None) [0..<grouping c]"
    using i by (intro nth_equalityI) (auto simp: nth_list_update other n)
  moreover have "(map (\<lambda>i. child_no c ?b i \<in> P) [0..<grouping c])[?i := True] =
      map (\<lambda>i. child_no c ?b i \<in> insert n P) [0..<grouping c]"
    using i by (intro nth_equalityI) (auto simp: nth_list_update other n)
  moreover have "int ?i < maxGroupingAtEachLevel c" "0 < maxGroupingAtEachLevel c" using i by linarith+
  ultimately show ?thesis
    by (simp add: setChildCryptoHash_def partial_node_def getChildIndex_valid [OF assms])
qed

lemma setInParent_ok:
  assumes "conf_wf c" and "valid_bk c (l + 1) n" and "0 \<le> l" and "btd_ok btd" and "level_ok c h btd l P"
  shows "\<exists>btd'. setInParent c btd (bkey (l + 1) n) (h n) = Inr btd' \<and> btd_ok btd' \<and>
    level_ok c h btd' l (insert n P) \<and> (\<forall>l'. l' \<noteq> l \<longrightarrow> btd_level btd' l' = btd_level btd l')"
proof -
  let ?b = "parent_no c n" and ?new = "partial_node c h l (parent_no c n) (insert n P)"
  obtain btd1 where g: "getOrCreateBucketNode c btd (bkey l ?b) = (partial_node c h l ?b P, btd1)"
    and b1: "btd_ok btd1" "\<And>l' b'. (l', b') \<noteq> (l, ?b) \<Longrightarrow> node_at btd1 l' b' = node_at btd l' b'"
      "\<And>l'. l' \<noteq> l \<Longrightarrow> btd_level btd1 l' = btd_level btd l'"
  proof (cases "?b \<in> parent_no c ` P")
    case True
    then have "mget (btd_level btd l) ?b = Some (partial_node c h l ?b P)"
      using assms(5) by (simp add: level_ok_def node_at_def)
    with that [of btd] assms(4) show ?thesis by (simp add: getOrCreateBucketNode_def)
  next
    case False
    then have "mget (btd_level btd l) ?b = None"
      using assms(5) by (simp add: level_ok_def node_at_def)
    then have "getOrCreateBucketNode c btd (bkey l ?b) =
        (partial_node c h l ?b P, putBucketNode btd (partial_node c h l ?b P))"
      using partial_node_new [OF assms(1) False, of l h]
      by (simp add: getOrCreateBucketNode_def Let_def)
    then show ?thesis
      by (rule that) (auto simp: btd_ok_put [OF assms(4)] node_at_put btd_level_put)
  qed
  let ?btd' = "putBucketNode btd1 ?new"
  have "setInParent c btd (bkey (l + 1) n) (h n) = Inr ?btd'"
    using g setChild_partial [OF assms(1), of h l n P]
    by (simp add: setInParent_def getParentKey_valid [OF assms(1-3)])
  moreover have "btd_ok ?btd'" using b1(1) by (rule btd_ok_put)
  moreover have "level_ok c h ?btd' l (insert n P)"
    using assms(5) b1(2) partial_node_other [OF assms(1)]
    by (auto simp: level_ok_def node_at_put)
  moreover have "\<forall>l'. l' \<noteq> l \<longrightarrow> btd_level ?btd' l' = btd_level btd l'"
    using b1(3) by (simp add: btd_level_put)
  ultimately show ?thesis by blast
qed

subsection \<open>Affected buckets\<close>

text \<open>The buckets at height \<open>d\<close> whose subtree holds an updated key.\<close>

fun aff :: "config \<Rightarrow> updates \<Rightarrow> nat \<Rightarrow> int set" where
  "aff c u 0 = affected_leaves c u"
| "aff c u (Suc d) = parent_no c ` aff c u d"

definition affected :: "config \<Rightarrow> updates \<Rightarrow> int \<Rightarrow> int set" where
  "affected c u l = aff c u (nat (lowestLevel c - l))"

lemma affected_parent:
  "0 \<le> l \<Longrightarrow> l < lowestLevel c \<Longrightarrow> affected c u l = parent_no c ` affected c u (l + 1)"
proof -
  assume "0 \<le> l" "l < lowestLevel c"
  then have "nat (lowestLevel c - l) = Suc (nat (lowestLevel c - (l + 1)))" by simp
  then show ?thesis by (simp add: affected_def)
qed

lemma affected_lowest: "affected c u (lowestLevel c) = affected_leaves c u"
  by (simp add: affected_def)

lemma affected_valid:
  assumes "conf_wf c" and "0 \<le> l" "l \<le> lowestLevel c" and "b \<in> affected c u l"
  shows "valid_bk c l b"
  using assms(2-)
proof (induction "nat (lowestLevel c - l)" arbitrary: l b)
  case 0
  then have "l = lowestLevel c" by simp
  with 0 show ?case
    using bucket_no_valid [OF assms(1)] by (auto simp: affected_lowest affected_leaves_def)
next
  case (Suc d)
  then have l: "0 \<le> l" "l < lowestLevel c" by simp_all
  from Suc.prems(3) obtain n where n: "n \<in> affected c u (l + 1)" "b = parent_no c n"
    unfolding affected_parent [OF l] by auto
  have "valid_bk c (l + 1) n" by (rule Suc.hyps(1)) (use Suc.hyps(2) l n in auto)
  from valid_parent [OF assms(1) this l(1)] n show ?case by simp
qed

text \<open>Outside the affected buckets the update changes no hash.\<close>

lemma leaf_unaffected:
  assumes "b \<notin> affected_leaves c u"
  shows "leaf_entries c (apply_updates u dm) b = leaf_entries c dm b"
proof -
  have "apply_updates u dm ck = dm ck" if "bucket_no c ck = b" for ck
    using that assms by (auto simp: apply_updates_def affected_leaves_def dom_def split: option.splits)
  then have "leaf_keys c (apply_updates u dm) b = leaf_keys c dm b"
    by (auto simp: leaf_keys_def dom_def)
  moreover have "\<forall>ck \<in> set (sorted_list_of_set (leaf_keys c dm b)). apply_updates u dm ck = dm ck"
    using \<open>\<And>ck. bucket_no c ck = b \<Longrightarrow> _\<close>
    by (cases "finite (leaf_keys c dm b)") (auto simp: leaf_keys_def)
  ultimately show ?thesis by (simp add: leaf_entries_def)
qed

lemma node_hash_unaffected:
  assumes "conf_wf c" and "b \<notin> aff c u d"
  shows "node_hash H c (apply_updates u dm) d b = node_hash H c dm d b"
  using assms(2)
proof (induction d arbitrary: b)
  case 0
  then show ?case by (simp add: leaf_unaffected)
next
  case (Suc d)
  have "child_no c b i \<notin> aff c u d" if "i < grouping c" for i
    using child_in_iff [OF assms(1) that, of b "aff c u d"] Suc.prems by auto
  with Suc.IH show ?case by (auto intro!: arg_cong [where f = "combine H"])
qed

lemma bucket_hash_unaffected:
  assumes "conf_wf c" and "b \<notin> affected c u l"
  shows "bucket_node_hash H c (apply_updates u dm) l b = bucket_node_hash H c dm l b"
  using assms node_hash_unaffected [OF assms(1)] by (simp add: affected_def bucket_node_hash_def)

subsection \<open>Merging with the stored node\<close>

lemma rfold_enumerate_update:
  assumes "length (childrenUpdated bn) = length hs" "length (childrenCryptoHash bn) = length hs"
  shows "rfold (\<lambda>bn (i, childCryptoHash).
          if length (childrenUpdated bn) \<le> i then Inl (Panic ''index out of range'')
          else if \<not> childrenUpdated bn ! i then
            (if length (childrenCryptoHash bn) \<le> i then Inl (Panic ''index out of range'')
             else if IsNil (childrenCryptoHash bn ! i)
             then Inr (bn\<lparr>childrenCryptoHash := (childrenCryptoHash bn)[i := childCryptoHash]\<rparr>)
             else Inr bn)
          else Inr bn) (enumerate 0 hs) bn =
    Inr (bn\<lparr>childrenCryptoHash := map (\<lambda>i.
      if \<not> childrenUpdated bn ! i \<and> IsNil (childrenCryptoHash bn ! i) then hs ! i
      else childrenCryptoHash bn ! i) [0..<length hs]\<rparr>)"
    (is "rfold ?f _ _ = _")
proof -
  define g where "g = (\<lambda>i. if \<not> childrenUpdated bn ! i \<and> IsNil (childrenCryptoHash bn ! i) then hs ! i
      else childrenCryptoHash bn ! i)"
  have "k \<le> length hs \<Longrightarrow> rfold ?f (take k (enumerate 0 hs)) bn =
      Inr (bn\<lparr>childrenCryptoHash := map g [0..<k] @ drop k (childrenCryptoHash bn)\<rparr>)" for k
  proof (induction k)
    case (Suc k)
    then have k: "k < length hs" by simp
    let ?bn = "bn\<lparr>childrenCryptoHash := map g [0..<k] @ drop k (childrenCryptoHash bn)\<rparr>"
    have nth: "childrenCryptoHash ?bn ! k = childrenCryptoHash bn ! k"
      using k assms by (simp add: nth_append)
    have upd: "(childrenCryptoHash ?bn)[k := v] = map g [0..<k] @ v # drop (Suc k) (childrenCryptoHash bn)" for v
      using k assms by (simp add: list_update_append Cons_nth_drop_Suc [symmetric])
    have same: "drop k (childrenCryptoHash bn) = childrenCryptoHash bn ! k # drop (Suc k) (childrenCryptoHash bn)"
      using k assms by (simp add: Cons_nth_drop_Suc)
    have "?f ?bn (k, hs ! k) = Inr (bn\<lparr>childrenCryptoHash := map g [0..<k] @ g k # drop (Suc k) (childrenCryptoHash bn)\<rparr>)"
      using k assms nth upd [of "hs ! k"] same by (auto simp: g_def)
    moreover have "take (Suc k) (enumerate 0 hs) = take k (enumerate 0 hs) @ [(k, hs ! k)]"
      using k by (simp add: take_Suc_conv_app_nth nth_enumerate_eq)
    ultimately show ?case
      using Suc by (simp add: rfold_append)
  qed simp
  from this [of "length hs"] show ?thesis
    using assms by (simp add: g_def)
qed

lemma mergeBucketNode_eq:
  assumes "bn_key another = bn_key bn" "length (childrenUpdated bn) = length (childrenCryptoHash another)"
    "length (childrenCryptoHash bn) = length (childrenCryptoHash another)"
  shows "mergeBucketNode bn another = Inr (bn\<lparr>childrenCryptoHash := map (\<lambda>i.
      if \<not> childrenUpdated bn ! i \<and> IsNil (childrenCryptoHash bn ! i) then childrenCryptoHash another ! i
      else childrenCryptoHash bn ! i) [0..<length (childrenCryptoHash another)]\<rparr>)"
  using assms rfold_enumerate_update [OF assms(2,3)] by (simp add: mergeBucketNode_def)

subsection \<open>The hash of a complete node\<close>

lemma hash_loop:
  assumes "\<forall>i < length hs. NotNil (hs ! i) \<longrightarrow> valid_bk c (l + 1) (child_no c b (n + i))"
  shows "rfold (\<lambda>(content, numChildren) (i, childCryptoHash).
         if NotNil childCryptoHash
         then rbind (getChildKey c (bkey l b) (int i)) (\<lambda>_.
           Inr (content @ sbytes childCryptoHash, numChildren + 1))
         else Inr (content, numChildren)) (enumerate n hs) (content, k) =
    Inr (content @ concat (map sbytes (filter NotNil hs)), k + length (filter NotNil hs))"
  using assms
proof (induction hs arbitrary: n content k)
  case (Cons h hs)
  have "\<forall>i < length hs. NotNil (hs ! i) \<longrightarrow> valid_bk c (l + 1) (child_no c b (Suc n + i))"
  proof (intro allI impI)
    fix i
    assume "i < length hs" "NotNil (hs ! i)"
    with Cons.prems [rule_format, of "Suc i"] show "valid_bk c (l + 1) (child_no c b (Suc n + i))" by simp
  qed
  from Cons.IH [OF this] Cons.prems [rule_format, of 0] show ?case
    by (simp add: getChildKey_eq newBucketKey_valid)
qed simp

lemma all_nil_filter:
  "\<forall>h \<in> set hs. hash_slice h \<Longrightarrow> all_nil hs \<longleftrightarrow> filter NotNil hs = []"
  using hash_slice_IsNil by (auto simp: all_nil_def filter_empty_conv)

lemma computeCryptoHash_node:
  assumes "\<forall>h \<in> set hs. hash_slice h"
    and "\<forall>i < length hs. NotNil (hs ! i) \<longrightarrow> valid_bk c (l + 1) (child_no c b i)"
    and "bn_key bn = bkey l b" "childrenCryptoHash bn = hs"
  shows "bn_computeCryptoHash H c bn =
    Inr (combine H hs, bn\<lparr>markedForDeletion := markedForDeletion bn \<or> all_nil hs\<rparr>)"
proof -
  have "bn_computeCryptoHash H c bn =
      (let content = concat (map sbytes (filter NotNil hs)); n = length (filter NotNil hs) in
       if n = 0 then Inr (None, bn\<lparr>markedForDeletion := True\<rparr>)
       else if n = 1 then Inr (Some content, bn) else Inr (Some (H content), bn))"
    unfolding bn_computeCryptoHash_def assms(3,4) Let_def
    by (subst hash_loop) (use assms(2) in simp_all)
  moreover have "combine H hs = (let n = length (filter NotNil hs); content = concat (map sbytes (filter NotNil hs)) in
      if n = 0 then None else if n = 1 then Some content else Some (H content))"
    unfolding combine_def Let_def by (auto split: list.splits)
  moreover have "all_nil hs \<longleftrightarrow> length (filter NotNil hs) = 0"
    using all_nil_filter [OF assms(1)] by simp
  ultimately show ?thesis
    by (auto simp: Let_def)
qed

lemma child_hashes_valid:
  assumes "conf_wf c" "valid_bk c l b" "l < lowestLevel c" "i < grouping c" "child_hashes H c dm l b ! i \<noteq> None"
  shows "valid_bk c (l + 1) (child_no c b i)"
  using assms valid_child_bounds [OF assms(1,2,4)]
  by (auto simp: child_hashes_nth valid_bk_def split: if_splits)

lemma computeCryptoHash_children:
  assumes "hash_ok H" "conf_wf c" "valid_bk c l b" "l < lowestLevel c"
    and "bn_key bn = bkey l b" "childrenCryptoHash bn = child_hashes H c dm l b"
  shows "bn_computeCryptoHash H c bn = Inr (bucket_node_hash H c dm l b,
    bn\<lparr>markedForDeletion := markedForDeletion bn \<or> all_nil (child_hashes H c dm l b)\<rparr>)"
proof -
  have l: "0 \<le> l" using assms(3) by (simp add: valid_bk_def)
  have sl: "\<forall>h \<in> set (child_hashes H c dm l b). hash_slice h" using child_hashes_slice [OF assms(1)] by blast
  have "\<forall>i < length (child_hashes H c dm l b). NotNil (child_hashes H c dm l b ! i) \<longrightarrow>
      valid_bk c (l + 1) (child_no c b i)"
    using child_hashes_valid [OF assms(2-4)] by (auto simp: IsNil_def)
  from computeCryptoHash_node [OF sl this assms(5,6)] bucket_node_hash_inner [OF l assms(4)] show ?thesis by simp
qed

subsection \<open>Reading the stored node\<close>

text \<open>What an enabled cache holds is what the database stores.\<close>

definition cache_ok :: "(bytes \<Rightarrow> bytes) \<Rightarrow> config \<Rightarrow> kvstate \<Rightarrow> bucketCache \<Rightarrow> bool" where
  "cache_ok H c dm cache \<longleftrightarrow>
     (\<forall>bk bn. isEnabled cache \<longrightarrow> mget (cache_c cache) bk = Some bn \<longrightarrow>
        (\<exists>l b. bk = bkey l b \<and> valid_bk c l b \<and> l < lowestLevel c \<and> bn_key bn = bkey l b \<and>
               childrenCryptoHash bn = child_hashes H c dm l b))"

text \<open>A database and a cache that hold the tree of the state \<open>dm\<close>.\<close>

definition tree_at ::
  "(bytes \<Rightarrow> bytes) \<Rightarrow> config \<Rightarrow> 'db gorocksdb \<Rightarrow> ('db \<Rightarrow> dbmap) \<Rightarrow> 'db \<Rightarrow> bucketCache \<Rightarrow> kvstate \<Rightarrow> bool" where
  "tree_at H c D content db cache dm \<longleftrightarrow>
     rocksdb_ok D content \<and> hash_ok H \<and> conf_wf c \<and> tree_db H c dm (content db StateCF) \<and> cache_ok H c dm cache"

lemma tree_atD:
  assumes "tree_at H c D content db cache dm"
  shows "rocksdb_ok D content" "hash_ok H" "conf_wf c" "tree_db H c dm (content db StateCF)" "cache_ok H c dm cache"
  using assms by (simp_all add: tree_at_def)

lemma cache_get_tree:
  assumes "tree_at H c D content db cache dm" "valid_bk c l b" "l < lowestLevel c"
  shows "\<exists>r. cache_get c D db cache (bkey l b) = Inr r \<and>
    (case r of None \<Rightarrow> all_nil (child_hashes H c dm l b)
     | Some bn \<Rightarrow> bn_key bn = bkey l b \<and> childrenCryptoHash bn = child_hashes H c dm l b)"
proof (cases "isEnabled cache \<and> mget (cache_c cache) (bkey l b) \<noteq> None")
  case True
  then obtain bn where "mget (cache_c cache) (bkey l b) = Some bn" "isEnabled cache" by auto
  moreover from this have "bn_key bn = bkey l b \<and> childrenCryptoHash bn = child_hashes H c dm l b"
    using tree_atD(5) [OF assms(1)] unfolding cache_ok_def by (metis bkey_inj)
  ultimately show ?thesis by (simp add: cache_get_def)
next
  case False
  then have "cache_get c D db cache (bkey l b) = fetchBucketNodeFromDB c D db (bkey l b)"
    by (auto simp: cache_get_def split: option.splits)
  with fetchBucketNode_tree [OF tree_atD(1-4) [OF assms(1)] assms(2,3)] show ?thesis
    by (simp add: stored_node_def newBucketNode_def Let_def)
qed

definition merged_node :: "(bytes \<Rightarrow> bytes) \<Rightarrow> config \<Rightarrow> updates \<Rightarrow> kvstate \<Rightarrow> int \<Rightarrow> int \<Rightarrow> bucketNode" where
  "merged_node H c u dm l b =
     \<lparr>bn_key = bkey l b, childrenCryptoHash = child_hashes H c (apply_updates u dm) l b,
      childrenUpdated = map (\<lambda>i. child_no c b i \<in> affected c u (l + 1)) [0..<grouping c],
      markedForDeletion = False\<rparr>"

definition final_node :: "(bytes \<Rightarrow> bytes) \<Rightarrow> config \<Rightarrow> updates \<Rightarrow> kvstate \<Rightarrow> int \<Rightarrow> int \<Rightarrow> bucketNode" where
  "final_node H c u dm l b = (merged_node H c u dm l b)
     \<lparr>markedForDeletion := all_nil (child_hashes H c (apply_updates u dm) l b)\<rparr>"

abbreviation level_node :: "(bytes \<Rightarrow> bytes) \<Rightarrow> config \<Rightarrow> updates \<Rightarrow> kvstate \<Rightarrow> int \<Rightarrow> int \<Rightarrow> bucketNode" where
  "level_node H c u dm l b \<equiv>
     partial_node c (bucket_node_hash H c (apply_updates u dm) (l + 1)) l b (affected c u (l + 1))"

lemma merge_level_node:
  assumes "tree_at H c D content db cache dm" "valid_bk c l b" "l < lowestLevel c"
  shows "mergeWithStored c D db cache (level_node H c u dm l b) = Inr (merged_node H c u dm l b)"
proof -
  let ?A = "affected c u (l + 1)" and ?dm = "apply_updates u dm"
  let ?new = "child_hashes H c ?dm l b" and ?old = "child_hashes H c dm l b"
  note cw = tree_atD(3) [OF assms(1)]
  have l: "0 \<le> l" using assms(2) by (simp add: valid_bk_def)
  have upd: "bucket_node_hash H c ?dm (l + 1) (child_no c b i) = ?new ! i"
    if "i < grouping c" "child_no c b i \<in> ?A" for i
    using that affected_valid [OF cw, of "l + 1" _ u] l assms(3)
    by (auto simp: child_hashes_nth valid_bk_def)
  have keep: "?old ! i = ?new ! i" if "i < grouping c" "child_no c b i \<notin> ?A" for i
    using that bucket_hash_unaffected [OF cw that(2)] by (simp add: child_hashes_nth)
  obtain r where r: "cache_get c D db cache (bkey l b) = Inr r"
    "case r of None \<Rightarrow> all_nil ?old | Some bn \<Rightarrow> bn_key bn = bkey l b \<and> childrenCryptoHash bn = ?old"
    using cache_get_tree [OF assms] by blast
  show ?thesis
  proof (cases r)
    case None
    then have "?old ! i = None" if "i < grouping c" for i
      using r(2) that by (auto simp: all_nil_def)
    then have "map (\<lambda>i. if child_no c b i \<in> ?A then bucket_node_hash H c ?dm (l + 1) (child_no c b i) else None)
        [0..<grouping c] = ?new"
      using upd keep by (intro nth_equalityI) auto
    with None r(1) show ?thesis by (simp add: mergeWithStored_def merged_node_def partial_node_def)
  next
    case (Some bn)
    then have bn: "bn_key bn = bkey l b" "childrenCryptoHash bn = ?old" using r(2) by auto
    have "map (\<lambda>i. if \<not> childrenUpdated (level_node H c u dm l b) ! i \<and>
          IsNil (childrenCryptoHash (level_node H c u dm l b) ! i) then ?old ! i
          else childrenCryptoHash (level_node H c u dm l b) ! i) [0..<grouping c] = ?new"
      using upd keep by (intro nth_equalityI) (auto simp: partial_node_def)
    moreover have "mergeBucketNode (level_node H c u dm l b) bn =
        Inr ((level_node H c u dm l b)\<lparr>childrenCryptoHash := map (\<lambda>i.
          if \<not> childrenUpdated (level_node H c u dm l b) ! i \<and>
            IsNil (childrenCryptoHash (level_node H c u dm l b) ! i) then childrenCryptoHash bn ! i
          else childrenCryptoHash (level_node H c u dm l b) ! i) [0..<length (childrenCryptoHash bn)]\<rparr>)"
      by (rule mergeBucketNode_eq) (simp_all add: bn partial_node_def)
    ultimately have "mergeBucketNode (level_node H c u dm l b) bn =
        Inr ((level_node H c u dm l b)\<lparr>childrenCryptoHash := ?new\<rparr>)"
      unfolding bn(2) length_child_hashes by simp
    with Some r(1) show ?thesis by (simp add: mergeWithStored_def merged_node_def partial_node_def)
  qed
qed

subsection \<open>The level above the leaves\<close>

abbreviation new_hash :: "(bytes \<Rightarrow> bytes) \<Rightarrow> config \<Rightarrow> updates \<Rightarrow> kvstate \<Rightarrow> int \<Rightarrow> int \<Rightarrow> slice" where
  "new_hash H c u dm \<equiv> bucket_node_hash H c (apply_updates u dm)"

lemma processDataNodes_ok:
  assumes "tree_at H c D content db cache dm" "updates_ok u" "dnd_ok c u dnd"
  shows "\<exists>btd. efold (processDataNode H c D db dnd) (map fst (byBucket dnd)) newBucketTreeDelta = (None, btd) \<and>
    btd_ok btd \<and> level_ok c (new_hash H c u dm (lowestLevel c)) btd (lowestLevel c - 1) (affected_leaves c u) \<and>
    (\<forall>l. l \<noteq> lowestLevel c - 1 \<longrightarrow> btd_level btd l = [])"
proof -
  note t = tree_atD [OF assms(1)]
  let ?L = "lowestLevel c" and ?h = "new_hash H c u dm (lowestLevel c)"
  have L: "0 \<le> ?L - 1" "?L - 1 + 1 = ?L" using conf_lowest [OF t(3)] by simp_all
  define Inv where "Inv = (\<lambda>btd (pre :: bucketKey list). btd_ok btd \<and> level_ok c ?h btd (?L - 1) (bk_number ` set pre) \<and>
    (\<forall>l. l \<noteq> ?L - 1 \<longrightarrow> btd_level btd l = []))"
  have "\<exists>btd. efold (processDataNode H c D db dnd) (map fst (byBucket dnd)) newBucketTreeDelta = (None, btd) \<and>
      Inv btd (map fst (byBucket dnd))"
  proof (rule efold_invariant)
    show "Inv newBucketTreeDelta []"
      by (simp add: Inv_def level_ok_def) (simp add: newBucketTreeDelta_def btd_level_def)
  next
    fix btd pre bk post
    assume I: "Inv btd pre" and split: "map fst (byBucket dnd) = pre @ bk # post"
    then have "bk \<in> set (map fst (byBucket dnd))" by simp
    then obtain b where b: "b \<in> affected_leaves c u" "bk = bkey ?L b"
      unfolding dnd_ok_keys(1) [OF assms(3)] by auto
    then have v: "valid_bk c (?L - 1 + 1) b"
      using bucket_no_valid [OF t(3)] L by (auto simp: affected_leaves_def)
    obtain btd' where set: "setInParent c btd (bkey (?L - 1 + 1) b) (?h b) = Inr btd'" and
      btd': "btd_ok btd'" "level_ok c ?h btd' (?L - 1) (insert b (bk_number ` set pre))"
        "\<forall>l'. l' \<noteq> ?L - 1 \<longrightarrow> btd_level btd' l' = btd_level btd l'"
      using setInParent_ok [OF t(3) v L(1), of btd ?h "bk_number ` set pre"] I by (auto simp: Inv_def)
    have "processDataNode H c D db dnd bk btd = (None, btd')"
      using leaf_hash_computed [OF t(1,3,4) assms(2,3) b(1)] set L
      by (simp add: processDataNode_def b(2) rbind_assoc [symmetric])
    moreover have "Inv btd' (pre @ [bk])"
      using btd' I b(2) by (simp add: Inv_def insert_commute)
    ultimately show "\<exists>btd'. processDataNode H c D db dnd bk btd = (None, btd') \<and> Inv btd' (pre @ [bk])" by blast
  qed
  moreover have "bk_number ` set (map fst (byBucket dnd)) = affected_leaves c u"
    unfolding dnd_ok_keys(1) [OF assms(3)] by (simp add: image_image)
  ultimately show ?thesis by (simp add: Inv_def)
qed

subsection \<open>The inner levels\<close>

definition level_done :: "(bytes \<Rightarrow> bytes) \<Rightarrow> config \<Rightarrow> updates \<Rightarrow> kvstate \<Rightarrow> bucketTreeDelta \<Rightarrow> int \<Rightarrow> bool" where
  "level_done H c u dm btd l \<longleftrightarrow>
     (\<forall>b. node_at btd l b = (if b \<in> affected c u l then Some (final_node H c u dm l b) else None))"

lemma processBucketNode_ok:
  assumes "tree_at H c D content db cache dm" "1 \<le> l" "l < lowestLevel c" "b \<in> affected c u l"
    and "btd_ok btd" "level_ok c (new_hash H c u dm l) btd (l - 1) Q"
  shows "\<exists>btd'. processBucketNode H c D db cache (level_node H c u dm l b) btd = (None, btd') \<and> btd_ok btd' \<and>
    level_ok c (new_hash H c u dm l) btd' (l - 1) (insert b Q) \<and>
    btd_level btd' l = mput b (final_node H c u dm l b) (btd_level btd l) \<and>
    (\<forall>l'. l' \<noteq> l \<and> l' \<noteq> l - 1 \<longrightarrow> btd_level btd' l' = btd_level btd l')"
proof -
  note t = tree_atD [OF assms(1)]
  have v: "valid_bk c l b" by (rule affected_valid [OF t(3)]) (use assms in auto)
  let ?f = "final_node H c u dm l b" and ?m = "merged_node H c u dm l b"
  have hash: "bn_computeCryptoHash H c ?m = Inr (new_hash H c u dm l b, ?f)"
    using computeCryptoHash_children [OF t(2,3) v assms(3), of ?m "apply_updates u dm"]
    by (simp add: merged_node_def final_node_def)
  let ?btd1 = "putBucketNode btd ?f"
  have key: "bn_key ?f = bkey l b" by (simp add: final_node_def merged_node_def)
  have "level_ok c (new_hash H c u dm l) ?btd1 (l - 1) Q"
    using assms(6) by (simp add: level_ok_def node_at_put key)
  with setInParent_ok [OF t(3) _ _ btd_ok_put [OF assms(5)], of "l - 1" b "new_hash H c u dm l" ?f Q] v assms(2)
  obtain btd' where "setInParent c ?btd1 (bkey l b) (new_hash H c u dm l b) = Inr btd'" "btd_ok btd'"
    "level_ok c (new_hash H c u dm l) btd' (l - 1) (insert b Q)"
    "\<forall>l'. l' \<noteq> l - 1 \<longrightarrow> btd_level btd' l' = btd_level ?btd1 l'" by auto
  then show ?thesis
    using hash merge_level_node [OF assms(1) v assms(3), of u]
    by (simp add: processBucketNode_def key btd_level_put)
qed

lemma processLevel_ok:
  assumes "tree_at H c D content db cache dm" "1 \<le> l" "l < lowestLevel c" "btd_ok btd"
    and "level_ok c (new_hash H c u dm (l + 1)) btd l (affected c u (l + 1))" "btd_level btd (l - 1) = []"
  shows "\<exists>btd'. processLevel H c D db cache l btd = (None, btd') \<and> btd_ok btd' \<and> level_done H c u dm btd' l \<and>
    level_ok c (new_hash H c u dm l) btd' (l - 1) (affected c u l) \<and>
    (\<forall>l'. l' \<noteq> l \<and> l' \<noteq> l - 1 \<longrightarrow> btd_level btd' l' = btd_level btd l')"
proof -
  let ?ns = "getBucketNodesAt btd l" and ?num = "\<lambda>bns. bk_number ` bn_key ` set bns"
  have A: "affected c u l = parent_no c ` affected c u (l + 1)"
    using affected_parent [of l c u] assms(2,3) by simp
  have at: "node_at btd l b = (if b \<in> affected c u l then Some (level_node H c u dm l b) else None)" for b
    using assms(5) by (simp add: level_ok_def A)
  have ns: "bn \<in> set ?ns \<longleftrightarrow> (\<exists>b \<in> affected c u l. bn = level_node H c u dm l b)" for bn
    unfolding getBucketNodesAt_set(1) [OF assms(4)] at by auto
  define Inv where "Inv = (\<lambda>s (pre :: bucketNode list). btd_ok s \<and>
    level_ok c (new_hash H c u dm l) s (l - 1) (?num pre) \<and>
    (\<forall>b. node_at s l b = (if b \<in> ?num pre then Some (final_node H c u dm l b) else node_at btd l b)) \<and>
    (\<forall>l'. l' \<noteq> l \<and> l' \<noteq> l - 1 \<longrightarrow> btd_level s l' = btd_level btd l'))"
  have "\<exists>btd'. efold (processBucketNode H c D db cache) ?ns btd = (None, btd') \<and> Inv btd' ?ns"
  proof (rule efold_invariant)
    show "Inv btd []"
      using assms(4,6) by (simp add: Inv_def level_ok_def node_at_def)
  next
    fix s pre bn post
    assume I: "Inv s pre" and split: "?ns = pre @ bn # post"
    then have "bn \<in> set ?ns" by simp
    then obtain b where b: "b \<in> affected c u l" "bn = level_node H c u dm l b" using ns by blast
    obtain s' where s': "processBucketNode H c D db cache bn s = (None, s')" "btd_ok s'"
      "level_ok c (new_hash H c u dm l) s' (l - 1) (insert b (?num pre))"
      "btd_level s' l = mput b (final_node H c u dm l b) (btd_level s l)"
      "\<forall>l'. l' \<noteq> l \<and> l' \<noteq> l - 1 \<longrightarrow> btd_level s' l' = btd_level s l'"
      using processBucketNode_ok [OF assms(1-3) b(1), of s "?num pre"] I b(2) by (auto simp: Inv_def)
    then have "Inv s' (pre @ [bn])"
      using I b(2) by (auto simp: Inv_def node_at_def)
    with s'(1) show "\<exists>s'. processBucketNode H c D db cache bn s = (None, s') \<and> Inv s' (pre @ [bn])" by blast
  qed
  moreover have "?num ?ns = affected c u l"
  proof -
    have "b \<in> ?num ?ns \<longleftrightarrow> b \<in> affected c u l" for b
      unfolding image_image image_iff Bex_def ns by auto
    then show ?thesis by blast
  qed
  ultimately show ?thesis
    using assms(2) at by (auto simp: Inv_def processLevel_def level_done_def)
qed

subsection \<open>Up to the root\<close>

lemma affected_root:
  assumes "conf_wf c" "dom u \<noteq> {}"
  shows "affected c u 0 = {1}"
proof -
  have "aff c u d \<noteq> {}" for d
    using assms(2) by (induction d) (auto simp: affected_leaves_def)
  moreover have "b = 1" if "b \<in> affected c u 0" for b
    using affected_valid [OF assms(1) _ _ that] conf_root [OF assms(1)] conf_lowest [OF assms(1)]
    by (simp add: valid_bk_def)
  ultimately show ?thesis unfolding affected_def by blast
qed

lemma root_node_listed:
  assumes "btd_ok btd" "\<And>b. node_at btd 0 b = (if b = 1 then Some bn else None)"
  shows "\<exists>rest. getBucketNodesAt btd 0 = bn # rest"
proof -
  have iff: "x \<in> set (getBucketNodesAt btd 0) \<longleftrightarrow> x = bn" for x
    unfolding getBucketNodesAt_set(1) [OF assms(1)] assms(2) by auto
  show ?thesis
  proof (cases "getBucketNodesAt btd 0")
    case Nil
    with iff [of bn] show ?thesis by simp
  next
    case (Cons x rest)
    with iff [of x] show ?thesis by simp
  qed
qed

lemma processRoot_ok:
  assumes "tree_at H c D content db cache dm" "dom u \<noteq> {}" "btd_ok btd"
    and "level_ok c (new_hash H c u dm 1) btd 0 (affected c u 1)"
  shows "\<exists>btd'. processLevel H c D db cache 0 btd = (None, btd') \<and> btd_ok btd' \<and>
    (\<forall>b. node_at btd' 0 b = (if b = 1 then Some (merged_node H c u dm 0 1) else None)) \<and>
    (\<forall>l'. l' \<noteq> 0 \<longrightarrow> btd_level btd' l' = btd_level btd l')"
proof -
  note cw = tree_atD(3) [OF assms(1)]
  have L: "0 < lowestLevel c" using conf_lowest [OF cw] by simp
  have A: "parent_no c ` affected c u 1 = {1}"
    using affected_parent [of 0 c u] affected_root [OF cw assms(2)] L by simp
  have at: "node_at btd 0 b = (if b = 1 then Some (level_node H c u dm 0 1) else None)" for b
    using assms(4) by (auto simp: level_ok_def A)
  from root_node_listed [OF assms(3) at] obtain rest where
    "getBucketNodesAt btd 0 = level_node H c u dm 0 1 # rest" by blast
  moreover have "valid_bk c 0 1"
    using conf_root [OF cw] L by (simp add: valid_bk_def)
  from merge_level_node [OF assms(1) this L, of u]
  have "mergeWithStored c D db cache (level_node H c u dm 0 1) = Inr (merged_node H c u dm 0 1)" .
  ultimately have "processLevel H c D db cache 0 btd = (None, putBucketNode btd (merged_node H c u dm 0 1))"
    by (simp add: processLevel_def processRootNode_def)
  moreover have "bn_key (merged_node H c u dm 0 1) = bkey 0 1" by (simp add: merged_node_def)
  ultimately show ?thesis
    using btd_ok_put [OF assms(3)] at by (auto simp: node_at_put btd_level_put)
qed

lemma processLevels_ok:
  assumes "tree_at H c D content db cache dm" "dom u \<noteq> {}"
  shows "int n < lowestLevel c \<Longrightarrow> btd_ok btd \<Longrightarrow>
    level_ok c (new_hash H c u dm (int n + 1)) btd (int n) (affected c u (int n + 1)) \<Longrightarrow>
    (\<forall>l < int n. btd_level btd l = []) \<Longrightarrow>
    \<exists>btd'. efold (processLevel H c D db cache) (rev (map int [0..<Suc n])) btd = (None, btd') \<and> btd_ok btd' \<and>
      (\<forall>b. node_at btd' 0 b = (if b = 1 then Some (merged_node H c u dm 0 1) else None)) \<and>
      (\<forall>l. 1 \<le> l \<and> l \<le> int n \<longrightarrow> level_done H c u dm btd' l) \<and>
      (\<forall>l. int n < l \<longrightarrow> btd_level btd' l = btd_level btd l)"
proof (induction n arbitrary: btd)
  case 0
  with processRoot_ok [OF assms, of btd] obtain btd' where
    "processLevel H c D db cache 0 btd = (None, btd')" "btd_ok btd'"
    "\<forall>b. node_at btd' 0 b = (if b = 1 then Some (merged_node H c u dm 0 1) else None)"
    "\<forall>l'. l' \<noteq> 0 \<longrightarrow> btd_level btd' l' = btd_level btd l'" by auto
  then show ?case by auto
next
  case (Suc n)
  have "\<exists>btd1. processLevel H c D db cache (int (Suc n)) btd = (None, btd1) \<and> btd_ok btd1 \<and>
      level_done H c u dm btd1 (int (Suc n)) \<and>
      level_ok c (new_hash H c u dm (int (Suc n))) btd1 (int (Suc n) - 1) (affected c u (int (Suc n))) \<and>
      (\<forall>l'. l' \<noteq> int (Suc n) \<and> l' \<noteq> int (Suc n) - 1 \<longrightarrow> btd_level btd1 l' = btd_level btd l')"
    by (rule processLevel_ok [OF assms(1)]) (use Suc.prems in auto)
  then obtain btd1 where btd1: "processLevel H c D db cache (int (Suc n)) btd = (None, btd1)" "btd_ok btd1"
    "level_done H c u dm btd1 (int (Suc n))"
    "level_ok c (new_hash H c u dm (int n + 1)) btd1 (int n) (affected c u (int n + 1))"
    "\<forall>l'. l' \<noteq> int (Suc n) \<and> l' \<noteq> int n \<longrightarrow> btd_level btd1 l' = btd_level btd l'"
    by (auto simp: add.commute)
  have "\<exists>btd'. efold (processLevel H c D db cache) (rev (map int [0..<Suc n])) btd1 = (None, btd') \<and> btd_ok btd' \<and>
      (\<forall>b. node_at btd' 0 b = (if b = 1 then Some (merged_node H c u dm 0 1) else None)) \<and>
      (\<forall>l. 1 \<le> l \<and> l \<le> int n \<longrightarrow> level_done H c u dm btd' l) \<and>
      (\<forall>l. int n < l \<longrightarrow> btd_level btd' l = btd_level btd1 l)"
    by (rule Suc.IH) (use Suc.prems btd1 in auto)
  then obtain btd' where btd': "efold (processLevel H c D db cache) (rev (map int [0..<Suc n])) btd1 = (None, btd')"
    "btd_ok btd'" "\<forall>b. node_at btd' 0 b = (if b = 1 then Some (merged_node H c u dm 0 1) else None)"
    "\<forall>l. 1 \<le> l \<and> l \<le> int n \<longrightarrow> level_done H c u dm btd' l"
    "\<forall>l. int n < l \<longrightarrow> btd_level btd' l = btd_level btd1 l" by blast
  have "level_done H c u dm btd' l" if "1 \<le> l" "l \<le> int (Suc n)" for l
  proof (cases "l = int (Suc n)")
    case True
    then have "btd_level btd' l = btd_level btd1 l" using btd'(5) by simp
    with btd1(3) True show ?thesis by (simp add: level_done_def node_at_def)
  qed (use that btd'(4) in auto)
  moreover have "efold (processLevel H c D db cache) (rev (map int [0..<Suc (Suc n)])) btd = (None, btd')"
    using btd1(1) btd'(1) by simp
  moreover have "btd_level btd' l = btd_level btd l" if "int (Suc n) < l" for l
    using btd'(5) btd1(5) that by auto
  ultimately show ?case using btd'(2,3) by blast
qed

text \<open>A tree delta that holds exactly the affected nodes of the updated tree.\<close>

definition delta_done :: "(bytes \<Rightarrow> bytes) \<Rightarrow> config \<Rightarrow> updates \<Rightarrow> kvstate \<Rightarrow> bucketTreeDelta \<Rightarrow> bool" where
  "delta_done H c u dm btd \<longleftrightarrow> btd_ok btd \<and> (\<forall>l. 0 \<le> l \<and> l < lowestLevel c \<longrightarrow> level_done H c u dm btd l)"

lemma ComputeCryptoHash_ok:
  assumes "tree_at H c D content db cache dm" "updates_ok u" "dnd_ok c u dnd" "dom u \<noteq> {}"
    and "recomputeCryptoHash st" "si_dataNodesDelta st = Some dnd"
      "si_bucketTreeDelta st = Some newBucketTreeDelta" "si_bucketCache st = Some cache"
  shows "\<exists>btd. delta_done H c u dm btd \<and> si_ComputeCryptoHash H c D db st =
    (Inr (root_hash H c (apply_updates u dm)),
     st\<lparr>si_bucketTreeDelta := Some btd, lastComputedCryptoHash := root_hash H c (apply_updates u dm),
        recomputeCryptoHash := False\<rparr>)"
proof -
  note t = tree_atD [OF assms(1)]
  let ?L = "lowestLevel c" and ?root = "merged_node H c u dm 0 1"
  have L: "1 \<le> ?L" by (rule conf_lowest [OF t(3)])
  obtain btd1 where run1: "efold (processDataNode H c D db dnd) (map fst (byBucket dnd)) newBucketTreeDelta = (None, btd1)"
    and btd1: "btd_ok btd1" "level_ok c (new_hash H c u dm ?L) btd1 (?L - 1) (affected_leaves c u)"
      "\<forall>l. l \<noteq> ?L - 1 \<longrightarrow> btd_level btd1 l = []"
    using processDataNodes_ok [OF assms(1-3)] by blast
  define n where "n = nat (?L - 1)"
  have Sn: "Suc n = nat ?L" using L by (simp add: n_def)
  have n: "int n = ?L - 1" "levels_up c = rev (map int [0..<Suc n])"
    using L unfolding Sn by (simp_all add: n_def levels_up_def)
  have "\<exists>btd'. efold (processLevel H c D db cache) (rev (map int [0..<Suc n])) btd1 = (None, btd') \<and> btd_ok btd' \<and>
      (\<forall>b. node_at btd' 0 b = (if b = 1 then Some ?root else None)) \<and>
      (\<forall>l. 1 \<le> l \<and> l \<le> int n \<longrightarrow> level_done H c u dm btd' l) \<and>
      (\<forall>l. int n < l \<longrightarrow> btd_level btd' l = btd_level btd1 l)"
    by (rule processLevels_ok [OF assms(1,4)]) (use btd1 L in \<open>auto simp: n affected_lowest\<close>)
  then obtain btd2 where run2: "efold (processLevel H c D db cache) (levels_up c) btd1 = (None, btd2)"
    and btd2: "btd_ok btd2" "\<And>b. node_at btd2 0 b = (if b = 1 then Some ?root else None)"
      "\<forall>l. 1 \<le> l \<and> l \<le> int n \<longrightarrow> level_done H c u dm btd2 l"
    by (auto simp: n(2))
  have "getRootNode btd2 = Inr ?root"
    using root_node_listed [OF btd2(1,2)] by (auto simp: getRootNode_def)
  moreover have v: "valid_bk c 0 1" using conf_root [OF t(3)] L by (simp add: valid_bk_def)
  have "bn_computeCryptoHash H c ?root = Inr (root_hash H c (apply_updates u dm), final_node H c u dm 0 1)"
    using computeCryptoHash_children [OF t(2,3) v, of ?root "apply_updates u dm"] L
    by (simp add: merged_node_def final_node_def root_hash_def)
  moreover have "delta_done H c u dm (putBucketNode btd2 (final_node H c u dm 0 1))"
  proof -
    have key: "bn_key (final_node H c u dm 0 1) = bkey 0 1" by (simp add: final_node_def merged_node_def)
    have "level_done H c u dm (putBucketNode btd2 (final_node H c u dm 0 1)) l" if "0 \<le> l" "l < ?L" for l
    proof (cases "l = 0")
      case True
      then show ?thesis
        using btd2(2) affected_root [OF t(3) assms(4)] by (auto simp: level_done_def node_at_put key)
    next
      case False
      with that n have "level_done H c u dm btd2 l" using btd2(3) by simp
      with False show ?thesis by (simp add: level_done_def node_at_put key)
    qed
    then show ?thesis using btd_ok_put [OF btd2(1)] by (simp add: delta_done_def)
  qed
  ultimately show ?thesis
    using assms(5-) run1 run2 getAffectedBuckets_eq [OF t(3) assms(3)]
    by (auto simp: si_ComputeCryptoHash_def processDataNodeDelta_def processBucketTreeDelta_def
        computeRootNodeCryptoHash_def intro!: exI)
qed

end
