(* ===== verification/BucketPersist.thy ===== *)
theory BucketPersist
  imports BucketIncremental
begin

text \<open>
  Committing a working set. The write batch of \<open>AddChangesForPersistence\<close> turns a database that
  stores the tree of a state into one that stores the tree of the updated state, and
  \<open>ClearWorkingSet\<close> keeps the cache in step with it.
\<close>

subsection \<open>Write batches\<close>

fun op_target :: "batch_op \<Rightarrow> cf \<times> bytes" where
  "op_target (PutCF f k v) = (f, k)"
| "op_target (DeleteCF f k) = (f, k)"

fun op_value :: "batch_op \<Rightarrow> slice" where
  "op_value (PutCF f k v) = Some v"
| "op_value (DeleteCF f k) = None"

lemma apply_op_eq: "apply_op m op f k = (if op_target op = (f, k) then op_value op else m f k)"
  by (cases op) auto

lemma apply_batch_untouched:
  "\<forall>op \<in> set b. op_target op \<noteq> (f, k) \<Longrightarrow> apply_batch m b f k = m f k"
  by (induction b arbitrary: m) (auto simp: apply_op_eq)

lemma apply_batch_touched:
  "\<exists>op \<in> set b. op_target op = (f, k) \<Longrightarrow> \<forall>op \<in> set b. op_target op = (f, k) \<longrightarrow> op_value op = w \<Longrightarrow>
    apply_batch m b f k = w"
proof (induction b arbitrary: m)
  case (Cons a b)
  show ?case
  proof (cases "\<exists>op \<in> set b. op_target op = (f, k)")
    case True
    from Cons.IH [OF this] Cons.prems(2) show ?thesis by simp
  next
    case False
    with Cons.prems have "op_target a = (f, k)" "op_value a = w" by auto
    with False show ?thesis by (simp add: apply_batch_untouched apply_op_eq)
  qed
qed simp

lemma apply_batch_set:
  "op \<in> set b \<Longrightarrow> op_target op = (f, k) \<Longrightarrow> \<forall>op \<in> set b. op_target op = (f, k) \<longrightarrow> op_value op = w \<Longrightarrow>
    apply_batch m b f k = w"
  by (rule apply_batch_touched) blast+

lemma apply_batch_other_cf:
  "\<forall>op \<in> set b. fst (op_target op) \<noteq> f \<Longrightarrow> apply_batch m b f = m f"
  by (rule ext, rule apply_batch_untouched) auto

subsection \<open>The batch of a working set\<close>

definition data_op :: "config \<Rightarrow> bytes \<times> slice \<Rightarrow> batch_op" where
  "data_op c e = (if IsNil (snd e) then DeleteCF StateCF (dkey c (fst e)) else PutCF StateCF (dkey c (fst e)) (sbytes (snd e)))"

definition node_op :: "bucketNode \<Rightarrow> batch_op" where
  "node_op bn = (if markedForDeletion bn then DeleteCF StateCF (bk_getEncodedBytes (bn_key bn))
     else PutCF StateCF (bk_getEncodedBytes (bn_key bn)) (bn_marshal bn))"

definition data_ops :: "config \<Rightarrow> updates \<Rightarrow> bucketKey list \<Rightarrow> WriteBatch" where
  "data_ops c u bks = concat (map (\<lambda>bk. map (data_op c) (update_entries c u (bk_number bk))) bks)"

definition node_ops :: "config \<Rightarrow> bucketTreeDelta \<Rightarrow> WriteBatch" where
  "node_ops c btd = concat (map (\<lambda>l. map node_op (getBucketNodesAt btd l)) (levels_up c))"

lemma op_sel [simp]:
  "op_target (data_op c e) = (StateCF, dkey c (fst e))"
  "op_value (data_op c e) = (if IsNil (snd e) then None else snd e)"
  "op_target (node_op bn) = (StateCF, bk_getEncodedBytes (bn_key bn))"
  "op_value (node_op bn) = (if markedForDeletion bn then None else Some (bn_marshal bn))"
  by (auto simp: data_op_def node_op_def IsNil_iff) (cases "snd e"; auto)

lemma addBucketNodeChanges_eq: "addBucketNodeChanges c btd batch = batch @ node_ops c btd"
  by (simp add: addBucketNodeChanges_def node_ops_def node_op_def [abs_def])

lemma addDataNodeChanges_eq:
  assumes "conf_wf c" "dnd_ok c u dnd"
  shows "addDataNodeChanges c dnd batch = Inr (batch @ data_ops c u (map fst (byBucket dnd)))"
proof -
  have "getSortedDataNodesFor dnd bk = map (dnode c) (update_entries c u (bk_number bk))"
    if "bk \<in> set (map fst (byBucket dnd))" for bk
    using that getSortedDataNodes_eq [OF assms(2)] unfolding dnd_ok_keys(1) [OF assms(2)] by auto
  then show ?thesis
    by (auto simp: addDataNodeChanges_def getAffectedBuckets_eq [OF assms] data_ops_def data_op_def
        dn_isDelete_def comp_def intro!: arg_cong [where f = concat])
qed

lemma data_ops_set:
  assumes "updates_ok u" "dnd_ok c u dnd"
  shows "op \<in> set (data_ops c u (map fst (byBucket dnd))) \<longleftrightarrow> (\<exists>ck \<in> dom u. op = data_op c (ck, the (u ck)))"
proof -
  have "set (update_entries c u b) = (\<lambda>ck. (ck, the (u ck))) ` {ck \<in> dom u. bucket_no c ck = b}" for b
    using assms(1) by (simp add: update_entries_def updates_ok_def)
  note ue = this
  have "set (data_ops c u bks) = (\<Union>bk \<in> set bks. data_op c ` set (update_entries c u (bk_number bk)))" for bks
    by (simp add: data_ops_def)
  note dop = this [of "map fst (byBucket dnd)", unfolded ue dnd_ok_keys(1) [OF assms(2)] affected_leaves_def]
  have "set (data_ops c u (map fst (byBucket dnd))) =
      (\<Union>b \<in> bucket_no c ` dom u. data_op c ` (\<lambda>ck. (ck, the (u ck))) ` {ck \<in> dom u. bucket_no c ck = b})"
    unfolding dop by simp
  then show ?thesis by blast
qed

lemma levels_up_set: "l \<in> set (levels_up c) \<longleftrightarrow> 0 \<le> l \<and> l < lowestLevel c"
proof
  assume "0 \<le> l \<and> l < lowestLevel c"
  then have "l = int (nat l)" "nat l < nat (lowestLevel c)" by auto
  then show "l \<in> set (levels_up c)" unfolding levels_up_def by (metis atLeastLessThan_iff imageI set_map set_rev set_upt zero_le)
qed (auto simp: levels_up_def)

lemma node_ops_set:
  assumes "delta_done H c u dm btd"
  shows "op \<in> set (node_ops c btd) \<longleftrightarrow>
    (\<exists>l b. 0 \<le> l \<and> l < lowestLevel c \<and> b \<in> affected c u l \<and> op = node_op (final_node H c u dm l b))"
proof -
  have "bn \<in> set (getBucketNodesAt btd l) \<longleftrightarrow> (\<exists>b \<in> affected c u l. bn = final_node H c u dm l b)"
    if "0 \<le> l" "l < lowestLevel c" for l bn
    using assms that unfolding delta_done_def level_done_def
    by (auto simp: getBucketNodesAt_set(1) split: if_splits)
  note nodes = this
  have ops: "op \<in> set (node_ops c btd) \<longleftrightarrow>
      (\<exists>l. 0 \<le> l \<and> l < lowestLevel c \<and> (\<exists>bn \<in> set (getBucketNodesAt btd l). op = node_op bn))"
    unfolding node_ops_def set_concat set_map by (auto simp: levels_up_set)
  have "(0 \<le> l \<and> l < lowestLevel c \<and> (\<exists>bn \<in> set (getBucketNodesAt btd l). op = node_op bn)) \<longleftrightarrow>
      (\<exists>b. 0 \<le> l \<and> l < lowestLevel c \<and> b \<in> affected c u l \<and> op = node_op (final_node H c u dm l b))" for l
    using nodes [of l] by (cases "0 \<le> l \<and> l < lowestLevel c") auto
  then show ?thesis unfolding ops by simp
qed

lemma final_node_sel [simp]:
  "bn_key (final_node H c u dm l b) = bkey l b"
  "childrenCryptoHash (final_node H c u dm l b) = child_hashes H c (apply_updates u dm) l b"
  "markedForDeletion (final_node H c u dm l b) \<longleftrightarrow> all_nil (child_hashes H c (apply_updates u dm) l b)"
  by (simp_all add: final_node_def merged_node_def)

lemma bn_marshal_final: "bn_marshal (final_node H c u dm l b) = bn_marshal (stored_node c l b (child_hashes H c (apply_updates u dm) l b))"
  by (simp add: bn_marshal_def stored_node_def)

lemma child_hashes_unaffected:
  assumes "conf_wf c" "0 \<le> l" "l < lowestLevel c" "b \<notin> affected c u l"
  shows "child_hashes H c (apply_updates u dm) l b = child_hashes H c dm l b"
proof (rule nth_equalityI)
  fix i
  assume "i < length (child_hashes H c (apply_updates u dm) l b)"
  then have i: "i < grouping c" by simp
  have "child_no c b i \<notin> affected c u (l + 1)"
    using child_in_iff [OF assms(1) i] assms(4) affected_parent [OF assms(2,3)] by blast
  from bucket_hash_unaffected [OF assms(1) this] i
  show "child_hashes H c (apply_updates u dm) l b ! i = child_hashes H c dm l b ! i"
    by (simp add: child_hashes_nth)
qed simp

lemma apply_updates_outside: "ck \<notin> dom u \<Longrightarrow> apply_updates u dm ck = dm ck"
  by (auto simp: apply_updates_def split: option.splits)

definition tree_ops :: "config \<Rightarrow> updates \<Rightarrow> dataNodesDelta \<Rightarrow> bucketTreeDelta \<Rightarrow> WriteBatch" where
  "tree_ops c u dnd btd = data_ops c u (map fst (byBucket dnd)) @ node_ops c btd"

lemma tree_ops_set:
  assumes "updates_ok u" "dnd_ok c u dnd" "delta_done H c u dm btd"
  shows "op \<in> set (tree_ops c u dnd btd) \<longleftrightarrow> (\<exists>ck \<in> dom u. op = data_op c (ck, the (u ck))) \<or>
     (\<exists>l b. 0 \<le> l \<and> l < lowestLevel c \<and> b \<in> affected c u l \<and> op = node_op (final_node H c u dm l b))"
  unfolding tree_ops_def set_append Un_iff data_ops_set [OF assms(1,2)] node_ops_set [OF assms(3)] ..

lemma tree_ops_target:
  assumes "updates_ok u" "dnd_ok c u dnd" "delta_done H c u dm btd" and "op \<in> set (tree_ops c u dnd btd)"
  shows "(\<exists>ck \<in> dom u. op_target op = (StateCF, dkey c ck)) \<or>
     (\<exists>l b. 0 \<le> l \<and> l < lowestLevel c \<and> b \<in> affected c u l \<and> op_target op = (StateCF, bk_getEncodedBytes (bkey l b)))"
  using assms(4) unfolding tree_ops_set [OF assms(1-3)] by (metis (no_types, lifting) fst_conv final_node_sel(1) op_sel(1,3))

lemma persist_data:
  assumes "conf_wf c" "tree_db H c dm (m StateCF)" "updates_ok u" "dnd_ok c u dnd" "delta_done H c u dm btd"
  shows "apply_batch m (tree_ops c u dnd btd) StateCF (dkey c ck) = apply_updates u dm ck"
proof (cases "ck \<in> dom u")
  case ck: True
  note ts = tree_ops_set [OF assms(3-5)]
  show ?thesis
  proof (rule apply_batch_set)
    show "data_op c (ck, the (u ck)) \<in> set (tree_ops c u dnd btd)" unfolding ts using ck by blast
    show "op_target (data_op c (ck, the (u ck))) = (StateCF, dkey c ck)" by simp
    show "\<forall>op \<in> set (tree_ops c u dnd btd). op_target op = (StateCF, dkey c ck) \<longrightarrow> op_value op = apply_updates u dm ck"
    proof (intro ballI impI)
      fix op
      assume op: "op \<in> set (tree_ops c u dnd btd)" "op_target op = (StateCF, dkey c ck)"
      then have "\<exists>ck' \<in> dom u. op = data_op c (ck', the (u ck'))"
        unfolding ts using dkey_neq_bk [OF assms(1), THEN not_sym] by auto
      with op(2) ck assms(1) show "op_value op = apply_updates u dm ck" by (auto simp: apply_updates_def)
    qed
  qed
next
  case False
  then have "apply_batch m (tree_ops c u dnd btd) StateCF (dkey c ck) = dm ck"
    using apply_batch_untouched [of "tree_ops c u dnd btd" StateCF "dkey c ck" m] tree_ops_target [OF assms(3-5)]
      dkey_neq_bk [OF assms(1)] tree_db_data [OF assms(2), of ck] assms(1) by (metis dkey_inj prod.inject)
  then show ?thesis by (simp add: apply_updates_outside [OF False])
qed

text \<open>A write to the key of a bucket node comes from that node.\<close>

lemma tree_ops_node:
  assumes "conf_wf c" "updates_ok u" "dnd_ok c u dnd" "delta_done H c u dm btd"
    and v: "valid_bk c l b" and op: "op \<in> set (tree_ops c u dnd btd)" "op_target op = (StateCF, bk_getEncodedBytes (bkey l b))"
  shows "b \<in> affected c u l \<and> op = node_op (final_node H c u dm l b)"
proof -
  from op obtain l' b' where o: "0 \<le> l'" "l' < lowestLevel c" "b' \<in> affected c u l'" "op = node_op (final_node H c u dm l' b')"
    unfolding tree_ops_set [OF assms(2-4)] using dkey_neq_bk [OF assms(1)] by auto
  then have "valid_bk c l' b'" using affected_valid [OF assms(1)] by simp
  with o op(2) bk_encoded_inj [OF assms(1) this v] have "l' = l \<and> b' = b" by simp
  with o show ?thesis by simp
qed

lemma persist_node:
  assumes "conf_wf c" "tree_db H c dm (m StateCF)" "updates_ok u" "dnd_ok c u dnd" "delta_done H c u dm btd"
    and v: "valid_bk c l b" and l: "l < lowestLevel c"
  shows "apply_batch m (tree_ops c u dnd btd) StateCF (bk_getEncodedBytes (bkey l b)) =
     (if all_nil (child_hashes H c (apply_updates u dm) l b) then None
      else Some (bn_marshal (stored_node c l b (child_hashes H c (apply_updates u dm) l b))))"
proof (cases "b \<in> affected c u l")
  case True
  have l0: "0 \<le> l" using v by (simp add: valid_bk_def)
  show ?thesis
  proof (rule apply_batch_set)
    show "node_op (final_node H c u dm l b) \<in> set (tree_ops c u dnd btd)"
      unfolding tree_ops_set [OF assms(3-5)] using True l l0 by blast
    show "op_target (node_op (final_node H c u dm l b)) = (StateCF, bk_getEncodedBytes (bkey l b))" by simp
    show "\<forall>op \<in> set (tree_ops c u dnd btd). op_target op = (StateCF, bk_getEncodedBytes (bkey l b)) \<longrightarrow>
        op_value op = (if all_nil (child_hashes H c (apply_updates u dm) l b) then None
          else Some (bn_marshal (stored_node c l b (child_hashes H c (apply_updates u dm) l b))))"
      using tree_ops_node [OF assms(1,3-6)] by (metis (no_types, lifting) bn_marshal_final final_node_sel(3) op_sel(4))
  qed
next
  case False
  have l0: "0 \<le> l" using v by (simp add: valid_bk_def)
  have "apply_batch m (tree_ops c u dnd btd) StateCF (bk_getEncodedBytes (bkey l b)) = m StateCF (bk_getEncodedBytes (bkey l b))"
    using tree_ops_node [OF assms(1,3-6)] False by (intro apply_batch_untouched) blast
  then show ?thesis
    using tree_db_node [OF assms(2) v l] child_hashes_unaffected [OF assms(1) l0 l False] by simp
qed

lemma persist_keys:
  assumes "conf_wf c" "tree_db H c dm (m StateCF)" "updates_ok u" "dnd_ok c u dnd" "delta_done H c u dm btd"
    and k: "apply_batch m (tree_ops c u dnd btd) StateCF k = Some v"
  shows "(\<exists>ck \<in> dom (apply_updates u dm). k = dkey c ck) \<or>
      (\<exists>l b. valid_bk c l b \<and> l < lowestLevel c \<and> k = bk_getEncodedBytes (bkey l b))"
proof (cases "\<exists>ck. k = dkey c ck")
  case True
  with k persist_data [where m = m, OF assms(1-5)] show ?thesis by auto
next
  case False
  show ?thesis
  proof (cases "\<exists>op \<in> set (tree_ops c u dnd btd). op_target op = (StateCF, k)")
    case True
    with tree_ops_target [OF assms(3-5)] False obtain l b
      where "0 \<le> l" "l < lowestLevel c" "b \<in> affected c u l" "k = bk_getEncodedBytes (bkey l b)"
      by (metis prod.inject)
    with affected_valid [OF assms(1)] show ?thesis by (metis less_imp_le)
  next
    case untouched: False
    then have "m StateCF k = Some v" using k apply_batch_untouched [of "tree_ops c u dnd btd" StateCF k m] by auto
    with tree_db_keys [OF assms(2)] False show ?thesis by blast
  qed
qed

lemma tree_db_persist:
  assumes "conf_wf c" "tree_db H c dm (m StateCF)" "updates_ok u" "dnd_ok c u dnd" "delta_done H c u dm btd"
  shows "tree_db H c (apply_updates u dm)
    (apply_batch m (data_ops c u (map fst (byBucket dnd)) @ node_ops c btd) StateCF)"
  unfolding tree_db_def tree_ops_def [symmetric]
  using kv_ok_apply [OF tree_db_kv_ok [OF assms(2)] assms(3)] persist_data [where m = m, OF assms]
    persist_node [where m = m, OF assms] persist_keys [where m = m, OF assms] by blast

subsection \<open>The cache after a commit\<close>

definition clean_node :: "bucketNode \<Rightarrow> bucketNode" where
  "clean_node bn = bn\<lparr>markedForDeletion := False, childrenUpdated := []\<rparr>"

definition cache_step :: "bucketCache \<Rightarrow> bucketNode \<Rightarrow> bucketCache" where
  "cache_step cache bn =
     (if markedForDeletion bn then removeWithoutLock cache (bn_key bn) else putWithoutLock cache (bn_key bn) bn)"

lemma cache_step_facts:
  assumes "isEnabled cache"
  shows "isEnabled (cache_step cache bn)"
    and "bk \<noteq> bn_key bn \<Longrightarrow> mget (cache_c (cache_step cache bn)) bk = mget (cache_c cache) bk"
    and "mget (cache_c (cache_step cache bn)) (bn_key bn) = Some bn' \<Longrightarrow> bn' = clean_node bn \<and> \<not> markedForDeletion bn"
  using assms
  by (auto simp: cache_step_def removeWithoutLock_def putWithoutLock_def clean_node_def Let_def
      split: option.splits if_splits)

lemma cache_steps_facts:
  assumes "isEnabled cache"
  shows "isEnabled (foldl cache_step cache ns) \<and>
    (\<forall>bk bn'. mget (cache_c (foldl cache_step cache ns)) bk = Some bn' \<longrightarrow>
      (if bk \<in> bn_key ` set ns then \<exists>bn \<in> set ns. bn_key bn = bk \<and> bn' = clean_node bn \<and> \<not> markedForDeletion bn
       else mget (cache_c cache) bk = Some bn'))"
  using assms
proof (induction ns rule: rev_induct)
  case (snoc n ns)
  let ?c = "foldl cache_step cache ns"
  have en: "isEnabled ?c" and IH: "\<And>bk bn'. mget (cache_c ?c) bk = Some bn' \<Longrightarrow>
      (if bk \<in> bn_key ` set ns then \<exists>bn \<in> set ns. bn_key bn = bk \<and> bn' = clean_node bn \<and> \<not> markedForDeletion bn
       else mget (cache_c cache) bk = Some bn')"
    using snoc by blast+
  show ?case
  proof (intro conjI allI impI)
    show "isEnabled (foldl cache_step cache (ns @ [n]))" using cache_step_facts(1) [OF en] by simp
  next
    fix bk bn'
    assume a: "mget (cache_c (foldl cache_step cache (ns @ [n]))) bk = Some bn'"
    show "if bk \<in> bn_key ` set (ns @ [n])
        then \<exists>bn \<in> set (ns @ [n]). bn_key bn = bk \<and> bn' = clean_node bn \<and> \<not> markedForDeletion bn
        else mget (cache_c cache) bk = Some bn'"
    proof (cases "bk = bn_key n")
      case True
      with a cache_step_facts(3) [OF en, of n bn'] show ?thesis by auto
    next
      case False
      with a cache_step_facts(2) [OF en, of bk n] IH [of bk bn'] show ?thesis
        by (auto split: if_splits)
    qed
  qed
qed simp

lemma cache_disabled: "\<not> isEnabled cache \<Longrightarrow> foldl cache_step cache ns = cache"
  by (induction ns) (auto simp: cache_step_def removeWithoutLock_def putWithoutLock_def)

definition delta_nodes :: "config \<Rightarrow> bucketTreeDelta \<Rightarrow> bucketNode list" where
  "delta_nodes c btd = concat (map (getBucketNodesAt btd) (levels_down c))"

lemma foldl_concat_map: "foldl (\<lambda>s x. foldl f s (g x)) s xs = foldl f s (concat (map g xs))"
  by (induction xs arbitrary: s) auto

lemma delta_nodes_set:
  assumes "delta_done H c u dm btd"
  shows "bn \<in> set (delta_nodes c btd) \<longleftrightarrow>
    (\<exists>l b. 0 \<le> l \<and> l < lowestLevel c \<and> b \<in> affected c u l \<and> bn = final_node H c u dm l b)"
proof -
  have lv: "l \<in> set (levels_down c) \<longleftrightarrow> 0 \<le> l \<and> l < lowestLevel c" for l
    using levels_up_set [of l c] by (simp add: levels_up_def levels_down_def)
  have nodes: "bn \<in> set (getBucketNodesAt btd l) \<longleftrightarrow> (\<exists>b \<in> affected c u l. bn = final_node H c u dm l b)"
    if "0 \<le> l" "l < lowestLevel c" for l
    using assms that unfolding delta_done_def level_done_def
    by (auto simp: getBucketNodesAt_set(1) split: if_splits)
  have "bn \<in> set (delta_nodes c btd) \<longleftrightarrow> (\<exists>l. 0 \<le> l \<and> l < lowestLevel c \<and> bn \<in> set (getBucketNodesAt btd l))"
    unfolding delta_nodes_def set_concat set_map by (auto simp: lv)
  also have "\<dots> \<longleftrightarrow> (\<exists>l b. 0 \<le> l \<and> l < lowestLevel c \<and> b \<in> affected c u l \<and> bn = final_node H c u dm l b)"
    using nodes by metis
  finally show ?thesis .
qed

lemma cache_ok_commit:
  assumes "conf_wf c" "delta_done H c u dm btd" "cache_ok H c dm cache"
  shows "cache_ok H c (apply_updates u dm) (foldl cache_step cache (delta_nodes c btd))"
proof (cases "isEnabled cache")
  case True
  note f = cache_steps_facts [OF True, of "delta_nodes c btd"]
  note ns = delta_nodes_set [OF assms(2)]
  show ?thesis
    unfolding cache_ok_def
  proof (intro allI impI)
    fix bk bn'
    assume a: "mget (cache_c (foldl cache_step cache (delta_nodes c btd))) bk = Some bn'"
    show "\<exists>l b. bk = bkey l b \<and> valid_bk c l b \<and> l < lowestLevel c \<and> bn_key bn' = bkey l b \<and>
        childrenCryptoHash bn' = child_hashes H c (apply_updates u dm) l b"
    proof (cases "bk \<in> bn_key ` set (delta_nodes c btd)")
      case True
      with f a obtain bn where "bn \<in> set (delta_nodes c btd)" "bn_key bn = bk" "bn' = clean_node bn" by metis
      then obtain l b where o: "0 \<le> l" "l < lowestLevel c" "b \<in> affected c u l" "bn = final_node H c u dm l b"
        using ns by blast
      have "valid_bk c l b" by (rule affected_valid [OF assms(1)]) (use o in auto)
      with o \<open>bn_key bn = bk\<close> \<open>bn' = clean_node bn\<close> show ?thesis
        by (intro exI [of _ l] exI [of _ b]) (simp add: clean_node_def)
    next
      case False
      with f a have "mget (cache_c cache) bk = Some bn'" by metis
      with assms(3) True obtain l b where o: "bk = bkey l b" "valid_bk c l b" "l < lowestLevel c" "bn_key bn' = bkey l b"
        "childrenCryptoHash bn' = child_hashes H c dm l b" unfolding cache_ok_def by blast
      have l0: "0 \<le> l" using o(2) by (simp add: valid_bk_def)
      have "b \<notin> affected c u l"
      proof
        assume "b \<in> affected c u l"
        with ns l0 o(3) have "final_node H c u dm l b \<in> set (delta_nodes c btd)" by blast
        with False o(1) show False by (metis final_node_sel(1) imageI)
      qed
      with o child_hashes_unaffected [OF assms(1) l0 o(3)] show ?thesis by metis
    qed
  qed
next
  case False
  then show ?thesis by (simp add: cache_disabled cache_ok_def)
qed

subsection \<open>Working sets\<close>

text \<open>
  \<open>st_clean\<close>: no working set, and the remembered hashes are those of the stored state.
  \<open>st_prepared u\<close>: a working set with the updates \<open>u\<close>, before or after its hash was computed.
\<close>

definition st_clean ::
  "(bytes \<Rightarrow> bytes) \<Rightarrow> config \<Rightarrow> 'db gorocksdb \<Rightarrow> ('db \<Rightarrow> dbmap) \<Rightarrow> 'db \<Rightarrow> StateImpl \<Rightarrow> kvstate \<Rightarrow> bool" where
  "st_clean H c D content db st dm \<longleftrightarrow>
     (\<exists>cache. si_bucketCache st = Some cache \<and> tree_at H c D content db cache dm) \<and>
     persistedStateHash st = root_hash H c dm \<and> lastComputedCryptoHash st = root_hash H c dm \<and>
     \<not> recomputeCryptoHash st \<and> si_dataNodesDelta st = None \<and> si_bucketTreeDelta st = None"

definition st_prepared ::
  "(bytes \<Rightarrow> bytes) \<Rightarrow> config \<Rightarrow> 'db gorocksdb \<Rightarrow> ('db \<Rightarrow> dbmap) \<Rightarrow> 'db \<Rightarrow> StateImpl \<Rightarrow> kvstate \<Rightarrow> updates \<Rightarrow> bool" where
  "st_prepared H c D content db st dm u \<longleftrightarrow>
     (\<exists>cache. si_bucketCache st = Some cache \<and> tree_at H c D content db cache dm) \<and>
     persistedStateHash st = root_hash H c dm \<and> updates_ok u \<and> dom u \<noteq> {} \<and>
     (\<exists>dnd btd. si_dataNodesDelta st = Some dnd \<and> dnd_ok c u dnd \<and> si_bucketTreeDelta st = Some btd \<and>
        (if recomputeCryptoHash st then btd = newBucketTreeDelta
         else delta_done H c u dm btd \<and> lastComputedCryptoHash st = root_hash H c (apply_updates u dm)))"

lemma prepare_ok:
  assumes "st_clean H c D content db st dm \<or> st_prepared H c D content db st dm u0"
    and "sd_wf sd" "cc_ok sd" "dom (updates_of sd) \<noteq> {}"
  shows "\<exists>st'. si_PrepareWorkingSet c st sd = Inr st' \<and> st_prepared H c D content db st' dm (updates_of sd)"
proof -
  from assms(1) obtain cache where cache: "si_bucketCache st = Some cache" "tree_at H c D content db cache dm"
    "persistedStateHash st = root_hash H c dm" by (auto simp: st_clean_def st_prepared_def)
  have "\<not> StateDelta_IsEmpty sd"
  proof
    assume "StateDelta_IsEmpty sd"
    then have "updates_of sd = Map.empty"
      by (auto simp: StateDelta_IsEmpty_def updates_of_def delta_at_def StateDelta_Get_def fun_eq_iff)
    with assms(4) show False by simp
  qed
  moreover obtain dnd where "newDataNodesDelta c sd = Inr dnd" "dnd_ok c (updates_of sd) dnd"
    using newDataNodesDelta_ok [OF tree_atD(3) [OF cache(2)] assms(2,3)] by blast
  ultimately show ?thesis
    using cache assms(4) updates_of_ok [OF assms(2,3)] by (simp add: si_PrepareWorkingSet_def st_prepared_def)
qed

lemma compute_prepared:
  assumes "st_prepared H c D content db st dm u"
  shows "\<exists>st'. si_ComputeCryptoHash H c D db st = (Inr (root_hash H c (apply_updates u dm)), st') \<and>
    st_prepared H c D content db st' dm u \<and> \<not> recomputeCryptoHash st' \<and>
    si_dataNodesDelta st' = si_dataNodesDelta st"
proof (cases "recomputeCryptoHash st")
  case True
  with assms obtain cache dnd where p: "si_bucketCache st = Some cache" "tree_at H c D content db cache dm"
    "updates_ok u" "dom u \<noteq> {}" "si_dataNodesDelta st = Some dnd" "dnd_ok c u dnd"
    "si_bucketTreeDelta st = Some newBucketTreeDelta" "persistedStateHash st = root_hash H c dm"
    by (auto simp: st_prepared_def)
  from ComputeCryptoHash_ok [OF p(2,3,6,4) True p(5,7,1)] p show ?thesis
    by (auto simp: st_prepared_def)
next
  case False
  with assms show ?thesis by (auto simp: si_ComputeCryptoHash_def st_prepared_def)
qed

lemma compute_clean:
  "st_clean H c D content db st dm \<Longrightarrow> si_ComputeCryptoHash H c D db st = (Inr (root_hash H c dm), st)"
  by (simp add: st_clean_def si_ComputeCryptoHash_def)

lemma clear_discard:
  assumes "st_clean H c D content db st dm \<or> st_prepared H c D content db st dm u"
  shows "\<exists>st'. si_ClearWorkingSet c st False = Inr st' \<and> st_clean H c D content db st' dm"
  using assms by (auto simp: si_ClearWorkingSet_def st_clean_def st_prepared_def)

lemma si_clear_clean:
  assumes "st_clean H c D content db st dm"
  shows "si_ClearWorkingSet c st b = Inr st"
  using assms by (cases b) (auto simp: si_ClearWorkingSet_def st_clean_def updateBucketCache_def)

lemma si_Get_clean:
  assumes "tree_at H c D content db cache dm"
  shows "si_Get c D db cc k = Inr (dm (ConstructCompositeKey cc k))"
proof -
  note t = tree_atD [OF assms]
  have "dm ck \<noteq> Some []" for ck using tree_db_kv_ok [OF t(4)] by (auto simp: kv_ok_def)
  then show ?thesis
    using tree_db_data [OF t(4), of "ConstructCompositeKey cc k"]
    by (cases "dm (ConstructCompositeKey cc k)")
      (auto simp: si_Get_def newDataKey_eq [OF t(3)] fetchDataNodeFromDB_def GetFromStateCF_def db_get_ok [OF t(1)])
qed

lemma updateBucketCache_eq:
  assumes "si_bucketTreeDelta st = Some btd" "si_bucketCache st = Some cache"
  shows "updateBucketCache c st = Inr (st\<lparr>si_bucketCache := Some (foldl cache_step cache (delta_nodes c btd))\<rparr>)"
proof (cases "btd_isEmpty btd")
  case True
  then have "getBucketNodesAt btd l = []" for l
    by (simp add: btd_isEmpty_def getBucketNodesAt_def btd_level_def)
  then have "delta_nodes c btd = []" by (simp add: delta_nodes_def)
  with True assms show ?thesis by (simp add: updateBucketCache_def)
next
  case False
  with assms show ?thesis
    by (simp add: updateBucketCache_def delta_nodes_def foldl_concat_map flip: cache_step_def)
qed

text \<open>A computed working set: its batch, and the state after the batch was written.\<close>

lemma persist_computed:
  assumes "st_prepared H c D content db st dm u" "\<not> recomputeCryptoHash st"
  shows "\<exists>ops. si_AddChangesForPersistence H c D db st batch = (Inr (batch @ ops), st) \<and>
    (\<forall>op \<in> set ops. fst (op_target op) = StateCF) \<and>
    (\<forall>db'. content db' StateCF = apply_batch (content db) ops StateCF \<longrightarrow>
      (\<exists>st''. si_ClearWorkingSet c st True = Inr st'' \<and> st_clean H c D content db' st'' (apply_updates u dm)))"
proof -
  from assms obtain cache dnd btd where p: "si_bucketCache st = Some cache" "tree_at H c D content db cache dm"
    "updates_ok u" "si_dataNodesDelta st = Some dnd" "dnd_ok c u dnd" "si_bucketTreeDelta st = Some btd"
    "delta_done H c u dm btd" "lastComputedCryptoHash st = root_hash H c (apply_updates u dm)"
    by (auto simp: st_prepared_def)
  note t = tree_atD [OF p(2)]
  let ?ops = "data_ops c u (map fst (byBucket dnd)) @ node_ops c btd"
  let ?st = "st\<lparr>persistedStateHash := lastComputedCryptoHash st,
    si_bucketCache := Some (foldl cache_step cache (delta_nodes c btd)),
    si_dataNodesDelta := None, si_bucketTreeDelta := None, recomputeCryptoHash := False\<rparr>"
  have "si_AddChangesForPersistence H c D db st batch = (Inr (batch @ ?ops), st)"
    using assms(2) p by (simp add: si_AddChangesForPersistence_def addDataNodeChanges_eq [OF t(3) p(5)] addBucketNodeChanges_eq)
  moreover have "\<forall>op \<in> set ?ops. fst (op_target op) = StateCF"
    unfolding set_append using data_ops_set [OF p(3,5)] node_ops_set [OF p(7)] by auto
  moreover have "si_ClearWorkingSet c st True = Inr ?st"
    using p by (simp add: si_ClearWorkingSet_def updateBucketCache_eq)
  moreover have "st_clean H c D content db' ?st (apply_updates u dm)"
    if "content db' StateCF = apply_batch (content db) ?ops StateCF" for db'
    using that t tree_db_persist [where m = "content db", OF t(3,4) p(3,5,7)] cache_ok_commit [OF t(3) p(7) t(5)] p(8)
    by (simp add: st_clean_def tree_at_def)
  ultimately show ?thesis by blast
qed

lemma persist_prepared:
  assumes "st_prepared H c D content db st dm u"
  shows "\<exists>ops st'. si_AddChangesForPersistence H c D db st batch = (Inr (batch @ ops), st') \<and>
    (\<forall>op \<in> set ops. fst (op_target op) = StateCF) \<and> st_prepared H c D content db st' dm u \<and>
    (\<forall>db'. content db' StateCF = apply_batch (content db) ops StateCF \<longrightarrow>
      (\<exists>st''. si_ClearWorkingSet c st' True = Inr st'' \<and> st_clean H c D content db' st'' (apply_updates u dm)))"
proof (cases "recomputeCryptoHash st")
  case True
  obtain st' where st': "si_ComputeCryptoHash H c D db st = (Inr (root_hash H c (apply_updates u dm)), st')"
      "st_prepared H c D content db st' dm u" "\<not> recomputeCryptoHash st'" "si_dataNodesDelta st' = si_dataNodesDelta st"
    using compute_prepared [OF assms] by blast
  have "si_AddChangesForPersistence H c D db st batch = si_AddChangesForPersistence H c D db st' batch"
    using True st' assms by (auto simp: si_AddChangesForPersistence_def st_prepared_def)
  with persist_computed [OF st'(2,3), of batch] st'(2) show ?thesis by metis
next
  case False
  with persist_computed [OF assms, of batch] assms show ?thesis by blast
qed

lemma persist_clean:
  "st_clean H c D content db st dm \<Longrightarrow> si_AddChangesForPersistence H c D db st batch = (Inr batch, st)"
  by (simp add: st_clean_def si_AddChangesForPersistence_def)

lemma st_clean_frame:
  "st_clean H c D content db st dm \<Longrightarrow> content db' StateCF = content db StateCF \<Longrightarrow> st_clean H c D content db' st dm"
  by (auto simp: st_clean_def tree_at_def)

end
