(* ===== verification/HashableState.thy ===== *)
theory HashableState
  imports BucketPersist
begin

text \<open>
  The interface \<open>HashableState\<close> between the world state and its implementations
  (\<open>hashable_state.go\<close>): a Go interface value is a record of its methods, each taking the
  implementation's state, and the locale \<open>hashable_state\<close> is the contract the callers rely on.
  Two implementations are given as such records and proved to satisfy it: the bucket tree and
  the raw implementation (\<open>raw/state_impl.go\<close>). The iterators are in \<open>StateIterators\<close>.
\<close>

subsection \<open>The interface\<close>

text \<open>\<open>None\<close> is a \<open>nil\<close> error. A panic is not an error value: callers that drop the returned
  error are still stopped by a panic, which \<open>only_panic\<close> tells apart.\<close>

record ('st, 'db) HashableState =
  hs_Get :: "'st \<Rightarrow> 'db \<Rightarrow> gostring \<Rightarrow> gostring \<Rightarrow> gerr + slice"
  hs_PrepareWorkingSet :: "'st \<Rightarrow> StateDelta \<Rightarrow> gerr option \<times> 'st"
  hs_ComputeCryptoHash :: "'st \<Rightarrow> 'db \<Rightarrow> (gerr + slice) \<times> 'st"
  hs_AddChangesForPersistence :: "'st \<Rightarrow> 'db \<Rightarrow> WriteBatch \<Rightarrow> gerr option \<times> WriteBatch \<times> 'st"
  hs_ClearWorkingSet :: "'st \<Rightarrow> bool \<Rightarrow> gerr option \<times> 'st"

fun only_panic :: "gerr option \<Rightarrow> gerr option" where
  "only_panic (Some (Panic m)) = Some (Panic m)"
| "only_panic _ = None"

subsection \<open>The contract\<close>

text \<open>
  \<open>view db\<close> is the state stored in a database, by composite key; \<open>digest\<close> the hash of a state.
  \<open>clean db st\<close>: the implementation agrees with the database and has no working set;
  \<open>prepared db st u\<close>: it has a working set with the updates \<open>u\<close>. \<open>supports\<close> are the deltas it
  can turn into a working set.
\<close>

locale hashable_state =
  fixes HS :: "('st, 'db) HashableState"
    and content :: "'db \<Rightarrow> dbmap"
    and view :: "'db \<Rightarrow> kvstate"
    and digest :: "kvstate \<Rightarrow> slice"
    and clean :: "'db \<Rightarrow> 'st \<Rightarrow> bool"
    and prepared :: "'db \<Rightarrow> 'st \<Rightarrow> updates \<Rightarrow> bool"
    and supports :: "StateDelta \<Rightarrow> bool"
  assumes get_clean: "clean db st \<Longrightarrow> hs_Get HS st db cc k = Inr (view db (ConstructCompositeKey cc k))"
    and get_prepared: "prepared db st u \<Longrightarrow> hs_Get HS st db cc k = Inr (view db (ConstructCompositeKey cc k))"
    and prepare: "clean db st \<or> prepared db st u0 \<Longrightarrow> supports sd \<Longrightarrow>
      \<exists>st'. hs_PrepareWorkingSet HS st sd = (None, st') \<and> prepared db st' (updates_of sd)"
    and prepare_empty: "clean db st \<Longrightarrow> StateDelta_IsEmpty sd \<Longrightarrow>
      \<exists>st'. hs_PrepareWorkingSet HS st sd = (None, st') \<and> clean db st'"
    and hash_clean: "clean db st \<Longrightarrow> hs_ComputeCryptoHash HS st db = (Inr (digest (view db)), st)"
    and hash_prepared: "prepared db st u \<Longrightarrow>
      \<exists>st'. hs_ComputeCryptoHash HS st db = (Inr (digest (apply_updates u (view db))), st') \<and> prepared db st' u"
    and add_clean: "clean db st \<Longrightarrow>
      \<exists>st'. hs_AddChangesForPersistence HS st db batch = (None, batch, st') \<and> clean db st'"
    and add_prepared: "prepared db st u \<Longrightarrow>
      \<exists>ops st'. hs_AddChangesForPersistence HS st db batch = (None, batch @ ops, st') \<and>
        (\<forall>op \<in> set ops. fst (op_target op) = StateCF) \<and> prepared db st' u \<and>
        (\<forall>db'. content db' StateCF = apply_batch (content db) ops StateCF \<longrightarrow>
           view db' = apply_updates u (view db) \<and>
           (\<exists>st''. hs_ClearWorkingSet HS st' True = (None, st'') \<and> clean db' st''))"
    and clear_clean: "clean db st \<Longrightarrow> \<exists>st'. hs_ClearWorkingSet HS st b = (None, st') \<and> clean db st'"
    and clear_prepared: "prepared db st u \<Longrightarrow> \<exists>st'. hs_ClearWorkingSet HS st False = (None, st') \<and> clean db st'"
    and clean_frame: "clean db st \<Longrightarrow> content db' StateCF = content db StateCF \<Longrightarrow>
      clean db' st \<and> view db' = view db"
begin

text \<open>The hash announced for a working set is the hash found after committing it.\<close>

lemma hash_survives_commit:
  assumes "prepared db st u"
  shows "\<exists>h st1 ops st2. hs_ComputeCryptoHash HS st db = (Inr h, st1) \<and>
    hs_AddChangesForPersistence HS st1 db [] = (None, ops, st2) \<and>
    (\<forall>db'. content db' = apply_batch (content db) ops \<longrightarrow>
      (\<exists>st3. hs_ClearWorkingSet HS st2 True = (None, st3) \<and> hs_ComputeCryptoHash HS st3 db' = (Inr h, st3)))"
proof -
  obtain st1 where st1: "hs_ComputeCryptoHash HS st db = (Inr (digest (apply_updates u (view db))), st1)"
    "prepared db st1 u" using hash_prepared [OF assms] by blast
  obtain ops st2 where ops: "hs_AddChangesForPersistence HS st1 db [] = (None, ops, st2)"
    "\<forall>db'. content db' StateCF = apply_batch (content db) ops StateCF \<longrightarrow>
       view db' = apply_updates u (view db) \<and> (\<exists>st''. hs_ClearWorkingSet HS st2 True = (None, st'') \<and> clean db' st'')"
    using add_prepared [OF st1(2), of "[]"] by auto
  with st1(1) hash_clean show ?thesis by metis
qed

end

subsection \<open>The bucket tree\<close>

definition bucket_hs :: "(bytes \<Rightarrow> bytes) \<Rightarrow> config \<Rightarrow> 'db gorocksdb \<Rightarrow> (StateImpl, 'db) HashableState" where
  "bucket_hs H c D =
     \<lparr>hs_Get = (\<lambda>st db cc k. si_Get c D db cc k),
      hs_PrepareWorkingSet = (\<lambda>st sd. case si_PrepareWorkingSet c st sd of
         Inl e \<Rightarrow> (Some e, st) | Inr st' \<Rightarrow> (None, st')),
      hs_ComputeCryptoHash = (\<lambda>st db. si_ComputeCryptoHash H c D db st),
      hs_AddChangesForPersistence = (\<lambda>st db batch. case si_AddChangesForPersistence H c D db st batch of
         (Inl e, st') \<Rightarrow> (Some e, batch, st') | (Inr batch', st') \<Rightarrow> (None, batch', st')),
      hs_ClearWorkingSet = (\<lambda>st b. case si_ClearWorkingSet c st b of
         Inl e \<Rightarrow> (Some e, st) | Inr st' \<Rightarrow> (None, st'))\<rparr>"

lemma bucket_hs_sel [simp]:
  "hs_Get (bucket_hs H c D) st db cc k = si_Get c D db cc k"
  "hs_PrepareWorkingSet (bucket_hs H c D) st sd =
    (case si_PrepareWorkingSet c st sd of Inl e \<Rightarrow> (Some e, st) | Inr st' \<Rightarrow> (None, st'))"
  "hs_ComputeCryptoHash (bucket_hs H c D) st db = si_ComputeCryptoHash H c D db st"
  "hs_AddChangesForPersistence (bucket_hs H c D) st db batch =
    (case si_AddChangesForPersistence H c D db st batch of
       (Inl e, st') \<Rightarrow> (Some e, batch, st') | (Inr batch', st') \<Rightarrow> (None, batch', st'))"
  "hs_ClearWorkingSet (bucket_hs H c D) st b =
    (case si_ClearWorkingSet c st b of Inl e \<Rightarrow> (Some e, st) | Inr st' \<Rightarrow> (None, st'))"
  by (simp_all add: bucket_hs_def)

definition bucket_view :: "config \<Rightarrow> ('db \<Rightarrow> dbmap) \<Rightarrow> 'db \<Rightarrow> kvstate" where
  "bucket_view c content db ck = content db StateCF (dkey c ck)"

definition bucket_clean ::
  "(bytes \<Rightarrow> bytes) \<Rightarrow> config \<Rightarrow> 'db gorocksdb \<Rightarrow> ('db \<Rightarrow> dbmap) \<Rightarrow> 'db \<Rightarrow> StateImpl \<Rightarrow> bool" where
  "bucket_clean H c D content db st = st_clean H c D content db st (bucket_view c content db)"

definition bucket_prepared ::
  "(bytes \<Rightarrow> bytes) \<Rightarrow> config \<Rightarrow> 'db gorocksdb \<Rightarrow> ('db \<Rightarrow> dbmap) \<Rightarrow> 'db \<Rightarrow> StateImpl \<Rightarrow> updates \<Rightarrow> bool" where
  "bucket_prepared H c D content db st u = st_prepared H c D content db st (bucket_view c content db) u"

text \<open>The bucket tree needs a delta with at least one key, and chaincode ids without a zero byte.\<close>

definition bucket_supports :: "StateDelta \<Rightarrow> bool" where
  "bucket_supports sd \<longleftrightarrow> sd_wf sd \<and> cc_ok sd \<and> dom (updates_of sd) \<noteq> {}"

lemma view_of_tree: "tree_db H c dm (content db StateCF) \<Longrightarrow> bucket_view c content db = dm"
  by (rule ext) (simp add: bucket_view_def tree_db_data)

lemma view_of_clean: "st_clean H c D content db st dm \<Longrightarrow> bucket_view c content db = dm"
  by (auto simp: st_clean_def tree_at_def intro: view_of_tree)

interpretation bt: hashable_state "bucket_hs H c D" content "bucket_view c content" "root_hash H c"
    "bucket_clean H c D content" "bucket_prepared H c D content" bucket_supports
  for H :: "bytes \<Rightarrow> bytes" and c :: config and D :: "'db gorocksdb" and content :: "'db \<Rightarrow> dbmap"
proof
  fix db db' :: 'db and st cc k u u0 sd batch b
  let ?v = "bucket_view c content db"
  show "hs_Get (bucket_hs H c D) st db cc k = Inr (?v (ConstructCompositeKey cc k))"
    if "bucket_clean H c D content db st"
    using that si_Get_clean by (auto simp: bucket_clean_def st_clean_def)
  show "hs_Get (bucket_hs H c D) st db cc k = Inr (?v (ConstructCompositeKey cc k))"
    if "bucket_prepared H c D content db st u"
    using that si_Get_clean by (auto simp: bucket_prepared_def st_prepared_def)
  show "\<exists>st'. hs_PrepareWorkingSet (bucket_hs H c D) st sd = (None, st') \<and> bucket_prepared H c D content db st' (updates_of sd)"
    if "bucket_clean H c D content db st \<or> bucket_prepared H c D content db st u0" "bucket_supports sd"
    using prepare_ok [of H c D content db st ?v u0 sd] that
    by (auto simp: bucket_clean_def bucket_prepared_def bucket_supports_def)
  show "\<exists>st'. hs_PrepareWorkingSet (bucket_hs H c D) st sd = (None, st') \<and> bucket_clean H c D content db st'"
    if "bucket_clean H c D content db st" "StateDelta_IsEmpty sd"
    using that by (simp add: si_PrepareWorkingSet_def)
  show "hs_ComputeCryptoHash (bucket_hs H c D) st db = (Inr (root_hash H c ?v), st)" if "bucket_clean H c D content db st"
    using that compute_clean by (simp add: bucket_clean_def)
  show "\<exists>st'. hs_ComputeCryptoHash (bucket_hs H c D) st db = (Inr (root_hash H c (apply_updates u ?v)), st') \<and>
      bucket_prepared H c D content db st' u" if "bucket_prepared H c D content db st u"
    using that compute_prepared by (fastforce simp: bucket_prepared_def)
  show "\<exists>st'. hs_AddChangesForPersistence (bucket_hs H c D) st db batch = (None, batch, st') \<and> bucket_clean H c D content db st'"
    if "bucket_clean H c D content db st"
    using that persist_clean by (fastforce simp: bucket_clean_def)
  show "\<exists>ops st'. hs_AddChangesForPersistence (bucket_hs H c D) st db batch = (None, batch @ ops, st') \<and>
      (\<forall>op \<in> set ops. fst (op_target op) = StateCF) \<and> bucket_prepared H c D content db st' u \<and>
      (\<forall>db'. content db' StateCF = apply_batch (content db) ops StateCF \<longrightarrow>
         bucket_view c content db' = apply_updates u ?v \<and>
         (\<exists>st''. hs_ClearWorkingSet (bucket_hs H c D) st' True = (None, st'') \<and> bucket_clean H c D content db' st''))"
    if "bucket_prepared H c D content db st u"
  proof -
    from persist_prepared [OF that [unfolded bucket_prepared_def], of batch] obtain ops st' where
      a: "si_AddChangesForPersistence H c D db st batch = (Inr (batch @ ops), st')"
        "\<forall>op \<in> set ops. fst (op_target op) = StateCF" "st_prepared H c D content db st' ?v u"
      and clr: "\<And>db'. content db' StateCF = apply_batch (content db) ops StateCF \<Longrightarrow>
        \<exists>st''. si_ClearWorkingSet c st' True = Inr st'' \<and> st_clean H c D content db' st'' (apply_updates u ?v)"
      by blast
    have "bucket_view c content db' = apply_updates u ?v \<and>
        (\<exists>st''. hs_ClearWorkingSet (bucket_hs H c D) st' True = (None, st'') \<and> bucket_clean H c D content db' st'')"
      if "content db' StateCF = apply_batch (content db) ops StateCF" for db'
    proof -
      from clr [OF that] obtain st'' where s: "si_ClearWorkingSet c st' True = Inr st''"
        "st_clean H c D content db' st'' (apply_updates u ?v)" by blast
      from view_of_clean [OF s(2)] s show ?thesis by (simp add: bucket_clean_def)
    qed
    with a show ?thesis by (auto simp: bucket_prepared_def)
  qed
  show "\<exists>st'. hs_ClearWorkingSet (bucket_hs H c D) st b = (None, st') \<and> bucket_clean H c D content db st'"
    if "bucket_clean H c D content db st"
    using that si_clear_clean [of H c D content db st ?v b] by (simp add: bucket_clean_def)
  show "\<exists>st'. hs_ClearWorkingSet (bucket_hs H c D) st False = (None, st') \<and> bucket_clean H c D content db st'"
    if "bucket_prepared H c D content db st u"
    using that clear_discard [of H c D content db st ?v u] by (auto simp: bucket_clean_def bucket_prepared_def)
  show "bucket_clean H c D content db' st \<and> bucket_view c content db' = ?v"
    if "bucket_clean H c D content db st" "content db' StateCF = content db StateCF"
  proof -
    have "bucket_view c content db' = ?v" using that(2) by (simp add: bucket_view_def fun_eq_iff)
    with that st_clean_frame show ?thesis by (auto simp: bucket_clean_def)
  qed
qed

subsection \<open>The raw implementation\<close>

record RawStateImpl =
  raw_stateDelta :: "StateDelta option"

definition NewRawState :: RawStateImpl where
  "NewRawState = \<lparr>raw_stateDelta = None\<rparr>"

definition raw_Get :: "'db gorocksdb \<Rightarrow> 'db \<Rightarrow> gostring \<Rightarrow> gostring \<Rightarrow> gerr + slice" where
  "raw_Get D db chaincodeID key = GetFromStateCF D db (ConstructCompositeKey chaincodeID key)"

definition raw_AddChangesForPersistence :: "RawStateImpl \<Rightarrow> WriteBatch \<Rightarrow> WriteBatch" where
  "raw_AddChangesForPersistence impl batch =
     (case raw_stateDelta impl of
        None \<Rightarrow> batch
      | Some delta \<Rightarrow> batch @ concat (map (\<lambda>updatedChaincodeID.
          map (\<lambda>(updatedKey, uv).
              let ck = ConstructCompositeKey updatedChaincodeID updatedKey in
              if UpdatedValue_IsDelete uv then DeleteCF StateCF ck
              else PutCF StateCF ck (sbytes (UpdatedValue_GetValue uv)))
            (case StateDelta_GetUpdates delta updatedChaincodeID of Some m \<Rightarrow> m | None \<Rightarrow> []))
          (StateDelta_GetUpdatedChaincodeIds delta False)))"

definition raw_hs :: "'db gorocksdb \<Rightarrow> (RawStateImpl, 'db) HashableState" where
  "raw_hs D =
     \<lparr>hs_Get = (\<lambda>st db cc k. raw_Get D db cc k),
      hs_PrepareWorkingSet = (\<lambda>st sd. (None, st\<lparr>raw_stateDelta := Some sd\<rparr>)),
      hs_ComputeCryptoHash = (\<lambda>st db. (Inr None, st)),
      hs_AddChangesForPersistence = (\<lambda>st db batch. (None, raw_AddChangesForPersistence st batch, st)),
      hs_ClearWorkingSet = (\<lambda>st b. (None, st\<lparr>raw_stateDelta := None\<rparr>))\<rparr>"

definition raw_op :: "bytes \<times> slice \<Rightarrow> batch_op" where
  "raw_op e = (case snd e of None \<Rightarrow> DeleteCF StateCF (fst e) | Some v \<Rightarrow> PutCF StateCF (fst e) v)"

lemma raw_op_sel [simp]: "op_target (raw_op e) = (StateCF, fst e)" "op_value (raw_op e) = snd e"
  by (auto simp: raw_op_def split: option.splits)

lemma raw_batch_eq:
  assumes "raw_stateDelta impl = Some sd" "sd_wf sd" "\<not> RollBackwards sd"
  shows "raw_AddChangesForPersistence impl batch = batch @ map raw_op (delta_entries sd)"
proof -
  have "map (\<lambda>(k, uv). let ck = ConstructCompositeKey (fst x) k in
        if UpdatedValue_IsDelete uv then DeleteCF StateCF ck else PutCF StateCF ck (sbytes (UpdatedValue_GetValue uv)))
      (case StateDelta_GetUpdates sd (fst x) of Some m \<Rightarrow> m | None \<Rightarrow> []) = map raw_op (cc_entries sd x)"
    if x: "x \<in> set (ChaincodeStateDeltas sd)" for x
  proof -
    have "StateDelta_GetUpdates sd (fst x) = Some (UpdatedKVs (snd x))"
      using x assms(2) by (auto simp: StateDelta_GetUpdates_def sd_wf_def gomap_ok_def)
    then show ?thesis
      using assms(3) by (auto simp: cc_entries_def raw_op_def new_value_def UpdatedValue_IsDelete_def
          UpdatedValue_GetValue_def Let_def split: option.splits)
  qed
  then have "map (\<lambda>cc. map (\<lambda>(k, uv). let ck = ConstructCompositeKey cc k in
        if UpdatedValue_IsDelete uv then DeleteCF StateCF ck else PutCF StateCF ck (sbytes (UpdatedValue_GetValue uv)))
      (case StateDelta_GetUpdates sd cc of Some m \<Rightarrow> m | None \<Rightarrow> [])) (map fst (ChaincodeStateDeltas sd)) =
      map (\<lambda>x. map raw_op (cc_entries sd x)) (ChaincodeStateDeltas sd)"
    by simp
  then show ?thesis
    unfolding raw_AddChangesForPersistence_def assms(1) StateDelta_GetUpdatedChaincodeIds_def Let_def
    by (simp add: delta_entries_def map_concat comp_def cong: map_cong)
qed

definition raw_view :: "('db \<Rightarrow> dbmap) \<Rightarrow> 'db \<Rightarrow> kvstate" where
  "raw_view content db ck = appendToNil (content db StateCF ck)"

definition raw_clean :: "'db gorocksdb \<Rightarrow> ('db \<Rightarrow> dbmap) \<Rightarrow> 'db \<Rightarrow> RawStateImpl \<Rightarrow> bool" where
  "raw_clean D content db st \<longleftrightarrow> rocksdb_ok D content \<and>
     (raw_stateDelta st = None \<or> (\<exists>sd. raw_stateDelta st = Some sd \<and> StateDelta_IsEmpty sd))"

text \<open>The raw implementation never looks at \<open>RollBackwards\<close>: it supports forward deltas only.\<close>

definition raw_supports :: "StateDelta \<Rightarrow> bool" where
  "raw_supports sd \<longleftrightarrow> sd_wf sd \<and> cc_ok sd \<and> \<not> RollBackwards sd"

definition raw_prepared :: "'db gorocksdb \<Rightarrow> ('db \<Rightarrow> dbmap) \<Rightarrow> 'db \<Rightarrow> RawStateImpl \<Rightarrow> updates \<Rightarrow> bool" where
  "raw_prepared D content db st u \<longleftrightarrow> rocksdb_ok D content \<and>
     (\<exists>sd. raw_stateDelta st = Some sd \<and> raw_supports sd \<and> u = updates_of sd)"

lemma raw_persist_view:
  assumes "raw_supports sd"
    and "content db' StateCF = apply_batch (content db) (map raw_op (delta_entries sd)) StateCF"
  shows "raw_view content db' = apply_updates (updates_of sd) (raw_view content db)"
proof
  fix ck
  have wf: "sd_wf sd" "cc_ok sd" using assms(1) by (auto simp: raw_supports_def)
  note iff = updates_of_iff [OF wf] and dist = distinct_delta_entries [OF wf]
  show "raw_view content db' ck = apply_updates (updates_of sd) (raw_view content db) ck"
  proof (cases "updates_of sd ck")
    case None
    then have "\<forall>op \<in> set (map raw_op (delta_entries sd)). op_target op \<noteq> (StateCF, ck)"
      using iff [of ck] by auto
    then show ?thesis
      using None assms(2) by (simp add: raw_view_def apply_updates_def apply_batch_untouched)
  next
    case (Some v)
    then have e: "(ck, v) \<in> set (delta_entries sd)" using iff by blast
    have "content db' StateCF ck = v"
      unfolding assms(2)
    proof (rule apply_batch_set)
      show "raw_op (ck, v) \<in> set (map raw_op (delta_entries sd))" using e by simp
      show "op_target (raw_op (ck, v)) = (StateCF, ck)" by simp
      show "\<forall>op \<in> set (map raw_op (delta_entries sd)). op_target op = (StateCF, ck) \<longrightarrow> op_value op = v"
        using e dist by (auto dest: eq_key_imp_eq_value)
    qed
    with Some show ?thesis
      by (cases v) (auto simp: raw_view_def apply_updates_def)
  qed
qed

interpretation raw: hashable_state "raw_hs D" content "raw_view content" "\<lambda>_. None"
    "raw_clean D content" "raw_prepared D content" raw_supports
  for D :: "'db gorocksdb" and content :: "'db \<Rightarrow> dbmap"
proof
  fix db db' :: 'db and st cc k u u0 sd batch b
  note defs = raw_clean_def raw_prepared_def raw_hs_def
  have get: "rocksdb_ok D content \<Longrightarrow> raw_Get D db cc k = Inr (raw_view content db (ConstructCompositeKey cc k))"
    by (simp add: raw_Get_def GetFromStateCF_def db_get_ok raw_view_def)
  show "hs_Get (raw_hs D) st db cc k = Inr (raw_view content db (ConstructCompositeKey cc k))"
    if "raw_clean D content db st" using that get by (simp add: defs)
  show "hs_Get (raw_hs D) st db cc k = Inr (raw_view content db (ConstructCompositeKey cc k))"
    if "raw_prepared D content db st u" using that get by (simp add: defs)
  show "\<exists>st'. hs_PrepareWorkingSet (raw_hs D) st sd = (None, st') \<and> raw_prepared D content db st' (updates_of sd)"
    if "raw_clean D content db st \<or> raw_prepared D content db st u0" "raw_supports sd" using that by (auto simp: defs)
  show "\<exists>st'. hs_PrepareWorkingSet (raw_hs D) st sd = (None, st') \<and> raw_clean D content db st'"
    if "raw_clean D content db st" "StateDelta_IsEmpty sd" using that by (auto simp: defs)
  show "hs_ComputeCryptoHash (raw_hs D) st db = (Inr None, st)" if "raw_clean D content db st" by (simp add: defs)
  show "\<exists>st'. hs_ComputeCryptoHash (raw_hs D) st db = (Inr None, st') \<and> raw_prepared D content db st' u"
    if "raw_prepared D content db st u" using that by (simp add: defs)
  show "\<exists>st'. hs_AddChangesForPersistence (raw_hs D) st db batch = (None, batch, st') \<and> raw_clean D content db st'"
    if "raw_clean D content db st"
    using that by (auto simp: defs raw_AddChangesForPersistence_def StateDelta_IsEmpty_def
        StateDelta_GetUpdatedChaincodeIds_def)
  show "\<exists>ops st'. hs_AddChangesForPersistence (raw_hs D) st db batch = (None, batch @ ops, st') \<and>
      (\<forall>op \<in> set ops. fst (op_target op) = StateCF) \<and> raw_prepared D content db st' u \<and>
      (\<forall>db'. content db' StateCF = apply_batch (content db) ops StateCF \<longrightarrow>
         raw_view content db' = apply_updates u (raw_view content db) \<and>
         (\<exists>st''. hs_ClearWorkingSet (raw_hs D) st' True = (None, st'') \<and> raw_clean D content db' st''))"
    if p: "raw_prepared D content db st u"
  proof -
    from p obtain sd where sd: "raw_stateDelta st = Some sd" "raw_supports sd" "u = updates_of sd"
      by (auto simp: raw_prepared_def)
    let ?ops = "map raw_op (delta_entries sd)"
    have "raw_AddChangesForPersistence st batch = batch @ ?ops"
      using raw_batch_eq [OF sd(1)] sd(2) by (simp add: raw_supports_def)
    moreover have "\<forall>op \<in> set ?ops. fst (op_target op) = StateCF" by auto
    moreover have "rocksdb_ok D content" using p by (simp add: raw_prepared_def)
    ultimately show ?thesis
      using p raw_persist_view [OF sd(2), of content _ db] sd(3)
      by (intro exI [of _ ?ops] exI [of _ st]) (simp add: raw_hs_def raw_clean_def)
  qed
  show "\<exists>st'. hs_ClearWorkingSet (raw_hs D) st b = (None, st') \<and> raw_clean D content db st'"
    if "raw_clean D content db st" using that by (auto simp: defs)
  show "\<exists>st'. hs_ClearWorkingSet (raw_hs D) st False = (None, st') \<and> raw_clean D content db st'"
    if "raw_prepared D content db st u" using that by (auto simp: defs)
  show "raw_clean D content db' st \<and> raw_view content db' = raw_view content db"
    if "raw_clean D content db st" "content db' StateCF = content db StateCF"
    using that by (auto simp: defs raw_view_def)
qed

end
