(* ===== verification/BucketProps.thy ===== *)
theory BucketProps
  imports HashableState
begin

text \<open>
  The properties of the bucket tree: start-up from a stored tree, the incremental hash, the
  commit, what a bucket's hash determines, the key encodings, the configuration loop, and the
  error paths.
\<close>

subsection \<open>Start-up\<close>

text \<open>
  The cache after start-up: every node in it is a node of the stored tree, seen through the memory
  of the iterator it was read from.
\<close>

definition cache_loaded ::
  "(bytes \<Rightarrow> bytes) \<Rightarrow> config \<Rightarrow> 'db gorocksdb \<Rightarrow> kvstate \<Rightarrow> bucketCache \<Rightarrow> bool" where
  "cache_loaded H c D dm cache \<longleftrightarrow>
     (\<forall>bk bn. mget (cache_c cache) bk = Some bn \<longrightarrow>
        (\<exists>l b. bk = bkey l b \<and> valid_bk c l b \<and> l < lowestLevel c \<and>
               bn = aliasedNode D (bk_getEncodedBytes bk) (stored_node c l b (child_hashes H c dm l b))))"

lemma aliasedNode_kept: "itr_kept D \<Longrightarrow> aliasedNode D key bn = bn"
proof -
  assume "itr_kept D"
  then have "aliasedSlice D key i s = s" for i s
    by (cases s) (simp_all add: aliasedSlice_def itr_kept_def map_nth)
  then show ?thesis by (simp add: aliasedNode_def map_nth)
qed

lemma cache_loaded_ok: "cache_loaded H c D dm cache \<Longrightarrow> itr_kept D \<Longrightarrow> cache_ok H c dm cache"
  unfolding cache_loaded_def cache_ok_def
  by (fastforce simp: aliasedNode_kept stored_node_def newBucketNode_def Let_def)

lemma loadAll_loop_loaded:
  assumes "hash_ok H" "conf_wf c" "tree_db H c dm m" "cache_loaded H c D dm cache"
    and "\<forall>(k, v) \<in> set itr. m k = Some v"
  shows "\<exists>cache'. loadAllBucketNodes_loop c D itr cache = Inr cache' \<and> cache_loaded H c D dm cache'"
  using assms(4,5)
proof (induction itr arbitrary: cache)
  case (Cons x itr)
  obtain k v where x: "x = (k, v)" by force
  with Cons.prems have m: "m k = Some v" by simp
  from tree_db_keys [OF assms(3) m] show ?case
  proof
    assume "\<exists>ck \<in> dom dm. k = dkey c ck"
    then obtain ck where "k = dkey c ck" by blast
    with dkey_head [OF assms(2), of ck] Cons.prems(1) x show ?thesis by auto
  next
    assume "\<exists>l b. valid_bk c l b \<and> l < lowestLevel c \<and> k = bk_getEncodedBytes (bkey l b)"
    then obtain l b where k: "valid_bk c l b" "l < lowestLevel c" "k = bk_getEncodedBytes (bkey l b)" by blast
    let ?n = "stored_node c l b (child_hashes H c dm l b)"
    have v: "v = bn_marshal ?n" using m k tree_db_node [OF assms(3) k(1,2)] by (simp split: if_splits)
    have dec: "decodeBucketKey k = Inr (bkey l b)" using decodeBucketKey_encoded [OF assms(2) k(1)] k(3) by simp
    have un: "unmarshalBucketNode c (bkey l b) v = Inr ?n"
      using unmarshal_marshal_node [OF assms(2), of ?n "bkey l b"] child_hashes_slice [OF assms(1)]
      by (simp add: v stored_node_def)
    have head: "k \<noteq> []" "k ! 0 = 0" using bk_encoded_head [of "bkey l b"] k(3) by auto
    let ?size = "bk_size (bkey l b) + bn_size ?n"
    show ?thesis
    proof (cases "cache_size cache + ?size \<ge> cache_maxSize cache")
      case True
      have "cache_loaded H c D dm (cache\<lparr>cache_size := cache_size cache\<rparr>)" using Cons.prems(1) by simp
      with True head dec un x show ?thesis by (simp add: Let_def)
    next
      case False
      let ?c = "cache\<lparr>cache_size := cache_size cache + ?size, cache_c := mput (bkey l b) (aliasedNode D k ?n) (cache_c cache)\<rparr>"
      have "cache_loaded H c D dm ?c"
        using Cons.prems(1) k unfolding cache_loaded_def by auto
      from Cons.IH [OF this] Cons.prems(2) False head dec un x show ?thesis by (simp add: Let_def)
    qed
  qed
qed simp

lemma root_hash_all_nil:
  assumes "hash_ok H" "conf_wf c" "all_nil (child_hashes H c dm 0 1)"
  shows "root_hash H c dm = None"
proof -
  have "filter NotNil (child_hashes H c dm 0 1) = []"
    using all_nil_filter [of "child_hashes H c dm 0 1"] child_hashes_slice [OF assms(1)] assms(3) by blast
  then show ?thesis
    using bucket_node_hash_inner [of 0 c H dm 1] conf_lowest [OF assms(2)] by (simp add: root_hash_def combine_def)
qed

text \<open>
  \<open>Initialize\<close> computes the hash from a copy of the root node, so the hash is right whatever becomes
  of the iterator's memory.
\<close>

definition cache_off :: "configs \<Rightarrow> bool" where
  "cache_off cfgs \<longleftrightarrow> (\<exists>n. cfg_bucketCacheSize cfgs = Some n \<and> n \<le> 0)"

lemma Initialize_runs:
  assumes "rocksdb_ok D content" "hash_ok H" "tree_db H c dm (content db StateCF)"
    and "initConfig cfgs = Some (Inr c)" "conf_wf c"
  shows "\<exists>cache. si_Initialize H D db NewStateImpl cfgs = Some (Inr (c, NewStateImpl\<lparr>persistedStateHash := root_hash H c dm,
      lastComputedCryptoHash := root_hash H c dm, si_bucketCache := Some cache\<rparr>)) \<and>
    cache_loaded H c D dm cache \<and> (cache_off cfgs \<longrightarrow> \<not> isEnabled cache)"
proof -
  have L: "0 < lowestLevel c" and v: "valid_bk c 0 1"
    using conf_lowest [OF assms(5)] conf_root [OF assms(5)] by (auto simp: valid_bk_def)
  let ?cache0 = "newBucketCache (case cfg_bucketCacheSize cfgs of Some n \<Rightarrow> n | None \<Rightarrow> defaultBucketCacheMaxSize)"
  have c0: "cache_loaded H c D dm ?cache0" by (simp add: cache_loaded_def newBucketCache_def)
  have itr: "\<forall>(k, v) \<in> set (Seek D db StateCF [0]). content db StateCF k = Some v"
  proof clarify
    fix k v
    assume "(k, v) \<in> set (Seek D db StateCF [0])"
    moreover have "distinct (map fst (Seek D db StateCF [0]))"
      using rocksdb_seek_sorted [OF assms(1)] by (simp add: strict_sorted_iff)
    ultimately have "map_of (Seek D db StateCF [0]) k = Some v" by simp
    then show "content db StateCF k = Some v"
      unfolding rocksdb_seek_map [OF assms(1)] by (simp split: if_splits)
  qed
  obtain cache where cache: "loadAllBucketNodesFromDB c D db ?cache0 = Inr cache" "cache_loaded H c D dm cache"
    "isEnabled ?cache0 \<or> cache = ?cache0"
    using loadAll_loop_loaded [OF assms(2,5,3) c0 itr] c0 unfolding loadAllBucketNodesFromDB_def
    by (cases "isEnabled ?cache0") auto
  have off: "\<not> isEnabled cache" if "cache_off cfgs"
    using that cache(3) by (auto simp: cache_off_def newBucketCache_def)
  let ?hs = "child_hashes H c dm 0 1" and ?root = "stored_node c 0 1 (child_hashes H c dm 0 1)"
  have comp: "bn_computeCryptoHash H c ?root = Inr (root_hash H c dm, ?root\<lparr>markedForDeletion := all_nil ?hs\<rparr>)"
    using computeCryptoHash_children [OF assms(2,5) v L, of ?root dm]
    by (simp add: stored_node_def newBucketNode_def Let_def root_hash_def)
  let ?st = "NewStateImpl\<lparr>persistedStateHash := root_hash H c dm, lastComputedCryptoHash := root_hash H c dm,
    si_bucketCache := Some cache\<rparr>"
  have "si_Initialize H D db NewStateImpl cfgs = Some (Inr (c, ?st))"
  proof (cases "all_nil ?hs")
    case True
    have "?st = NewStateImpl\<lparr>si_bucketCache := Some cache\<rparr>"
      using root_hash_all_nil [OF assms(2,5) True] by (simp add: NewStateImpl_def)
    then show ?thesis
      using True cache fetchBucketNode_tree [OF assms(1,2,5,3) v L]
      by (simp add: si_Initialize_def assms(4) constructRootBucketKey_def newBucketKey_valid [OF v])
  next
    case False
    then show ?thesis
      using cache comp fetchBucketNode_tree [OF assms(1,2,5,3) v L]
      by (simp add: si_Initialize_def assms(4) constructRootBucketKey_def newBucketKey_valid [OF v])
  qed
  with cache(2) off show ?thesis by blast
qed

lemma Initialize_ok:
  assumes "rocksdb_ok D content" "hash_ok H" "tree_db H c dm (content db StateCF)"
    and "initConfig cfgs = Some (Inr c)" "conf_wf c" and "itr_kept D \<or> cache_off cfgs"
  shows "\<exists>st. si_Initialize H D db NewStateImpl cfgs = Some (Inr (c, st)) \<and> bucket_clean H c D content db st"
proof -
  obtain cache where i: "si_Initialize H D db NewStateImpl cfgs = Some (Inr (c, NewStateImpl\<lparr>persistedStateHash := root_hash H c dm,
      lastComputedCryptoHash := root_hash H c dm, si_bucketCache := Some cache\<rparr>))"
    "cache_loaded H c D dm cache" "cache_off cfgs \<longrightarrow> \<not> isEnabled cache"
    using Initialize_runs [OF assms(1-5)] by blast
  have "cache_ok H c dm cache"
  proof (cases "itr_kept D")
    case False
    with assms(6) i(3) show ?thesis by (simp add: cache_ok_def)
  qed (rule cache_loaded_ok [OF i(2)])
  with i(1) assms(1-5) view_of_tree [of H c dm content db, OF assms(3)] show ?thesis
    by (auto simp: bucket_clean_def st_clean_def NewStateImpl_def tree_at_def)
qed

text \<open>An empty column family stores the tree of the empty state.\<close>

lemma node_hash_empty: "node_hash H c Map.empty d b = None"
  by (induction d arbitrary: b)
    (simp_all add: leaf_entries_def leaf_keys_def bucket_hash_def combine_def cong: if_cong)

lemma tree_db_empty: "tree_db H c Map.empty Map.empty"
  by (auto simp: tree_db_def kv_ok_def all_nil_def child_hashes_def node_hash_empty)

text \<open>A concrete configuration and a concrete state manager on an empty database.\<close>

definition ex_hash :: "bytes \<Rightarrow> bytes" where
  "ex_hash bs = replicate 64 (foldl (+) 1 bs)"

definition ex_configs :: "int \<Rightarrow> configs" where
  "ex_configs sz = \<lparr>cfg_numBuckets = Some 5, cfg_maxGroupingAtEachLevel = Some 2,
     cfg_hashFunction = None, cfg_bucketCacheSize = Some sz\<rparr>"

definition ex_bdelta :: StateDelta where
  "ex_bdelta = StateDelta_Set NewStateDelta (lit ''cc'') (lit ''k'') (Some (lit ''v'')) None"

lemma ex_hash_ok: "hash_ok ex_hash"
  by (simp add: hash_ok_def ex_hash_def)

lemma ex_initConfig: "\<exists>c. initConfig (ex_configs sz) = Some (Inr c) \<and> conf_wf c"
  using newConfig_wf [of 5 2 fnvHash] by (auto simp: initConfig_def ex_configs_def)

lemma ex_started:
  "\<exists>c st. si_Initialize ex_hash memdb (\<lambda>_. []) NewStateImpl (ex_configs sz) = Some (Inr (c, st)) \<and>
    initConfig (ex_configs sz) = Some (Inr c) \<and> bucket_clean ex_hash c memdb mem_content (\<lambda>_. []) st"
proof -
  obtain c where c: "initConfig (ex_configs sz) = Some (Inr c)" "conf_wf c" using ex_initConfig by blast
  have "mem_content (\<lambda>_. []) StateCF = Map.empty" by (simp add: mem_content_def fun_eq_iff)
  then have "tree_db ex_hash c Map.empty (mem_content (\<lambda>_. []) StateCF)" using tree_db_empty by simp
  from Initialize_ok [where content = mem_content and db = "\<lambda>_. []", OF rocksdb_ok_memdb ex_hash_ok this c] c itr_kept_memdb
  show ?thesis by blast
qed

lemma ex_bdelta_update: "updates_of ex_bdelta (ConstructCompositeKey (lit ''cc'') (lit ''k'')) = Some (Some (lit ''v''))"
proof -
  have "delta_at ex_bdelta (lit ''cc'', lit ''k'') = Some \<lparr>Value = Some (lit ''v''), PreviousValue = None\<rparr>"
    by (simp add: ex_bdelta_def delta_at_Set merge_uv_def)
  moreover have "RollBackwards ex_bdelta = False" by (simp add: ex_bdelta_def StateDelta_Set_def NewStateDelta_def Let_def)
  moreover have cc: "cc_of (ConstructCompositeKey (lit ''cc'') (lit ''k'')) = lit ''cc''"
    "key_of (ConstructCompositeKey (lit ''cc'') (lit ''k'')) = lit ''k''"
    by (rule cc_key_of_Construct; simp add: lit_def)+
  moreover have "0 \<in> set (ConstructCompositeKey (lit ''cc'') (lit ''k''))"
    by (simp add: ConstructCompositeKey_def stateKeyDelimiter_def)
  ultimately show ?thesis by (simp add: updates_of_def new_value_def)
qed

lemma ex_bdelta_supported: "bucket_supports ex_bdelta"
proof -
  have "dom (updates_of ex_bdelta) \<noteq> {}" using ex_bdelta_update by blast
  moreover have "sd_wf ex_bdelta" by (simp add: ex_bdelta_def sd_wf_Set)
  moreover have "cc_ok ex_bdelta"
    by (simp add: cc_ok_def ex_bdelta_def StateDelta_Set_def NewStateDelta_def Let_def lit_def)
  ultimately show ?thesis by (simp add: bucket_supports_def)
qed

text \<open>A key with a chaincode id makes the root hash.\<close>

lemma bucket_content_neq_Nil:
  "\<exists>e \<in> set es. cc_of (fst e) \<noteq> [] \<Longrightarrow> bucket_content es \<noteq> []"
proof (induction es rule: bucket_content.induct)
  case (2 e es)
  show ?case
  proof (cases "cc_of (fst e) = []")
    case False
    then show ?thesis by (simp add: group_bytes_def enc_sized_def)
  next
    case True
    with 2 obtain e' where e': "e' \<in> set es" "cc_of (fst e') \<noteq> []" by auto
    then have "e' \<in> set (dropWhile (same_cc (cc_of (fst e))) es)"
      using True by (metis (mono_tags, lifting) Un_iff set_append set_takeWhileD takeWhile_dropWhile_id)
    with 2 e'(2) show ?thesis by auto
  qed
qed simp

lemma combine_neq_None: "h \<in> set hs \<Longrightarrow> NotNil h \<Longrightarrow> combine H hs \<noteq> None"
proof -
  assume "h \<in> set hs" "NotNil h"
  then have "filter NotNil hs \<noteq> []" by (auto simp: filter_empty_conv)
  then show ?thesis by (auto simp: combine_def split: list.splits)
qed

lemma node_hash_neq_None:
  assumes "conf_wf c" "hash_ok H" "kv_ok dm" "ck \<in> dom dm" "cc_of ck \<noteq> []" "int d \<le> lowestLevel c"
  shows "\<exists>b. valid_bk c (lowestLevel c - int d) b \<and> node_hash H c dm d b \<noteq> None"
  using assms(6)
proof (induction d)
  case 0
  have "ck \<in> set (sorted_list_of_set (leaf_keys c dm (bucket_no c ck)))"
    using assms(3,4) by (simp add: kv_ok_def leaf_keys_def)
  then have "bucket_content (leaf_entries c dm (bucket_no c ck)) \<noteq> []"
    using assms(5) by (intro bucket_content_neq_Nil) (auto simp: leaf_entries_def)
  then have "node_hash H c dm 0 (bucket_no c ck) \<noteq> None" by (simp add: bucket_hash_def Let_def)
  with bucket_no_valid [OF assms(1), of ck] show ?case by (intro exI [of _ "bucket_no c ck"]) simp
next
  case (Suc d)
  then obtain b where b: "valid_bk c (lowestLevel c - int d) b" "node_hash H c dm d b \<noteq> None" by auto
  let ?l = "lowestLevel c - int (Suc d)" and ?p = "parent_no c b" and ?i = "child_ix c b"
  have l: "lowestLevel c - int d = ?l + 1" by simp
  have "hash_slice (node_hash H c dm d b)" by (rule node_hash_slice [OF assms(2)])
  with b(2) have nn: "NotNil (node_hash H c dm d b)" by (auto simp: hash_slice_IsNil)
  have i: "?i < grouping c" "child_no c ?p ?i = b" using child_split [OF assms(1), of b] child_ix_less [OF assms(1)] by simp_all
  have "b \<le> nb c (lowestLevel c - int d)" using b(1) by (simp add: valid_bk_def)
  then have "node_hash H c dm d b \<in> set (map (\<lambda>i. if child_no c ?p i \<le> nb c (lowestLevel c - int d)
      then node_hash H c dm d (child_no c ?p i) else None) [0..<grouping c])"
    using i by (force intro!: image_eqI [of _ _ ?i])
  then have "node_hash H c dm (Suc d) ?p \<noteq> None" using combine_neq_None nn by simp
  moreover have "0 \<le> ?l" using Suc.prems by simp
  then have "valid_bk c ?l ?p" using valid_parent [OF assms(1)] b(1) unfolding l by blast
  ultimately show ?case by blast
qed

lemma root_hash_neq_None:
  assumes "conf_wf c" "hash_ok H" "kv_ok dm" "ck \<in> dom dm" "cc_of ck \<noteq> []"
  shows "root_hash H c dm \<noteq> None"
proof -
  have l: "int (nat (lowestLevel c)) = lowestLevel c" using conf_lowest [OF assms(1)] by simp
  from node_hash_neq_None [OF assms, of "nat (lowestLevel c)", unfolded l] obtain b where
    b: "valid_bk c 0 b" "node_hash H c dm (nat (lowestLevel c)) b \<noteq> None" by auto
  then have "b = 1" using conf_root [OF assms(1)] by (simp add: valid_bk_def)
  with b(2) show ?thesis by (simp add: root_hash_def bucket_node_hash_def)
qed

text \<open>
  The in-memory database with iterators whose memory is overwritten with zeros after use, and a
  state manager on it that has committed one key.
\<close>

definition overwriting :: "(cf \<Rightarrow> (bytes, bytes) gomap) gorocksdb" where
  "overwriting = memdb\<lparr>ItrMem := \<lambda>_ _ _ _. 0\<rparr>"

lemma rocksdb_ok_overwriting: "rocksdb_ok overwriting mem_content"
  using rocksdb_ok_memdb by (simp add: rocksdb_ok_def overwriting_def)

lemma ex_stored:
  "\<exists>c db st. initConfig (ex_configs sz) = Some (Inr c) \<and> bucket_clean ex_hash c overwriting mem_content db st \<and>
    root_hash ex_hash c (bucket_view c mem_content db) \<noteq> None \<and> bucket_view c mem_content db \<noteq> Map.empty"
proof -
  let ?ck = "ConstructCompositeKey (lit ''cc'') (lit ''k'')" and ?db = "\<lambda>_. []"
  obtain c where c: "initConfig (ex_configs 0) = Some (Inr c)" "conf_wf c" using ex_initConfig by blast
  have "mem_content ?db StateCF = Map.empty" by (simp add: mem_content_def fun_eq_iff)
  then have "tree_db ex_hash c Map.empty (mem_content ?db StateCF)" using tree_db_empty by simp
  moreover have "cache_off (ex_configs 0)" by (simp add: cache_off_def ex_configs_def)
  ultimately obtain st where "bucket_clean ex_hash c overwriting mem_content ?db st"
    using Initialize_ok [where content = mem_content and db = ?db, OF rocksdb_ok_overwriting ex_hash_ok _ c] by blast
  then obtain st1 where "bucket_prepared ex_hash c overwriting mem_content ?db st1 (updates_of ex_bdelta)"
    using bt.prepare [of ex_hash c overwriting mem_content ?db st _ ex_bdelta] ex_bdelta_supported by blast
  from bt.add_prepared [OF this, of "[]"] obtain ops where
    ops: "\<And>db'. mem_content db' StateCF = apply_batch (mem_content ?db) ops StateCF \<Longrightarrow>
      bucket_view c mem_content db' = apply_updates (updates_of ex_bdelta) (bucket_view c mem_content ?db) \<and>
      (\<exists>st''. bucket_clean ex_hash c overwriting mem_content db' st'')" by metis
  obtain db' where "Write overwriting ?db ops = Inr db'" by (simp add: overwriting_def memdb_def)
  then have "mem_content db' = apply_batch (mem_content ?db) ops" by (rule rocksdb_write [OF rocksdb_ok_overwriting])
  with ops obtain st2 where v: "bucket_view c mem_content db' = apply_updates (updates_of ex_bdelta) (bucket_view c mem_content ?db)"
    and cl: "bucket_clean ex_hash c overwriting mem_content db' st2" by metis
  have "updates_of ex_bdelta ?ck = Some (Some (lit ''v''))"
    by (simp add: ex_bdelta_update)
  then have dom: "?ck \<in> dom (bucket_view c mem_content db')" by (simp add: v apply_updates_def dom_def lit_def)
  moreover have "cc_of ?ck \<noteq> []" by (subst cc_key_of_Construct) (simp_all add: lit_def)
  moreover have "kv_ok (bucket_view c mem_content db')"
    using cl tree_db_kv_ok by (auto simp: bucket_clean_def st_clean_def tree_at_def)
  ultimately have "root_hash ex_hash c (bucket_view c mem_content db') \<noteq> None"
    using root_hash_neq_None [OF c(2) ex_hash_ok] by blast
  moreover have "initConfig (ex_configs sz) = Some (Inr c)" using c(1) by (simp add: initConfig_def ex_configs_def)
  moreover have "bucket_view c mem_content db' \<noteq> Map.empty" using dom by auto
  ultimately show ?thesis using cl by blast
qed

lemma ex_bdelta_nonempty: "\<not> StateDelta_IsEmpty ex_bdelta"
  by (simp add: ex_bdelta_def StateDelta_IsEmpty_def StateDelta_Set_def NewStateDelta_def Let_def)

subsection \<open>Properties\<close>

text \<open>
  C2: The incremental hash equals the hash computed from scratch. For every stored state and
  every delta with chaincode ids free of zero bytes and at least one key,
  \<open>PrepareWorkingSet\<close> succeeds and \<open>ComputeCryptoHash\<close>, which reads only the affected buckets
  and merges their ancestors with cached or stored nodes, returns the Merkle root hash of the
  whole updated state.
\<close>

theorem bucket_incremental_hash:
  assumes "bucket_clean H c D content db st" and "bucket_supports sd"
  shows "\<exists>st1 st2. si_PrepareWorkingSet c st sd = Inr st1 \<and>
    si_ComputeCryptoHash H c D db st1 =
      (Inr (root_hash H c (apply_updates (updates_of sd) (bucket_view c content db))), st2)"
proof -
  obtain st1 where "si_PrepareWorkingSet c st sd = Inr st1" "bucket_prepared H c D content db st1 (updates_of sd)"
    using bt.prepare [of H c D content db st _ sd] assms by (auto split: sum.splits)
  with bt.hash_prepared show ?thesis by fastforce
qed

theorem bucket_incremental_hash_witness:
  "\<exists>c st st1 st2. si_Initialize ex_hash memdb (\<lambda>_. []) NewStateImpl (ex_configs 1) = Some (Inr (c, st)) \<and>
    si_PrepareWorkingSet c st ex_bdelta = Inr st1 \<and>
    si_ComputeCryptoHash ex_hash c memdb (\<lambda>_. []) st1 =
      (Inr (root_hash ex_hash c (apply_updates (updates_of ex_bdelta) (bucket_view c mem_content (\<lambda>_. [])))), st2)"
  using ex_started bucket_incremental_hash [OF _ ex_bdelta_supported] by metis

text \<open>
  C6: A commit stores the tree of the updated state. After \<open>PrepareWorkingSet\<close>, the batch of
  \<open>AddChangesForPersistence\<close> turns the database into one whose data nodes are the updated
  state and whose bucket nodes are the nodes of its tree, leaves the other column families
  alone, and \<open>ClearWorkingSet(true)\<close> leaves hashes and cache in step with the new database.
\<close>

theorem bucket_commit:
  assumes "bucket_clean H c D content db st" and "bucket_supports sd"
  shows "\<exists>st1 st2 ops. si_PrepareWorkingSet c st sd = Inr st1 \<and>
    si_AddChangesForPersistence H c D db st1 [] = (Inr ops, st2) \<and>
    (\<forall>db'. Write D db ops = Inr db' \<longrightarrow>
      bucket_view c content db' = apply_updates (updates_of sd) (bucket_view c content db) \<and>
      (\<forall>f. f \<noteq> StateCF \<longrightarrow> content db' f = content db f) \<and>
      (\<exists>st3. si_ClearWorkingSet c st2 True = Inr st3 \<and> bucket_clean H c D content db' st3))"
proof -
  have D: "rocksdb_ok D content" using assms(1) by (auto simp: bucket_clean_def st_clean_def tree_at_def)
  obtain st1 where st1: "si_PrepareWorkingSet c st sd = Inr st1" "bucket_prepared H c D content db st1 (updates_of sd)"
    using bt.prepare [of H c D content db st _ sd] assms by (auto split: sum.splits)
  from persist_prepared [OF st1(2) [unfolded bucket_prepared_def], of "[]"] obtain ops st2 where
    a: "si_AddChangesForPersistence H c D db st1 [] = (Inr ops, st2)" "\<forall>op \<in> set ops. fst (op_target op) = StateCF"
    and clr: "\<And>db'. content db' StateCF = apply_batch (content db) ops StateCF \<Longrightarrow>
      \<exists>st3. si_ClearWorkingSet c st2 True = Inr st3 \<and>
        st_clean H c D content db' st3 (apply_updates (updates_of sd) (bucket_view c content db))"
    by auto
  have view: "bucket_view c content db' = apply_updates (updates_of sd) (bucket_view c content db) \<and>
      (\<exists>st3. si_ClearWorkingSet c st2 True = Inr st3 \<and> bucket_clean H c D content db' st3)"
    if "Write D db ops = Inr db'" for db'
  proof -
    have "content db' StateCF = apply_batch (content db) ops StateCF" using rocksdb_write [OF D that] by simp
    from clr [OF this] view_of_clean show ?thesis unfolding bucket_clean_def by metis
  qed
  have "content db' f = content db f" if "Write D db ops = Inr db'" "f \<noteq> StateCF" for db' f
    using rocksdb_write [OF D that(1)] apply_batch_other_cf [of ops f "content db"] a(2) that(2) by auto
  with st1(1) a(1) view show ?thesis by blast
qed

theorem bucket_commit_witness:
  "\<exists>c st st1 st2 ops. si_Initialize ex_hash memdb (\<lambda>_. []) NewStateImpl (ex_configs 1) = Some (Inr (c, st)) \<and>
    si_PrepareWorkingSet c st ex_bdelta = Inr st1 \<and>
    si_AddChangesForPersistence ex_hash c memdb (\<lambda>_. []) st1 [] = (Inr ops, st2) \<and>
    (\<exists>db'. Write memdb (\<lambda>_. []) ops = Inr db' \<and>
      bucket_view c mem_content db' = apply_updates (updates_of ex_bdelta) (bucket_view c mem_content (\<lambda>_. [])))"
proof -
  obtain c st where st: "si_Initialize ex_hash memdb (\<lambda>_. []) NewStateImpl (ex_configs 1) = Some (Inr (c, st))"
    "bucket_clean ex_hash c memdb mem_content (\<lambda>_. []) st" using ex_started by blast
  have w: "\<exists>db'. Write memdb db ops = Inr db'" for db ops by (simp add: memdb_def)
  from bucket_commit [OF st(2) ex_bdelta_supported] st(1) w show ?thesis by metis
qed

text \<open>
  C23: What a restart recovers. On the database of a state manager with no working set,
  \<open>Initialize\<close> succeeds and computes the same hash as before, and every node in the new cache is a
  node of the stored tree seen through the memory of the iterator it was read from. The cache
  agrees with the database, and with it the whole manager, if the cache is switched off or that
  memory keeps its contents; the code keeps slices of it without copying them.
\<close>

theorem bucket_restart:
  assumes "bucket_clean H c D content db st" and "initConfig cfgs = Some (Inr c)"
  shows "\<exists>st' h cache. si_Initialize H D db NewStateImpl cfgs = Some (Inr (c, st')) \<and>
    si_ComputeCryptoHash H c D db st = (Inr h, st) \<and> si_ComputeCryptoHash H c D db st' = (Inr h, st') \<and>
    si_bucketCache st' = Some cache \<and> cache_loaded H c D (bucket_view c content db) cache \<and>
    (itr_kept D \<or> cache_off cfgs \<longrightarrow> bucket_clean H c D content db st')"
proof -
  let ?h = "root_hash H c (bucket_view c content db)"
  have t: "rocksdb_ok D content" "hash_ok H" "conf_wf c" "tree_db H c (bucket_view c content db) (content db StateCF)"
    using assms(1) by (auto simp: bucket_clean_def st_clean_def tree_at_def)
  from Initialize_runs [OF t(1,2,4) assms(2) t(3)] obtain cache where
    i: "si_Initialize H D db NewStateImpl cfgs = Some (Inr (c, NewStateImpl\<lparr>persistedStateHash := ?h,
      lastComputedCryptoHash := ?h, si_bucketCache := Some cache\<rparr>))" "cache_loaded H c D (bucket_view c content db) cache"
    by blast
  moreover have "si_ComputeCryptoHash H c D db st = (Inr ?h, st)" using bt.hash_clean [of H c D content db] assms(1) by simp
  ultimately show ?thesis
    using Initialize_ok [OF t(1,2,4) assms(2) t(3)] by (auto simp: si_ComputeCryptoHash_def NewStateImpl_def)
qed

theorem bucket_restart_witness:
  "\<exists>c db st st' h. bucket_clean ex_hash c overwriting mem_content db st \<and> h \<noteq> None \<and>
    si_Initialize ex_hash overwriting db NewStateImpl (ex_configs 1) = Some (Inr (c, st')) \<and>
    si_ComputeCryptoHash ex_hash c overwriting db st = (Inr h, st) \<and>
    si_ComputeCryptoHash ex_hash c overwriting db st' = (Inr h, st')"
proof -
  obtain c db st where st: "initConfig (ex_configs 1) = Some (Inr c)" "bucket_clean ex_hash c overwriting mem_content db st"
    "root_hash ex_hash c (bucket_view c mem_content db) \<noteq> None" using ex_stored by blast
  moreover have "si_ComputeCryptoHash ex_hash c overwriting db st = (Inr (root_hash ex_hash c (bucket_view c mem_content db)), st)"
    using bt.hash_clean [OF st(2)] by simp
  ultimately show ?thesis using bucket_restart [OF st(2,1)] by fastforce
qed

text \<open>
  C24: The bytes hashed for a bucket determine its contents. The hash of a bucket of stored
  entries is the hash of \<open>bucket_content\<close>, and two buckets of entries with nonempty chaincode
  ids and values have the same \<open>bucket_content\<close> only if they hold the same keys and values.
\<close>

theorem bucket_hash_determines_contents:
  assumes "\<forall>e \<in> set es \<union> set es'. entry_sized e \<and> NotNil (snd e)" "go_len es" "go_len es'"
  shows "computeDataNodesCryptoHash H [] (map (dnode c) es) =
      Inr (if bucket_content es = [] then None else Some (H (bucket_content es))) \<and>
    (bucket_content es = bucket_content es' \<longrightarrow> es = es')"
proof -
  have sz: "\<forall>e \<in> set es \<union> set es'. entry_sized e" using assms(1) by blast
  have "merge_entries [] es = es" by (cases es) simp_all
  moreover have "live es = es"
    unfolding live_def filter_id_conv using assms(1) by (auto simp: NotNil_def)
  ultimately have "computeDataNodesCryptoHash H [] (map (dnode c) es) = Inr (bucket_hash H es)"
    using computeDataNodesCryptoHash_eq [of "[]" es H c] sz by (auto simp: entry_sized_def)
  with bucket_content_inj [OF sz assms(2,3)] show ?thesis by (simp add: bucket_hash_def Let_def)
qed

theorem bucket_hash_determines_contents_witness:
  "bucket_content [(lit ''a'' @ 0 # lit ''bc'', Some (lit ''d''))] \<noteq>
   bucket_content [(lit ''ab'' @ 0 # lit ''c'', Some (lit ''d''))]"
  using bucket_hash_determines_contents [of "[(lit ''a'' @ 0 # lit ''bc'', Some (lit ''d''))]"
      "[(lit ''ab'' @ 0 # lit ''c'', Some (lit ''d''))]" ex_hash]
  by (auto simp: entry_sized_def lit_def cc_of_def go_len_def NotNil_def IsNil_def)

text \<open>
  C25: Layout of the state column family. The encoded data key decodes to the key it was made
  from; encoded data keys are ordered by bucket and then by composite key, so one forward scan
  reads a bucket; no encoded bucket key is a data key, and every bucket key comes before every
  data key.
\<close>

theorem bucket_key_layout:
  assumes "conf_wf c" "newDataKey c cc k = Inr dk" "newDataKey c cc' k' = Inr dk'"
  shows "newDataKeyFromEncodedBytes c (dk_getEncodedBytes dk) = Inr dk \<and>
    (dk_getEncodedBytes dk < dk_getEncodedBytes dk' \<longleftrightarrow>
      bk_number (dk_bucketKey dk) < bk_number (dk_bucketKey dk') \<or>
      bk_number (dk_bucketKey dk) = bk_number (dk_bucketKey dk') \<and> compositeKey dk < compositeKey dk') \<and>
    bk_getEncodedBytes bk \<noteq> dk_getEncodedBytes dk \<and> bk_getEncodedBytes bk < dk_getEncodedBytes dk"
proof -
  let ?ck = "ConstructCompositeKey cc k" and ?L = "lowestLevel c"
  have dk: "dk = data_key c ?ck" "dk' = data_key c (ConstructCompositeKey cc' k')"
    using assms newDataKey_eq [OF assms(1)] by simp_all
  have v: "valid_bk c ?L (bucket_no c ?ck)" by (rule bucket_no_valid [OF assms(1)])
  have "?ck \<noteq> []" by (simp add: ConstructCompositeKey_def stateKeyDelimiter_def)
  then have "minimumPossibleDataKeyBytesFor (bkey ?L (bucket_no c ?ck)) \<le> dkey c ?ck"
    using min_key_le_dkey [OF assms(1) v] by simp
  then have "bk_getEncodedBytes bk < dkey c ?ck" using bk_less_min_key [OF assms(1) v, of bk] by (rule less_le_trans [rotated])
  moreover have enc: "dk_getEncodedBytes (data_key c x) = dkey c x" for x
    by (simp add: dk_getEncodedBytes_def dkey_def)
  moreover have "bk_number (bkey l b) = b" for l b by (simp add: bkey_def)
  ultimately show ?thesis
    using dkey_neq_bk [OF assms(1), of ?ck bk] dkey_less [OF assms(1)] newDataKeyFromEncodedBytes_dkey [OF assms(1)]
    unfolding dk enc by simp
qed

theorem bucket_key_layout_witness:
  "\<exists>c dk. initConfig (ex_configs 1) = Some (Inr c) \<and> newDataKey c (lit ''cc'') (lit ''k'') = Inr dk \<and>
    newDataKeyFromEncodedBytes c (dk_getEncodedBytes dk) = Inr dk"
proof -
  obtain c where c: "initConfig (ex_configs 1) = Some (Inr c)" "conf_wf c" using ex_initConfig by blast
  obtain dk where "newDataKey c (lit ''cc'') (lit ''k'') = Inr dk" using newDataKey_eq [OF c(2)] by blast
  with bucket_key_layout [OF c(2) this this] c(1) show ?thesis by blast
qed

text \<open>
  C29: Building the level table ends for every grouping above one: with at least two buckets and
  no overflow \<open>newConfig\<close> returns a table that shrinks to one root bucket. With a grouping of
  one the loop never returns.
\<close>

theorem newConfig_returns:
  "(2 \<le> n \<and> 2 \<le> g \<and> n + g < 2 ^ 63 \<longrightarrow>
      (\<exists>c. newConfig n g hf = Some (Inr c) \<and> conf_wf c \<and> nb c (lowestLevel c) = n \<and> nb c 0 = 1)) \<and>
   (2 \<le> n \<longrightarrow> newConfig n 1 hf = None)"
proof -
  have "newConfig n 1 hf = None" if "2 \<le> n"
    using newConfig_loop_one_diverges [of n 0 "[(0, n)]"] that
    by (cases "newConfig_loop 1 n 0 [(0, n)]") (auto simp: newConfig_def)
  moreover have "\<exists>c. newConfig n g hf = Some (Inr c) \<and> conf_wf c \<and> nb c (lowestLevel c) = n \<and> nb c 0 = 1"
    if "2 \<le> n" "2 \<le> g" "n + g < 2 ^ 63"
    using newConfig_wf [OF that, of hf] conf_root by blast
  ultimately show ?thesis by blast
qed

theorem newConfig_returns_witness:
  "(\<exists>c. newConfig 26 3 fnvHash = Some (Inr c) \<and> nb c 0 = 1) \<and> newConfig 26 1 fnvHash = None"
  using newConfig_returns [of 26 3 fnvHash] by auto

text \<open>
  The first node of the level above the leaves is read from the database when it is not in the cache.
\<close>

definition failing_reads :: "'db gorocksdb \<Rightarrow> 'db gorocksdb" where
  "failing_reads D = D\<lparr>GetCF := \<lambda>_ _ _. Inl DBError\<rparr>"

lemma processDataNode_failing [simp]: "processDataNode H c (failing_reads D) = processDataNode H c D"
  by (intro ext) (simp add: processDataNode_def fetchDataNodesFromDBFor_def failing_reads_def)

lemma mergeWithStored_failing:
  "\<not> isEnabled cache \<or> cache_c cache = [] \<Longrightarrow> mergeWithStored c (failing_reads D) db cache bn = Inl DBError"
  by (auto simp: mergeWithStored_def cache_get_def fetchBucketNodeFromDB_def GetFromStateCF_def db_get_def
      failing_reads_def)

lemma processLevel_failing:
  assumes "\<not> isEnabled cache \<or> cache_c cache = []" "getBucketNodesAt btd l \<noteq> []"
  shows "\<exists>btd'. processLevel H c (failing_reads D) db cache l btd = (Some DBError, btd')"
  using assms
  by (cases "getBucketNodesAt btd l")
    (auto simp: processLevel_def processRootNode_def processBucketNode_def mergeWithStored_failing)

lemma compute_failing:
  assumes "st_prepared H c D content db st dm u" "recomputeCryptoHash st"
    and "si_bucketCache st = Some cache" "\<not> isEnabled cache \<or> cache_c cache = []"
  shows "\<exists>st'. si_ComputeCryptoHash H c (failing_reads D) db st = (Inl DBError, st')"
proof -
  obtain dnd where p: "tree_at H c D content db cache dm"
    "updates_ok u" "dom u \<noteq> {}" "si_dataNodesDelta st = Some dnd" "dnd_ok c u dnd"
    "si_bucketTreeDelta st = Some newBucketTreeDelta"
    using assms by (auto simp: st_prepared_def)
  note t = tree_atD [OF p(1)]
  let ?L = "lowestLevel c"
  have L: "1 \<le> ?L" by (rule conf_lowest [OF t(3)])
  obtain btd where btd: "efold (processDataNode H c D db dnd) (map fst (byBucket dnd)) newBucketTreeDelta = (None, btd)"
    "btd_ok btd" "level_ok c (new_hash H c u dm ?L) btd (?L - 1) (affected_leaves c u)"
    using processDataNodes_ok [OF p(1,2,5)] by blast
  obtain b where "b \<in> affected_leaves c u" using p(3) unfolding affected_leaves_def by blast
  then have "node_at btd (?L - 1) (parent_no c b) \<noteq> None" using btd(3) by (simp add: level_ok_def)
  then have "getBucketNodesAt btd (?L - 1) \<noteq> []" by (auto simp: node_at_def getBucketNodesAt_def)
  from processLevel_failing [OF assms(4) this, of H c D db] obtain btd' where
    run: "processLevel H c (failing_reads D) db cache (?L - 1) btd = (Some DBError, btd')" by blast
  have "levels_up c = (?L - 1) # rev (map int [0..<nat (?L - 1)])"
  proof -
    have "nat ?L = Suc (nat (?L - 1))" using L by simp
    then show ?thesis using L by (simp add: levels_up_def)
  qed
  with run have "\<exists>st'. processBucketTreeDelta H c (failing_reads D) db (st\<lparr>si_bucketTreeDelta := Some btd\<rparr>) = (Some DBError, st')"
    using assms(3) by (simp add: processBucketTreeDelta_def)
  moreover have "processDataNodeDelta H c (failing_reads D) db st = (None, st\<lparr>si_bucketTreeDelta := Some btd\<rparr>)"
    using btd(1) p by (simp add: processDataNodeDelta_def getAffectedBuckets_eq [OF t(3) p(5)])
  ultimately show ?thesis using assms(2) by (auto simp: si_ComputeCryptoHash_def)
qed

text \<open>What a failed recomputation leaves alone.\<close>

lemma compute_error_keeps:
  assumes "si_ComputeCryptoHash H c D db st = (Inl e, st')"
  shows "lastComputedCryptoHash st' = lastComputedCryptoHash st" "si_bucketCache st' = si_bucketCache st"
  using assms
  by (auto simp: si_ComputeCryptoHash_def processDataNodeDelta_def processBucketTreeDelta_def computeRootNodeCryptoHash_def
      rbind_def Let_def split: if_splits option.splits prod.splits sum.splits)

lemma ClearWorkingSet_runs:
  assumes "si_bucketCache st \<noteq> None"
  shows "\<exists>st'. si_ClearWorkingSet c st True = Inr st' \<and> lastComputedCryptoHash st' = lastComputedCryptoHash st \<and>
    \<not> recomputeCryptoHash st'"
proof -
  obtain cache where "si_bucketCache st = Some cache" using assms by blast
  then show ?thesis
    by (cases "si_bucketTreeDelta st"; cases "btd_isEmpty (the (si_bucketTreeDelta st))")
      (simp_all add: si_ClearWorkingSet_def updateBucketCache_def)
qed

lemma add_changes_error:
  assumes "si_PrepareWorkingSet c st sd = Inr st1" "\<not> StateDelta_IsEmpty sd"
    and "si_ComputeCryptoHash H c D db st1 = (Inl e, st2)" "\<forall>m. e \<noteq> Panic m"
  shows "si_AddChangesForPersistence H c D db st1 batch = (Inr batch, st2)"
proof -
  have "recomputeCryptoHash st1" "si_dataNodesDelta st1 \<noteq> None"
    using assms(1,2) by (auto simp: si_PrepareWorkingSet_def rbind_Inr_conv)
  with assms(3,4) show ?thesis by (auto simp: si_AddChangesForPersistence_def split: gerr.splits)
qed

text \<open>
  C40: A delta that names a chaincode but no key stops the process. Such a delta is not empty,
  so a working set is built, but no bucket is affected and \<open>getRootNode\<close> panics; the witness
  reads the delta from four bytes, as state transfer does with deltas received from a peer.
\<close>

theorem keyless_delta_panics:
  assumes "\<not> StateDelta_IsEmpty sd" "\<forall>(cc, csd) \<in> set (ChaincodeStateDeltas sd). UpdatedKVs csd = []"
    and "si_bucketCache st = Some cache"
  shows "\<exists>st1 st2 m. si_PrepareWorkingSet c st sd = Inr st1 \<and> si_ComputeCryptoHash H c D db st1 = (Inl (Panic m), st2)"
proof -
  have "(case StateDelta_GetUpdates sd cc of Some m \<Rightarrow> m | None \<Rightarrow> []) = []" for cc
    using assms(2) by (fastforce simp: StateDelta_GetUpdates_def split: option.splits dest: map_of_SomeD)
  then have "rfold (\<lambda>dnd cc. rfold (\<lambda>dnd (key, uv). dataNodesDelta_add c dnd cc key
               (if RollBackwards sd then UpdatedValue_GetPreviousValue uv else UpdatedValue_GetValue uv))
           (case StateDelta_GetUpdates sd cc of Some m \<Rightarrow> m | None \<Rightarrow> []) dnd) ccs d = Inr d" for ccs d
    by (induction ccs) simp_all
  then have dnd: "newDataNodesDelta c sd = Inr \<lparr>byBucket = []\<rparr>" by (simp add: newDataNodesDelta_def)
  let ?st = "st\<lparr>si_dataNodesDelta := Some \<lparr>byBucket = []\<rparr>, si_bucketTreeDelta := Some newBucketTreeDelta,
    recomputeCryptoHash := True\<rparr>"
  have none: "getBucketNodesAt newBucketTreeDelta l = []" for l
    by (simp add: getBucketNodesAt_def newBucketTreeDelta_def btd_level_def)
  have "efold (processLevel H c D db cache) ls newBucketTreeDelta = (None, newBucketTreeDelta)" for ls
    by (induction ls) (simp_all add: processLevel_def processRootNode_def none)
  then have "processBucketTreeDelta H c D db ?st = (None, ?st)"
    using assms(3) by (simp add: processBucketTreeDelta_def)
  moreover have "processDataNodeDelta H c D db ?st = (None, ?st)"
    by (simp add: processDataNodeDelta_def getAffectedBuckets_def)
  ultimately have "\<exists>m st2. si_ComputeCryptoHash H c D db ?st = (Inl (Panic m), st2)"
    by (simp add: si_ComputeCryptoHash_def computeRootNodeCryptoHash_def getRootNode_def none)
  moreover have "si_PrepareWorkingSet c st sd = Inr ?st"
    using assms(1) dnd by (simp add: si_PrepareWorkingSet_def)
  ultimately show ?thesis by blast
qed

theorem keyless_delta_panics_witness:
  "\<exists>c st st1 st2 m. si_Initialize ex_hash memdb (\<lambda>_. []) NewStateImpl (ex_configs 1) = Some (Inr (c, st)) \<and>
    StateDelta_Unmarshal NewStateDelta [1, 1, 97, 0] =
      (None, \<lparr>ChaincodeStateDeltas = [([97], newChaincodeStateDelta [97])], RollBackwards = False\<rparr>) \<and>
    si_PrepareWorkingSet c st \<lparr>ChaincodeStateDeltas = [([97], newChaincodeStateDelta [97])], RollBackwards = False\<rparr> = Inr st1 \<and>
    si_ComputeCryptoHash ex_hash c memdb (\<lambda>_. []) st1 = (Inl (Panic m), st2)"
proof -
  let ?sd = "\<lparr>ChaincodeStateDeltas = [([97], newChaincodeStateDelta [97])], RollBackwards = False\<rparr>"
  have u: "StateDelta_Unmarshal NewStateDelta [1, 1, 97, 0] = (None, ?sd)" by code_simp
  obtain c st where st: "si_Initialize ex_hash memdb (\<lambda>_. []) NewStateImpl (ex_configs 1) = Some (Inr (c, st))"
    "bucket_clean ex_hash c memdb mem_content (\<lambda>_. []) st" using ex_started by blast
  then obtain cache where "si_bucketCache st = Some cache"
    by (auto simp: bucket_clean_def st_clean_def tree_at_def)
  moreover have "\<not> StateDelta_IsEmpty ?sd" "UpdatedKVs (newChaincodeStateDelta [97]) = []"
    by (simp_all add: StateDelta_IsEmpty_def newChaincodeStateDelta_def)
  ultimately have "\<exists>st1 st2 m. si_PrepareWorkingSet c st ?sd = Inr st1 \<and>
      si_ComputeCryptoHash ex_hash c memdb (\<lambda>_. []) st1 = (Inl (Panic m), st2)"
    by (intro keyless_delta_panics) auto
  with st(1) u show ?thesis by blast
qed

end
