(* ===== verification/LedgerState.thy ===== *)
theory LedgerState
  imports HashableState
begin

text \<open>
  \<open>core/ledger/statemgmt/state/state.go\<close>: the world state of a peer. A transaction collects its
  changes in \<open>currentTxStateDelta\<close>, a batch of transactions in \<open>stateDelta\<close>, and the state
  implementation behind the \<open>HashableState\<close> interface holds what is committed. The operations
  take the implementation's methods \<open>HS\<close>, the database and the state.

  The second half gives the specification \<open>world_spec\<close>, three layers of key-value pairs, and
  proves inside the locale \<open>forward_state\<close> that the operations refine it, that \<open>GetHash\<close> is the
  hash of the state with the batch applied, and that the changes added for persistence turn the
  database into that state.
\<close>

subsection \<open>The state\<close>

record 'st State =
  stateImpl :: 'st
  stateDelta :: StateDelta
  currentTxStateDelta :: StateDelta
  currentTxUUID :: gostring
  txStateDeltaHash :: "(gostring, slice) gomap"
  updateStateImpl :: bool
  historyStateDeltaSize :: u64

text \<open>\<open>initialized\<close> is the outcome of \<open>stateImpl.Initialize\<close>, \<open>deltaHistorySize\<close> the configured size.\<close>

definition NewState :: "gerr + 'st \<Rightarrow> int \<Rightarrow> gerr + 'st State" where
  "NewState initialized deltaHistorySize =
     (case initialized of
        Inl e \<Rightarrow> Inl (Panic ''Error during initialization of state implementation'')
      | Inr impl \<Rightarrow>
          if deltaHistorySize < 0
          then Inl (Panic ''Delta history size must be greater than or equal to 0'')
          else Inr \<lparr>stateImpl = impl, stateDelta = NewStateDelta, currentTxStateDelta = NewStateDelta,
            currentTxUUID = [], txStateDeltaHash = [], updateStateImpl = False,
            historyStateDeltaSize = word_of_int deltaHistorySize\<rparr>)"

definition txInProgress :: "'st State \<Rightarrow> bool" where
  "txInProgress s = (currentTxUUID s \<noteq> [])"

definition TxBegin :: "'st State \<Rightarrow> gostring \<Rightarrow> gerr + 'st State" where
  "TxBegin s txUUID =
     (if txInProgress s then Inl (Panic ''A tx is already in progress'')
      else Inr (s\<lparr>currentTxUUID := txUUID\<rparr>))"

definition TxFinish :: "(bytes \<Rightarrow> bytes) \<Rightarrow> 'st State \<Rightarrow> gostring \<Rightarrow> bool \<Rightarrow> gerr + 'st State" where
  "TxFinish H s txUUID txSuccessful =
     (if currentTxUUID s \<noteq> txUUID then Inl (Panic ''Different Uuid in tx-begin and tx-finish'')
      else
        let s = (if \<not> txSuccessful then s
                 else if \<not> StateDelta_IsEmpty (currentTxStateDelta s) then
                   s\<lparr>stateDelta := StateDelta_ApplyChanges (stateDelta s) (currentTxStateDelta s),
                     txStateDeltaHash := mput txUUID (StateDelta_ComputeCryptoHash H (currentTxStateDelta s))
                       (txStateDeltaHash s),
                     updateStateImpl := True\<rparr>
                 else s\<lparr>txStateDeltaHash := mput txUUID None (txStateDeltaHash s)\<rparr>)
        in Inr (s\<lparr>currentTxStateDelta := NewStateDelta, currentTxUUID := []\<rparr>))"

definition State_Get ::
  "('st, 'db) HashableState \<Rightarrow> 'db \<Rightarrow> 'st State \<Rightarrow> gostring \<Rightarrow> gostring \<Rightarrow> bool \<Rightarrow> gerr + slice" where
  "State_Get HS db s chaincodeID key committed =
     (if committed then hs_Get HS (stateImpl s) db chaincodeID key
      else case StateDelta_Get (currentTxStateDelta s) chaincodeID key of
          Some valueHolder \<Rightarrow> Inr (UpdatedValue_GetValue valueHolder)
        | None \<Rightarrow>
            (case StateDelta_Get (stateDelta s) chaincodeID key of
               Some valueHolder \<Rightarrow> Inr (UpdatedValue_GetValue valueHolder)
             | None \<Rightarrow> hs_Get HS (stateImpl s) db chaincodeID key))"

definition State_Set ::
  "('st, 'db) HashableState \<Rightarrow> 'db \<Rightarrow> 'st State \<Rightarrow> gostring \<Rightarrow> gostring \<Rightarrow> slice \<Rightarrow> gerr + 'st State" where
  "State_Set HS db s chaincodeID key val =
     (if \<not> txInProgress s then Inl (Panic ''State can be changed only in context of a tx.'')
      else if StateDelta_IsUpdatedValueSet (currentTxStateDelta s) chaincodeID key
      then Inr (s\<lparr>currentTxStateDelta := StateDelta_Set (currentTxStateDelta s) chaincodeID key val None\<rparr>)
      else rbind (State_Get HS db s chaincodeID key True) (\<lambda>previousValue.
        Inr (s\<lparr>currentTxStateDelta :=
          StateDelta_Set (currentTxStateDelta s) chaincodeID key val previousValue\<rparr>)))"

definition State_Delete ::
  "('st, 'db) HashableState \<Rightarrow> 'db \<Rightarrow> 'st State \<Rightarrow> gostring \<Rightarrow> gostring \<Rightarrow> gerr + 'st State" where
  "State_Delete HS db s chaincodeID key =
     (if \<not> txInProgress s then Inl (Panic ''State can be changed only in context of a tx.'')
      else if StateDelta_IsUpdatedValueSet (currentTxStateDelta s) chaincodeID key
      then Inr (s\<lparr>currentTxStateDelta := StateDelta_Delete (currentTxStateDelta s) chaincodeID key None\<rparr>)
      else rbind (State_Get HS db s chaincodeID key True) (\<lambda>previousValue.
        Inr (s\<lparr>currentTxStateDelta :=
          StateDelta_Delete (currentTxStateDelta s) chaincodeID key previousValue\<rparr>)))"

text \<open>
  The block that \<open>GetHash\<close>, \<open>AddChangesForPersistence\<close> and \<open>CommitStateDelta\<close> start with. The
  error of \<open>PrepareWorkingSet\<close> is dropped; a panic is not.
\<close>

definition updateImpl :: "('st, 'db) HashableState \<Rightarrow> 'st State \<Rightarrow> gerr option \<times> 'st State" where
  "updateImpl HS s =
     (if updateStateImpl s then
        let (err, impl) = hs_PrepareWorkingSet HS (stateImpl s) (stateDelta s)
        in (only_panic err, s\<lparr>stateImpl := impl, updateStateImpl := False\<rparr>)
      else (None, s))"

definition State_GetHash :: "('st, 'db) HashableState \<Rightarrow> 'db \<Rightarrow> 'st State \<Rightarrow> (gerr + slice) \<times> 'st State" where
  "State_GetHash HS db s =
     (case updateImpl HS s of
        (Some e, s) \<Rightarrow> (Inl e, s)
      | (None, s) \<Rightarrow> let (r, impl) = hs_ComputeCryptoHash HS (stateImpl s) db
          in (r, s\<lparr>stateImpl := impl\<rparr>))"

definition ClearInMemoryChanges ::
  "('st, 'db) HashableState \<Rightarrow> 'st State \<Rightarrow> bool \<Rightarrow> gerr option \<times> 'st State" where
  "ClearInMemoryChanges HS s changesPersisted =
     (let (err, impl) = hs_ClearWorkingSet HS (stateImpl s) changesPersisted
      in (err, s\<lparr>stateDelta := NewStateDelta, txStateDeltaHash := [], stateImpl := impl\<rparr>))"

definition encodeStateDeltaKey :: "u64 \<Rightarrow> bytes" where
  "encodeStateDeltaKey blockNumber = encodeUint64 blockNumber"

text \<open>The result of \<open>Unmarshal\<close> is not looked at: a damaged record gives the part read so far.\<close>

definition FetchStateDeltaFromDB :: "'db gorocksdb \<Rightarrow> 'db \<Rightarrow> u64 \<Rightarrow> gerr + StateDelta option" where
  "FetchStateDeltaFromDB D db blockNumber =
     rbind (GetFromStateDeltaCF D db (encodeStateDeltaKey blockNumber)) (\<lambda>stateDeltaBytes.
       case stateDeltaBytes of
         None \<Rightarrow> Inr None
       | Some bs \<Rightarrow>
           (case StateDelta_Unmarshal NewStateDelta bs of
              (Some (Panic m), _) \<Rightarrow> Inl (Panic m)
            | (_, sd) \<Rightarrow> Inr (Some sd)))"

text \<open>The error of the implementation's \<open>AddChangesForPersistence\<close> is dropped as well.\<close>

definition State_AddChangesForPersistence ::
  "('st, 'db) HashableState \<Rightarrow> 'db \<Rightarrow> 'st State \<Rightarrow> u64 \<Rightarrow> WriteBatch \<Rightarrow>
     gerr option \<times> WriteBatch \<times> 'st State" where
  "State_AddChangesForPersistence HS db s blockNumber writeBatch =
     (case updateImpl HS s of
        (Some e, s) \<Rightarrow> (Some e, writeBatch, s)
      | (None, s) \<Rightarrow>
          let (err, batch, impl) = hs_AddChangesForPersistence HS (stateImpl s) db writeBatch;
              s = s\<lparr>stateImpl := impl\<rparr>;
              batch = batch @ [PutCF StateDeltaCF (encodeStateDeltaKey blockNumber) (StateDelta_Marshal (stateDelta s))];
              batch = (if blockNumber \<ge> historyStateDeltaSize s
                then batch @ [DeleteCF StateDeltaCF (encodeStateDeltaKey (blockNumber - historyStateDeltaSize s))]
                else batch)
          in (only_panic err, batch, s))"

definition State_ApplyStateDelta :: "'st State \<Rightarrow> StateDelta \<Rightarrow> 'st State" where
  "State_ApplyStateDelta s delta = s\<lparr>stateDelta := delta, updateStateImpl := True\<rparr>"

definition State_CommitStateDelta ::
  "('st, 'db) HashableState \<Rightarrow> 'db gorocksdb \<Rightarrow> 'db \<Rightarrow> 'st State \<Rightarrow> (gerr + 'db) \<times> 'st State" where
  "State_CommitStateDelta HS D db s =
     (case updateImpl HS s of
        (Some e, s) \<Rightarrow> (Inl e, s)
      | (None, s) \<Rightarrow>
          let (err, batch, impl) = hs_AddChangesForPersistence HS (stateImpl s) db [];
              s = s\<lparr>stateImpl := impl\<rparr>
          in case only_panic err of
               Some e \<Rightarrow> (Inl e, s)
             | None \<Rightarrow> (Write D db batch, s))"

definition State_DeleteState ::
  "('st, 'db) HashableState \<Rightarrow> 'db gorocksdb \<Rightarrow> 'db \<Rightarrow> 'st State \<Rightarrow> (gerr + 'db) \<times> 'st State" where
  "State_DeleteState HS D db s =
     (case ClearInMemoryChanges HS s False of
        (Some e, s) \<Rightarrow> (Inl e, s)
      | (None, s) \<Rightarrow> (DeleteState D db, s))"

subsection \<open>Deltas built by transactions\<close>

text \<open>The deltas that \<open>Set\<close>, \<open>Delete\<close> and \<open>ApplyChanges\<close> build from chaincode ids without a zero byte.\<close>

definition delta_good :: "StateDelta \<Rightarrow> bool" where
  "delta_good sd \<longleftrightarrow> sd_wf sd \<and> cc_ok sd \<and> \<not> RollBackwards sd \<and>
     (\<forall>c \<in> set (ChaincodeStateDeltas sd). UpdatedKVs (snd c) \<noteq> [])"

lemma delta_good_New [simp]: "delta_good NewStateDelta"
  by (simp add: delta_good_def NewStateDelta_def sd_wf_def gomap_ok_def cc_ok_def)

lemma IsEmpty_New [simp]: "StateDelta_IsEmpty NewStateDelta"
  by (simp add: StateDelta_IsEmpty_def NewStateDelta_def)

lemma mput_neq_Nil [simp]: "mput k v m \<noteq> []"
  by (cases m) (auto split: prod.splits)

lemma delta_good_Set:
  assumes "delta_good sd" "0 \<notin> set cc"
  shows "delta_good (StateDelta_Set sd cc k v p)"
proof -
  let ?csd = "csd_set (getOrCreateChaincodeStateDelta sd cc) k v p"
  have "UpdatedKVs ?csd \<noteq> []" by (auto simp: csd_set_def split: option.splits)
  moreover have "set (mput cc ?csd m) \<subseteq> insert (cc, ?csd) (set m)" for m
    by (induction m) auto
  ultimately have "\<forall>c \<in> set (mput cc ?csd (ChaincodeStateDeltas sd)). UpdatedKVs (snd c) \<noteq> [] \<and> 0 \<notin> set (fst c)"
    using assms unfolding delta_good_def cc_ok_def by fastforce
  moreover have "sd_wf (StateDelta_Set sd cc k v p)" using assms(1) by (simp add: delta_good_def sd_wf_Set)
  ultimately show ?thesis
    using assms by (auto simp: delta_good_def cc_ok_def StateDelta_Set_def Let_def)
qed

lemma delta_good_ApplyChanges:
  assumes "delta_good sd" "cc_ok another"
  shows "delta_good (StateDelta_ApplyChanges sd another)"
proof -
  have entry: "delta_good (ApplyChanges_entry e cc sd kv)" if "delta_good sd" "0 \<notin> set cc" for e cc sd kv
    using that by (simp add: ApplyChanges_entry_def Let_def StateDelta_Delete_eq_Set delta_good_Set)
  have "delta_good (foldl (ApplyChanges_entry e cc) sd kvs)" if "delta_good sd" "0 \<notin> set cc" for e cc sd kvs
    using that by (induction kvs arbitrary: sd) (auto simp: entry)
  then have chaincode: "delta_good (ApplyChanges_chaincode sd c)" if "delta_good sd" "0 \<notin> set (fst c)" for c sd
    using that by (simp add: ApplyChanges_chaincode_def)
  have "delta_good (foldl ApplyChanges_chaincode sd cs)" if "\<forall>c \<in> set cs. 0 \<notin> set (fst c)" "delta_good sd" for cs sd
    using that by (induction cs arbitrary: sd) (auto simp: chaincode)
  with assms show ?thesis by (auto simp: StateDelta_ApplyChanges_def cc_ok_def)
qed

lemma delta_good_nonempty:
  assumes "delta_good sd"
  shows "StateDelta_IsEmpty sd \<longleftrightarrow> (\<forall>x. delta_at sd x = None)"
proof
  assume "StateDelta_IsEmpty sd"
  then show "\<forall>x. delta_at sd x = None" by (simp add: StateDelta_IsEmpty_def delta_at_def StateDelta_Get_def)
next
  assume n: "\<forall>x. delta_at sd x = None"
  show "StateDelta_IsEmpty sd"
  proof (rule ccontr)
    assume "\<not> StateDelta_IsEmpty sd"
    then obtain cc csd cs where c: "ChaincodeStateDeltas sd = (cc, csd) # cs"
      by (cases "ChaincodeStateDeltas sd") (auto simp: StateDelta_IsEmpty_def)
    with assms obtain k uv kvs where "UpdatedKVs csd = (k, uv) # kvs"
      by (cases "UpdatedKVs csd") (auto simp: delta_good_def)
    with c n [rule_format, of "(cc, k)"] show False by (simp add: delta_at_def StateDelta_Get_def csd_get_def)
  qed
qed

lemma delta_at_zero_free: "cc_ok sd \<Longrightarrow> delta_at sd (cc, k) \<noteq> None \<Longrightarrow> 0 \<notin> set cc"
  by (force simp: cc_ok_def delta_at_def StateDelta_Get_def split: option.splits dest: map_of_SomeD)

lemma updates_of_empty: "StateDelta_IsEmpty sd \<Longrightarrow> updates_of sd = Map.empty"
  by (rule ext) (simp add: updates_of_def delta_at_def StateDelta_Get_def StateDelta_IsEmpty_def)

lemma apply_updates_empty [simp]: "apply_updates Map.empty m = m"
  by (simp add: apply_updates_def fun_eq_iff)

lemma updates_of_nonempty:
  assumes "delta_good sd" "\<not> StateDelta_IsEmpty sd"
  shows "dom (updates_of sd) \<noteq> {}"
proof -
  obtain cc k where x: "delta_at sd (cc, k) \<noteq> None" using delta_good_nonempty [OF assms(1)] assms(2) by auto
  then have "0 \<notin> set cc" using assms(1) delta_at_zero_free by (auto simp: delta_good_def)
  with x have "updates_of sd (ConstructCompositeKey cc k) \<noteq> None"
    by (simp add: updates_of_def cc_key_of_Construct) (simp add: ConstructCompositeKey_def stateKeyDelimiter_def)
  then show ?thesis by blast
qed

subsection \<open>The contents by chaincode and key\<close>

definition world :: "kvstate \<Rightarrow> gostring \<times> gostring \<Rightarrow> slice" where
  "world m x = m (ConstructCompositeKey (fst x) (snd x))"

lemma world_apply_updates:
  assumes "0 \<notin> set (fst x)"
  shows "world (apply_updates (updates_of sd) m) x =
    (case delta_at sd x of None \<Rightarrow> world m x | Some uv \<Rightarrow> norm_slice (new_value sd uv))"
proof -
  have "updates_of sd (ConstructCompositeKey (fst x) (snd x)) = map_option (new_value sd) (delta_at sd x)"
    using cc_key_of_Construct [OF assms, of "snd x"]
    by (simp add: updates_of_def) (simp add: ConstructCompositeKey_def stateKeyDelimiter_def)
  then show ?thesis by (simp add: world_def apply_updates_def norm_slice_def split: option.splits)
qed

text \<open>
  The specification: what is committed, what the batch will make of it, and what the running
  transaction sees.
\<close>

record world_spec =
  w_committed :: "gostring \<times> gostring \<Rightarrow> slice"
  w_batch :: "gostring \<times> gostring \<Rightarrow> slice"
  w_tx :: "gostring \<times> gostring \<Rightarrow> slice"
  w_uuid :: gostring

definition spec_read :: "world_spec \<Rightarrow> gostring \<times> gostring \<Rightarrow> bool \<Rightarrow> slice" where
  "spec_read w x committed = (if committed then w_committed w x else w_tx w x)"

definition spec_write :: "world_spec \<Rightarrow> gostring \<times> gostring \<Rightarrow> slice \<Rightarrow> world_spec" where
  "spec_write w x v = w\<lparr>w_tx := (w_tx w)(x := v)\<rparr>"

definition spec_finish :: "world_spec \<Rightarrow> bool \<Rightarrow> world_spec" where
  "spec_finish w ok = (if ok then w\<lparr>w_batch := w_tx w, w_uuid := []\<rparr> else w\<lparr>w_tx := w_batch w, w_uuid := []\<rparr>)"

definition spec_rollback :: "world_spec \<Rightarrow> world_spec" where
  "spec_rollback w = w\<lparr>w_batch := w_committed w, w_tx := w_committed w\<rparr>"

definition abs_state :: "kvstate \<Rightarrow> 'st State \<Rightarrow> world_spec" where
  "abs_state m s =
     (let batch = fwd (delta_at (stateDelta s)) (world m)
      in \<lparr>w_committed = world m, w_batch = batch, w_tx = fwd (delta_at (currentTxStateDelta s)) batch,
          w_uuid = currentTxUUID s\<rparr>)"

subsection \<open>The invariant\<close>

text \<open>
  Both deltas record the committed values they replace, there is no transaction delta without
  a transaction, and the implementation has either no working set, the one of the batch, or an
  older one that \<open>updateStateImpl\<close> says must be replaced.
\<close>

definition impl_ok ::
  "('db \<Rightarrow> 'st \<Rightarrow> bool) \<Rightarrow> ('db \<Rightarrow> 'st \<Rightarrow> updates \<Rightarrow> bool) \<Rightarrow> 'db \<Rightarrow> 'st State \<Rightarrow> bool" where
  "impl_ok clean prepared db s \<longleftrightarrow>
     (if StateDelta_IsEmpty (stateDelta s) then clean db (stateImpl s)
      else if updateStateImpl s then clean db (stateImpl s) \<or> (\<exists>u. prepared db (stateImpl s) u)
      else prepared db (stateImpl s) (updates_of (stateDelta s)))"

definition state_inv ::
  "('db \<Rightarrow> kvstate) \<Rightarrow> ('db \<Rightarrow> 'st \<Rightarrow> bool) \<Rightarrow> ('db \<Rightarrow> 'st \<Rightarrow> updates \<Rightarrow> bool) \<Rightarrow> 'db \<Rightarrow> 'st State \<Rightarrow> bool" where
  "state_inv view clean prepared db s \<longleftrightarrow>
     delta_good (stateDelta s) \<and> delta_good (currentTxStateDelta s) \<and>
     records (delta_at (stateDelta s)) (world (view db)) \<and>
     records (delta_at (currentTxStateDelta s)) (world (view db)) \<and>
     (currentTxUUID s = [] \<longrightarrow> StateDelta_IsEmpty (currentTxStateDelta s)) \<and>
     impl_ok clean prepared db s"

lemma abs_state_cong:
  "stateDelta s' = stateDelta s \<Longrightarrow> currentTxStateDelta s' = currentTxStateDelta s \<Longrightarrow>
    currentTxUUID s' = currentTxUUID s \<Longrightarrow> abs_state m s' = abs_state m s"
  by (simp add: abs_state_def)

lemma fwd_empty_delta: "StateDelta_IsEmpty sd \<Longrightarrow> fwd (delta_at sd) st = st"
  by (simp add: fwd_def delta_at_def StateDelta_Get_def StateDelta_IsEmpty_def fun_eq_iff)

text \<open>
  The contract of an implementation that also takes every nonempty delta the transactions can
  build.
\<close>

locale forward_state = hashable_state HS content view digest clean prepared supports
  for HS :: "('st, 'db) HashableState" and content view digest clean prepared supports +
  assumes supports_good: "delta_good sd \<Longrightarrow> \<not> StateDelta_IsEmpty sd \<Longrightarrow> supports sd"
begin

lemma inv_get:
  assumes "state_inv view clean prepared db s"
  shows "hs_Get HS (stateImpl s) db cc k = Inr (world (view db) (cc, k))"
  using assms get_clean get_prepared by (auto simp: state_inv_def impl_ok_def world_def split: if_splits)

lemma Get_refines:
  assumes "state_inv view clean prepared db s"
  shows "State_Get HS db s cc k committed = Inr (spec_read (abs_state (view db) s) (cc, k) committed)"
  using inv_get [OF assms, of cc k]
  by (auto simp: State_Get_def spec_read_def abs_state_def Let_def fwd_def delta_at_def
      UpdatedValue_GetValue_def split: option.splits)

text \<open>\<open>Set\<close> and \<open>Delete\<close> put an entry with the committed value as the previous one.\<close>

lemma put_refines:
  fixes v :: slice
  assumes "state_inv view clean prepared db s" "txInProgress s" "0 \<notin> set cc"
    and "delta_at (currentTxStateDelta s) (cc, k) \<noteq> None \<or> p = world (view db) (cc, k)"
  defines "s' \<equiv> s\<lparr>currentTxStateDelta := StateDelta_Set (currentTxStateDelta s) cc k v p\<rparr>"
  shows "state_inv view clean prepared db s' \<and>
    abs_state (view db) s' = spec_write (abs_state (view db) s) (cc, k) v"
proof -
  have "records (delta_at (StateDelta_Set (currentTxStateDelta s) cc k v p)) (world (view db))"
    using sd.records_put [of "currentTxStateDelta s" "world (view db)" "(cc, k)" p v] assms
    by (simp add: state_inv_def)
  then have "state_inv view clean prepared db s'"
    using assms by (simp add: state_inv_def s'_def delta_good_Set txInProgress_def impl_ok_def)
  moreover have "abs_state (view db) s' = spec_write (abs_state (view db) s) (cc, k) v"
    using sd.fwd_put [of "currentTxStateDelta s" "(cc, k)" v p]
    by (simp add: abs_state_def spec_write_def Let_def s'_def)
  ultimately show ?thesis by blast
qed

lemma Set_refines:
  assumes "state_inv view clean prepared db s" "txInProgress s" "0 \<notin> set cc"
  shows "\<exists>s'. State_Set HS db s cc k v = Inr s' \<and> state_inv view clean prepared db s' \<and>
    abs_state (view db) s' = spec_write (abs_state (view db) s) (cc, k) v"
proof (cases "delta_at (currentTxStateDelta s) (cc, k) = None")
  case True
  then have "State_Set HS db s cc k v =
      Inr (s\<lparr>currentTxStateDelta := StateDelta_Set (currentTxStateDelta s) cc k v (world (view db) (cc, k))\<rparr>)"
    using assms(2) inv_get [OF assms(1)] by (simp add: State_Set_def State_Get_def IsUpdatedValueSet_iff)
  with put_refines [OF assms] show ?thesis by blast
next
  case False
  then have "State_Set HS db s cc k v =
      Inr (s\<lparr>currentTxStateDelta := StateDelta_Set (currentTxStateDelta s) cc k v None\<rparr>)"
    using assms(2) by (simp add: State_Set_def IsUpdatedValueSet_iff)
  with put_refines [OF assms] False show ?thesis by blast
qed

lemma Delete_refines:
  assumes "state_inv view clean prepared db s" "txInProgress s" "0 \<notin> set cc"
  shows "\<exists>s'. State_Delete HS db s cc k = Inr s' \<and> state_inv view clean prepared db s' \<and>
    abs_state (view db) s' = spec_write (abs_state (view db) s) (cc, k) None"
proof -
  have "State_Delete HS db s cc k = State_Set HS db s cc k None"
    by (simp add: State_Delete_def State_Set_def StateDelta_Delete_eq_Set)
  with Set_refines [OF assms] show ?thesis by simp
qed

lemma TxBegin_refines:
  assumes "state_inv view clean prepared db s" "\<not> txInProgress s"
  shows "\<exists>s'. TxBegin s uuid = Inr s' \<and> state_inv view clean prepared db s' \<and>
    abs_state (view db) s' = (abs_state (view db) s)\<lparr>w_uuid := uuid\<rparr>"
  using assms by (simp add: TxBegin_def state_inv_def txInProgress_def abs_state_def Let_def impl_ok_def)

lemma TxFinish_refines:
  assumes "state_inv view clean prepared db s"
  shows "\<exists>s'. TxFinish H s (currentTxUUID s) ok = Inr s' \<and> state_inv view clean prepared db s' \<and>
    \<not> txInProgress s' \<and> abs_state (view db) s' = spec_finish (abs_state (view db) s) ok"
proof (cases "ok \<and> \<not> StateDelta_IsEmpty (currentTxStateDelta s)")
  case False
  then show ?thesis
    using assms fwd_empty_delta [of "currentTxStateDelta s"]
    by (auto simp: TxFinish_def state_inv_def txInProgress_def abs_state_def Let_def impl_ok_def spec_finish_def
        sd.records_empty sd.fwd_empty)
next
  case True
  let ?sd = "StateDelta_ApplyChanges (stateDelta s) (currentTxStateDelta s)"
  let ?s' = "s\<lparr>stateDelta := ?sd,
    txStateDeltaHash := mput (currentTxUUID s) (StateDelta_ComputeCryptoHash H (currentTxStateDelta s)) (txStateDeltaHash s),
    updateStateImpl := True, currentTxStateDelta := NewStateDelta, currentTxUUID := []\<rparr>"
  have g: "delta_good (stateDelta s)" "delta_good (currentTxStateDelta s)" "sd_wf (currentTxStateDelta s)"
    using assms by (auto simp: state_inv_def delta_good_def)
  then have good: "delta_good ?sd" by (intro delta_good_ApplyChanges) (auto simp: delta_good_def)
  obtain x where "delta_at (currentTxStateDelta s) x \<noteq> None" using True delta_good_nonempty [OF g(2)] by blast
  then have x: "delta_at ?sd x \<noteq> None" using delta_at_ApplyChanges [OF g(3), of "stateDelta s" x] by auto
  have ne: "\<not> StateDelta_IsEmpty ?sd"
  proof
    assume "StateDelta_IsEmpty ?sd"
    then have "delta_at ?sd x = None" using delta_good_nonempty [OF good] by (rule iffD1 [THEN spec, rotated])
    with x show False by (rule notE)
  qed
  have "state_inv view clean prepared db ?s'"
    using assms good ne g(3) by (auto simp: state_inv_def impl_ok_def sd.records_empty sd.records_merge split: if_splits)
  moreover have "TxFinish H s (currentTxUUID s) ok = Inr ?s'"
    using True by (simp add: TxFinish_def Let_def)
  moreover have "abs_state (view db) ?s' = spec_finish (abs_state (view db) s) ok"
    using True g(3) by (simp add: abs_state_def spec_finish_def Let_def sd.fwd_empty sd.fwd_merge)
  ultimately show ?thesis by (auto simp: txInProgress_def)
qed

text \<open>The working set is brought up to date.\<close>

lemma updateImpl_ok:
  assumes "state_inv view clean prepared db s"
  shows "\<exists>impl. updateImpl HS s = (None, s\<lparr>stateImpl := impl, updateStateImpl := False\<rparr>) \<and>
    (if StateDelta_IsEmpty (stateDelta s) then clean db impl else prepared db impl (updates_of (stateDelta s)))"
proof (cases "updateStateImpl s")
  case False
  then have "s = s\<lparr>stateImpl := stateImpl s, updateStateImpl := False\<rparr>" by simp
  with False assms show ?thesis
    by (intro exI [of _ "stateImpl s"]) (simp add: updateImpl_def state_inv_def impl_ok_def)
next
  case True
  have g: "delta_good (stateDelta s)" and i: "impl_ok clean prepared db s" using assms by (auto simp: state_inv_def)
  show ?thesis
  proof (cases "StateDelta_IsEmpty (stateDelta s)")
    case E: True
    then have "clean db (stateImpl s)" using i by (simp add: impl_ok_def)
    from prepare_empty [OF this E] True E show ?thesis by (auto simp: updateImpl_def)
  next
    case E: False
    then obtain u0 where "clean db (stateImpl s) \<or> prepared db (stateImpl s) u0"
      using i True by (auto simp: impl_ok_def)
    from prepare [OF this supports_good [OF g E]] True E show ?thesis by (auto simp: updateImpl_def)
  qed
qed

lemma inv_update:
  assumes "state_inv view clean prepared db s"
    and "if StateDelta_IsEmpty (stateDelta s) then clean db impl else prepared db impl (updates_of (stateDelta s))"
  shows "state_inv view clean prepared db (s\<lparr>stateImpl := impl, updateStateImpl := False\<rparr>)"
  using assms by (simp add: state_inv_def impl_ok_def)

lemma GetHash_ok:
  assumes "state_inv view clean prepared db s"
  shows "\<exists>impl. State_GetHash HS db s =
      (Inr (digest (apply_updates (updates_of (stateDelta s)) (view db))), s\<lparr>stateImpl := impl, updateStateImpl := False\<rparr>) \<and>
    state_inv view clean prepared db (s\<lparr>stateImpl := impl, updateStateImpl := False\<rparr>)"
proof -
  obtain impl where u: "updateImpl HS s = (None, s\<lparr>stateImpl := impl, updateStateImpl := False\<rparr>)"
    "if StateDelta_IsEmpty (stateDelta s) then clean db impl else prepared db impl (updates_of (stateDelta s))"
    using updateImpl_ok [OF assms] by blast
  obtain impl' where "hs_ComputeCryptoHash HS impl db = (Inr (digest (apply_updates (updates_of (stateDelta s)) (view db))), impl')"
    "if StateDelta_IsEmpty (stateDelta s) then clean db impl' else prepared db impl' (updates_of (stateDelta s))"
  proof (cases "StateDelta_IsEmpty (stateDelta s)")
    case True
    with u(2) hash_clean that show ?thesis by (simp add: updates_of_empty)
  next
    case False
    with u(2) hash_prepared [of db impl "updates_of (stateDelta s)"] that show ?thesis by auto
  qed
  with u(1) inv_update [OF assms] show ?thesis
    by (intro exI [of _ impl']) (simp add: State_GetHash_def)
qed

text \<open>Committing: the batch carries the working set and the delta of the block.\<close>

lemma add_working_set:
  assumes "if StateDelta_IsEmpty sd then clean db impl else prepared db impl (updates_of sd)"
  shows "\<exists>ops impl'. hs_AddChangesForPersistence HS impl db batch = (None, batch @ ops, impl') \<and>
    (\<forall>op \<in> set ops. fst (op_target op) = StateCF) \<and>
    (if StateDelta_IsEmpty sd then clean db impl' else prepared db impl' (updates_of sd)) \<and>
    (\<forall>db'. content db' StateCF = apply_batch (content db) ops StateCF \<longrightarrow>
       view db' = apply_updates (updates_of sd) (view db) \<and>
       (\<exists>impl''. hs_ClearWorkingSet HS impl' True = (None, impl'') \<and> clean db' impl''))"
proof (cases "StateDelta_IsEmpty sd")
  case True
  with assms have "clean db impl" by simp
  from add_clean [OF this, of batch] obtain impl' where
    i: "hs_AddChangesForPersistence HS impl db batch = (None, batch, impl')" "clean db impl'" by blast
  have "view db' = view db \<and> (\<exists>impl''. hs_ClearWorkingSet HS impl' True = (None, impl'') \<and> clean db' impl'')"
    if "content db' StateCF = content db StateCF" for db'
    using clean_frame [OF i(2) that] clear_clean by blast
  then have "\<forall>db'. content db' StateCF = apply_batch (content db) [] StateCF \<longrightarrow>
      view db' = apply_updates (updates_of sd) (view db) \<and>
      (\<exists>impl''. hs_ClearWorkingSet HS impl' True = (None, impl'') \<and> clean db' impl'')"
    unfolding updates_of_empty [OF True] apply_updates_empty apply_batch_simps by blast
  moreover have "hs_AddChangesForPersistence HS impl db batch = (None, batch @ [], impl')" using i(1) by simp
  moreover have "if StateDelta_IsEmpty sd then clean db impl' else prepared db impl' (updates_of sd)"
    using i(2) True by simp
  moreover have "\<forall>op \<in> set []. fst (op_target op) = StateCF" by simp
  ultimately show ?thesis by blast
next
  case False
  with assms add_prepared [of db impl "updates_of sd" batch] show ?thesis by simp
qed

lemma AddChanges_ok:
  assumes "state_inv view clean prepared db s"
  shows "\<exists>ops impl. State_AddChangesForPersistence HS db s n batch =
      (None, batch @ ops @ PutCF StateDeltaCF (encodeStateDeltaKey n) (StateDelta_Marshal (stateDelta s)) #
         (if historyStateDeltaSize s \<le> n
          then [DeleteCF StateDeltaCF (encodeStateDeltaKey (n - historyStateDeltaSize s))] else []),
       s\<lparr>stateImpl := impl, updateStateImpl := False\<rparr>) \<and>
    (\<forall>op \<in> set ops. fst (op_target op) = StateCF) \<and>
    state_inv view clean prepared db (s\<lparr>stateImpl := impl, updateStateImpl := False\<rparr>) \<and>
    (\<forall>db'. content db' StateCF = apply_batch (content db) ops StateCF \<longrightarrow>
       view db' = apply_updates (updates_of (stateDelta s)) (view db) \<and>
       (\<exists>impl'. hs_ClearWorkingSet HS impl True = (None, impl') \<and> clean db' impl'))"
proof -
  obtain impl where u: "updateImpl HS s = (None, s\<lparr>stateImpl := impl, updateStateImpl := False\<rparr>)"
    "if StateDelta_IsEmpty (stateDelta s) then clean db impl else prepared db impl (updates_of (stateDelta s))"
    using updateImpl_ok [OF assms] by blast
  from add_working_set [OF u(2), of batch] obtain ops impl' where
    a: "hs_AddChangesForPersistence HS impl db batch = (None, batch @ ops, impl')"
      "\<forall>op \<in> set ops. fst (op_target op) = StateCF"
      "if StateDelta_IsEmpty (stateDelta s) then clean db impl' else prepared db impl' (updates_of (stateDelta s))"
      "\<forall>db'. content db' StateCF = apply_batch (content db) ops StateCF \<longrightarrow>
         view db' = apply_updates (updates_of (stateDelta s)) (view db) \<and>
         (\<exists>impl''. hs_ClearWorkingSet HS impl' True = (None, impl'') \<and> clean db' impl'')" by blast
  with u(1) inv_update [OF assms a(3)] show ?thesis
    by (intro exI [of _ ops] exI [of _ impl']) (simp add: State_AddChangesForPersistence_def)
qed

text \<open>State transfer: a delta applied to the committed state and committed without a block.\<close>

lemma CommitStateDelta_ok:
  assumes "clean db (stateImpl s)" "supports sd \<or> StateDelta_IsEmpty sd"
  defines "s1 \<equiv> State_ApplyStateDelta s sd"
  shows "\<exists>ops impl. (\<forall>D. State_CommitStateDelta HS D db s1 = (Write D db ops, s1\<lparr>stateImpl := impl, updateStateImpl := False\<rparr>)) \<and>
    (\<forall>op \<in> set ops. fst (op_target op) = StateCF) \<and>
    (\<forall>db'. content db' StateCF = apply_batch (content db) ops StateCF \<longrightarrow>
       view db' = apply_updates (updates_of sd) (view db) \<and>
       (\<exists>impl'. hs_ClearWorkingSet HS impl True = (None, impl') \<and> clean db' impl'))"
proof -
  obtain impl where u: "hs_PrepareWorkingSet HS (stateImpl s) sd = (None, impl)"
    "if StateDelta_IsEmpty sd then clean db impl else prepared db impl (updates_of sd)"
    using prepare [of db "stateImpl s" _ sd] prepare_empty [of db "stateImpl s" sd] assms(1,2) by (auto split: if_splits)
  from add_working_set [OF u(2), of "[]"] obtain ops impl' where
    a: "hs_AddChangesForPersistence HS impl db [] = (None, ops, impl')"
      "\<forall>op \<in> set ops. fst (op_target op) = StateCF"
      "\<forall>db'. content db' StateCF = apply_batch (content db) ops StateCF \<longrightarrow>
         view db' = apply_updates (updates_of sd) (view db) \<and>
         (\<exists>impl''. hs_ClearWorkingSet HS impl' True = (None, impl'') \<and> clean db' impl'')" by auto
  have "State_CommitStateDelta HS D db s1 = (Write D db ops, s1\<lparr>stateImpl := impl', updateStateImpl := False\<rparr>)" for D
    using u(1) a(1) by (simp add: State_CommitStateDelta_def updateImpl_def s1_def State_ApplyStateDelta_def)
  with a(2,3) show ?thesis by blast
qed

lemma Clear_after_commit:
  assumes "state_inv view clean prepared db s" "\<not> txInProgress s"
    and "hs_ClearWorkingSet HS (stateImpl s) True = (None, impl')" "clean db' impl'"
  shows "\<exists>s'. ClearInMemoryChanges HS s True = (None, s') \<and> state_inv view clean prepared db' s' \<and>
    \<not> txInProgress s' \<and> StateDelta_IsEmpty (stateDelta s') \<and> historyStateDeltaSize s' = historyStateDeltaSize s"
proof -
  have e: "StateDelta_IsEmpty (currentTxStateDelta s)" using assms(1,2) by (simp add: state_inv_def txInProgress_def)
  then have "records (delta_at (currentTxStateDelta s)) st" for st
    by (simp add: records_def delta_at_def StateDelta_Get_def StateDelta_IsEmpty_def)
  with assms e show ?thesis
    by (simp add: ClearInMemoryChanges_def state_inv_def impl_ok_def sd.records_empty txInProgress_def)
qed

text \<open>
  Dropping the batch: the invariant is kept whatever delta takes the place of the batch before, and
  also inside a transaction. Outside a transaction only the committed state remains.
\<close>

lemma Rollback_inv:
  assumes "state_inv view clean prepared db s"
  shows "\<exists>s'. ClearInMemoryChanges HS (s\<lparr>stateDelta := sd, updateStateImpl := b\<rparr>) False = (None, s') \<and>
    state_inv view clean prepared db s' \<and> historyStateDeltaSize s' = historyStateDeltaSize s"
proof -
  have "clean db (stateImpl s) \<or> (\<exists>u. prepared db (stateImpl s) u)"
    using assms by (auto simp: state_inv_def impl_ok_def split: if_splits)
  then obtain impl where "hs_ClearWorkingSet HS (stateImpl s) False = (None, impl)" "clean db impl"
    using clear_clean clear_prepared by meson
  with assms show ?thesis by (simp add: ClearInMemoryChanges_def state_inv_def impl_ok_def sd.records_empty)
qed

lemma Rollback_ok:
  assumes "state_inv view clean prepared db s" "\<not> txInProgress s"
  shows "\<exists>s'. ClearInMemoryChanges HS s False = (None, s') \<and> state_inv view clean prepared db s' \<and>
    \<not> txInProgress s' \<and> StateDelta_IsEmpty (stateDelta s') \<and> historyStateDeltaSize s' = historyStateDeltaSize s \<and>
    abs_state (view db) s' = spec_rollback (abs_state (view db) s)"
proof -
  have e: "StateDelta_IsEmpty (currentTxStateDelta s)" using assms by (simp add: state_inv_def txInProgress_def)
  have "clean db (stateImpl s) \<or> (\<exists>u. prepared db (stateImpl s) u)"
    using assms(1) by (auto simp: state_inv_def impl_ok_def split: if_splits)
  then obtain impl where "hs_ClearWorkingSet HS (stateImpl s) False = (None, impl)" "clean db impl"
    using clear_clean clear_prepared by meson
  with assms e show ?thesis
    by (simp add: ClearInMemoryChanges_def state_inv_def impl_ok_def sd.records_empty txInProgress_def
        abs_state_def spec_rollback_def Let_def sd.fwd_empty fwd_empty_delta)
qed

text \<open>The hash of the batch, computed before the commit, is the hash found after it.\<close>

lemma state_inv_frame:
  assumes "state_inv view clean prepared db s" "\<not> txInProgress s" "StateDelta_IsEmpty (stateDelta s)"
    and "content db' StateCF = content db StateCF"
  shows "state_inv view clean prepared db' s \<and> view db' = view db"
proof -
  have "clean db (stateImpl s)" using assms(1,3) by (simp add: state_inv_def impl_ok_def)
  from clean_frame [OF this assms(4)] assms show ?thesis by (simp add: state_inv_def impl_ok_def)
qed

end

text \<open>Both implementations take the deltas of transactions.\<close>

interpretation btf: forward_state "bucket_hs H c D" content "bucket_view c content" "root_hash H c"
    "bucket_clean H c D content" "bucket_prepared H c D content" bucket_supports
  for H :: "bytes \<Rightarrow> bytes" and c :: config and D :: "'db gorocksdb" and content :: "'db \<Rightarrow> dbmap"
  by unfold_locales (use updates_of_nonempty in \<open>auto simp: bucket_supports_def delta_good_def\<close>)

interpretation rawf: forward_state "raw_hs D" content "raw_view content" "\<lambda>_. None"
    "raw_clean D content" "raw_prepared D content" raw_supports
  for D :: "'db gorocksdb" and content :: "'db \<Rightarrow> dbmap"
  by unfold_locales (simp add: raw_supports_def delta_good_def)

end
