(* ===== verification/StateProps.thy ===== *)
theory StateProps
  imports LedgerState BucketProps
begin

text \<open>
  Properties of the world state over the bucket tree: sequences of transaction operations refine
  the layered specification, and \<open>DeleteState\<close> leaves the hash of the deleted state behind.
\<close>

subsection \<open>Sequences of operations\<close>

datatype state_op =
    OpTxBegin gostring
  | OpSet gostring gostring slice
  | OpDelete gostring gostring
  | OpTxFinish gostring bool
  | OpGetHash

fun run_op ::
  "('st, 'db) HashableState \<Rightarrow> (bytes \<Rightarrow> bytes) \<Rightarrow> 'db \<Rightarrow> 'st State \<Rightarrow> state_op \<Rightarrow> gerr + 'st State" where
  "run_op HS H db s (OpTxBegin uuid) = TxBegin s uuid"
| "run_op HS H db s (OpSet cc k v) = State_Set HS db s cc k v"
| "run_op HS H db s (OpDelete cc k) = State_Delete HS db s cc k"
| "run_op HS H db s (OpTxFinish uuid ok) = TxFinish H s uuid ok"
| "run_op HS H db s OpGetHash = (case State_GetHash HS db s of (Inl e, _) \<Rightarrow> Inl e | (Inr _, s') \<Rightarrow> Inr s')"

text \<open>The specification of the same operations; \<open>None\<close> is a misuse, on which the code panics.\<close>

fun spec_op :: "world_spec \<Rightarrow> state_op \<Rightarrow> world_spec option" where
  "spec_op w (OpTxBegin uuid) = (if w_uuid w \<noteq> [] then None else Some (w\<lparr>w_uuid := uuid\<rparr>))"
| "spec_op w (OpSet cc k v) = (if w_uuid w = [] then None else Some (spec_write w (cc, k) v))"
| "spec_op w (OpDelete cc k) = (if w_uuid w = [] then None else Some (spec_write w (cc, k) None))"
| "spec_op w (OpTxFinish uuid ok) = (if w_uuid w \<noteq> uuid then None else Some (spec_finish w ok))"
| "spec_op w OpGetHash = Some w"

fun spec_ops :: "world_spec \<Rightarrow> state_op list \<Rightarrow> world_spec option" where
  "spec_ops w [] = Some w"
| "spec_ops w (op # ops) = (case spec_op w op of None \<Rightarrow> None | Some w' \<Rightarrow> spec_ops w' ops)"

fun op_zero_free :: "state_op \<Rightarrow> bool" where
  "op_zero_free (OpSet cc k v) = (0 \<notin> set cc)"
| "op_zero_free (OpDelete cc k) = (0 \<notin> set cc)"
| "op_zero_free _ = True"

context forward_state
begin

lemma op_refines:
  assumes "state_inv view clean prepared db s" "op_zero_free op"
  shows "case spec_op (abs_state (view db) s) op of
      None \<Rightarrow> \<exists>m. run_op HS H db s op = Inl (Panic m)
    | Some w \<Rightarrow> \<exists>s'. run_op HS H db s op = Inr s' \<and> state_inv view clean prepared db s' \<and> abs_state (view db) s' = w"
proof -
  have uuid: "w_uuid (abs_state (view db) s) = currentTxUUID s" by (simp add: abs_state_def Let_def)
  show ?thesis
  proof (cases op)
    case (OpTxBegin uuid)
    then show ?thesis
      using TxBegin_refines [OF assms(1), of uuid] uuid by (auto simp: txInProgress_def TxBegin_def)
  next
    case (OpSet cc k v)
    then show ?thesis
      using Set_refines [OF assms(1), of cc k v] assms(2) uuid by (auto simp: txInProgress_def State_Set_def)
  next
    case (OpDelete cc k)
    then show ?thesis
      using Delete_refines [OF assms(1), of cc k] assms(2) uuid by (auto simp: txInProgress_def State_Delete_def)
  next
    case (OpTxFinish uuid ok)
    then show ?thesis
      using TxFinish_refines [OF assms(1), of H ok] uuid
      by (cases "currentTxUUID s = uuid") (auto simp: TxFinish_def)
  next
    case OpGetHash
    obtain impl where "State_GetHash HS db s =
        (Inr (digest (apply_updates (updates_of (stateDelta s)) (view db))), s\<lparr>stateImpl := impl, updateStateImpl := False\<rparr>)"
      "state_inv view clean prepared db (s\<lparr>stateImpl := impl, updateStateImpl := False\<rparr>)"
      using GetHash_ok [OF assms(1)] by blast
    then show ?thesis using OpGetHash by (auto intro: abs_state_cong)
  qed
qed

lemma ops_refine:
  assumes "state_inv view clean prepared db s" "\<forall>op \<in> set ops. op_zero_free op"
  shows "case spec_ops (abs_state (view db) s) ops of
      None \<Rightarrow> \<exists>m. rfold (run_op HS H db) ops s = Inl (Panic m)
    | Some w \<Rightarrow> \<exists>s'. rfold (run_op HS H db) ops s = Inr s' \<and> state_inv view clean prepared db s' \<and>
        abs_state (view db) s' = w"
  using assms
proof (induction ops arbitrary: s)
  case (Cons op ops)
  note step = op_refines [OF Cons.prems(1), of op H]
  show ?case
  proof (cases "spec_op (abs_state (view db) s) op")
    case None
    with step Cons.prems(2) show ?thesis by auto
  next
    case (Some w)
    with step Cons.prems(2) obtain s' where "run_op HS H db s op = Inr s'" "state_inv view clean prepared db s'"
      "abs_state (view db) s' = w" by auto
    with Some Cons.IH [of s'] Cons.prems(2) show ?thesis by (simp split: option.splits)
  qed
qed simp

end

subsection \<open>Properties\<close>

lemma NewState_inv:
  assumes "bucket_clean H c D content db impl" "NewState (Inr impl) n = Inr s"
  shows "state_inv (bucket_view c content) (bucket_clean H c D content) (bucket_prepared H c D content) db s"
    "abs_state m s = \<lparr>w_committed = world m, w_batch = world m, w_tx = world m, w_uuid = []\<rparr>"
    "\<not> txInProgress s"
  using assms
  by (auto simp: NewState_def state_inv_def impl_ok_def sd.records_empty abs_state_def Let_def sd.fwd_empty
      txInProgress_def split: if_splits)

text \<open>
  C4: The world state refines three layers of key-value pairs. Every sequence of transaction
  begins, writes, deletes, ends and hash computations on a state over the bucket tree, with
  chaincode ids that contain no zero byte, does what the layered specification
  says: reads see the running transaction over the batch over the
  committed state, a failed transaction leaves no trace, a successful one moves into the batch,
  and every misuse of the protocol (a write outside a transaction, a second begin, an end of
  another transaction) panics.
\<close>

theorem state_ops_refine:
  assumes "state_inv (bucket_view c content) (bucket_clean H c D content) (bucket_prepared H c D content) db s"
    and "\<forall>op \<in> set ops. op_zero_free op"
  shows "case spec_ops (abs_state (bucket_view c content db) s) ops of
      None \<Rightarrow> \<exists>m. rfold (run_op (bucket_hs H c D) H db) ops s = Inl (Panic m)
    | Some w \<Rightarrow> \<exists>s'. rfold (run_op (bucket_hs H c D) H db) ops s = Inr s' \<and>
        abs_state (bucket_view c content db) s' = w \<and>
        (\<forall>cc k committed. State_Get (bucket_hs H c D) db s' cc k committed = Inr (spec_read w (cc, k) committed))"
proof (cases "spec_ops (abs_state (bucket_view c content db) s) ops")
  case None
  with btf.ops_refine [OF assms, of H] show ?thesis by simp
next
  case (Some w)
  with btf.ops_refine [OF assms, of H] obtain s' where s': "rfold (run_op (bucket_hs H c D) H db) ops s = Inr s'"
    "state_inv (bucket_view c content) (bucket_clean H c D content) (bucket_prepared H c D content) db s'"
    "abs_state (bucket_view c content db) s' = w" by auto
  have "State_Get (bucket_hs H c D) db s' cc k committed = Inr (spec_read w (cc, k) committed)" for cc k committed
    using btf.Get_refines [OF s'(2)] s'(3) by simp
  with Some s' show ?thesis by auto
qed

text \<open>A peer that starts on an empty database.\<close>

lemma ex_state:
  "\<exists>c st s. si_Initialize ex_hash memdb (\<lambda>_. []) NewStateImpl (ex_configs 1) = Some (Inr (c, st)) \<and>
    NewState (Inr st) 500 = Inr s \<and> historyStateDeltaSize s = 500 \<and> stateImpl s = st \<and> bucket_clean ex_hash c memdb mem_content (\<lambda>_. []) st \<and>
    state_inv (bucket_view c mem_content) (bucket_clean ex_hash c memdb mem_content)
      (bucket_prepared ex_hash c memdb mem_content) (\<lambda>_. []) s \<and> bucket_view c mem_content (\<lambda>_. []) = Map.empty"
proof -
  obtain c st where st: "si_Initialize ex_hash memdb (\<lambda>_. []) NewStateImpl (ex_configs 1) = Some (Inr (c, st))"
    "bucket_clean ex_hash c memdb mem_content (\<lambda>_. []) st" using ex_started by blast
  obtain s where n: "NewState (Inr st) 500 = Inr s" "historyStateDeltaSize s = 500" "stateImpl s = st"
    by (simp add: NewState_def)
  have "bucket_view c mem_content (\<lambda>_. []) = Map.empty"
    by (rule ext) (simp add: bucket_view_def mem_content_def)
  with st n NewState_inv(1) [OF st(2) n(1)] show ?thesis by blast
qed

theorem state_ops_refine_witness:
  "\<exists>c s s'. rfold (run_op (bucket_hs ex_hash c memdb) ex_hash (\<lambda>_. []))
      [OpTxBegin (lit ''t1''), OpSet (lit ''cc'') (lit ''k'') (Some (lit ''v'')), OpTxFinish (lit ''t1'') True,
       OpTxBegin (lit ''t2''), OpDelete (lit ''cc'') (lit ''k''), OpTxFinish (lit ''t2'') False, OpGetHash] s = Inr s' \<and>
    State_Get (bucket_hs ex_hash c memdb) (\<lambda>_. []) s' (lit ''cc'') (lit ''k'') False = Inr (Some (lit ''v'')) \<and>
    State_Get (bucket_hs ex_hash c memdb) (\<lambda>_. []) s' (lit ''cc'') (lit ''k'') True = Inr None"
proof -
  obtain c st s where s: "NewState (Inr st) 500 = Inr s" "bucket_clean ex_hash c memdb mem_content (\<lambda>_. []) st"
    "state_inv (bucket_view c mem_content) (bucket_clean ex_hash c memdb mem_content)
      (bucket_prepared ex_hash c memdb mem_content) (\<lambda>_. []) s" "bucket_view c mem_content (\<lambda>_. []) = Map.empty"
    using ex_state by blast
  have a: "abs_state (bucket_view c mem_content (\<lambda>_. [])) s =
      \<lparr>w_committed = \<lambda>_. None, w_batch = \<lambda>_. None, w_tx = \<lambda>_. None, w_uuid = []\<rparr>"
    using NewState_inv(2) [OF s(2,1)] s(4) by (simp add: world_def fun_eq_iff)
  let ?ops = "[OpTxBegin (lit ''t1''), OpSet (lit ''cc'') (lit ''k'') (Some (lit ''v'')), OpTxFinish (lit ''t1'') True,
       OpTxBegin (lit ''t2''), OpDelete (lit ''cc'') (lit ''k''), OpTxFinish (lit ''t2'') False, OpGetHash]"
  let ?w = "\<lparr>w_committed = \<lambda>_. None, w_batch = (\<lambda>_. None)((lit ''cc'', lit ''k'') := Some (lit ''v'')),
       w_tx = (\<lambda>_. None)((lit ''cc'', lit ''k'') := Some (lit ''v'')), w_uuid = []\<rparr>"
  have "\<forall>op \<in> set ?ops. op_zero_free op" by (simp add: lit_def)
  from state_ops_refine [OF s(3) this] have "\<exists>s'. rfold (run_op (bucket_hs ex_hash c memdb) ex_hash (\<lambda>_. [])) ?ops s = Inr s' \<and>
    (\<forall>cc k committed. State_Get (bucket_hs ex_hash c memdb) (\<lambda>_. []) s' cc k committed = Inr (spec_read ?w (cc, k) committed))"
    unfolding a by (auto simp: spec_write_def spec_finish_def lit_def)
  then obtain s' where r: "rfold (run_op (bucket_hs ex_hash c memdb) ex_hash (\<lambda>_. [])) ?ops s = Inr s'"
    and g: "\<And>cc k committed. State_Get (bucket_hs ex_hash c memdb) (\<lambda>_. []) s' cc k committed = Inr (spec_read ?w (cc, k) committed)"
    by blast
  have "State_Get (bucket_hs ex_hash c memdb) (\<lambda>_. []) s' (lit ''cc'') (lit ''k'') False = Inr (Some (lit ''v''))"
    "State_Get (bucket_hs ex_hash c memdb) (\<lambda>_. []) s' (lit ''cc'') (lit ''k'') True = Inr None"
    unfolding g by (simp_all add: spec_read_def)
  with r show ?thesis by blast
qed

text \<open>
  C38: \<open>DeleteState\<close> drops the stored state but not its hash. After it succeeds on a state with
  no pending changes the state column family is empty, and \<open>GetHash\<close> still returns the hash of
  the deleted contents, because \<open>ClearWorkingSet(false)\<close> restores the persisted hash and nothing
  resets it.
\<close>

theorem DeleteState_keeps_hash:
  assumes "state_inv (bucket_view c content) (bucket_clean H c D content) (bucket_prepared H c D content) db s"
    and "StateDelta_IsEmpty (stateDelta s)" "State_DeleteState (bucket_hs H c D) D db s = (Inr db', s')"
  shows "content db' StateCF = Map.empty \<and>
    (\<exists>s''. State_GetHash (bucket_hs H c D) db' s' = (Inr (root_hash H c (bucket_view c content db)), s''))"
proof -
  have cl: "bucket_clean H c D content db (stateImpl s)" using assms(1,2) by (simp add: state_inv_def impl_ok_def)
  then have D: "rocksdb_ok D content" by (auto simp: bucket_clean_def st_clean_def tree_at_def)
  obtain impl where i: "si_ClearWorkingSet c (stateImpl s) False = Inr impl" "bucket_clean H c D content db impl"
    using bt.clear_clean [OF cl, of False] by (auto split: sum.splits)
  have s': "s' = s\<lparr>stateDelta := NewStateDelta, txStateDeltaHash := [], stateImpl := impl\<rparr>" "DeleteState D db = Inr db'"
    using assms(3) i(1) by (auto simp: State_DeleteState_def ClearInMemoryChanges_def)
  have "\<not> recomputeCryptoHash impl" "lastComputedCryptoHash impl = root_hash H c (bucket_view c content db)"
    using i(2) by (auto simp: bucket_clean_def st_clean_def)
  then show ?thesis
    using DeleteState_content [OF D s'(2)]
    by (simp add: s'(1) State_GetHash_def updateImpl_def si_PrepareWorkingSet_def si_ComputeCryptoHash_def)
qed

theorem DeleteState_keeps_hash_witness:
  "\<exists>c db st s s' s'' db' h. bucket_clean ex_hash c overwriting mem_content db st \<and>
    NewState (Inr st) 500 = Inr s \<and> State_DeleteState (bucket_hs ex_hash c overwriting) overwriting db s = (Inr db', s') \<and>
    mem_content db StateCF \<noteq> Map.empty \<and> mem_content db' StateCF = Map.empty \<and>
    State_GetHash (bucket_hs ex_hash c overwriting) db' s' = (Inr (Some h), s'')"
proof -
  obtain c db st where st: "bucket_clean ex_hash c overwriting mem_content db st"
    "root_hash ex_hash c (bucket_view c mem_content db) \<noteq> None" "bucket_view c mem_content db \<noteq> Map.empty"
    using ex_stored by blast
  obtain s where s: "NewState (Inr st) 500 = Inr s" "stateImpl s = st" "StateDelta_IsEmpty (stateDelta s)"
    by (simp add: NewState_def)
  obtain impl where "si_ClearWorkingSet c st False = Inr impl"
    using bt.clear_clean [OF st(1), of False] by (auto split: sum.splits)
  then obtain db' s' where d: "State_DeleteState (bucket_hs ex_hash c overwriting) overwriting db s = (Inr db', s')"
    using s(2) by (auto simp: State_DeleteState_def ClearInMemoryChanges_def DeleteState_def overwriting_def memdb_def)
  have "mem_content db StateCF \<noteq> Map.empty" using st(3) by (auto simp: bucket_view_def)
  with DeleteState_keeps_hash [OF NewState_inv(1) [OF st(1) s(1)] s(3) d] st s(1) d show ?thesis by fastforce
qed

end
