(* ===== verification/Blockchain.thy ===== *)
theory Blockchain
  imports DB LedgerUtil
begin

text \<open>
  \<open>protos/block.go\<close>, \<open>core/ledger/blockchain.go\<close> and \<open>core/ledger/blockchain_indexes.go\<close>: the
  blocks, the chain stored in the blockchain column family, and the synchronous indexes.

  The generated messages are records. The byte fields of a message are plain \<open>bytes\<close>: the
  protobuf encoding and \<open>bytes.Compare\<close> do not tell \<open>nil\<close> from empty. The protobuf library is the
  parameter \<open>P\<close>; \<open>proto_ok\<close> is the documented round trip of its \<open>Marshal\<close> and \<open>Unmarshal\<close>.
  \<open>H\<close> is \<open>util.ComputeCryptoHash\<close>.
\<close>

subsection \<open>Messages\<close>

datatype Transaction_Type =
  Transaction_UNDEFINED | Transaction_CHAINCODE_DEPLOY | Transaction_CHAINCODE_INVOKE
| Transaction_CHAINCODE_QUERY | Transaction_CHAINCODE_TERMINATE

datatype ConfidentialityLevel = ConfidentialityLevel_PUBLIC | ConfidentialityLevel_CONFIDENTIAL

type_synonym Timestamp = "64 word \<times> 32 word"

record Transaction =
  tx_Type :: Transaction_Type
  tx_ChaincodeID :: bytes
  tx_Payload :: bytes
  tx_Metadata :: bytes
  tx_Uuid :: gostring
  tx_Timestamp :: "Timestamp option"
  tx_ConfidentialityLevel :: ConfidentialityLevel
  tx_ConfidentialityProtocolVersion :: gostring
  tx_Nonce :: bytes
  tx_ToValidators :: bytes
  tx_Cert :: bytes
  tx_Signature :: bytes

record TransactionResult =
  tr_Uuid :: gostring
  tr_Result :: bytes
  tr_ErrorCode :: u32
  tr_Error :: gostring

record NonHashData =
  LocalLedgerCommitTimestamp :: "Timestamp option"
  TransactionResults :: "TransactionResult list"

record Block =
  Version :: u32
  bl_Timestamp :: "Timestamp option"
  Transactions :: "Transaction list"
  StateHash :: bytes
  PreviousBlockHash :: bytes
  ConsensusMetadata :: bytes
  bl_NonHashData :: "NonHashData option"

record protolib =
  Marshal :: "Block \<Rightarrow> gerr + bytes"
  Unmarshal :: "bytes \<Rightarrow> gerr + Block"

text \<open>What was marshalled is read back, and a message with a submessage has a nonempty encoding.\<close>

definition proto_ok :: "protolib \<Rightarrow> bool" where
  "proto_ok P \<longleftrightarrow> (\<forall>b bs. Marshal P b = Inr bs \<longrightarrow>
     Unmarshal P bs = Inr b \<and> (bl_NonHashData b \<noteq> None \<longrightarrow> bs \<noteq> []))"

subsection \<open>Blocks\<close>

definition NewBlock :: "Transaction list \<Rightarrow> bytes \<Rightarrow> Block" where
  "NewBlock transactions metadata =
     \<lparr>Version = 0, bl_Timestamp = None, Transactions = transactions, StateHash = [],
      PreviousBlockHash = [], ConsensusMetadata = metadata, bl_NonHashData = None\<rparr>"

definition Block_Bytes :: "protolib \<Rightarrow> Block \<Rightarrow> gerr + bytes" where
  "Block_Bytes P block = (case Marshal P block of
      Inl e \<Rightarrow> Inl (ErrMsg ''Could not marshal block'') | Inr data \<Rightarrow> Inr data)"

definition UnmarshallBlock :: "protolib \<Rightarrow> bytes \<Rightarrow> gerr + Block" where
  "UnmarshallBlock P blockBytes = (case Unmarshal P blockBytes of
      Inl e \<Rightarrow> Inl (ErrMsg ''Could not unmarshal block'') | Inr block \<Rightarrow> Inr block)"

definition Block_GetHash :: "protolib \<Rightarrow> (bytes \<Rightarrow> bytes) \<Rightarrow> Block \<Rightarrow> gerr + bytes" where
  "Block_GetHash P H block =
     (case rbind (Block_Bytes P block) (\<lambda>blockBytes.
           rbind (UnmarshallBlock P blockBytes) (\<lambda>blockCopy.
           Marshal P (blockCopy\<lparr>bl_NonHashData := None\<rparr>))) of
        Inl e \<Rightarrow> Inl (ErrMsg ''Could not calculate hash of block'')
      | Inr data \<Rightarrow> Inr (H data))"

definition SetPreviousBlockHash :: "Block \<Rightarrow> bytes \<Rightarrow> Block" where
  "SetPreviousBlockHash block previousBlockHash = block\<lparr>PreviousBlockHash := previousBlockHash\<rparr>"

subsection \<open>Keys and values of the indexes\<close>

definition prefixBlockHashKey :: byte where "prefixBlockHashKey = 1"
definition prefixTxUUIDKey :: byte where "prefixTxUUIDKey = 2"
definition prefixAddressBlockNumCompositeKey :: byte where "prefixAddressBlockNumCompositeKey = 3"

definition prependKeyPrefix :: "byte \<Rightarrow> bytes \<Rightarrow> bytes" where
  "prependKeyPrefix prefix key = prefix # key"

definition encodeBlockNumber :: "u64 \<Rightarrow> bytes" where
  "encodeBlockNumber blockNumber = EncodeVarint blockNumber"

definition decodeBlockNumber :: "bytes \<Rightarrow> u64" where
  "decodeBlockNumber blockNumberBytes = fst (DecodeVarint blockNumberBytes)"

definition encodeBlockNumTxIndex :: "u64 \<Rightarrow> u64 \<Rightarrow> bytes" where
  "encodeBlockNumTxIndex blockNumber txIndexInBlock =
     buf_EncodeVarint (buf_EncodeVarint [] blockNumber) txIndexInBlock"

definition decodeBlockNumTxIndex :: "bytes \<Rightarrow> gerr + u64 \<times> u64" where
  "decodeBlockNumTxIndex bytes =
     rbind (buf_DecodeVarint bytes) (\<lambda>(blockNum, rest).
     rbind (buf_DecodeVarint rest) (\<lambda>(txIndex, _). Inr (blockNum, txIndex)))"

definition encodeBlockHashKey :: "bytes \<Rightarrow> bytes" where
  "encodeBlockHashKey blockHash = prependKeyPrefix prefixBlockHashKey blockHash"

definition encodeTxUUIDKey :: "gostring \<Rightarrow> bytes" where
  "encodeTxUUIDKey txUUID = prependKeyPrefix prefixTxUUIDKey txUUID"

definition encodeAddressBlockNumCompositeKey :: "gostring \<Rightarrow> u64 \<Rightarrow> bytes" where
  "encodeAddressBlockNumCompositeKey address blockNumber =
     buf_EncodeVarint (buf_EncodeRawBytes [prefixAddressBlockNumCompositeKey] address) blockNumber"

definition encodeListTxIndexes :: "u64 list \<Rightarrow> bytes" where
  "encodeListTxIndexes listTx = foldl buf_EncodeVarint [] listTx"

subsection \<open>The synchronous index\<close>

definition getTxExecutingAddress :: "Transaction \<Rightarrow> gostring" where
  "getTxExecutingAddress tx = lit ''address1''"

text \<open>
  The loop over the transactions: the batch and the map from addresses to indexes. The second
  map the code fills, from addresses to chaincode ids, is never read and is left out.
\<close>

fun index_loop ::
  "u64 \<Rightarrow> nat \<Rightarrow> Transaction list \<Rightarrow> WriteBatch \<times> (gostring, u64 list) gomap \<Rightarrow>
     WriteBatch \<times> (gostring, u64 list) gomap" where
  "index_loop blockNumber txIndex [] acc = acc"
| "index_loop blockNumber txIndex (tx # txs) (writeBatch, addressToTxIndexesMap) =
     (let writeBatch = writeBatch @ [PutCF IndexesCF (encodeTxUUIDKey (tx_Uuid tx))
            (encodeBlockNumTxIndex blockNumber (of_nat txIndex))];
          txExecutingAddress = getTxExecutingAddress tx;
          indexes = (case mget addressToTxIndexesMap txExecutingAddress of Some l \<Rightarrow> l | None \<Rightarrow> [])
      in index_loop blockNumber (txIndex + 1) txs
           (writeBatch, mput txExecutingAddress (indexes @ [of_nat txIndex]) addressToTxIndexesMap))"

definition addIndexDataForPersistence :: "Block \<Rightarrow> u64 \<Rightarrow> bytes \<Rightarrow> WriteBatch \<Rightarrow> WriteBatch" where
  "addIndexDataForPersistence block blockNumber blockHash writeBatch =
     (let writeBatch = writeBatch @ [PutCF IndexesCF (encodeBlockHashKey blockHash) (encodeBlockNumber blockNumber)];
          (writeBatch, addressToTxIndexesMap) = index_loop blockNumber 0 (Transactions block) (writeBatch, [])
      in writeBatch @ map (\<lambda>(address, txsIndexes).
           PutCF IndexesCF (encodeAddressBlockNumCompositeKey address blockNumber) (encodeListTxIndexes txsIndexes))
         addressToTxIndexesMap)"

text \<open>No test for a missing entry: \<open>DecodeVarint\<close> of nothing gives block number 0.\<close>

definition fetchBlockNumberByBlockHashFromDB :: "'db gorocksdb \<Rightarrow> 'db \<Rightarrow> bytes \<Rightarrow> gerr + u64" where
  "fetchBlockNumberByBlockHashFromDB D db blockHash =
     rbind (GetFromIndexesCF D db (encodeBlockHashKey blockHash)) (\<lambda>blockNumberBytes.
       Inr (decodeBlockNumber (sbytes blockNumberBytes)))"

definition fetchTransactionIndexByUUIDFromDB :: "'db gorocksdb \<Rightarrow> 'db \<Rightarrow> gostring \<Rightarrow> gerr + u64 \<times> u64" where
  "fetchTransactionIndexByUUIDFromDB D db txUUID =
     rbind (GetFromIndexesCF D db (encodeTxUUIDKey txUUID)) (\<lambda>blockNumTxIndexBytes.
       case blockNumTxIndexBytes of
         None \<Rightarrow> Inl ErrResourceNotFound
       | Some bs \<Rightarrow> decodeBlockNumTxIndex bs)"

subsection \<open>The chain\<close>

definition blockCountKey :: bytes where
  "blockCountKey = lit ''blockCount''"

definition encodeBlockNumberDBKey :: "u64 \<Rightarrow> bytes" where
  "encodeBlockNumberDBKey blockNumber = encodeUint64 blockNumber"

definition fetchBlockFromDB :: "protolib \<Rightarrow> 'db gorocksdb \<Rightarrow> 'db \<Rightarrow> u64 \<Rightarrow> gerr + Block option" where
  "fetchBlockFromDB P D db blockNumber =
     rbind (GetFromBlockchainCF D db (encodeBlockNumberDBKey blockNumber)) (\<lambda>blockBytes.
       case blockBytes of
         None \<Rightarrow> Inr None
       | Some bs \<Rightarrow> rbind (UnmarshallBlock P bs) (\<lambda>block. Inr (Some block)))"

definition fetchBlockchainSizeFromDB :: "'db gorocksdb \<Rightarrow> 'db \<Rightarrow> gerr + u64" where
  "fetchBlockchainSizeFromDB D db =
     rbind (GetFromBlockchainCF D db blockCountKey) (\<lambda>bytes.
       case bytes of None \<Rightarrow> Inr 0 | Some bs \<Rightarrow> decodeToUint64 bs)"

definition fetchBlockchainSizeFromSnapshot :: "'db gorocksdb \<Rightarrow> 'db \<Rightarrow> gerr + u64" where
  "fetchBlockchainSizeFromSnapshot D snapshot =
     rbind (GetFromBlockchainCFSnapshot D snapshot blockCountKey) (\<lambda>blockNumberBytes.
       case blockNumberBytes of None \<Rightarrow> Inr 0 | Some bs \<Rightarrow> decodeToUint64 bs)"

record lastProcessedBlock =
  lpb_block :: Block
  lpb_blockNumber :: u64
  lpb_blockHash :: bytes

text \<open>\<open>indexBlockDataSynchronously\<close> is true: the indexer is the synchronous one, which has no state.\<close>

record blockchain =
  bc_size :: u64
  bc_previousBlockHash :: bytes
  bc_lastProcessedBlock :: "lastProcessedBlock option"

definition nilBlock :: gerr where
  "nilBlock = Panic ''nil pointer dereference''"

text \<open>\<open>GetHash\<close> of a \<open>nil\<close> block fails in \<open>proto.Marshal\<close>, which reports a nil message.\<close>

definition newBlockchain :: "protolib \<Rightarrow> (bytes \<Rightarrow> bytes) \<Rightarrow> 'db gorocksdb \<Rightarrow> 'db \<Rightarrow> gerr + blockchain" where
  "newBlockchain P H D db =
     rbind (fetchBlockchainSizeFromDB D db) (\<lambda>size0.
       if size0 > 0 then
         rbind (fetchBlockFromDB P D db (size0 - 1)) (\<lambda>previousBlock.
         rbind (case previousBlock of
                  None \<Rightarrow> Inl (ErrMsg ''Could not calculate hash of block'')
                | Some b \<Rightarrow> Block_GetHash P H b) (\<lambda>previousBlockHash.
         Inr \<lparr>bc_size = size0, bc_previousBlockHash = previousBlockHash, bc_lastProcessedBlock = None\<rparr>))
       else Inr \<lparr>bc_size = size0, bc_previousBlockHash = [], bc_lastProcessedBlock = None\<rparr>)"

definition bc_getBlock :: "protolib \<Rightarrow> 'db gorocksdb \<Rightarrow> 'db \<Rightarrow> u64 \<Rightarrow> gerr + Block option" where
  "bc_getBlock P D db blockNumber = fetchBlockFromDB P D db blockNumber"

definition bc_getLastBlock :: "protolib \<Rightarrow> 'db gorocksdb \<Rightarrow> 'db \<Rightarrow> blockchain \<Rightarrow> gerr + Block option" where
  "bc_getLastBlock P D db bc = (if bc_size bc = 0 then Inr None else bc_getBlock P D db (bc_size bc - 1))"

definition bc_getBlockByHash :: "protolib \<Rightarrow> 'db gorocksdb \<Rightarrow> 'db \<Rightarrow> bytes \<Rightarrow> gerr + Block option" where
  "bc_getBlockByHash P D db blockHash =
     rbind (fetchBlockNumberByBlockHashFromDB D db blockHash) (\<lambda>blockNumber. bc_getBlock P D db blockNumber)"

text \<open>\<open>GetTransactions\<close> of a \<open>nil\<close> block is empty; an index out of range panics.\<close>

definition GetTransactions :: "Block option \<Rightarrow> Transaction list" where
  "GetTransactions block = (case block of None \<Rightarrow> [] | Some b \<Rightarrow> Transactions b)"

definition nth_tx :: "Transaction list \<Rightarrow> u64 \<Rightarrow> gerr + Transaction" where
  "nth_tx txs i = (if unat i < length txs then Inr (txs ! unat i) else Inl (Panic ''index out of range''))"

definition getTransactionByUUID :: "protolib \<Rightarrow> 'db gorocksdb \<Rightarrow> 'db \<Rightarrow> gostring \<Rightarrow> gerr + Transaction" where
  "getTransactionByUUID P D db txUUID =
     rbind (fetchTransactionIndexByUUIDFromDB D db txUUID) (\<lambda>(blockNumber, txIndex).
     rbind (bc_getBlock P D db blockNumber) (\<lambda>block. nth_tx (GetTransactions block) txIndex))"

definition getTransactions :: "protolib \<Rightarrow> 'db gorocksdb \<Rightarrow> 'db \<Rightarrow> u64 \<Rightarrow> gerr + Transaction list" where
  "getTransactions P D db blockNumber =
     rbind (bc_getBlock P D db blockNumber) (\<lambda>block. Inr (GetTransactions block))"

definition getTransactionsByBlockHash :: "protolib \<Rightarrow> 'db gorocksdb \<Rightarrow> 'db \<Rightarrow> bytes \<Rightarrow> gerr + Transaction list" where
  "getTransactionsByBlockHash P D db blockHash =
     rbind (bc_getBlockByHash P D db blockHash) (\<lambda>block. Inr (GetTransactions block))"

definition getTransaction :: "protolib \<Rightarrow> 'db gorocksdb \<Rightarrow> 'db \<Rightarrow> u64 \<Rightarrow> u64 \<Rightarrow> gerr + Transaction" where
  "getTransaction P D db blockNumber txIndex =
     rbind (bc_getBlock P D db blockNumber) (\<lambda>block. nth_tx (GetTransactions block) txIndex)"

definition getTransactionByBlockHash :: "protolib \<Rightarrow> 'db gorocksdb \<Rightarrow> 'db \<Rightarrow> bytes \<Rightarrow> u64 \<Rightarrow> gerr + Transaction" where
  "getTransactionByBlockHash P D db blockHash txIndex =
     rbind (bc_getBlockByHash P D db blockHash) (\<lambda>block. nth_tx (GetTransactions block) txIndex)"

record BlockchainInfo =
  Height :: u64
  CurrentBlockHash :: bytes
  info_PreviousBlockHash :: bytes

definition bc_getBlockchainInfo :: "protolib \<Rightarrow> 'db gorocksdb \<Rightarrow> 'db \<Rightarrow> blockchain \<Rightarrow> gerr + BlockchainInfo" where
  "bc_getBlockchainInfo P D db bc =
     (if bc_size bc = 0 then Inr \<lparr>Height = 0, CurrentBlockHash = [], info_PreviousBlockHash = []\<rparr>
      else rbind (bc_getLastBlock P D db bc) (\<lambda>lastBlock.
        case lastBlock of
          None \<Rightarrow> Inl nilBlock
        | Some b \<Rightarrow> Inr \<lparr>Height = bc_size bc, CurrentBlockHash = bc_previousBlockHash bc,
            info_PreviousBlockHash = PreviousBlockHash b\<rparr>))"

definition buildBlock :: "blockchain \<Rightarrow> Block \<Rightarrow> slice \<Rightarrow> Block" where
  "buildBlock bc block stateHash =
     (SetPreviousBlockHash block (bc_previousBlockHash bc))\<lparr>StateHash := sbytes stateHash\<rparr>"

definition commitTimestamp :: "Timestamp \<Rightarrow> NonHashData option \<Rightarrow> NonHashData" where
  "commitTimestamp now nhd = (case nhd of
      None \<Rightarrow> \<lparr>LocalLedgerCommitTimestamp = Some now, TransactionResults = []\<rparr>
    | Some n \<Rightarrow> n\<lparr>LocalLedgerCommitTimestamp := Some now\<rparr>)"

definition addPersistenceChangesForNewBlock ::
  "protolib \<Rightarrow> (bytes \<Rightarrow> bytes) \<Rightarrow> Timestamp \<Rightarrow> blockchain \<Rightarrow> Block \<Rightarrow> slice \<Rightarrow> WriteBatch \<Rightarrow>
     gerr + u64 \<times> WriteBatch \<times> blockchain" where
  "addPersistenceChangesForNewBlock P H now bc block0 stateHash writeBatch =
     (let block = buildBlock bc block0 stateHash;
          block = block\<lparr>bl_NonHashData := Some (commitTimestamp now (bl_NonHashData block))\<rparr>;
          blockNumber = bc_size bc
      in rbind (Block_GetHash P H block) (\<lambda>blockHash.
         rbind (Block_Bytes P block) (\<lambda>blockBytes.
           let writeBatch = writeBatch @ [PutCF BlockchainCF (encodeBlockNumberDBKey blockNumber) blockBytes,
                 PutCF BlockchainCF blockCountKey (encodeUint64 (blockNumber + 1))];
               writeBatch = addIndexDataForPersistence block blockNumber blockHash writeBatch
           in Inr (blockNumber, writeBatch,
                bc\<lparr>bc_lastProcessedBlock :=
                  Some \<lparr>lpb_block = block, lpb_blockNumber = blockNumber, lpb_blockHash = blockHash\<rparr>\<rparr>))))"

definition blockPersistenceStatus :: "blockchain \<Rightarrow> bool \<Rightarrow> gerr + blockchain" where
  "blockPersistenceStatus bc success =
     rbind (if success
        then case bc_lastProcessedBlock bc of
            None \<Rightarrow> Inl nilBlock
          | Some l \<Rightarrow> Inr (bc\<lparr>bc_size := bc_size bc + 1, bc_previousBlockHash := lpb_blockHash l\<rparr>)
        else Inr bc) (\<lambda>bc. Inr (bc\<lparr>bc_lastProcessedBlock := None\<rparr>))"

text \<open>The in-memory height moves before the write, and stays when the write fails.\<close>

definition persistRawBlock ::
  "protolib \<Rightarrow> (bytes \<Rightarrow> bytes) \<Rightarrow> 'db gorocksdb \<Rightarrow> 'db \<Rightarrow> blockchain \<Rightarrow> Block \<Rightarrow> u64 \<Rightarrow> (gerr + 'db) \<times> blockchain" where
  "persistRawBlock P H D db bc block blockNumber =
     (case rbind (Block_Bytes P block) (\<lambda>blockBytes.
           rbind (Block_GetHash P H block) (\<lambda>blockHash. Inr (blockBytes, blockHash))) of
        Inl e \<Rightarrow> (Inl e, bc)
      | Inr (blockBytes, blockHash) \<Rightarrow>
          let writeBatch = [PutCF BlockchainCF (encodeBlockNumberDBKey blockNumber) blockBytes];
              (writeBatch, bc) =
                (if bc_size bc < blockNumber + 1
                 then (writeBatch @ [PutCF BlockchainCF blockCountKey (encodeUint64 (blockNumber + 1))],
                       bc\<lparr>bc_size := blockNumber + 1, bc_previousBlockHash := blockHash\<rparr>)
                 else (writeBatch, bc));
              writeBatch = addIndexDataForPersistence block blockNumber blockHash writeBatch
          in (Write D db writeBatch, bc))"

end
