(* ===== verification/ChainStore.thy ===== *)
theory ChainStore
  imports Blockchain BucketPersist
begin

text \<open>
  A stored chain as a list of blocks. \<open>chain_db\<close> says that the column families hold the blocks,
  their count and their indexes; \<open>linked\<close> that every block carries the hash of the block before it.
  The batches of \<open>addPersistenceChangesForNewBlock\<close> and \<open>persistRawBlock\<close> extend such a chain by
  one block, the lookups read it, and \<open>newBlockchain\<close> recovers the in-memory tip.
\<close>

subsection \<open>Blocks\<close>

lemma proto_Unmarshal: "proto_ok P \<Longrightarrow> Marshal P b = Inr bs \<Longrightarrow> Unmarshal P bs = Inr b"
  by (simp add: proto_ok_def)

lemma Block_Bytes_Inr [simp]: "Block_Bytes P b = Inr bs \<longleftrightarrow> Marshal P b = Inr bs"
  by (simp add: Block_Bytes_def split: sum.splits)

lemma UnmarshallBlock_Inr [simp]: "UnmarshallBlock P bs = Inr b \<longleftrightarrow> Unmarshal P bs = Inr b"
  by (simp add: UnmarshallBlock_def split: sum.splits)

text \<open>The hash of a block is the hash of its encoding without the local data.\<close>

lemma Block_GetHash_Inr:
  assumes "proto_ok P"
  shows "Block_GetHash P H b = Inr h \<longleftrightarrow>
    (\<exists>bs d. Marshal P b = Inr bs \<and> Marshal P (b\<lparr>bl_NonHashData := None\<rparr>) = Inr d \<and> h = H d)"
proof (cases "Marshal P b")
  case (Inl e)
  then show ?thesis by (simp add: Block_GetHash_def Block_Bytes_def)
next
  case (Inr bs)
  then have "rbind (Block_Bytes P b) (\<lambda>bs. rbind (UnmarshallBlock P bs) (\<lambda>c. Marshal P (c\<lparr>bl_NonHashData := None\<rparr>))) =
      Marshal P (b\<lparr>bl_NonHashData := None\<rparr>)"
    using proto_Unmarshal [OF assms Inr] by (simp add: Block_Bytes_def UnmarshallBlock_def)
  then show ?thesis
    using Inr by (auto simp: Block_GetHash_def split: sum.splits)
qed

lemma Block_GetHash_cong:
  assumes "proto_ok P" "Block_GetHash P H a = Inr h" "Marshal P b = Inr bs"
    and "b\<lparr>bl_NonHashData := None\<rparr> = a\<lparr>bl_NonHashData := None\<rparr>"
  shows "Block_GetHash P H b = Inr h"
  using assms by (auto simp: Block_GetHash_Inr)

subsection \<open>Keys\<close>

lemma length_encodeUint64 [simp]: "length (encodeUint64 n) = 8"
  by (simp add: encodeUint64_def)

lemma blockKey_inj [simp]: "encodeBlockNumberDBKey a = encodeBlockNumberDBKey b \<longleftrightarrow> a = b"
  by (simp add: encodeBlockNumberDBKey_def)

lemma countKey_neq [simp]: "encodeBlockNumberDBKey n \<noteq> blockCountKey" "blockCountKey \<noteq> encodeBlockNumberDBKey n"
proof -
  have "length (encodeBlockNumberDBKey n) \<noteq> length blockCountKey"
    by (simp add: encodeBlockNumberDBKey_def blockCountKey_def lit_def)
  then show "encodeBlockNumberDBKey n \<noteq> blockCountKey" "blockCountKey \<noteq> encodeBlockNumberDBKey n" by metis+
qed

lemma indexKeys_simps [simp]:
  "encodeTxUUIDKey u = encodeTxUUIDKey u' \<longleftrightarrow> u = u'"
  "encodeBlockHashKey h = encodeBlockHashKey h' \<longleftrightarrow> h = h'"
  "encodeTxUUIDKey u \<noteq> encodeBlockHashKey h"
  "encodeBlockHashKey h \<noteq> encodeTxUUIDKey u"
  by (simp_all add: encodeTxUUIDKey_def encodeBlockHashKey_def prependKeyPrefix_def
      prefixBlockHashKey_def prefixTxUUIDKey_def)

lemma decode_encodeBlockNumber [simp]: "decodeBlockNumber (encodeBlockNumber n) = n"
  using DecodeVarint_EncodeVarint [of n "[]"] by (simp add: decodeBlockNumber_def encodeBlockNumber_def)

lemma decode_encodeBlockNumTxIndex [simp]: "decodeBlockNumTxIndex (encodeBlockNumTxIndex n i) = Inr (n, i)"
  using buf_DecodeVarint_EncodeVarint [of n "EncodeVarint i"] buf_DecodeVarint_EncodeVarint [of i "[]"]
  by (simp add: decodeBlockNumTxIndex_def encodeBlockNumTxIndex_def buf_EncodeVarint_eq)

lemma EncodeVarint_neq_Nil [simp]: "EncodeVarint n \<noteq> []"
  by (subst EncodeVarint.simps) simp

lemma encoded_neq_Nil [simp]: "encodeBlockNumTxIndex n i \<noteq> []" "encodeBlockNumber n \<noteq> []"
  by (simp_all add: encodeBlockNumTxIndex_def encodeBlockNumber_def buf_EncodeVarint_eq)

subsection \<open>The index batch\<close>

definition tx_ops :: "u64 \<Rightarrow> nat \<Rightarrow> Transaction list \<Rightarrow> WriteBatch" where
  "tx_ops n j txs = map (\<lambda>(i, tx). PutCF IndexesCF (encodeTxUUIDKey (tx_Uuid tx)) (encodeBlockNumTxIndex n (of_nat i)))
     (enumerate j txs)"

lemma index_loop_batch: "fst (index_loop n j txs (b, m)) = b @ tx_ops n j txs"
  by (induction txs arbitrary: j b m) (simp_all add: tx_ops_def Let_def)

text \<open>The entries under an address have their own prefix.\<close>

lemma addIndexData_eq:
  "\<exists>ops. addIndexDataForPersistence block n h batch =
      batch @ PutCF IndexesCF (encodeBlockHashKey h) (encodeBlockNumber n) # tx_ops n 0 (Transactions block) @ ops \<and>
    (\<forall>op \<in> set ops. \<exists>k. op_target op = (IndexesCF, prefixAddressBlockNumCompositeKey # k))"
proof -
  obtain b m where l: "index_loop n 0 (Transactions block)
      (batch @ [PutCF IndexesCF (encodeBlockHashKey h) (encodeBlockNumber n)], []) = (b, m)" by fastforce
  have "b = batch @ PutCF IndexesCF (encodeBlockHashKey h) (encodeBlockNumber n) # tx_ops n 0 (Transactions block)"
    using index_loop_batch [of n 0 "Transactions block" "batch @ [PutCF IndexesCF (encodeBlockHashKey h) (encodeBlockNumber n)]" "[]"] l
    by simp
  with l show ?thesis
    by (auto simp: addIndexDataForPersistence_def Let_def encodeAddressBlockNumCompositeKey_def
        buf_EncodeVarint_eq buf_EncodeRawBytes_def)
qed

lemma apply_tx_ops:
  "apply_batch m (tx_ops n j txs) f k =
    (if f = IndexesCF then
       (case map_of (rev (map (\<lambda>(i, tx). (encodeTxUUIDKey (tx_Uuid tx), encodeBlockNumTxIndex n (of_nat i))) (enumerate j txs))) k of
          Some v \<Rightarrow> Some v | None \<Rightarrow> m IndexesCF k)
     else m f k)"
  by (induction txs arbitrary: j m) (auto simp: tx_ops_def map_add_def split: option.splits)

subsection \<open>A stored chain\<close>

text \<open>Where the transactions are, and the numbers of the blocks by hash, in the order of the chain.\<close>

definition block_txs :: "nat \<Rightarrow> Block \<Rightarrow> (gostring \<times> u64 \<times> u64) list" where
  "block_txs n b = map (\<lambda>(j, tx). (tx_Uuid tx, of_nat n, of_nat j)) (enumerate 0 (Transactions b))"

fun chain_txs :: "nat \<Rightarrow> Block list \<Rightarrow> (gostring \<times> u64 \<times> u64) list" where
  "chain_txs n [] = []"
| "chain_txs n (b # bs) = block_txs n b @ chain_txs (Suc n) bs"

fun chain_hashes :: "protolib \<Rightarrow> (bytes \<Rightarrow> bytes) \<Rightarrow> nat \<Rightarrow> Block list \<Rightarrow> (bytes \<times> u64) list" where
  "chain_hashes P H n [] = []"
| "chain_hashes P H n (b # bs) =
     (case Block_GetHash P H b of Inl _ \<Rightarrow> [] | Inr h \<Rightarrow> [(h, of_nat n)]) @ chain_hashes P H (Suc n) bs"

lemma chain_txs_snoc: "chain_txs n (bs @ [b]) = chain_txs n bs @ block_txs (n + length bs) b"
  by (induction bs arbitrary: n) auto

lemma chain_hashes_snoc:
  "Block_GetHash P H b = Inr h \<Longrightarrow> chain_hashes P H n (bs @ [b]) = chain_hashes P H n bs @ [(h, of_nat (n + length bs))]"
  by (induction bs arbitrary: n) auto

definition stored_block :: "protolib \<Rightarrow> (bytes \<Rightarrow> bytes) \<Rightarrow> dbmap \<Rightarrow> u64 \<Rightarrow> Block \<Rightarrow> bool" where
  "stored_block P H m n b \<longleftrightarrow> (\<exists>bs h. Marshal P b = Inr bs \<and> bs \<noteq> [] \<and> Block_GetHash P H b = Inr h \<and>
     m BlockchainCF (encodeBlockNumberDBKey n) = Some bs)"

definition stored_chain :: "protolib \<Rightarrow> (bytes \<Rightarrow> bytes) \<Rightarrow> dbmap \<Rightarrow> Block list \<Rightarrow> bool" where
  "stored_chain P H m bs \<longleftrightarrow> length bs < 2 ^ 64 \<and> (\<forall>i < length bs. stored_block P H m (of_nat i) (bs ! i))"

definition chain_db :: "protolib \<Rightarrow> (bytes \<Rightarrow> bytes) \<Rightarrow> dbmap \<Rightarrow> Block list \<Rightarrow> bool" where
  "chain_db P H m bs \<longleftrightarrow> length bs < 2 ^ 64 \<and>
     (\<forall>i < length bs. stored_block P H m (of_nat i) (bs ! i)) \<and>
     m BlockchainCF blockCountKey = (if bs = [] then None else Some (encodeUint64 (of_nat (length bs)))) \<and>
     (\<forall>u. m IndexesCF (encodeTxUUIDKey u) =
        map_option (\<lambda>(n, i). encodeBlockNumTxIndex n i) (map_of (rev (chain_txs 0 bs)) u)) \<and>
     (\<forall>h. m IndexesCF (encodeBlockHashKey h) =
        map_option encodeBlockNumber (map_of (rev (chain_hashes P H 0 bs)) h))"

lemma chain_db_stored: "chain_db P H m bs \<Longrightarrow> stored_chain P H m bs"
  by (simp add: chain_db_def stored_chain_def)

lemma chain_db_last:
  assumes "chain_db P H m (bs @ [b])"
  shows "stored_block P H m (of_nat (length bs)) b"
proof -
  have "\<forall>i < length (bs @ [b]). stored_block P H m (of_nat i) ((bs @ [b]) ! i)"
    using assms unfolding chain_db_def by blast
  from this [rule_format, of "length bs"] show ?thesis by simp
qed

definition linked :: "protolib \<Rightarrow> (bytes \<Rightarrow> bytes) \<Rightarrow> Block list \<Rightarrow> bool" where
  "linked P H bs \<longleftrightarrow> (\<forall>i. Suc i < length bs \<longrightarrow> Block_GetHash P H (bs ! i) = Inr (PreviousBlockHash (bs ! Suc i))) \<and>
     (bs \<noteq> [] \<longrightarrow> PreviousBlockHash (bs ! 0) = [])"

definition chain_tip :: "protolib \<Rightarrow> (bytes \<Rightarrow> bytes) \<Rightarrow> Block list \<Rightarrow> blockchain \<Rightarrow> bool" where
  "chain_tip P H bs bc \<longleftrightarrow> bc_size bc = of_nat (length bs) \<and>
     (if bs = [] then bc_previousBlockHash bc = [] else Block_GetHash P H (last bs) = Inr (bc_previousBlockHash bc))"

lemma of_nat_u64_inj: "i < 2 ^ 64 \<Longrightarrow> j < 2 ^ 64 \<Longrightarrow> (of_nat i :: u64) = of_nat j \<longleftrightarrow> i = j"
  by (simp add: word_of_nat_eq_iff take_bit_nat_eq_self)

lemma unat_of_nat_u64: "i < 2 ^ 64 \<Longrightarrow> unat (of_nat i :: u64) = i"
  by (simp add: unat_of_nat take_bit_nat_eq_self)

lemma map_of_uuid_entries:
  "map_of (rev (map (\<lambda>(i, tx). (encodeTxUUIDKey (tx_Uuid tx), encodeBlockNumTxIndex (of_nat n) (of_nat i))) (enumerate j txs)))
      (encodeTxUUIDKey u) =
    map_option (\<lambda>(n, i). encodeBlockNumTxIndex n i)
      (map_of (rev (map (\<lambda>(j, tx). (tx_Uuid tx, of_nat n, of_nat j)) (enumerate j txs))) u)"
  by (induction txs arbitrary: j) (auto simp: map_add_def split: option.splits)

lemma map_of_uuid_other:
  "k \<notin> range encodeTxUUIDKey \<Longrightarrow>
    map_of (rev (map (\<lambda>(i, tx). (encodeTxUUIDKey (tx_Uuid tx), encodeBlockNumTxIndex n (of_nat i))) (enumerate j txs))) k = None"
  by (induction txs arbitrary: j) (auto simp: map_add_def)

text \<open>Adding a block at the end: the two puts into the chain and the index batch.\<close>

lemma apply_index_batch:
  fixes m :: dbmap and b :: Block and n :: nat and h :: bytes
  defines "m' \<equiv> apply_batch m (addIndexDataForPersistence b (of_nat n) h [])"
  shows "m' IndexesCF (encodeTxUUIDKey u) =
      (case map_of (rev (block_txs n b)) u of Some (x, i) \<Rightarrow> Some (encodeBlockNumTxIndex x i)
       | None \<Rightarrow> m IndexesCF (encodeTxUUIDKey u))"
    and "m' IndexesCF (encodeBlockHashKey h') =
      (if h' = h then Some (encodeBlockNumber (of_nat n)) else m IndexesCF (encodeBlockHashKey h'))"
    and "f \<noteq> IndexesCF \<Longrightarrow> m' f = m f"
proof -
  obtain ops where ops: "addIndexDataForPersistence b (of_nat n) h [] =
      PutCF IndexesCF (encodeBlockHashKey h) (encodeBlockNumber (of_nat n)) # tx_ops (of_nat n) 0 (Transactions b) @ ops"
    "\<forall>op \<in> set ops. \<exists>k. op_target op = (IndexesCF, prefixAddressBlockNumCompositeKey # k)"
    using addIndexData_eq [of b "of_nat n" h "[]"] by auto
  define m1 where "m1 = m(IndexesCF := (m IndexesCF)(encodeBlockHashKey h \<mapsto> encodeBlockNumber (of_nat n)))"
  have m': "m' = apply_batch (apply_batch m1 (tx_ops (of_nat n) 0 (Transactions b))) ops"
    by (simp add: m'_def ops(1) m1_def)
  have keep: "m' f k = apply_batch m1 (tx_ops (of_nat n) 0 (Transactions b)) f k"
    if "f \<noteq> IndexesCF \<or> (\<forall>k'. k \<noteq> prefixAddressBlockNumCompositeKey # k')" for f k
    unfolding m' using ops(2) that by (intro apply_batch_untouched) (metis prod.inject)
  have pre: "encodeTxUUIDKey x \<noteq> prefixAddressBlockNumCompositeKey # k'"
    "encodeBlockHashKey x \<noteq> prefixAddressBlockNumCompositeKey # k'" for x k'
    by (simp_all add: encodeTxUUIDKey_def encodeBlockHashKey_def prependKeyPrefix_def prefixTxUUIDKey_def
        prefixBlockHashKey_def prefixAddressBlockNumCompositeKey_def)
  show "m' IndexesCF (encodeTxUUIDKey u) =
      (case map_of (rev (block_txs n b)) u of Some (x, i) \<Rightarrow> Some (encodeBlockNumTxIndex x i)
       | None \<Rightarrow> m IndexesCF (encodeTxUUIDKey u))"
    using keep [of IndexesCF "encodeTxUUIDKey u"] pre(1)
    by (simp add: apply_tx_ops map_of_uuid_entries block_txs_def m1_def split: option.splits)
  have "encodeBlockHashKey h' \<notin> range encodeTxUUIDKey" by auto
  then show "m' IndexesCF (encodeBlockHashKey h') =
      (if h' = h then Some (encodeBlockNumber (of_nat n)) else m IndexesCF (encodeBlockHashKey h'))"
    using keep [of IndexesCF "encodeBlockHashKey h'"] pre(2)
    by (simp add: apply_tx_ops map_of_uuid_other m1_def)
  show "m' f = m f" if "f \<noteq> IndexesCF"
    using keep [of f] that by (simp add: fun_eq_iff apply_tx_ops m1_def)
qed

lemma index_loop_map: "snd (index_loop n j txs (b, m)) = snd (index_loop n j txs (b', m))"
  by (induction txs arbitrary: j b b' m) (simp_all add: Let_def)

lemma addIndexData_append: "addIndexDataForPersistence b n h batch = batch @ addIndexDataForPersistence b n h []"
proof -
  let ?h = "PutCF IndexesCF (encodeBlockHashKey h) (encodeBlockNumber n)" and ?l = "index_loop n 0 (Transactions b)"
  have "?l (batch @ [?h], []) = (batch @ fst (?l ([?h], [])), snd (?l ([?h], [])))"
    by (rule prod_eqI) (simp_all add: index_loop_batch index_loop_map [of _ _ _ "batch @ [?h]" _ "[?h]"])
  then show ?thesis by (simp add: addIndexDataForPersistence_def Let_def case_prod_beta)
qed

lemma chain_db_extend:
  assumes "chain_db P H m bs" "Suc (length bs) < 2 ^ 64"
    and "Marshal P b = Inr bytes" "bytes \<noteq> []" "Block_GetHash P H b = Inr h"
    and m': "m' BlockchainCF = (m BlockchainCF)(encodeBlockNumberDBKey (of_nat (length bs)) \<mapsto> bytes,
        blockCountKey \<mapsto> encodeUint64 (of_nat (Suc (length bs))))"
      "\<And>k. m' IndexesCF k = apply_batch m (addIndexDataForPersistence b (of_nat (length bs)) h []) IndexesCF k"
  shows "chain_db P H m' (bs @ [b])"
proof -
  have "stored_block P H m' (of_nat i) ((bs @ [b]) ! i)" if "i < length (bs @ [b])" for i
  proof (cases "i = length bs")
    case True
    then show ?thesis using assms(3-5) m'(1) by (simp add: stored_block_def)
  next
    case False
    with that have "i < length bs" by simp
    moreover from this have "(of_nat i :: u64) \<noteq> of_nat (length bs)"
      using assms(2) of_nat_u64_inj [of i "length bs"] by simp
    ultimately show ?thesis
      using assms(1) m'(1) by (auto simp: chain_db_def stored_block_def nth_append)
  qed
  moreover have "m' IndexesCF (encodeTxUUIDKey u) =
      map_option (\<lambda>(n, i). encodeBlockNumTxIndex n i) (map_of (rev (chain_txs 0 (bs @ [b]))) u)" for u
    unfolding m'(2) apply_index_batch(1)
    using assms(1) by (auto simp: chain_db_def chain_txs_snoc map_add_def split: option.splits)
  moreover have "m' IndexesCF (encodeBlockHashKey h') =
      map_option encodeBlockNumber (map_of (rev (chain_hashes P H 0 (bs @ [b]))) h')" for h'
    unfolding m'(2) apply_index_batch(2)
    using assms(1) by (auto simp: chain_db_def chain_hashes_snoc [OF assms(5)])
  moreover have "m' BlockchainCF blockCountKey = Some (encodeUint64 (of_nat (Suc (length bs))))"
    by (simp add: m'(1))
  ultimately show ?thesis using assms(2) by (simp add: chain_db_def)
qed

lemma linked_snoc:
  assumes "linked P H bs" "chain_tip P H bs bc" "PreviousBlockHash b = bc_previousBlockHash bc"
  shows "linked P H (bs @ [b])"
  using assms unfolding linked_def chain_tip_def
  by (auto simp: nth_append last_conv_nth less_Suc_eq split: if_splits) (metis One_nat_def diff_Suc_1)

subsection \<open>Lookups\<close>

lemma fetchBlock_stored:
  assumes "rocksdb_ok D content" "proto_ok P" "stored_block P H (content db) n b"
  shows "fetchBlockFromDB P D db n = Inr (Some b)"
  using assms proto_Unmarshal [OF assms(2)]
  by (auto simp: stored_block_def fetchBlockFromDB_def GetFromBlockchainCF_def db_get_ok [OF assms(1)] UnmarshallBlock_def)

lemma fetchBlock_chain:
  assumes "rocksdb_ok D content" "proto_ok P" "chain_db P H (content db) bs" "i < length bs"
  shows "fetchBlockFromDB P D db (of_nat i) = Inr (Some (bs ! i))"
proof (rule fetchBlock_stored [OF assms(1,2)])
  show "stored_block P H (content db) (of_nat i) (bs ! i)" using assms(3,4) by (simp add: chain_db_def)
qed

lemma fetchSize_chain:
  assumes "rocksdb_ok D content" "chain_db P H (content db) bs"
  shows "fetchBlockchainSizeFromDB D db = Inr (of_nat (length bs))"
proof -
  have "encodeUint64 n \<noteq> []" for n using length_encodeUint64 [of n] by (metis list.size(3) zero_neq_numeral)
  then show ?thesis
    using assms(2) by (auto simp: fetchBlockchainSizeFromDB_def GetFromBlockchainCF_def db_get_ok [OF assms(1)] chain_db_def)
qed

text \<open>\<open>newBlockchain\<close> recovers the tip.\<close>

lemma newBlockchain_chain:
  assumes "rocksdb_ok D content" "proto_ok P" "chain_db P H (content db) bs"
  shows "\<exists>bc. newBlockchain P H D db = Inr bc \<and> chain_tip P H bs bc \<and> bc_lastProcessedBlock bc = None"
proof (cases "bs = []")
  case True
  then show ?thesis
    by (simp add: newBlockchain_def fetchSize_chain [OF assms(1,3)] chain_tip_def)
next
  case False
  then obtain n where n: "length bs = Suc n" by (cases bs) auto
  have len: "Suc n < 2 ^ 64" using assms(3) n by (simp add: chain_db_def)
  have "(of_nat (Suc n) :: u64) \<noteq> 0"
    using of_nat_u64_inj [of "Suc n" 0] len by simp
  moreover have "(of_nat (Suc n) :: u64) - 1 = of_nat n" by simp
  moreover obtain h where h: "Block_GetHash P H (bs ! n) = Inr h"
    using assms(3) n by (auto simp: chain_db_def stored_block_def)
  ultimately show ?thesis
    using fetchBlock_chain [OF assms, of n] n False
    by (simp add: newBlockchain_def fetchSize_chain [OF assms(1,3)] chain_tip_def last_conv_nth word_gt_0)
qed

lemma getTransactionByUUID_chain:
  assumes "rocksdb_ok D content" "proto_ok P" "chain_db P H (content db) bs"
    and "i < length bs" "j < length (Transactions (bs ! i))" "length (Transactions (bs ! i)) < 2 ^ 64"
    and "tx_Uuid (Transactions (bs ! i) ! j) = u" "map_of (rev (chain_txs 0 bs)) u = Some (of_nat i, of_nat j)"
  shows "getTransactionByUUID P D db u = Inr (Transactions (bs ! i) ! j)"
proof -
  have "content db IndexesCF (encodeTxUUIDKey u) = Some (encodeBlockNumTxIndex (of_nat i) (of_nat j))"
    using assms(3,8) by (simp add: chain_db_def)
  moreover have "unat (of_nat j :: u64) = j" using assms(5,6) by (intro unat_of_nat_u64) simp
  ultimately show ?thesis
    using fetchBlock_chain [OF assms(1-4)] assms(5)
    by (simp add: getTransactionByUUID_def fetchTransactionIndexByUUIDFromDB_def GetFromIndexesCF_def
        db_get_ok [OF assms(1)] bc_getBlock_def GetTransactions_def nth_tx_def)
qed

text \<open>With distinct transaction ids the index finds every transaction.\<close>

lemma block_txs_nth: "j < length (Transactions b) \<Longrightarrow> (tx_Uuid (Transactions b ! j), of_nat n, of_nat j) \<in> set (block_txs n b)"
  by (auto simp: block_txs_def in_set_enumerate_eq intro!: image_eqI [of _ _ "(j, Transactions b ! j)"])

lemma chain_txs_nth:
  "i < length bs \<Longrightarrow> j < length (Transactions (bs ! i)) \<Longrightarrow>
    (tx_Uuid (Transactions (bs ! i) ! j), of_nat (n + i), of_nat j) \<in> set (chain_txs n bs)"
proof (induction bs arbitrary: n i)
  case (Cons b bs)
  then show ?case
    using block_txs_nth [of j b n] Cons.IH [of "i - 1" "Suc n"] by (cases i) auto
qed simp

lemma chain_txs_lookup:
  assumes "distinct (map fst (chain_txs 0 bs))" "i < length bs" "j < length (Transactions (bs ! i))"
  shows "map_of (rev (chain_txs 0 bs)) (tx_Uuid (Transactions (bs ! i) ! j)) = Some (of_nat i, of_nat j)"
  using chain_txs_nth [OF assms(2,3), of 0] assms(1)
  by (intro map_of_is_SomeI) (simp_all add: rev_map [symmetric])

end
