(* ===== verification/Ledger.thy ===== *)
theory Ledger
  imports LedgerState ChainStore
begin

text \<open>
  \<open>core/ledger/ledger.go\<close>: the ledger of a peer, which ties the world state to the chain. A batch
  of transactions is opened by \<open>BeginTxBatch\<close>, runs against the state, and ends in
  \<open>CommitTxBatch\<close>, one write of the block, its indexes, the state and the state delta, or in
  \<open>RollbackTxBatch\<close>. The identifier of a batch is a Go interface value: \<open>'id option\<close>, with \<open>None\<close>
  for \<open>nil\<close>. The results are the error, if any, the database and the ledger. The block
  event that both commits send after everything is written (\<open>sendProducerBlockEvent\<close>) is left out;
  besides the event it strips the code package from the deploy transactions the caller passed in,
  objects that the stored bytes no longer depend on.
\<close>

record ('st, 'id) Ledger =
  l_blockchain :: blockchain
  l_state :: "'st State"
  currentID :: "'id option"

definition newLedger ::
  "protolib \<Rightarrow> (bytes \<Rightarrow> bytes) \<Rightarrow> 'db gorocksdb \<Rightarrow> 'db \<Rightarrow> gerr + 'st \<Rightarrow> int \<Rightarrow> gerr + ('st, 'id) Ledger" where
  "newLedger P H D db initialized deltaHistorySize =
     rbind (newBlockchain P H D db) (\<lambda>blockchain.
     rbind (NewState initialized deltaHistorySize) (\<lambda>state.
     Inr \<lparr>l_blockchain = blockchain, l_state = state, currentID = None\<rparr>))"

definition errInProgress :: gerr where
  "errInProgress = ErrMsg ''Another TxGroup already in-progress''"

definition checkValidIDBegin :: "('st, 'id) Ledger \<Rightarrow> gerr option" where
  "checkValidIDBegin L = (if currentID L \<noteq> None then Some errInProgress else None)"

definition checkValidIDCommitORRollback :: "('st, 'id) Ledger \<Rightarrow> 'id option \<Rightarrow> gerr option" where
  "checkValidIDCommitORRollback L bid = (if currentID L \<noteq> bid then Some errInProgress else None)"

definition resetForNextTxGroup ::
  "('st, 'db) HashableState \<Rightarrow> ('st, 'id) Ledger \<Rightarrow> bool \<Rightarrow> gerr option \<times> ('st, 'id) Ledger" where
  "resetForNextTxGroup HS L txCommited =
     (let (err, s) = ClearInMemoryChanges HS (l_state L) txCommited
      in (err, L\<lparr>currentID := None, l_state := s\<rparr>))"

subsection \<open>Transaction batches\<close>

definition BeginTxBatch :: "('st, 'id) Ledger \<Rightarrow> 'id option \<Rightarrow> gerr option \<times> ('st, 'id) Ledger" where
  "BeginTxBatch L bid = (case checkValidIDBegin L of
      Some e \<Rightarrow> (Some e, L) | None \<Rightarrow> (None, L\<lparr>currentID := bid\<rparr>))"

definition GetTXBatchPreviewBlock ::
  "('st, 'db) HashableState \<Rightarrow> 'db \<Rightarrow> ('st, 'id) Ledger \<Rightarrow> 'id option \<Rightarrow> Transaction list \<Rightarrow> bytes \<Rightarrow>
     (gerr + Block) \<times> ('st, 'id) Ledger" where
  "GetTXBatchPreviewBlock HS db L bid transactions metadata =
     (case checkValidIDCommitORRollback L bid of
        Some e \<Rightarrow> (Inl e, L)
      | None \<Rightarrow>
          (case State_GetHash HS db (l_state L) of
             (Inl e, s) \<Rightarrow> (Inl e, L\<lparr>l_state := s\<rparr>)
           | (Inr stateHash, s) \<Rightarrow>
               (Inr (buildBlock (l_blockchain L) (NewBlock transactions metadata) stateHash), L\<lparr>l_state := s\<rparr>)))"

text \<open>The three error exits of \<open>CommitTxBatch\<close>: discard the changes and return the error.\<close>

definition abortBatch ::
  "('st, 'db) HashableState \<Rightarrow> 'db \<Rightarrow> ('st, 'id) Ledger \<Rightarrow> gerr \<Rightarrow> gerr option \<times> 'db \<times> ('st, 'id) Ledger" where
  "abortBatch HS db L e =
     (case resetForNextTxGroup HS L False of
        (Some p, L) \<Rightarrow> (Some p, db, L)
      | (None, L) \<Rightarrow>
          (case blockPersistenceStatus (l_blockchain L) False of
             Inl p \<Rightarrow> (Some p, db, L)
           | Inr bc \<Rightarrow> (Some e, db, L\<lparr>l_blockchain := bc\<rparr>)))"

definition CommitTxBatch ::
  "protolib \<Rightarrow> (bytes \<Rightarrow> bytes) \<Rightarrow> ('st, 'db) HashableState \<Rightarrow> 'db gorocksdb \<Rightarrow> Timestamp \<Rightarrow> 'db \<Rightarrow> ('st, 'id) Ledger \<Rightarrow>
     'id option \<Rightarrow> Transaction list \<Rightarrow> TransactionResult list \<Rightarrow> bytes \<Rightarrow> gerr option \<times> 'db \<times> ('st, 'id) Ledger" where
  "CommitTxBatch P H HS D now db L bid transactions transactionResults metadata =
     (case checkValidIDCommitORRollback L bid of
        Some e \<Rightarrow> (Some e, db, L)
      | None \<Rightarrow>
          (case State_GetHash HS db (l_state L) of
             (Inl (Panic m), s) \<Rightarrow> (Some (Panic m), db, L\<lparr>l_state := s\<rparr>)
           | (Inl e, s) \<Rightarrow> abortBatch HS db (L\<lparr>l_state := s\<rparr>) e
           | (Inr stateHash, s) \<Rightarrow>
               let L = L\<lparr>l_state := s\<rparr>;
                   block = (NewBlock transactions metadata)\<lparr>bl_NonHashData :=
                     Some \<lparr>LocalLedgerCommitTimestamp = None, TransactionResults = transactionResults\<rparr>\<rparr>
               in case addPersistenceChangesForNewBlock P H now (l_blockchain L) block stateHash [] of
                    Inl e \<Rightarrow> abortBatch HS db L e
                  | Inr (newBlockNumber, writeBatch, bc) \<Rightarrow>
                      let L = L\<lparr>l_blockchain := bc\<rparr>
                      in case State_AddChangesForPersistence HS db (l_state L) newBlockNumber writeBatch of
                           (Some p, _, s) \<Rightarrow> (Some p, db, L\<lparr>l_state := s\<rparr>)
                         | (None, writeBatch, s) \<Rightarrow>
                             let L = L\<lparr>l_state := s\<rparr>
                             in case Write D db writeBatch of
                                  Inl dbErr \<Rightarrow> abortBatch HS db L dbErr
                                | Inr db' \<Rightarrow>
                                    (case resetForNextTxGroup HS L True of
                                       (Some p, L) \<Rightarrow> (Some p, db', L)
                                     | (None, L) \<Rightarrow>
                                         (case blockPersistenceStatus (l_blockchain L) True of
                                            Inl p \<Rightarrow> (Some p, db', L)
                                          | Inr bc \<Rightarrow> (None, db', L\<lparr>l_blockchain := bc\<rparr>)))))"

definition RollbackTxBatch ::
  "('st, 'db) HashableState \<Rightarrow> ('st, 'id) Ledger \<Rightarrow> 'id option \<Rightarrow> gerr option \<times> ('st, 'id) Ledger" where
  "RollbackTxBatch HS L bid = (case checkValidIDCommitORRollback L bid of
      Some e \<Rightarrow> (Some e, L) | None \<Rightarrow> resetForNextTxGroup HS L False)"

text \<open>The methods that pass a call on to the state.\<close>

definition on_state :: "(gerr + 'st State) \<Rightarrow> ('st, 'id) Ledger \<Rightarrow> gerr + ('st, 'id) Ledger" where
  "on_state r L = rbind r (\<lambda>s. Inr (L\<lparr>l_state := s\<rparr>))"

definition Ledger_TxBegin :: "('st, 'id) Ledger \<Rightarrow> gostring \<Rightarrow> gerr + ('st, 'id) Ledger" where
  "Ledger_TxBegin L txUUID = on_state (TxBegin (l_state L) txUUID) L"

definition Ledger_TxFinished :: "(bytes \<Rightarrow> bytes) \<Rightarrow> ('st, 'id) Ledger \<Rightarrow> gostring \<Rightarrow> bool \<Rightarrow> gerr + ('st, 'id) Ledger" where
  "Ledger_TxFinished H L txUUID txSuccessful = on_state (TxFinish H (l_state L) txUUID txSuccessful) L"

definition GetTempStateHash ::
  "('st, 'db) HashableState \<Rightarrow> 'db \<Rightarrow> ('st, 'id) Ledger \<Rightarrow> (gerr + slice) \<times> ('st, 'id) Ledger" where
  "GetTempStateHash HS db L = (let (r, s) = State_GetHash HS db (l_state L) in (r, L\<lparr>l_state := s\<rparr>))"

definition GetTempStateHashWithTxDeltaStateHashes ::
  "('st, 'db) HashableState \<Rightarrow> 'db \<Rightarrow> ('st, 'id) Ledger \<Rightarrow>
     (gerr + slice \<times> (gostring, slice) gomap) \<times> ('st, 'id) Ledger" where
  "GetTempStateHashWithTxDeltaStateHashes HS db L =
     (let (r, s) = State_GetHash HS db (l_state L)
      in (rbind r (\<lambda>stateHash. Inr (stateHash, txStateDeltaHash s)), L\<lparr>l_state := s\<rparr>))"

definition GetState ::
  "('st, 'db) HashableState \<Rightarrow> 'db \<Rightarrow> ('st, 'id) Ledger \<Rightarrow> gostring \<Rightarrow> gostring \<Rightarrow> bool \<Rightarrow> gerr + slice" where
  "GetState HS db L chaincodeID key committed = State_Get HS db (l_state L) chaincodeID key committed"

definition SetState ::
  "('st, 'db) HashableState \<Rightarrow> 'db \<Rightarrow> ('st, 'id) Ledger \<Rightarrow> gostring \<Rightarrow> gostring \<Rightarrow> slice \<Rightarrow> gerr + ('st, 'id) Ledger" where
  "SetState HS db L chaincodeID key val = on_state (State_Set HS db (l_state L) chaincodeID key val) L"

definition Ledger_DeleteState ::
  "('st, 'db) HashableState \<Rightarrow> 'db \<Rightarrow> ('st, 'id) Ledger \<Rightarrow> gostring \<Rightarrow> gostring \<Rightarrow> gerr + ('st, 'id) Ledger" where
  "Ledger_DeleteState HS db L chaincodeID key = on_state (State_Delete HS db (l_state L) chaincodeID key) L"

subsection \<open>State deltas\<close>

definition GetBlockchainSize :: "('st, 'id) Ledger \<Rightarrow> u64" where
  "GetBlockchainSize L = bc_size (l_blockchain L)"

definition GetStateDelta ::
  "'db gorocksdb \<Rightarrow> 'db \<Rightarrow> ('st, 'id) Ledger \<Rightarrow> u64 \<Rightarrow> gerr + StateDelta option" where
  "GetStateDelta D db L blockNumber =
     (if blockNumber \<ge> GetBlockchainSize L then Inl ErrOutOfBounds else FetchStateDeltaFromDB D db blockNumber)"

definition ApplyStateDelta ::
  "('st, 'id) Ledger \<Rightarrow> 'id option \<Rightarrow> StateDelta \<Rightarrow> gerr option \<times> ('st, 'id) Ledger" where
  "ApplyStateDelta L bid delta = (case checkValidIDBegin L of
      Some e \<Rightarrow> (Some e, L)
    | None \<Rightarrow> (None, L\<lparr>currentID := bid, l_state := State_ApplyStateDelta (l_state L) delta\<rparr>))"

text \<open>The deferred reset runs with \<open>true\<close> whether or not the write succeeded.\<close>

definition CommitStateDelta ::
  "('st, 'db) HashableState \<Rightarrow> 'db gorocksdb \<Rightarrow> 'db \<Rightarrow> ('st, 'id) Ledger \<Rightarrow> 'id option \<Rightarrow>
     gerr option \<times> 'db \<times> ('st, 'id) Ledger" where
  "CommitStateDelta HS D db L bid =
     (case checkValidIDCommitORRollback L bid of
        Some e \<Rightarrow> (Some e, db, L)
      | None \<Rightarrow>
          (case State_CommitStateDelta HS D db (l_state L) of (r, s) \<Rightarrow>
             let db' = (case r of Inl _ \<Rightarrow> db | Inr db' \<Rightarrow> db');
                 err = (case r of Inl e \<Rightarrow> Some e | Inr _ \<Rightarrow> None)
             in case resetForNextTxGroup HS (L\<lparr>l_state := s\<rparr>) True of
                  (Some p, L) \<Rightarrow> (Some p, db', L)
                | (None, L) \<Rightarrow> (err, db', L)))"

definition RollbackStateDelta ::
  "('st, 'db) HashableState \<Rightarrow> ('st, 'id) Ledger \<Rightarrow> 'id option \<Rightarrow> gerr option \<times> ('st, 'id) Ledger" where
  "RollbackStateDelta HS L bid = (case checkValidIDCommitORRollback L bid of
      Some e \<Rightarrow> (Some e, L) | None \<Rightarrow> resetForNextTxGroup HS L False)"

definition DeleteALLStateKeysAndValues ::
  "('st, 'db) HashableState \<Rightarrow> 'db gorocksdb \<Rightarrow> 'db \<Rightarrow> ('st, 'id) Ledger \<Rightarrow> (gerr + 'db) \<times> ('st, 'id) Ledger" where
  "DeleteALLStateKeysAndValues HS D db L =
     (let (r, s) = State_DeleteState HS D db (l_state L) in (r, L\<lparr>l_state := s\<rparr>))"

subsection \<open>The chain\<close>

definition GetBlockchainInfo :: "protolib \<Rightarrow> 'db gorocksdb \<Rightarrow> 'db \<Rightarrow> ('st, 'id) Ledger \<Rightarrow> gerr + BlockchainInfo" where
  "GetBlockchainInfo P D db L = bc_getBlockchainInfo P D db (l_blockchain L)"

definition GetBlockByNumber :: "protolib \<Rightarrow> 'db gorocksdb \<Rightarrow> 'db \<Rightarrow> ('st, 'id) Ledger \<Rightarrow> u64 \<Rightarrow> gerr + Block option" where
  "GetBlockByNumber P D db L blockNumber =
     (if blockNumber \<ge> GetBlockchainSize L then Inl ErrOutOfBounds else bc_getBlock P D db blockNumber)"

definition GetTransactionByUUID :: "protolib \<Rightarrow> 'db gorocksdb \<Rightarrow> 'db \<Rightarrow> gostring \<Rightarrow> gerr + Transaction" where
  "GetTransactionByUUID P D db txUUID = getTransactionByUUID P D db txUUID"

definition PutRawBlock ::
  "protolib \<Rightarrow> (bytes \<Rightarrow> bytes) \<Rightarrow> 'db gorocksdb \<Rightarrow> 'db \<Rightarrow> ('st, 'id) Ledger \<Rightarrow> Block \<Rightarrow> u64 \<Rightarrow>
     gerr option \<times> 'db \<times> ('st, 'id) Ledger" where
  "PutRawBlock P H D db L block blockNumber =
     (case persistRawBlock P H D db (l_blockchain L) block blockNumber of
        (Inl e, bc) \<Rightarrow> (Some e, db, L\<lparr>l_blockchain := bc\<rparr>)
      | (Inr db', bc) \<Rightarrow> (None, db', L\<lparr>l_blockchain := bc\<rparr>))"

text \<open>The loop of \<open>VerifyChain\<close>: the block it stops at, and the error if there is one.\<close>

definition verifyBlock ::
  "protolib \<Rightarrow> (bytes \<Rightarrow> bytes) \<Rightarrow> 'db gorocksdb \<Rightarrow> 'db \<Rightarrow> ('st, 'id) Ledger \<Rightarrow> u64 \<Rightarrow> (u64 \<times> gerr option) option" where
  "verifyBlock P H D db L i =
     (case GetBlockByNumber P D db L i of
        Inl e \<Rightarrow> Some (i, Some (ErrMsg ''Error fetching block''))
      | Inr None \<Rightarrow> Some (i, Some (ErrMsg ''Block is nil''))
      | Inr (Some currentBlock) \<Rightarrow>
          (case GetBlockByNumber P D db L (i - 1) of
             Inl e \<Rightarrow> Some (i - 1, Some (ErrMsg ''Error fetching block''))
           | Inr None \<Rightarrow> Some (i - 1, Some (ErrMsg ''Block is nil''))
           | Inr (Some previousBlock) \<Rightarrow>
               (case Block_GetHash P H previousBlock of
                  Inl e \<Rightarrow> Some (i - 1, Some (ErrMsg ''Error calculating block hash''))
                | Inr previousBlockHash \<Rightarrow>
                    if previousBlockHash \<noteq> PreviousBlockHash currentBlock then Some (i, None) else None)))"

function VerifyChain_loop ::
  "protolib \<Rightarrow> (bytes \<Rightarrow> bytes) \<Rightarrow> 'db gorocksdb \<Rightarrow> 'db \<Rightarrow> ('st, 'id) Ledger \<Rightarrow> u64 \<Rightarrow> u64 \<Rightarrow> u64 \<times> gerr option" where
  "VerifyChain_loop P H D db L lowBlock i =
     (if i > lowBlock then
        (case verifyBlock P H D db L i of
           Some r \<Rightarrow> r
         | None \<Rightarrow> VerifyChain_loop P H D db L lowBlock (i - 1))
      else (0, None))"
  by pat_completeness auto
termination
proof (relation "measure (\<lambda>(P, H, D, db, L, low, i). unat i)")
  fix i low :: u64
  assume "i > low"
  then have "i \<noteq> 0" by auto
  then show "((P, H, D, db, L, low, i - 1), (P, H, D, db, L, low, i)) \<in> measure (\<lambda>(P, H, D, db, L, low, i). unat i)"
    for P H D db L
    by (simp add: unat_minus_one unat_gt_0)
qed simp

declare VerifyChain_loop.simps [simp del]

definition VerifyChain ::
  "protolib \<Rightarrow> (bytes \<Rightarrow> bytes) \<Rightarrow> 'db gorocksdb \<Rightarrow> 'db \<Rightarrow> ('st, 'id) Ledger \<Rightarrow> u64 \<Rightarrow> u64 \<Rightarrow> u64 \<times> gerr option" where
  "VerifyChain P H D db L highBlock lowBlock =
     (if highBlock \<ge> GetBlockchainSize L then (highBlock, Some ErrOutOfBounds)
      else if highBlock \<le> lowBlock then (lowBlock, Some ErrOutOfBounds)
      else VerifyChain_loop P H D db L lowBlock highBlock)"

end
