(* ===== verification/LedgerInv.thy ===== *)
theory LedgerInv
  imports Ledger
begin

text \<open>
  The invariant of the ledger and what the operations of a transaction batch do to it, proved for
  every state implementation that satisfies the contract \<open>forward_state\<close>.
\<close>

subsection \<open>The invariant\<close>

text \<open>The stored deltas are those of the last \<open>hist\<close> blocks.\<close>

definition delta_window :: "dbmap \<Rightarrow> nat \<Rightarrow> u64 \<Rightarrow> bool" where
  "delta_window m len hist \<longleftrightarrow> (\<forall>n :: u64. m StateDeltaCF (encodeStateDeltaKey n) \<noteq> None \<longleftrightarrow>
     unat n < len \<and> len \<le> unat n + unat hist)"

definition ledger_inv ::
  "protolib \<Rightarrow> (bytes \<Rightarrow> bytes) \<Rightarrow> ('db \<Rightarrow> dbmap) \<Rightarrow> ('db \<Rightarrow> kvstate) \<Rightarrow> (kvstate \<Rightarrow> slice) \<Rightarrow> ('db \<Rightarrow> 'st \<Rightarrow> bool) \<Rightarrow>
     ('db \<Rightarrow> 'st \<Rightarrow> updates \<Rightarrow> bool) \<Rightarrow> 'db \<Rightarrow> ('st, 'id) Ledger \<Rightarrow> Block list \<Rightarrow> bool" where
  "ledger_inv P H content view digest clean prepared db L bs \<longleftrightarrow>
     chain_db P H (content db) bs \<and> linked P H bs \<and> chain_tip P H bs (l_blockchain L) \<and>
     bc_lastProcessedBlock (l_blockchain L) = None \<and>
     delta_window (content db) (length bs) (historyStateDeltaSize (l_state L)) \<and>
     state_inv view clean prepared db (l_state L) \<and>
     (bs \<noteq> [] \<longrightarrow> StateHash (last bs) = sbytes (digest (view db)))"

lemma encodeStateDeltaKey_inj [simp]: "encodeStateDeltaKey a = encodeStateDeltaKey b \<longleftrightarrow> a = b"
  by (simp add: encodeStateDeltaKey_def)

lemma delta_window_step:
  assumes "delta_window m len hist" "Suc len < 2 ^ 64"
    and "m' StateDeltaCF = (let f = (m StateDeltaCF)(encodeStateDeltaKey (of_nat len) \<mapsto> d)
      in if hist \<le> of_nat len then f(encodeStateDeltaKey (of_nat len - hist) := None) else f)"
  shows "delta_window m' (Suc len) hist"
  unfolding delta_window_def
proof
  fix n :: u64
  have len: "unat (of_nat len :: u64) = len" using assms(2) by (intro unat_of_nat_u64) simp
  then have n: "n = of_nat len \<longleftrightarrow> unat n = len" by (metis word_unat_eq_iff)
  have le: "hist \<le> of_nat len \<longleftrightarrow> unat hist \<le> len" by (simp add: word_le_nat_alt len)
  have del: "n = of_nat len - hist \<longleftrightarrow> unat n = len - unat hist" if "unat hist \<le> len"
    using that len by (simp add: word_unat_eq_iff unat_sub word_le_nat_alt)
  show "m' StateDeltaCF (encodeStateDeltaKey n) \<noteq> None \<longleftrightarrow> unat n < Suc len \<and> Suc len \<le> unat n + unat hist"
  proof (cases "unat hist \<le> len")
    case True
    then have "m' StateDeltaCF (encodeStateDeltaKey n) \<noteq> None \<longleftrightarrow>
        unat n \<noteq> len - unat hist \<and> (unat n = len \<or> m StateDeltaCF (encodeStateDeltaKey n) \<noteq> None)"
      using assms(3) n del le by (simp add: Let_def)
    with assms(1) True show ?thesis by (auto simp: delta_window_def)
  next
    case False
    then have "m' StateDeltaCF (encodeStateDeltaKey n) \<noteq> None \<longleftrightarrow>
        unat n = len \<or> m StateDeltaCF (encodeStateDeltaKey n) \<noteq> None"
      using assms(3) n le by (simp add: Let_def)
    with assms(1) False show ?thesis by (auto simp: delta_window_def)
  qed
qed

text \<open>A column family sees only the operations on it.\<close>

lemma apply_batch_filter:
  "m f = m' f \<Longrightarrow> apply_batch m b f = apply_batch m' (filter (\<lambda>op. fst (op_target op) = f) b) f"
proof (induction b arbitrary: m m')
  case (Cons op b)
  show ?case
  proof (cases "fst (op_target op) = f")
    case True
    then have "apply_op m op f = apply_op m' op f" using Cons.prems by (cases op) auto
    from Cons.IH [of "apply_op m op" "apply_op m' op", OF this] True show ?thesis by simp
  next
    case False
    then have "apply_op m op f = m' f" using Cons.prems by (cases op) auto
    from Cons.IH [of "apply_op m op" m', OF this] False show ?thesis by simp
  qed
qed simp

lemma addIndexData_cf: "op \<in> set (addIndexDataForPersistence b n h []) \<Longrightarrow> fst (op_target op) = IndexesCF"
  using addIndexData_eq [of b n h "[]"] by (fastforce simp: tx_ops_def)

lemma filter_index_ops:
  "filter (\<lambda>op. fst (op_target op) = f) (addIndexDataForPersistence b n h []) =
    (if f = IndexesCF then addIndexDataForPersistence b n h [] else [])"
  using addIndexData_cf [of _ b n h] by (auto simp: filter_empty_conv filter_id_conv)

lemma filter_state_ops:
  "\<forall>op \<in> set ops. fst (op_target op) = StateCF \<Longrightarrow>
    filter (\<lambda>op. fst (op_target op) = f) ops = (if f = StateCF then ops else [])"
  by (auto simp: filter_empty_conv filter_id_conv)

subsection \<open>The operations of a batch\<close>

text \<open>The block that \<open>CommitTxBatch\<close> builds.\<close>

definition committed_block :: "Timestamp \<Rightarrow> blockchain \<Rightarrow> Transaction list \<Rightarrow> TransactionResult list \<Rightarrow> bytes \<Rightarrow> slice \<Rightarrow> Block" where
  "committed_block now bc txs results metadata h =
     (NewBlock txs metadata)\<lparr>PreviousBlockHash := bc_previousBlockHash bc, StateHash := sbytes h,
       bl_NonHashData := Some \<lparr>LocalLedgerCommitTimestamp = Some now, TransactionResults = results\<rparr>\<rparr>"

lemma committed_block_sel [simp]:
  "PreviousBlockHash (committed_block now bc txs results metadata h) = bc_previousBlockHash bc"
  "StateHash (committed_block now bc txs results metadata h) = sbytes h"
  "Transactions (committed_block now bc txs results metadata h) = txs"
  by (simp_all add: committed_block_def NewBlock_def)

definition batch_closed :: "('st, 'id) Ledger \<Rightarrow> bool" where
  "batch_closed L \<longleftrightarrow> currentID L = None \<and> \<not> txInProgress (l_state L) \<and> StateDelta_IsEmpty (stateDelta (l_state L))"

text \<open>The two parts of the batch that do not depend on the state implementation.\<close>

definition block_batch :: "Block \<Rightarrow> u64 \<Rightarrow> bytes \<Rightarrow> bytes \<Rightarrow> WriteBatch" where
  "block_batch b n bytes h = PutCF BlockchainCF (encodeBlockNumberDBKey n) bytes #
     PutCF BlockchainCF blockCountKey (encodeUint64 (n + 1)) # addIndexDataForPersistence b n h []"

definition delta_batch :: "u64 \<Rightarrow> u64 \<Rightarrow> bytes \<Rightarrow> WriteBatch" where
  "delta_batch hist n d = PutCF StateDeltaCF (encodeStateDeltaKey n) d #
     (if hist \<le> n then [DeleteCF StateDeltaCF (encodeStateDeltaKey (n - hist))] else [])"

definition tip_with :: "blockchain \<Rightarrow> Block \<Rightarrow> bytes \<Rightarrow> blockchain" where
  "tip_with bc b h = bc\<lparr>bc_lastProcessedBlock :=
     Some \<lparr>lpb_block = b, lpb_blockNumber = bc_size bc, lpb_blockHash = h\<rparr>\<rparr>"

lemma addPersistence_eq:
  "addPersistenceChangesForNewBlock P H now bc ((NewBlock txs metadata)\<lparr>bl_NonHashData :=
       Some \<lparr>LocalLedgerCommitTimestamp = None, TransactionResults = results\<rparr>\<rparr>) h [] =
    (let b = committed_block now bc txs results metadata h
     in rbind (Block_GetHash P H b) (\<lambda>blockHash.
        rbind (Block_Bytes P b) (\<lambda>bytes.
          Inr (bc_size bc, block_batch b (bc_size bc) bytes blockHash, tip_with bc b blockHash))))"
proof -
  have b: "(buildBlock bc ((NewBlock txs metadata)\<lparr>bl_NonHashData :=
       Some \<lparr>LocalLedgerCommitTimestamp = None, TransactionResults = results\<rparr>\<rparr>) h)\<lparr>bl_NonHashData :=
     Some (commitTimestamp now (bl_NonHashData (buildBlock bc ((NewBlock txs metadata)\<lparr>bl_NonHashData :=
       Some \<lparr>LocalLedgerCommitTimestamp = None, TransactionResults = results\<rparr>\<rparr>) h)))\<rparr> =
     committed_block now bc txs results metadata h"
    by (simp add: buildBlock_def SetPreviousBlockHash_def committed_block_def commitTimestamp_def NewBlock_def)
  show ?thesis
    unfolding addPersistenceChangesForNewBlock_def Let_def b
    by (simp add: addIndexData_append [of _ _ _ "[_, _]"] block_batch_def tip_with_def)
qed

text \<open>\<open>CommitTxBatch\<close> up to the write, when the block can be encoded and when it cannot.\<close>

definition finishCommit :: "('st, 'db) HashableState \<Rightarrow> 'db \<Rightarrow> ('st, 'id) Ledger \<Rightarrow> gerr option \<times> 'db \<times> ('st, 'id) Ledger" where
  "finishCommit HS db' L = (case resetForNextTxGroup HS L True of
      (Some p, L) \<Rightarrow> (Some p, db', L)
    | (None, L) \<Rightarrow> (case blockPersistenceStatus (l_blockchain L) True of
         Inl p \<Rightarrow> (Some p, db', L) | Inr bc \<Rightarrow> (None, db', L\<lparr>l_blockchain := bc\<rparr>)))"

lemma commit_eval:
  assumes b: "b = committed_block now (l_blockchain L) txs results metadata sh"
    and "currentID L = bid" "State_GetHash HS db (l_state L) = (Inr sh, s1)"
    and "Block_GetHash P H b = Inr h" "Marshal P b = Inr bytes"
    and "State_AddChangesForPersistence HS db s1 (bc_size (l_blockchain L))
      (block_batch b (bc_size (l_blockchain L)) bytes h) = (None, batch, s2)"
  shows "CommitTxBatch P H HS D now db L bid txs results metadata =
    (case Write D db batch of
       Inl e \<Rightarrow> abortBatch HS db (L\<lparr>l_blockchain := tip_with (l_blockchain L) b h, l_state := s2\<rparr>) e
     | Inr db' \<Rightarrow> finishCommit HS db' (L\<lparr>l_blockchain := tip_with (l_blockchain L) b h, l_state := s2\<rparr>))"
proof -
  have "addPersistenceChangesForNewBlock P H now (l_blockchain L) ((NewBlock txs metadata)\<lparr>bl_NonHashData :=
      Some \<lparr>LocalLedgerCommitTimestamp = None, TransactionResults = results\<rparr>\<rparr>) sh [] =
    Inr (bc_size (l_blockchain L), block_batch b (bc_size (l_blockchain L)) bytes h, tip_with (l_blockchain L) b h)"
    using assms(4,5) unfolding addPersistence_eq Let_def b [symmetric] by (simp add: Block_Bytes_def)
  with assms(2,3,6) show ?thesis
    unfolding CommitTxBatch_def finishCommit_def checkValidIDCommitORRollback_def by (simp add: Let_def)
qed

lemma commit_eval_unencodable:
  assumes "currentID L = bid" "State_GetHash HS db (l_state L) = (Inr sh, s1)"
    and "rbind (Block_GetHash P H (committed_block now (l_blockchain L) txs results metadata sh))
      (\<lambda>h. rbind (Block_Bytes P (committed_block now (l_blockchain L) txs results metadata sh)) (\<lambda>bytes. Inr (h, bytes))) = Inl e"
  shows "CommitTxBatch P H HS D now db L bid txs results metadata = abortBatch HS db (L\<lparr>l_state := s1\<rparr>) e"
proof -
  have "addPersistenceChangesForNewBlock P H now (l_blockchain L) ((NewBlock txs metadata)\<lparr>bl_NonHashData :=
      Some \<lparr>LocalLedgerCommitTimestamp = None, TransactionResults = results\<rparr>\<rparr>) sh [] = Inl e"
    using assms(3) unfolding addPersistence_eq Let_def
    by (auto simp: rbind_def simp del: Block_Bytes_Inr split: sum.splits)
  with assms(1,2) show ?thesis by (simp add: CommitTxBatch_def checkValidIDCommitORRollback_def)
qed

text \<open>The batch of a commit, by column family.\<close>

lemma commit_batch:
  assumes "\<forall>op \<in> set ops. fst (op_target op) = StateCF"
    and m': "m' = apply_batch m (block_batch b n bytes h @ ops @ delta_batch hist n d)"
  shows "m' BlockchainCF = (m BlockchainCF)(encodeBlockNumberDBKey n \<mapsto> bytes, blockCountKey \<mapsto> encodeUint64 (n + 1))"
    and "m' IndexesCF = apply_batch m (addIndexDataForPersistence b n h []) IndexesCF"
    and "m' StateCF = apply_batch m ops StateCF"
    and "m' StateDeltaCF = (let f = (m StateDeltaCF)(encodeStateDeltaKey n \<mapsto> d)
      in if hist \<le> n then f(encodeStateDeltaKey (n - hist) := None) else f)"
  unfolding m'
  by (subst apply_batch_filter [OF refl],
      simp add: block_batch_def delta_batch_def filter_index_ops filter_state_ops [OF assms(1)] Let_def)+

context forward_state
begin

abbreviation linv where
  "linv P H db L bs \<equiv> ledger_inv P H content view digest clean prepared db L bs"

text \<open>A batch that fails leaves the ledger as it was before the batch.\<close>

lemma abort_ok:
  assumes "linv P H db L0 bs" "\<not> txInProgress (l_state L)"
    and "l_blockchain L = (l_blockchain L0)\<lparr>bc_lastProcessedBlock := x\<rparr>" "state_inv view clean prepared db (l_state L)"
    and "historyStateDeltaSize (l_state L) = historyStateDeltaSize (l_state L0)"
  shows "\<exists>L'. abortBatch HS db L e = (Some e, db, L') \<and> linv P H db L' bs \<and> batch_closed L' \<and>
    abs_state (view db) (l_state L') = spec_rollback (abs_state (view db) (l_state L))"
proof -
  obtain s where s: "ClearInMemoryChanges HS (l_state L) False = (None, s)" "state_inv view clean prepared db s"
    "\<not> txInProgress s" "StateDelta_IsEmpty (stateDelta s)" "historyStateDeltaSize s = historyStateDeltaSize (l_state L)"
    "abs_state (view db) s = spec_rollback (abs_state (view db) (l_state L))"
    using Rollback_ok [OF assms(4,2)] by blast
  let ?L' = "L\<lparr>currentID := None, l_state := s, l_blockchain := (l_blockchain L)\<lparr>bc_lastProcessedBlock := None\<rparr>\<rparr>"
  have "abortBatch HS db L e = (Some e, db, ?L')"
    using s(1) by (simp add: abortBatch_def resetForNextTxGroup_def blockPersistenceStatus_def)
  moreover have "linv P H db ?L' bs"
    using assms s by (simp add: ledger_inv_def chain_tip_def)
  ultimately show ?thesis using s by (auto simp: batch_closed_def)
qed

text \<open>After the write: the chain has one more block and the state is the one of the batch.\<close>

lemma commit_written:
  assumes inv: "linv P H db L bs"
    and D: "rocksdb_ok D content" and P: "proto_ok P" and len: "Suc (length bs) < 2 ^ 64"
    and s2: "state_inv view clean prepared db s2" "\<not> txInProgress s2"
      "historyStateDeltaSize s2 = historyStateDeltaSize (l_state L)"
    and b: "Block_GetHash P H b = Inr h" "Marshal P b = Inr bytes" "bl_NonHashData b \<noteq> None"
      "PreviousBlockHash b = bc_previousBlockHash (l_blockchain L)" "StateHash b = sbytes (digest new)"
    and ops: "\<forall>op \<in> set ops. fst (op_target op) = StateCF"
      "\<forall>db'. content db' StateCF = apply_batch (content db) ops StateCF \<longrightarrow> view db' = new \<and>
         (\<exists>impl'. hs_ClearWorkingSet HS (stateImpl s2) True = (None, impl') \<and> clean db' impl')"
    and wr: "Write D db (block_batch b (of_nat (length bs)) bytes h @ ops @
        delta_batch (historyStateDeltaSize s2) (of_nat (length bs)) d) = Inr db'"
    and L2: "l_state L2 = s2" "l_blockchain L2 = tip_with (l_blockchain L) b h"
  shows "\<exists>L'. finishCommit HS db' L2 = (None, db', L') \<and> batch_closed L' \<and>
    linv P H db' L' (bs @ [b]) \<and> view db' = new \<and>
    content db' StateDeltaCF (encodeStateDeltaKey (of_nat (length bs))) =
      (if historyStateDeltaSize s2 = 0 then None else Some d)"
proof -
  note m' = commit_batch [OF ops(1) rocksdb_write [OF D wr]]
  from ops(2) m'(3) obtain impl' where v: "view db' = new"
    "hs_ClearWorkingSet HS (stateImpl s2) True = (None, impl')" "clean db' impl'" by blast
  obtain s3 where s3: "ClearInMemoryChanges HS s2 True = (None, s3)" "state_inv view clean prepared db' s3"
    "\<not> txInProgress s3" "StateDelta_IsEmpty (stateDelta s3)" "historyStateDeltaSize s3 = historyStateDeltaSize s2"
    using Clear_after_commit [OF s2(1,2) v(2,3)] by blast
  have chain: "chain_db P H (content db) bs" "linked P H bs" "chain_tip P H bs (l_blockchain L)"
    "delta_window (content db) (length bs) (historyStateDeltaSize s2)"
    using inv s2(3) by (simp_all add: ledger_inv_def)
  have "chain_db P H (content db') (bs @ [b])"
  proof (rule chain_db_extend [OF chain(1) len b(2) _ b(1)])
    show "bytes \<noteq> []" using P b(2,3) by (auto simp: proto_ok_def)
  qed (use m'(1,2) in \<open>simp_all add: add.commute\<close>)
  moreover have "linked P H (bs @ [b])" by (rule linked_snoc [OF chain(2,3) b(4)])
  moreover have "delta_window (content db') (Suc (length bs)) (historyStateDeltaSize s2)"
    by (rule delta_window_step [where m' = "content db'", OF chain(4) len m'(4)])
  moreover have "content db' StateDeltaCF (encodeStateDeltaKey (of_nat (length bs))) =
      (if historyStateDeltaSize s2 = 0 then None else Some d)"
    unfolding m'(4) by (auto simp: Let_def)
  ultimately show ?thesis
    using s3 v(1) b(1,5) chain(3) L2
    by (simp add: finishCommit_def resetForNextTxGroup_def blockPersistenceStatus_def ledger_inv_def chain_tip_def
        batch_closed_def tip_with_def add.commute)
qed

text \<open>A block that can be encoded is written or the batch is rolled back.\<close>

lemma commit_encoded:
  assumes inv: "linv P H db L bs"
    and D: "rocksdb_ok D content" and P: "proto_ok P" and len: "Suc (length bs) < 2 ^ 64" and bid: "currentID L = bid"
    and gh: "State_GetHash HS db (l_state L) = (Inr (digest new), s1)" and inv1: "state_inv view clean prepared db s1"
    and s1: "\<not> txInProgress s1" "historyStateDeltaSize s1 = historyStateDeltaSize (l_state L)"
      "new = apply_updates (updates_of (stateDelta s1)) (view db)"
    and b: "b = committed_block now (l_blockchain L) txs results metadata (digest new)"
    and h: "Block_GetHash P H b = Inr h" "Marshal P b = Inr bytes"
    and run: "CommitTxBatch P H HS D now db L bid txs results metadata = (r, db', L')"
  shows "batch_closed L' \<and> ((\<forall>batch e. Write D db batch \<noteq> Inl e) \<longrightarrow> r = None) \<and>
    (case r of
       None \<Rightarrow> linv P H db' L' (bs @ [b]) \<and> view db' = new \<and>
         content db' StateDeltaCF (encodeStateDeltaKey (of_nat (length bs))) =
           (if historyStateDeltaSize s1 = 0 then None else Some (StateDelta_Marshal (stateDelta s1)))
     | Some e \<Rightarrow> db' = db \<and> linv P H db L' bs \<and>
         abs_state (view db) (l_state L') = spec_rollback (abs_state (view db) s1))"
proof -
  let ?n = "of_nat (length bs) :: u64"
  have sz: "bc_size (l_blockchain L) = ?n" using inv by (simp add: ledger_inv_def chain_tip_def)
  let ?bb = "block_batch b ?n bytes h"
  from AddChanges_ok [OF inv1, of ?n ?bb] obtain ops impl2 where
    ac: "State_AddChangesForPersistence HS db s1 ?n ?bb =
      (None, ?bb @ ops @ delta_batch (historyStateDeltaSize s1) ?n (StateDelta_Marshal (stateDelta s1)),
       s1\<lparr>stateImpl := impl2, updateStateImpl := False\<rparr>)"
    and ops: "\<forall>op \<in> set ops. fst (op_target op) = StateCF"
      "\<forall>db'. content db' StateCF = apply_batch (content db) ops StateCF \<longrightarrow> view db' = new \<and>
         (\<exists>impl'. hs_ClearWorkingSet HS impl2 True = (None, impl') \<and> clean db' impl')"
    and inv2: "state_inv view clean prepared db (s1\<lparr>stateImpl := impl2, updateStateImpl := False\<rparr>)"
    unfolding s1(3) delta_batch_def by blast
  define s2 where "s2 = s1\<lparr>stateImpl := impl2, updateStateImpl := False\<rparr>"
  have s2: "\<not> txInProgress s2" "historyStateDeltaSize s2 = historyStateDeltaSize (l_state L)" "stateImpl s2 = impl2"
    "abs_state (view db) s2 = abs_state (view db) s1"
    using s1 by (simp_all add: s2_def txInProgress_def abs_state_def)
  note inv2 = inv2 [folded s2_def]
  let ?batch = "?bb @ ops @ delta_batch (historyStateDeltaSize s2) ?n (StateDelta_Marshal (stateDelta s1))"
  define L2 where "L2 = L\<lparr>l_blockchain := tip_with (l_blockchain L) b h, l_state := s2\<rparr>"
  have ac': "State_AddChangesForPersistence HS db s1 ?n ?bb = (None, ?batch, s2)"
    unfolding ac s2_def [symmetric] using s1(2) s2(2) by simp
  note eq = commit_eval [OF b bid gh h ac' [folded sz], folded L2_def]
  show ?thesis
  proof (cases "Write D db ?batch")
    case (Inl e)
    have "\<exists>L'. abortBatch HS db L2 e = (Some e, db, L') \<and> linv P H db L' bs \<and> batch_closed L' \<and>
        abs_state (view db) (l_state L') = spec_rollback (abs_state (view db) (l_state L2))"
      by (rule abort_ok [OF inv]) (use s2 inv2 in \<open>simp_all add: L2_def tip_with_def\<close>)
    with run eq [of D] Inl s2(4) sz show ?thesis by (auto simp: L2_def)
  next
    case (Inr db1)
    have "\<exists>L'. finishCommit HS db1 L2 = (None, db1, L') \<and> batch_closed L' \<and> linv P H db1 L' (bs @ [b]) \<and> view db1 = new \<and>
        content db1 StateDeltaCF (encodeStateDeltaKey ?n) =
          (if historyStateDeltaSize s2 = 0 then None else Some (StateDelta_Marshal (stateDelta s1)))"
      by (rule commit_written [OF inv D P len inv2 s2(1,2) h _ _ _ ops [folded s2(3)] Inr])
        (simp_all add: b L2_def committed_block_def)
    with run eq [of D] Inr s2(2) s1(2) sz show ?thesis by auto
  qed
qed

lemma commit_ok:
  assumes inv: "linv P H db L bs"
    and D: "rocksdb_ok D content" and P: "proto_ok P" and tx: "\<not> txInProgress (l_state L)"
    and bid: "currentID L = bid" and len: "Suc (length bs) < 2 ^ 64"
    and run: "CommitTxBatch P H HS D now db L bid txs results metadata = (r, db', L')"
  defines "new \<equiv> apply_updates (updates_of (stateDelta (l_state L))) (view db)"
  defines "b \<equiv> committed_block now (l_blockchain L) txs results metadata (digest new)"
  shows "batch_closed L' \<and>
    ((\<exists>h. Block_GetHash P H b = Inr h) \<and> (\<forall>batch e. Write D db batch \<noteq> Inl e) \<longrightarrow> r = None) \<and>
    (case r of
       None \<Rightarrow> linv P H db' L' (bs @ [b]) \<and> view db' = new \<and>
         content db' StateDeltaCF (encodeStateDeltaKey (of_nat (length bs))) =
           (if historyStateDeltaSize (l_state L) = 0 then None else Some (StateDelta_Marshal (stateDelta (l_state L))))
     | Some e \<Rightarrow> db' = db \<and> linv P H db L' bs \<and>
         abs_state (view db) (l_state L') = spec_rollback (abs_state (view db) (l_state L)))"
proof -
  have "state_inv view clean prepared db (l_state L)" using inv by (simp add: ledger_inv_def)
  from GetHash_ok [OF this] obtain impl1 where
    gh: "State_GetHash HS db (l_state L) = (Inr (digest new), (l_state L)\<lparr>stateImpl := impl1, updateStateImpl := False\<rparr>)"
    and inv1: "state_inv view clean prepared db ((l_state L)\<lparr>stateImpl := impl1, updateStateImpl := False\<rparr>)"
    unfolding new_def by blast
  define s1 where "s1 = (l_state L)\<lparr>stateImpl := impl1, updateStateImpl := False\<rparr>"
  have s1: "\<not> txInProgress s1" "stateDelta s1 = stateDelta (l_state L)"
    "historyStateDeltaSize s1 = historyStateDeltaSize (l_state L)"
    "abs_state (view db) s1 = abs_state (view db) (l_state L)"
    using tx by (simp_all add: s1_def txInProgress_def abs_state_def)
  note gh = gh [folded s1_def] and inv1 = inv1 [folded s1_def]
  have new: "new = apply_updates (updates_of (stateDelta s1)) (view db)" by (simp add: new_def s1(2))
  show ?thesis
  proof (cases "rbind (Block_GetHash P H b) (\<lambda>h. rbind (Block_Bytes P b) (\<lambda>bytes. Inr (h, bytes)))")
    case (Inl e)
    have "\<exists>L'. abortBatch HS db (L\<lparr>l_state := s1\<rparr>) e = (Some e, db, L') \<and> linv P H db L' bs \<and> batch_closed L' \<and>
        abs_state (view db) (l_state L') = spec_rollback (abs_state (view db) (l_state (L\<lparr>l_state := s1\<rparr>)))"
      by (rule abort_ok [OF inv, where x = None]) (use s1 inv1 inv in \<open>simp_all add: ledger_inv_def\<close>)
    moreover have "Block_GetHash P H b \<noteq> Inr h" for h
    proof
      assume g: "Block_GetHash P H b = Inr h"
      then obtain bytes where "Marshal P b = Inr bytes" using Block_GetHash_Inr [OF P] by blast
      with g Inl show False by (simp add: Block_Bytes_def)
    qed
    ultimately show ?thesis
      using run commit_eval_unencodable [OF bid gh Inl [unfolded b_def], of D] s1(4) by auto
  next
    case (Inr hb)
    then obtain h bytes where h: "Block_GetHash P H b = Inr h" "Marshal P b = Inr bytes"
      by (auto simp: rbind_Inr_conv)
    from commit_encoded [OF inv D P len bid gh inv1 s1(1,3) new meta_eq_to_obj_eq [OF b_def] h run] show ?thesis
      unfolding s1 by (auto split: option.splits)
  qed
qed

end

end
