(* ===== verification/LedgerProps.thy ===== *)
theory LedgerProps
  imports LedgerInv StateProps "HOL-Library.Sublist"
begin

text \<open>
  Properties of the ledger over the bucket tree. The step relation \<open>ledger_step\<close> has one rule per
  operation of a peer that executes transactions: those between two commits, the commit itself,
  successful or not, and the rollback. Every such run keeps the ledger invariant and only ever
  appends to the chain.
\<close>

subsection \<open>Runs of a ledger\<close>

text \<open>
  A batch is committed with no transaction in progress, as the callers do, and below the largest
  height; chaincode ids have no zero byte. A state delta may be applied and rolled back. The
  operations of state transfer that write, \<open>PutRawBlock\<close>, \<open>CommitStateDelta\<close> and
  \<open>DeleteALLStateKeysAndValues\<close>, are not among the steps: they replace the chain or the state piece
  by piece, and between the pieces the chain and the state do not fit together.
\<close>

inductive ledger_step ::
  "protolib \<Rightarrow> (bytes \<Rightarrow> bytes) \<Rightarrow> ('st, 'db) HashableState \<Rightarrow> 'db gorocksdb \<Rightarrow>
     'db \<times> ('st, 'id) Ledger \<Rightarrow> 'db \<times> ('st, 'id) Ledger \<Rightarrow> bool" for P H HS D where
  begin_batch: "BeginTxBatch L bid = (r, L') \<Longrightarrow> ledger_step P H HS D (db, L) (db, L')"
| tx_begin: "Ledger_TxBegin L uuid = Inr L' \<Longrightarrow> ledger_step P H HS D (db, L) (db, L')"
| set_state: "0 \<notin> set cc \<Longrightarrow> SetState HS db L cc k v = Inr L' \<Longrightarrow> ledger_step P H HS D (db, L) (db, L')"
| delete_state: "0 \<notin> set cc \<Longrightarrow> Ledger_DeleteState HS db L cc k = Inr L' \<Longrightarrow> ledger_step P H HS D (db, L) (db, L')"
| tx_finished: "Ledger_TxFinished H L uuid ok = Inr L' \<Longrightarrow> ledger_step P H HS D (db, L) (db, L')"
| temp_hash: "GetTempStateHash HS db L = (h, L') \<Longrightarrow> ledger_step P H HS D (db, L) (db, L')"
| preview: "GetTXBatchPreviewBlock HS db L bid txs metadata = (b, L') \<Longrightarrow> ledger_step P H HS D (db, L) (db, L')"
| temp_hashes: "GetTempStateHashWithTxDeltaStateHashes HS db L = (hs, L') \<Longrightarrow> ledger_step P H HS D (db, L) (db, L')"
| rollback: "RollbackTxBatch HS L bid = (r, L') \<Longrightarrow> ledger_step P H HS D (db, L) (db, L')"
| delta_rollback: "ApplyStateDelta L bid sd = (r1, L1) \<Longrightarrow> RollbackStateDelta HS L1 bid' = (None, L') \<Longrightarrow>
    ledger_step P H HS D (db, L) (db, L')"
| commit: "\<not> txInProgress (l_state L) \<Longrightarrow> unat (GetBlockchainSize L) + 1 < 2 ^ 64 \<Longrightarrow>
    CommitTxBatch P H HS D now db L bid txs results metadata = (r, db', L') \<Longrightarrow>
    ledger_step P H HS D (db, L) (db', L')"

inductive_cases ledger_step_cases: "ledger_step P H HS D (db, L) (db', L')"

lemma TxBegin_hist: "TxBegin s u = Inr s' \<Longrightarrow> historyStateDeltaSize s' = historyStateDeltaSize s"
  by (auto simp: TxBegin_def split: if_splits)

lemma Set_hist: "State_Set HS db s cc k v = Inr s' \<Longrightarrow> historyStateDeltaSize s' = historyStateDeltaSize s"
  by (auto simp: State_Set_def rbind_Inr_conv split: if_splits)

lemma Delete_hist: "State_Delete HS db s cc k = Inr s' \<Longrightarrow> historyStateDeltaSize s' = historyStateDeltaSize s"
  by (auto simp: State_Delete_def rbind_Inr_conv split: if_splits)

lemma TxFinish_hist: "TxFinish H s u ok = Inr s' \<Longrightarrow> historyStateDeltaSize s' = historyStateDeltaSize s"
  by (auto simp: TxFinish_def Let_def split: if_splits)

lemmas op_hist = TxBegin_hist Set_hist Delete_hist TxFinish_hist

context forward_state
begin

text \<open>An operation on the state that succeeds keeps the invariant.\<close>

lemma inv_state_op:
  assumes "linv P H db L bs" "run_op HS H' db (l_state L) op = Inr s'" "op_zero_free op"
    and "historyStateDeltaSize s' = historyStateDeltaSize (l_state L)"
  shows "linv P H db (L\<lparr>l_state := s'\<rparr>) bs"
proof -
  have "state_inv view clean prepared db s'"
    using op_refines [of db "l_state L" op H'] assms(1-3) by (auto simp: ledger_inv_def split: option.splits)
  with assms(1,4) show ?thesis by (simp add: ledger_inv_def)
qed

lemma inv_GetHash:
  assumes "linv P H db L bs" "State_GetHash HS db (l_state L) = (r, s')"
  shows "linv P H db (L\<lparr>l_state := s'\<rparr>) bs"
  using GetHash_ok [of db "l_state L"] assms by (auto simp: ledger_inv_def)

lemma inv_reset:
  assumes "linv P H db L bs"
  shows "\<exists>L'. resetForNextTxGroup HS (L\<lparr>currentID := bid, l_state := (l_state L)\<lparr>stateDelta := sd, updateStateImpl := b\<rparr>\<rparr>) False =
    (None, L') \<and> linv P H db L' bs"
proof -
  have "state_inv view clean prepared db (l_state L)" using assms by (simp add: ledger_inv_def)
  from Rollback_inv [OF this, where sd = sd and b = b] assms show ?thesis by (auto simp: resetForNextTxGroup_def ledger_inv_def)
qed

lemma inv_step:
  assumes "linv P H db L bs" "rocksdb_ok D content" "proto_ok P" "ledger_step P H HS D (db, L) (db', L')"
  shows "\<exists>bs'. linv P H db' L' bs' \<and> prefix bs bs'"
  using assms(4)
proof (cases rule: ledger_step_cases [consumes 1, case_names begin_batch tx_begin set_state delete_state tx_finished temp_hash preview temp_hashes rollback
    delta_rollback commit])
  case (begin_batch bid r)
  then have "linv P H db L' bs"
    using assms(1) by (auto simp: BeginTxBatch_def ledger_inv_def split: option.splits)
  with begin_batch show ?thesis by blast
next
  case (tx_begin uuid)
  then obtain s' where "TxBegin (l_state L) uuid = Inr s'" "L' = L\<lparr>l_state := s'\<rparr>"
    by (auto simp: Ledger_TxBegin_def on_state_def rbind_Inr_conv)
  with inv_state_op [OF assms(1), of H "OpTxBegin uuid" s'] tx_begin show ?thesis by (auto simp: op_hist)
next
  case (set_state cc k v)
  then obtain s' where "State_Set HS db (l_state L) cc k v = Inr s'" "L' = L\<lparr>l_state := s'\<rparr>"
    by (auto simp: SetState_def on_state_def rbind_Inr_conv)
  with inv_state_op [OF assms(1), of H "OpSet cc k v" s'] set_state show ?thesis by (auto simp: op_hist)
next
  case (delete_state cc k)
  then obtain s' where "State_Delete HS db (l_state L) cc k = Inr s'" "L' = L\<lparr>l_state := s'\<rparr>"
    by (auto simp: Ledger_DeleteState_def on_state_def rbind_Inr_conv)
  with inv_state_op [OF assms(1), of H "OpDelete cc k" s'] delete_state show ?thesis by (auto simp: op_hist)
next
  case (tx_finished uuid ok)
  then obtain s' where "TxFinish H (l_state L) uuid ok = Inr s'" "L' = L\<lparr>l_state := s'\<rparr>"
    by (auto simp: Ledger_TxFinished_def on_state_def rbind_Inr_conv)
  with inv_state_op [OF assms(1), of H "OpTxFinish uuid ok" s'] tx_finished show ?thesis by (auto simp: op_hist)
next
  case (temp_hash h)
  then show ?thesis
    using inv_GetHash [OF assms(1)] by (auto simp: GetTempStateHash_def split: prod.splits)
next
  case (preview bid txs metadata b)
  then have "linv P H db L' bs"
    using assms(1) inv_GetHash [OF assms(1)]
    by (auto simp: GetTXBatchPreviewBlock_def split: prod.splits option.splits sum.splits)
  with preview show ?thesis by blast
next
  case (temp_hashes hs)
  then show ?thesis
    using inv_GetHash [OF assms(1)] by (auto simp: GetTempStateHashWithTxDeltaStateHashes_def split: prod.splits)
next
  case (rollback bid r)
  then have "L' = L \<or> (r, L') = resetForNextTxGroup HS L False"
    by (auto simp: RollbackTxBatch_def split: option.splits)
  with inv_reset [OF assms(1), where bid = "currentID L" and sd = "stateDelta (l_state L)" and b = "updateStateImpl (l_state L)"] assms(1) rollback show ?thesis
    by fastforce
next
  case (delta_rollback bid sd r1 L1 bid')
  then have "L' = L \<or> (None, L') = resetForNextTxGroup HS L1 False"
    and L1: "L1 = L \<or> L1 = L\<lparr>currentID := bid, l_state := State_ApplyStateDelta (l_state L) sd\<rparr>"
    by (auto simp: ApplyStateDelta_def RollbackStateDelta_def checkValidIDCommitORRollback_def split: option.splits if_splits)
  with inv_reset [OF assms(1), where bid = bid and sd = sd and b = True]
    inv_reset [OF assms(1), where bid = "currentID L" and sd = "stateDelta (l_state L)" and b = "updateStateImpl (l_state L)"] assms(1) delta_rollback show ?thesis
    by (fastforce simp: State_ApplyStateDelta_def)
next
  case (commit now bid txs results metadata r)
  show ?thesis
  proof (cases "currentID L = bid")
    case False
    then show ?thesis
      using assms(1) commit(3) by (auto simp: CommitTxBatch_def checkValidIDCommitORRollback_def)
  next
    case True
    have "length bs < 2 ^ 64" "GetBlockchainSize L = of_nat (length bs)"
      using assms(1) by (auto simp: ledger_inv_def chain_db_def chain_tip_def GetBlockchainSize_def)
    with commit(2) have "Suc (length bs) < 2 ^ 64" using unat_of_nat_u64 [of "length bs"] by simp
    from commit_ok [OF assms(1-3) commit(1) True this commit(3)] show ?thesis
      by (auto split: option.splits)
  qed
qed

lemma inv_run:
  assumes "rtranclp (ledger_step P H HS D) (db, L) (db', L')"
    and "linv P H db L bs" "rocksdb_ok D content" "proto_ok P"
  shows "\<exists>bs'. linv P H db' L' bs' \<and> prefix bs bs'"
  using assms(1)
proof (induction rule: rtranclp_induct2)
  case refl
  then show ?case using assms(2) by blast
next
  case (step db1 L1 db2 L2)
  then obtain bs1 where "linv P H db1 L1 bs1" "prefix bs bs1" by blast
  with inv_step [OF _ assms(3,4) step(2)] prefix_order.trans show ?case by blast
qed

end

subsection \<open>Verifying a stored chain\<close>

definition broken_links :: "protolib \<Rightarrow> (bytes \<Rightarrow> bytes) \<Rightarrow> Block list \<Rightarrow> nat \<Rightarrow> nat \<Rightarrow> nat set" where
  "broken_links P H bs low high =
     {i. low < i \<and> i \<le> high \<and> Block_GetHash P H (bs ! (i - 1)) \<noteq> Inr (PreviousBlockHash (bs ! i))}"

lemma verifyBlock_chain:
  assumes "rocksdb_ok D content" "proto_ok P" "stored_chain P H (content db) bs"
    and "bc_size (l_blockchain L) = of_nat (length bs)" "Suc i < length bs"
  shows "verifyBlock P H D db L (of_nat (Suc i)) =
    (if Block_GetHash P H (bs ! i) = Inr (PreviousBlockHash (bs ! Suc i)) then None else Some (of_nat (Suc i), None))"
proof -
  have len: "length bs < 2 ^ 64" using assms(3) by (simp add: stored_chain_def)
  have get: "GetBlockByNumber P D db L (of_nat j) = Inr (Some (bs ! j))" if "j < length bs" for j
  proof -
    have "\<not> (of_nat (length bs) :: u64) \<le> of_nat j"
      using that len by (simp add: word_le_nat_alt unat_of_nat_u64)
    moreover have "stored_block P H (content db) (of_nat j) (bs ! j)" using assms(3) that by (simp add: stored_chain_def)
    ultimately show ?thesis
      using fetchBlock_stored [OF assms(1,2)] assms(4)
      by (simp add: GetBlockByNumber_def GetBlockchainSize_def bc_getBlock_def)
  qed
  have "stored_block P H (content db) (of_nat i) (bs ! i)" using assms(3,5) by (simp add: stored_chain_def)
  then obtain h where "Block_GetHash P H (bs ! i) = Inr h" by (auto simp: stored_block_def)
  then show ?thesis
    using get [of "Suc i"] get [of i] assms(5) by (simp add: verifyBlock_def)
qed

lemma broken_links_step:
  "broken_links P H bs low (Suc i) =
    (if low < Suc i \<and> Block_GetHash P H (bs ! i) \<noteq> Inr (PreviousBlockHash (bs ! Suc i))
     then insert (Suc i) (broken_links P H bs low i) else broken_links P H bs low i)"
  by (auto simp: broken_links_def le_Suc_eq)

lemma finite_broken_links [simp]: "finite (broken_links P H bs low high)"
  by (rule finite_subset [of _ "{..high}"]) (auto simp: broken_links_def)

lemma VerifyChain_loop_chain:
  assumes "rocksdb_ok D content" "proto_ok P" "stored_chain P H (content db) bs"
    and "bc_size (l_blockchain L) = of_nat (length bs)" "high < length bs" "low < 2 ^ 64"
  shows "VerifyChain_loop P H D db L (of_nat low) (of_nat high) =
    (if broken_links P H bs low high = {} then 0 else of_nat (Max (broken_links P H bs low high)), None)"
  using assms(5)
proof (induction high)
  case 0
  have "\<not> (of_nat low :: u64) < of_nat 0" by simp
  then show ?case by (subst VerifyChain_loop.simps) (simp add: broken_links_def)
next
  case (Suc i)
  have len: "length bs < 2 ^ 64" using assms(3) by (simp add: stored_chain_def)
  have gt: "(of_nat low :: u64) < of_nat (Suc i) \<longleftrightarrow> low < Suc i"
    using Suc.prems len assms(6) by (simp add: word_less_nat_alt unat_of_nat_u64 del: of_nat_Suc)
  show ?case
  proof (cases "low < Suc i")
    case False
    then have "broken_links P H bs low (Suc i) = {}" by (auto simp: broken_links_def)
    with gt False show ?thesis by (subst VerifyChain_loop.simps) simp
  next
    case True
    let ?good = "Block_GetHash P H (bs ! i) = Inr (PreviousBlockHash (bs ! Suc i))"
    note v = verifyBlock_chain [OF assms(1-4) Suc.prems]
    have m1: "(of_nat (Suc i) :: u64) - 1 = of_nat i" by simp
    have unfold: "VerifyChain_loop P H D db L (of_nat low) (of_nat (Suc i)) =
        (if ?good then VerifyChain_loop P H D db L (of_nat low) (of_nat i) else (of_nat (Suc i), None))"
      using gt True v by (subst VerifyChain_loop.simps) (simp del: of_nat_Suc add: m1)
    show ?thesis
    proof (cases ?good)
      case g: True
      then show ?thesis using Suc unfold by (simp add: broken_links_step)
    next
      case g: False
      have "Max (insert (Suc i) (broken_links P H bs low i)) = Suc i"
        by (rule Max_eqI) (auto simp: broken_links_def)
      with g True unfold show ?thesis by (simp add: broken_links_step)
    qed
  qed
qed

lemma linked_no_broken: "linked P H bs \<Longrightarrow> high < length bs \<Longrightarrow> broken_links P H bs low high = {}"
proof -
  assume "linked P H bs" "high < length bs"
  then have "Block_GetHash P H (bs ! (i - 1)) = Inr (PreviousBlockHash (bs ! i))" if "low < i" "i \<le> high" for i
    using that by (cases i) (auto simp: linked_def)
  then show ?thesis by (auto simp: broken_links_def)
qed

end
