(* ===== verification/LedgerTheorems.thy ===== *)
theory LedgerTheorems
  imports LedgerProps
begin

text \<open>
  The properties of a peer's ledger over the bucket tree, with a concrete peer (the in-memory
  database and a table-driven codec) on which each is instantiated.
\<close>

subsection \<open>A peer\<close>

definition peer_inv ::
  "(bytes \<Rightarrow> bytes) \<Rightarrow> config \<Rightarrow> 'db gorocksdb \<Rightarrow> ('db \<Rightarrow> dbmap) \<Rightarrow> protolib \<Rightarrow> 'db \<Rightarrow> (StateImpl, 'id) Ledger \<Rightarrow> Block list \<Rightarrow> bool" where
  "peer_inv H c D content P db L bs \<longleftrightarrow> rocksdb_ok D content \<and> proto_ok P \<and>
     ledger_inv P H content (bucket_view c content) (root_hash H c) (bucket_clean H c D content)
       (bucket_prepared H c D content) db L bs"

lemma peer_inv_state:
  "peer_inv H c D content P db L bs \<Longrightarrow>
    state_inv (bucket_view c content) (bucket_clean H c D content) (bucket_prepared H c D content) db (l_state L)"
  by (simp add: peer_inv_def ledger_inv_def)

subsection \<open>A concrete peer\<close>

text \<open>A codec that knows the blocks of a table.\<close>

definition table_proto :: "Block list \<Rightarrow> protolib" where
  "table_proto tbl =
     \<lparr>Marshal = (\<lambda>b. if b \<in> set tbl then Inr (encodeUint64 (of_nat (length (takeWhile (\<lambda>x. x \<noteq> b) tbl))))
        else Inl (ErrMsg ''unknown block'')),
      Unmarshal = (\<lambda>bs. rbind (decodeToUint64 bs) (\<lambda>i.
        if unat i < length tbl then Inr (tbl ! unat i) else Inl (ErrMsg ''unknown block'')))\<rparr>"

lemma proto_ok_table:
  assumes "length tbl < 2 ^ 64"
  shows "proto_ok (table_proto tbl)"
proof -
  let ?n = "\<lambda>b. length (takeWhile (\<lambda>x. x \<noteq> b) tbl)"
  have "tbl ! ?n b = b \<and> unat (of_nat (?n b) :: u64) = ?n b \<and> ?n b < length tbl" if "b \<in> set tbl" for b
  proof -
    have l: "?n b < length tbl" using that by (induction tbl) auto
    with assms have "unat (of_nat (?n b) :: u64) = ?n b" by (intro unat_of_nat_u64) simp
    with nth_length_takeWhile [OF l] l show ?thesis by blast
  qed
  moreover have "encodeUint64 n \<noteq> []" for n using length_encodeUint64 [of n] by (metis list.size(3) zero_neq_numeral)
  ultimately show ?thesis by (auto simp: proto_ok_def table_proto_def split: if_splits)
qed

definition ex_tx :: Transaction where
  "ex_tx = \<lparr>tx_Type = Transaction_CHAINCODE_INVOKE, tx_ChaincodeID = lit ''cc'', tx_Payload = [], tx_Metadata = [],
     tx_Uuid = lit ''t1'', tx_Timestamp = None, tx_ConfidentialityLevel = ConfidentialityLevel_PUBLIC,
     tx_ConfidentialityProtocolVersion = [], tx_Nonce = [], tx_ToValidators = [], tx_Cert = [], tx_Signature = []\<rparr>"

definition ex_tip :: blockchain where
  "ex_tip = \<lparr>bc_size = 0, bc_previousBlockHash = [], bc_lastProcessedBlock = None\<rparr>"

lemma mem_content_empty [simp]: "mem_content (\<lambda>_. []) = (\<lambda>_. Map.empty)"
  by (intro ext) (simp add: mem_content_def)

lemma newLedger_empty:
  assumes "NewState (Inr st) 500 = Inr s"
  shows "newLedger P H memdb (\<lambda>_. []) (Inr st) 500 = Inr \<lparr>l_blockchain = ex_tip, l_state = s, currentID = None\<rparr>"
proof -
  have "fetchBlockchainSizeFromDB memdb (\<lambda>_. []) = Inr 0"
    by (simp add: fetchBlockchainSizeFromDB_def GetFromBlockchainCF_def db_get_ok [OF rocksdb_ok_memdb])
  then show ?thesis using assms by (simp add: newLedger_def newBlockchain_def ex_tip_def)
qed

lemma peer_inv_empty:
  assumes "state_inv (bucket_view c mem_content) (bucket_clean H c memdb mem_content)
      (bucket_prepared H c memdb mem_content) (\<lambda>_. []) s" "proto_ok P"
  shows "peer_inv H c memdb mem_content P (\<lambda>_. []) \<lparr>l_blockchain = ex_tip, l_state = s, currentID = x\<rparr> []"
  using assms
  by (simp add: peer_inv_def rocksdb_ok_memdb ledger_inv_def chain_db_def linked_def chain_tip_def delta_window_def ex_tip_def)

text \<open>A peer in the middle of a batch, after one transaction that sets a key.\<close>

lemma ex_set_first:
  "StateDelta_IsUpdatedValueSet NewStateDelta cc k = False"
  "StateDelta_IsEmpty (StateDelta_Set NewStateDelta cc k v pv) = False"
  "delta_at (StateDelta_ApplyChanges NewStateDelta (StateDelta_Set NewStateDelta cc k v pv)) (cc, k) =
     Some \<lparr>Value = v, PreviousValue = pv\<rparr>"
  "sd_sized (StateDelta_ApplyChanges NewStateDelta
     (StateDelta_Set NewStateDelta (lit ''cc'') (lit ''k'') (Some (lit ''v'')) None))"
  "lit ''t1'' \<noteq> []"
  by (simp_all add: IsUpdatedValueSet_iff StateDelta_IsEmpty_def StateDelta_Set_def Let_def NewStateDelta_def
      StateDelta_ApplyChanges_def ApplyChanges_chaincode_def ApplyChanges_entry_def delta_at_def StateDelta_Get_def
      getOrCreateChaincodeStateDelta_def newChaincodeStateDelta_def csd_set_def csd_get_def UpdatedValue_IsDelete_def
      csd_remove_def StateDelta_Delete_def sd_sized_def kv_sized_def go_len_def lit_def split: option.splits)

lemma ex_open:
  "\<exists>c L. (\<forall>P. proto_ok P \<longrightarrow> peer_inv ex_hash c memdb mem_content P (\<lambda>_. []) L []) \<and> initConfig (ex_configs 1) = Some (Inr c) \<and>
    l_blockchain L = ex_tip \<and> currentID L = Some () \<and> \<not> txInProgress (l_state L) \<and> historyStateDeltaSize (l_state L) = 500 \<and>
    sd_sized (stateDelta (l_state L)) \<and>
    w_batch (abs_state (bucket_view c mem_content (\<lambda>_. [])) (l_state L)) = (\<lambda>_. None)((lit ''cc'', lit ''k'') := Some (lit ''v'')) \<and>
    w_tx (abs_state (bucket_view c mem_content (\<lambda>_. [])) (l_state L)) = (\<lambda>_. None)((lit ''cc'', lit ''k'') := Some (lit ''v'')) \<and>
    bucket_view c mem_content (\<lambda>_. []) = Map.empty"
proof -
  obtain c st s where s: "si_Initialize ex_hash memdb (\<lambda>_. []) NewStateImpl (ex_configs 1) = Some (Inr (c, st))"
    "NewState (Inr st) 500 = Inr s" "historyStateDeltaSize s = 500" "bucket_clean ex_hash c memdb mem_content (\<lambda>_. []) st"
    "state_inv (bucket_view c mem_content) (bucket_clean ex_hash c memdb mem_content)
      (bucket_prepared ex_hash c memdb mem_content) (\<lambda>_. []) s" "bucket_view c mem_content (\<lambda>_. []) = Map.empty"
    using ex_state by blast
  have a: "abs_state (bucket_view c mem_content (\<lambda>_. [])) s =
      \<lparr>w_committed = \<lambda>_. None, w_batch = \<lambda>_. None, w_tx = \<lambda>_. None, w_uuid = []\<rparr>"
    using NewState_inv(2) [OF s(4,2)] s(6) by (simp add: world_def fun_eq_iff)
  let ?ops = "[OpTxBegin (lit ''t1''), OpSet (lit ''cc'') (lit ''k'') (Some (lit ''v'')), OpTxFinish (lit ''t1'') True]"
  have z: "\<forall>op \<in> set ?ops. op_zero_free op" by (simp add: lit_def)
  from btf.ops_refine [OF s(5) z, of ex_hash, unfolded a] obtain s' where
    s': "rfold (run_op (bucket_hs ex_hash c memdb) ex_hash (\<lambda>_. [])) ?ops s = Inr s'"
      "state_inv (bucket_view c mem_content) (bucket_clean ex_hash c memdb mem_content)
        (bucket_prepared ex_hash c memdb mem_content) (\<lambda>_. []) s'"
      "abs_state (bucket_view c mem_content (\<lambda>_. [])) s' =
        \<lparr>w_committed = \<lambda>_. None, w_batch = (\<lambda>_. None)((lit ''cc'', lit ''k'') := Some (lit ''v'')),
         w_tx = (\<lambda>_. None)((lit ''cc'', lit ''k'') := Some (lit ''v'')), w_uuid = []\<rparr>"
    by (auto simp: spec_write_def spec_finish_def lit_def)
  have hist: "historyStateDeltaSize s' = 500"
    using s'(1) s(3) by (auto simp: rbind_Inr_conv op_hist)
  have tx: "\<not> txInProgress s'" using arg_cong [OF s'(3), of w_uuid] by (simp add: abs_state_def Let_def txInProgress_def)
  obtain pv where pv: "stateDelta s' = StateDelta_ApplyChanges NewStateDelta (StateDelta_Set NewStateDelta (lit ''cc'') (lit ''k'') (Some (lit ''v'')) pv)"
    using s'(1) s(2)
    by (auto simp: rbind_Inr_conv NewState_def TxBegin_def State_Set_def TxFinish_def txInProgress_def ex_set_first
        split: if_splits)
  have "records (delta_at (stateDelta s')) (world Map.empty)" using s'(2) s(6) by (simp add: state_inv_def)
  then have "pv = None" using ex_set_first(3) [of "lit ''cc''" "lit ''k''" "Some (lit ''v'')" pv]
    unfolding records_def pv world_def by fastforce
  then have sized: "sd_sized (stateDelta s')" by (simp add: pv ex_set_first)
  let ?L = "\<lparr>l_blockchain = ex_tip, l_state = s', currentID = Some ()\<rparr>"
  have "initConfig (ex_configs 1) = Some (Inr c)"
    using s(1) by (auto simp: si_Initialize_def rbind_Inr_conv split: option.splits)
  moreover have "\<forall>P. proto_ok P \<longrightarrow> peer_inv ex_hash c memdb mem_content P (\<lambda>_. []) ?L []"
    by (intro allI impI peer_inv_empty [OF s'(2)])
  ultimately show ?thesis
    using hist tx sized s'(3) s(6) by (intro exI [of _ c] exI [of _ ?L]) simp
qed

text \<open>The codec for the block that the open batch of \<open>ex_open\<close> commits, and the outcome of the commit.\<close>

definition ex_proto :: "Block \<Rightarrow> protolib" where
  "ex_proto b = table_proto [b, b\<lparr>bl_NonHashData := None\<rparr>]"

lemma ex_proto_ok: "proto_ok (ex_proto b)" "\<exists>h. Block_GetHash (ex_proto b) H b = Inr h"
proof -
  show p: "proto_ok (ex_proto b)" unfolding ex_proto_def by (rule proto_ok_table) simp
  show "\<exists>h. Block_GetHash (ex_proto b) H b = Inr h"
    by (simp add: Block_GetHash_Inr [OF p]) (simp add: ex_proto_def table_proto_def)
qed

lemma memdb_writes: "Write memdb db batch \<noteq> Inl e"
  by (simp add: memdb_def)

lemma commit_succeeds:
  assumes "\<And>P. proto_ok P \<Longrightarrow> peer_inv ex_hash c memdb mem_content P db L bs"
    and "currentID L = Some ()" "\<not> txInProgress (l_state L)" "Suc (length bs) < 2 ^ 64"
  shows "\<exists>P db' L'. peer_inv ex_hash c memdb mem_content P db L bs \<and>
    CommitTxBatch P ex_hash (bucket_hs ex_hash c memdb) memdb (1, 2) db L (Some ()) [ex_tx] [] [] = (None, db', L')"
proof -
  let ?b = "committed_block (1, 2) (l_blockchain L) [ex_tx] [] []
    (root_hash ex_hash c (apply_updates (updates_of (stateDelta (l_state L))) (bucket_view c mem_content db)))"
  let ?P = "ex_proto ?b"
  obtain r db' L' where run: "CommitTxBatch ?P ex_hash (bucket_hs ex_hash c memdb) memdb (1, 2) db L (Some ()) [ex_tx] [] [] = (r, db', L')"
    using prod_cases3 by blast
  have "ledger_inv ?P ex_hash mem_content (bucket_view c mem_content) (root_hash ex_hash c) (bucket_clean ex_hash c memdb mem_content)
      (bucket_prepared ex_hash c memdb mem_content) db L bs"
    using assms(1) [OF ex_proto_ok(1)] by (simp add: peer_inv_def)
  from btf.commit_ok [OF this rocksdb_ok_memdb ex_proto_ok(1) assms(3,2,4) run] have "r = None"
    using ex_proto_ok(2) memdb_writes by simp
  with run assms(1) [OF ex_proto_ok(1)] show ?thesis by blast
qed

lemma ex_commit:
  "\<exists>c L P db' L'. initConfig (ex_configs 1) = Some (Inr c) \<and> peer_inv ex_hash c memdb mem_content P (\<lambda>_. []) L [] \<and> currentID L = Some () \<and>
    \<not> txInProgress (l_state L) \<and> historyStateDeltaSize (l_state L) = 500 \<and> sd_sized (stateDelta (l_state L)) \<and>
    bucket_view c mem_content (\<lambda>_. []) = Map.empty \<and>
    w_batch (abs_state (bucket_view c mem_content (\<lambda>_. [])) (l_state L)) = (\<lambda>_. None)((lit ''cc'', lit ''k'') := Some (lit ''v'')) \<and>
    CommitTxBatch P ex_hash (bucket_hs ex_hash c memdb) memdb (1, 2) (\<lambda>_. []) L (Some ()) [ex_tx] [] [] = (None, db', L')"
proof -
  obtain c L where L: "\<And>P. proto_ok P \<Longrightarrow> peer_inv ex_hash c memdb mem_content P (\<lambda>_. []) L []"
    "initConfig (ex_configs 1) = Some (Inr c)" "currentID L = Some ()" "\<not> txInProgress (l_state L)"
    "historyStateDeltaSize (l_state L) = 500" "sd_sized (stateDelta (l_state L))" "bucket_view c mem_content (\<lambda>_. []) = Map.empty"
    "w_batch (abs_state (bucket_view c mem_content (\<lambda>_. [])) (l_state L)) = (\<lambda>_. None)((lit ''cc'', lit ''k'') := Some (lit ''v''))"
    using ex_open by blast
  from commit_succeeds [OF L(1,3,4)] L show ?thesis by auto
qed

subsection \<open>Properties\<close>

text \<open>
  C3: Runs of transaction batches keep the ledger's invariant and only append to the chain. The
  runs are made of \<open>BeginTxBatch\<close>, \<open>TxBegin\<close>, \<open>SetState\<close>, \<open>DeleteState\<close> and \<open>TxFinished\<close>, the hash
  and preview calls, \<open>RollbackTxBatch\<close>, state deltas that are applied and rolled back, and
  \<open>CommitTxBatch\<close> outside a transaction, in any order; commits whose write fails or whose block
  cannot be encoded are included. The invariant: the stored blocks, their count and their indexes
  agree with a list of blocks, each block carries the hash of the one before it, the last block
  carries the hash of the stored state, the stored state deltas are those of the last
  \<open>historyStateDeltaSize\<close> blocks, and the in-memory tip and state agree with the database. The writes
  of state transfer (\<open>PutRawBlock\<close>, \<open>CommitStateDelta\<close>, \<open>DeleteALLStateKeysAndValues\<close>) are not part of
  these runs.
\<close>

theorem ledger_runs:
  assumes "peer_inv H c D content P db L bs"
    and "rtranclp (ledger_step P H (bucket_hs H c D) D) (db, L) (db', L')"
  shows "\<exists>bs'. peer_inv H c D content P db' L' bs' \<and> prefix bs bs'"
  using btf.inv_run [OF assms(2)] assms(1) unfolding peer_inv_def by blast

theorem ledger_runs_witness:
  "\<exists>c L P db' L' bs'. peer_inv ex_hash c memdb mem_content P (\<lambda>_. []) L [] \<and>
    CommitTxBatch P ex_hash (bucket_hs ex_hash c memdb) memdb (1, 2) (\<lambda>_. []) L (Some ()) [ex_tx] [] [] = (None, db', L') \<and>
    peer_inv ex_hash c memdb mem_content P db' L' bs'"
proof -
  obtain c L P db' L' where c: "peer_inv ex_hash c memdb mem_content P (\<lambda>_. []) L []" "\<not> txInProgress (l_state L)"
    "CommitTxBatch P ex_hash (bucket_hs ex_hash c memdb) memdb (1, 2) (\<lambda>_. []) L (Some ()) [ex_tx] [] [] = (None, db', L')"
    using ex_commit by blast
  have "GetBlockchainSize L = 0" using c(1) by (simp add: peer_inv_def ledger_inv_def chain_tip_def GetBlockchainSize_def)
  with c(2,3) have "ledger_step P ex_hash (bucket_hs ex_hash c memdb) memdb (\<lambda>_. [], L) (db', L')"
    by (intro ledger_step.commit) simp_all
  from ledger_runs [OF c(1) r_into_rtranclp, OF this] c show ?thesis by blast
qed

text \<open>
  C5: What \<open>CommitTxBatch\<close> does. If the block can be encoded and the database accepts the
  write, the commit succeeds. A successful commit appends exactly one block, with the
  transactions, the hash of the previous block and the hash of the new state; the new state is
  the old one with the changes of the batch, and the delta of the batch is stored with the block.
  A failed commit changes neither the database nor the chain and discards the batch.
\<close>

theorem commit_functional:
  assumes "peer_inv H c D content P db L bs" "\<not> txInProgress (l_state L)" "currentID L = bid" "Suc (length bs) < 2 ^ 64"
    and "CommitTxBatch P H (bucket_hs H c D) D now db L bid txs results metadata = (r, db', L')"
    and "new = apply_updates (updates_of (stateDelta (l_state L))) (bucket_view c content db)"
    and "b = committed_block now (l_blockchain L) txs results metadata (root_hash H c new)"
  shows "((\<exists>h. Block_GetHash P H b = Inr h) \<and> (\<forall>batch e. Write D db batch \<noteq> Inl e) \<longrightarrow> r = None) \<and>
    (r = None \<longrightarrow> peer_inv H c D content P db' L' (bs @ [b]) \<and> bucket_view c content db' = new \<and>
       content db' StateDeltaCF (encodeStateDeltaKey (of_nat (length bs))) =
         (if historyStateDeltaSize (l_state L) = 0 then None else Some (StateDelta_Marshal (stateDelta (l_state L))))) \<and>
    (r \<noteq> None \<longrightarrow> db' = db \<and> peer_inv H c D content P db L' bs \<and>
       abs_state (bucket_view c content db) (l_state L') = spec_rollback (abs_state (bucket_view c content db) (l_state L)))"
proof -
  have i: "ledger_inv P H content (bucket_view c content) (root_hash H c) (bucket_clean H c D content)
      (bucket_prepared H c D content) db L bs" "rocksdb_ok D content" "proto_ok P"
    using assms(1) by (simp_all add: peer_inv_def)
  from btf.commit_ok [OF i assms(2-5)] i show ?thesis
    unfolding assms(6,7) by (auto simp: peer_inv_def split: option.splits)
qed

theorem commit_functional_witness:
  "\<exists>c L P db' L' b. peer_inv ex_hash c memdb mem_content P (\<lambda>_. []) L [] \<and>
    CommitTxBatch P ex_hash (bucket_hs ex_hash c memdb) memdb (1, 2) (\<lambda>_. []) L (Some ()) [ex_tx] [] [] = (None, db', L') \<and>
    peer_inv ex_hash c memdb mem_content P db' L' [b] \<and> Transactions b = [ex_tx]"
proof -
  obtain c L P db' L' where c: "peer_inv ex_hash c memdb mem_content P (\<lambda>_. []) L []" "\<not> txInProgress (l_state L)"
    "currentID L = Some ()"
    "CommitTxBatch P ex_hash (bucket_hs ex_hash c memdb) memdb (1, 2) (\<lambda>_. []) L (Some ()) [ex_tx] [] [] = (None, db', L')"
    using ex_commit by blast
  from commit_functional [OF c(1-3) _ c(4) refl refl] have "\<exists>b. peer_inv ex_hash c memdb mem_content P db' L' [b] \<and> Transactions b = [ex_tx]"
    by auto
  with c show ?thesis by blast
qed

text \<open>
  C22: The preview of a batch announces the hash of the block that the commit stores: after
  \<open>GetTXBatchPreviewBlock\<close>, committing with the same transactions and metadata stores, at the
  old height, a block whose \<open>GetHash\<close> is that of the preview, although the stored block also
  carries the results and the local timestamp.
\<close>

theorem preview_hash:
  assumes "peer_inv H c D content P db L bs" "\<not> txInProgress (l_state L)" "Suc (length bs) < 2 ^ 64"
    and "GetTXBatchPreviewBlock (bucket_hs H c D) db L bid txs metadata = (Inr pb, L1)"
    and "CommitTxBatch P H (bucket_hs H c D) D now db L1 bid txs results metadata = (None, db', L')"
  shows "\<exists>b h. fetchBlockFromDB P D db' (GetBlockchainSize L) = Inr (Some b) \<and>
    Block_GetHash P H b = Inr h \<and> Block_GetHash P H pb = Inr h"
proof -
  let ?inv = "ledger_inv P H content (bucket_view c content) (root_hash H c) (bucket_clean H c D content) (bucket_prepared H c D content)"
  have i: "?inv db L bs" "rocksdb_ok D content" "proto_ok P" using assms(1) by (simp_all add: peer_inv_def)
  let ?new = "apply_updates (updates_of (stateDelta (l_state L))) (bucket_view c content db)"
  obtain impl where gh: "State_GetHash (bucket_hs H c D) db (l_state L) =
      (Inr (root_hash H c ?new), (l_state L)\<lparr>stateImpl := impl, updateStateImpl := False\<rparr>)"
    using btf.GetHash_ok [OF peer_inv_state [OF assms(1)]] by blast
  have bid: "currentID L = bid" using assms(4) by (auto simp: GetTXBatchPreviewBlock_def checkValidIDCommitORRollback_def split: if_splits)
  with assms(4) gh have pb: "pb = buildBlock (l_blockchain L) (NewBlock txs metadata) (root_hash H c ?new)"
    and L1: "L1 = L\<lparr>l_state := (l_state L)\<lparr>stateImpl := impl, updateStateImpl := False\<rparr>\<rparr>"
    by (simp_all add: GetTXBatchPreviewBlock_def checkValidIDCommitORRollback_def)
  have "?inv db L1 bs" unfolding L1 by (rule btf.inv_GetHash [OF i(1) gh])
  moreover have "\<not> txInProgress (l_state L1)" "currentID L1 = bid" "stateDelta (l_state L1) = stateDelta (l_state L)"
    "l_blockchain L1 = l_blockchain L"
    using assms(2) bid by (simp_all add: L1 txInProgress_def)
  moreover define b where "b = committed_block now (l_blockchain L) txs results metadata (root_hash H c ?new)"
  ultimately have "?inv db' L' (bs @ [b])"
    using btf.commit_ok [OF _ i(2,3) _ _ assms(3,5)] by simp
  then have chain: "chain_db P H (content db') (bs @ [b])" by (simp add: ledger_inv_def)
  then have "stored_block P H (content db') (of_nat (length bs)) b" by (rule chain_db_last)
  then obtain h where h: "Block_GetHash P H b = Inr h" by (auto simp: stored_block_def)
  have "b\<lparr>bl_NonHashData := None\<rparr> = pb" "pb\<lparr>bl_NonHashData := None\<rparr> = pb"
    by (simp_all add: b_def pb committed_block_def buildBlock_def SetPreviousBlockHash_def NewBlock_def)
  with h have "Block_GetHash P H pb = Inr h" by (auto simp: Block_GetHash_Inr [OF i(3)])
  moreover have "fetchBlockFromDB P D db' (GetBlockchainSize L) = Inr (Some b)"
    using fetchBlock_chain [OF i(2,3) chain, of "length bs"] i(1)
    by (simp add: ledger_inv_def chain_tip_def GetBlockchainSize_def)
  ultimately show ?thesis using h by blast
qed

theorem preview_hash_witness:
  "\<exists>c L L1 pb P db' L' b h. GetTXBatchPreviewBlock (bucket_hs ex_hash c memdb) (\<lambda>_. []) L (Some ()) [ex_tx] [] = (Inr pb, L1) \<and>
    CommitTxBatch P ex_hash (bucket_hs ex_hash c memdb) memdb (1, 2) (\<lambda>_. []) L1 (Some ()) [ex_tx] [] [] = (None, db', L') \<and>
    fetchBlockFromDB P memdb db' (GetBlockchainSize L) = Inr (Some b) \<and>
    Block_GetHash P ex_hash b = Inr h \<and> Block_GetHash P ex_hash pb = Inr h"
proof -
  obtain c L where L: "\<And>P. proto_ok P \<Longrightarrow> peer_inv ex_hash c memdb mem_content P (\<lambda>_. []) L []"
    "currentID L = Some ()" "\<not> txInProgress (l_state L)" using ex_open by blast
  have p0: "proto_ok (ex_proto b)" for b by (rule ex_proto_ok)
  obtain h impl where gh: "State_GetHash (bucket_hs ex_hash c memdb) (\<lambda>_. []) (l_state L) =
      (Inr h, (l_state L)\<lparr>stateImpl := impl, updateStateImpl := False\<rparr>)"
    using btf.GetHash_ok [OF peer_inv_state [OF L(1) [OF p0]]] by blast
  let ?L1 = "L\<lparr>l_state := (l_state L)\<lparr>stateImpl := impl, updateStateImpl := False\<rparr>\<rparr>"
  obtain pb where pv: "GetTXBatchPreviewBlock (bucket_hs ex_hash c memdb) (\<lambda>_. []) L (Some ()) [ex_tx] [] = (Inr pb, ?L1)"
    using gh L(2) by (simp add: GetTXBatchPreviewBlock_def checkValidIDCommitORRollback_def)
  have L1: "peer_inv ex_hash c memdb mem_content P (\<lambda>_. []) ?L1 []" if "proto_ok P" for P
    using btf.inv_GetHash [OF _ gh] L(1) [OF that] by (simp add: peer_inv_def)
  have tx: "currentID ?L1 = Some ()" "\<not> txInProgress (l_state ?L1)" using L(2,3) by (simp_all add: txInProgress_def)
  obtain P db' L' where run: "peer_inv ex_hash c memdb mem_content P (\<lambda>_. []) ?L1 []"
    "CommitTxBatch P ex_hash (bucket_hs ex_hash c memdb) memdb (1, 2) (\<lambda>_. []) ?L1 (Some ()) [ex_tx] [] [] = (None, db', L')"
    using commit_succeeds [OF L1 tx] by auto
  have "proto_ok P" using run(1) by (simp add: peer_inv_def)
  from preview_hash [OF L(1) [OF this] L(3) _ pv run(2)] pv run(2) show ?thesis by auto blast
qed

text \<open>
  C21: \<open>VerifyChain\<close> finds the highest broken link. On stored blocks, for any low and high in
  range, it ends with no error and returns the number of the highest block in between whose
  \<open>PreviousBlockHash\<close> is not the hash of the block before it, or 0 if there is none; it is 0 for
  every chain the ledger has built.
\<close>

theorem VerifyChain_correct:
  assumes "rocksdb_ok D content" "proto_ok P" "stored_chain P H (content db) bs"
    and "bc_size (l_blockchain L) = of_nat (length bs)" "low < high" "high < length bs"
  shows "VerifyChain P H D db L (of_nat high) (of_nat low) =
      (if broken_links P H bs low high = {} then 0 else of_nat (Max (broken_links P H bs low high)), None) \<and>
    (linked P H bs \<longrightarrow> VerifyChain P H D db L (of_nat high) (of_nat low) = (0, None))"
proof -
  have len: "length bs < 2 ^ 64" using assms(3) by (simp add: stored_chain_def)
  have "\<not> (of_nat (length bs) :: u64) \<le> of_nat high" "\<not> (of_nat high :: u64) \<le> of_nat low"
    using assms(5,6) len by (simp_all add: word_le_nat_alt unat_of_nat_u64)
  then have "VerifyChain P H D db L (of_nat high) (of_nat low) =
      (if broken_links P H bs low high = {} then 0 else of_nat (Max (broken_links P H bs low high)), None)"
    using VerifyChain_loop_chain [OF assms(1-4,6), of low] assms(4-6) len
    by (simp add: VerifyChain_def GetBlockchainSize_def)
  with linked_no_broken [OF _ assms(6)] show ?thesis by simp
qed

definition ex_b0 :: Block where "ex_b0 = NewBlock [] (lit ''b0'')"
definition ex_b1 :: Block where "ex_b1 = NewBlock [] (lit ''b1'')"

definition ex_chain_db :: "cf \<Rightarrow> (bytes, bytes) gomap" where
  "ex_chain_db f = (if f = BlockchainCF then
     [(encodeBlockNumberDBKey 0, encodeUint64 0), (encodeBlockNumberDBKey 1, encodeUint64 1)] else [])"

text \<open>The second block does not carry the hash of the first.\<close>

theorem VerifyChain_correct_witness:
  "\<forall>(s :: unit State) (x :: unit option). VerifyChain (table_proto [ex_b0, ex_b1]) ex_hash memdb ex_chain_db
     \<lparr>l_blockchain = ex_tip\<lparr>bc_size := 2\<rparr>, l_state = s, currentID = x\<rparr> 1 0 = (1, None)"
proof (intro allI)
  fix s :: "unit State" and x :: "unit option"
  let ?P = "table_proto [ex_b0, ex_b1]" and ?L = "\<lparr>l_blockchain = ex_tip\<lparr>bc_size := 2\<rparr>, l_state = s, currentID = x\<rparr>"
  have p: "proto_ok ?P" by (rule proto_ok_table) simp
  have ne: "ex_b0 \<noteq> ex_b1" by (simp add: ex_b0_def ex_b1_def NewBlock_def lit_def)
  have nh: "ex_b0\<lparr>bl_NonHashData := None\<rparr> = ex_b0" "ex_b1\<lparr>bl_NonHashData := None\<rparr> = ex_b1"
    by (simp_all add: ex_b0_def ex_b1_def NewBlock_def)
  have m: "Marshal ?P ex_b0 = Inr (encodeUint64 0)" "Marshal ?P ex_b1 = Inr (encodeUint64 1)"
    using ne by (simp_all add: table_proto_def)
  have h: "Block_GetHash ?P ex_hash ex_b0 = Inr (ex_hash (encodeUint64 0))"
    "Block_GetHash ?P ex_hash ex_b1 = Inr (ex_hash (encodeUint64 1))"
    by (simp_all add: Block_GetHash_Inr [OF p] nh m)
  have e: "encodeUint64 n \<noteq> []" for n using length_encodeUint64 [of n] by (metis list.size(3) zero_neq_numeral)
  have st: "stored_chain ?P ex_hash (mem_content ex_chain_db) [ex_b0, ex_b1]"
    using h m e by (auto simp: stored_chain_def stored_block_def less_Suc_eq mem_content_def ex_chain_db_def)
  have "broken_links ?P ex_hash [ex_b0, ex_b1] 0 1 = {1}"
    using h by (auto simp: broken_links_def ex_b1_def NewBlock_def ex_hash_def)
  with VerifyChain_correct [where content = mem_content and db = ex_chain_db, OF rocksdb_ok_memdb p st, of ?L 0 1]
  show "VerifyChain ?P ex_hash memdb ex_chain_db ?L 1 0 = (1, None)" by simp
qed

end
