(* ===== verification/LedgerRecovery.thy ===== *)
theory LedgerRecovery
  imports LedgerTheorems
begin

text \<open>
  Properties of the ledger around its normal course: restarting a peer, undoing a block with its
  state delta, looking up transactions and blocks, and what is left behind by failed writes.
\<close>

subsection \<open>Undoing a delta\<close>

lemma rolled_back:
  assumes "records (delta_at sd) (world m)" "kv_ok m" "\<not> RollBackwards sd"
  shows "apply_updates (updates_of (sd\<lparr>ChaincodeStateDeltas := norm_ccs (ChaincodeStateDeltas sd), RollBackwards := True\<rparr>))
    (apply_updates (updates_of sd) m) = m"
proof
  fix ck
  let ?x = "(cc_of ck, key_of ck)"
  let ?sd' = "sd\<lparr>ChaincodeStateDeltas := norm_ccs (ChaincodeStateDeltas sd), RollBackwards := True\<rparr>"
  have norm: "norm_slice (m ck) = m ck" using assms(2) by (cases "m ck") (auto simp: kv_ok_def norm_slice_def IsNil_def)
  have u': "updates_of ?sd' ck = (if 0 \<in> set ck then map_option (\<lambda>uv. norm_slice (PreviousValue uv)) (delta_at sd ?x) else None)"
    by (simp add: updates_of_def delta_at_norm new_value_def norm_uv_def option.map_comp comp_def)
  show "apply_updates (updates_of ?sd') (apply_updates (updates_of sd) m) ck = m ck"
  proof (cases "0 \<in> set ck \<and> delta_at sd ?x \<noteq> None")
    case False
    then show ?thesis by (auto simp: apply_updates_def u') (auto simp: updates_of_def)
  next
    case True
    then obtain uv where uv: "delta_at sd ?x = Some uv" by blast
    have "world m ?x = m ck" using True composite_split [of ck] by (simp add: world_def)
    with assms(1) uv have "PreviousValue uv = m ck" by (auto simp: records_def)
    with True uv norm show ?thesis by (auto simp: apply_updates_def u' norm_slice_def split: if_splits)
  qed
qed

lemma bucket_view_kv_ok:
  assumes "peer_inv H c D content P db L bs"
  shows "kv_ok (bucket_view c content db)"
proof -
  have i: "impl_ok (bucket_clean H c D content) (bucket_prepared H c D content) db (l_state L)"
    using peer_inv_state [OF assms] by (simp add: state_inv_def)
  have "bucket_clean H c D content db impl \<Longrightarrow> ?thesis" "bucket_prepared H c D content db impl u \<Longrightarrow> ?thesis" for impl u
    by (auto simp: bucket_clean_def st_clean_def bucket_prepared_def st_prepared_def tree_at_def tree_db_def)
  with i show ?thesis by (auto simp: impl_ok_def split: if_splits)
qed

lemma supports_rolled_back:
  assumes "delta_good sd"
  defines "sd' \<equiv> sd\<lparr>ChaincodeStateDeltas := norm_ccs (ChaincodeStateDeltas sd), RollBackwards := True\<rparr>"
  shows "bucket_supports sd' \<or> StateDelta_IsEmpty sd'"
proof (cases "StateDelta_IsEmpty sd")
  case True
  then show ?thesis by (simp add: sd'_def StateDelta_IsEmpty_def norm_ccs_def)
next
  case False
  have "dom (updates_of sd') = dom (updates_of sd)"
    by (auto simp: sd'_def updates_of_def delta_at_norm dom_def)
  then have "dom (updates_of sd') \<noteq> {}" using updates_of_nonempty [OF assms(1) False] by simp
  moreover have "sd_wf sd'" "cc_ok sd'"
    using assms(1) sd_wf_norm by (auto simp: sd'_def delta_good_def cc_ok_def norm_ccs_def)
  ultimately show ?thesis by (simp add: bucket_supports_def)
qed

lemma Marshal_neq_Nil: "StateDelta_Marshal sd \<noteq> []"
  unfolding StateDelta_Marshal_def buf_EncodeVarint_eq by (metis Nil_is_append_conv append_Nil EncodeVarint_neq_Nil foldl_enc_chaincode)

subsection \<open>Properties\<close>

lemma decodeBlockNumber_Nil: "decodeBlockNumber [] = 0"
  by (simp add: decodeBlockNumber_def DecodeVarint_def) (subst DecodeVarint_loop.simps, simp)

lemma State_hist:
  "State_GetHash HS db s = (r, s') \<Longrightarrow> historyStateDeltaSize s' = historyStateDeltaSize s"
  "State_AddChangesForPersistence HS db s n batch = (e, batch', s') \<Longrightarrow> historyStateDeltaSize s' = historyStateDeltaSize s"
  "ClearInMemoryChanges HS s b = (e, s') \<Longrightarrow> historyStateDeltaSize s' = historyStateDeltaSize s"
  by (auto simp: State_GetHash_def State_AddChangesForPersistence_def ClearInMemoryChanges_def updateImpl_def Let_def
      split: prod.splits option.splits if_splits sum.splits)

lemma commit_hist:
  assumes "CommitTxBatch P H HS D now db L bid txs results metadata = (None, db', L')"
  shows "historyStateDeltaSize (l_state L') = historyStateDeltaSize (l_state L)"
  using assms
  by (auto simp: CommitTxBatch_def abortBatch_def resetForNextTxGroup_def Let_def
      dest!: State_hist split: prod.splits option.splits if_splits sum.splits gerr.splits)

lemma batch_view:
  assumes "delta_good (stateDelta s)" "kv_ok m'" "m' = apply_updates (updates_of (stateDelta s)) Map.empty"
  shows "m' ck = (if 0 \<in> set ck then norm_slice (w_batch (abs_state Map.empty s) (cc_of ck, key_of ck)) else None)"
proof (cases "0 \<in> set ck")
  case True
  have z: "0 \<notin> set (cc_of ck)" by (auto simp: cc_of_def dest: set_takeWhileD)
  have w: "world m' (cc_of ck, key_of ck) = m' ck" using composite_split [OF True] by (simp add: world_def)
  have "m' ck = (case delta_at (stateDelta s) (cc_of ck, key_of ck) of None \<Rightarrow> None | Some uv \<Rightarrow> norm_slice (Value uv))"
    using world_apply_updates [of "(cc_of ck, key_of ck)" "stateDelta s" Map.empty] z assms(1)
    unfolding assms(3) [symmetric] w by (simp add: new_value_def delta_good_def world_def split: option.splits)
  then show ?thesis using True by (simp add: abs_state_def Let_def fwd_def world_def norm_slice_def split: option.splits)
next
  case False
  with assms(2) have "m' ck \<noteq> Some v" for v by (auto simp: kv_ok_def)
  with False show ?thesis by (cases "m' ck") auto
qed

lemma ex_one_key:
  "(\<lambda>ck. if 0 \<in> set ck then norm_slice (((\<lambda>_. None)((lit ''cc'', lit ''k'') := Some (lit ''v''))) (cc_of ck, key_of ck)) else None) =
    [lit ''cc'' @ [0] @ lit ''k'' \<mapsto> lit ''v'']" (is "?f = ?m")
proof
  fix ck
  let ?k = "lit ''cc'' @ [0] @ lit ''k''"
  have k: "cc_of ?k = lit ''cc''" "key_of ?k = lit ''k''" "0 \<in> set ?k" "norm_slice (Some (lit ''v'')) = Some (lit ''v'')"
    by (simp_all add: cc_of_def key_of_def norm_slice_def lit_def)
  show "?f ck = ?m ck"
  proof (cases "ck = ?k")
    case True
    show ?thesis unfolding True using k by simp
  next
    case False
    have "\<not> (0 \<in> set ck \<and> (cc_of ck, key_of ck) = (lit ''cc'', lit ''k''))"
      using composite_split [of ck] False by (auto simp: ConstructCompositeKey_def stateKeyDelimiter_def)
    then show ?thesis using False by (auto simp: norm_slice_def)
  qed
qed

lemma ex_committed:
  "\<exists>c L P db' L' b. initConfig (ex_configs 1) = Some (Inr c) \<and> historyStateDeltaSize (l_state L') = 500 \<and>
    CommitTxBatch P ex_hash (bucket_hs ex_hash c memdb) memdb (1, 2) (\<lambda>_. []) L (Some ()) [ex_tx] [] [] = (None, db', L') \<and>
    peer_inv ex_hash c memdb mem_content P db' L' [b] \<and> Transactions b = [ex_tx] \<and>
    bucket_view c mem_content db' = [lit ''cc'' @ [0] @ lit ''k'' \<mapsto> lit ''v'']"
proof -
  obtain c L P db' L' where c: "peer_inv ex_hash c memdb mem_content P (\<lambda>_. []) L []" "\<not> txInProgress (l_state L)"
    "currentID L = Some ()" "historyStateDeltaSize (l_state L) = 500" "initConfig (ex_configs 1) = Some (Inr c)"
    "bucket_view c mem_content (\<lambda>_. []) = Map.empty"
    "w_batch (abs_state (bucket_view c mem_content (\<lambda>_. [])) (l_state L)) = (\<lambda>_. None)((lit ''cc'', lit ''k'') := Some (lit ''v''))"
    "CommitTxBatch P ex_hash (bucket_hs ex_hash c memdb) memdb (1, 2) (\<lambda>_. []) L (Some ()) [ex_tx] [] [] = (None, db', L')"
    using ex_commit by blast
  have i: "ledger_inv P ex_hash mem_content (bucket_view c mem_content) (root_hash ex_hash c) (bucket_clean ex_hash c memdb mem_content)
      (bucket_prepared ex_hash c memdb mem_content) (\<lambda>_. []) L []" "proto_ok P"
    using c(1) by (simp_all add: peer_inv_def)
  from btf.commit_ok [OF i(1) rocksdb_ok_memdb i(2) c(2,3) _ c(8)] obtain b where
    b: "peer_inv ex_hash c memdb mem_content P db' L' [b]" "Transactions b = [ex_tx]"
      "bucket_view c mem_content db' = apply_updates (updates_of (stateDelta (l_state L))) (bucket_view c mem_content (\<lambda>_. []))"
    using i(2) rocksdb_ok_memdb by (auto simp: peer_inv_def)
  have "delta_good (stateDelta (l_state L))" using peer_inv_state [OF c(1)] by (simp add: state_inv_def)
  from batch_view [OF this bucket_view_kv_ok [OF b(1)] b(3) [unfolded c(6)]]
  have "bucket_view c mem_content db' = [lit ''cc'' @ [0] @ lit ''k'' \<mapsto> lit ''v'']"
    unfolding ex_one_key [symmetric] c(7) [unfolded c(6), symmetric] by (intro ext)
  moreover have "historyStateDeltaSize (l_state L') = 500" using commit_hist [OF c(8)] c(4) by simp
  ultimately show ?thesis using c(5,8) b(1,2) by blast
qed

lemma chain_hashes_nth:
  "i < length bs \<Longrightarrow> Block_GetHash P H (bs ! i) = Inr h \<Longrightarrow> (h, of_nat (n + i)) \<in> set (chain_hashes P H n bs)"
proof (induction bs arbitrary: n i)
  case (Cons b bs)
  then show ?case using Cons.IH [of "i - 1" "Suc n"] by (cases i) auto
qed simp

lemma chain_hashes_lookup:
  assumes "distinct (map fst (chain_hashes P H 0 bs))" "i < length bs" "Block_GetHash P H (bs ! i) = Inr h"
  shows "map_of (rev (chain_hashes P H 0 bs)) h = Some (of_nat i)"
  using chain_hashes_nth [OF assms(2,3), of 0] assms(1)
  by (intro map_of_is_SomeI) (simp_all add: rev_map [symmetric])

text \<open>Committing a delta that was just applied to a clean state performs its updates.\<close>

lemma CommitStateDelta_applied:
  assumes i: "rocksdb_ok D content" and cl: "bucket_clean H c D content db (stateImpl (l_state L))"
    and sd: "bucket_supports sd \<or> StateDelta_IsEmpty sd"
    and cm: "CommitStateDelta (bucket_hs H c D) D db (L\<lparr>currentID := bid, l_state := State_ApplyStateDelta (l_state L) sd\<rparr>) bid =
      (r, db', L')"
  shows "((\<forall>ops e. Write D db ops \<noteq> Inl e) \<longrightarrow> r = None) \<and>
    (r = None \<longrightarrow> bucket_view c content db' = apply_updates (updates_of sd) (bucket_view c content db))"
proof -
  from btf.CommitStateDelta_ok [OF cl sd] obtain ops impl where
    run: "\<And>D'. State_CommitStateDelta (bucket_hs H c D) D' db (State_ApplyStateDelta (l_state L) sd) =
        (Write D' db ops, (State_ApplyStateDelta (l_state L) sd)\<lparr>stateImpl := impl, updateStateImpl := False\<rparr>)"
    and ops: "\<forall>db1. content db1 StateCF = apply_batch (content db) ops StateCF \<longrightarrow>
       bucket_view c content db1 = apply_updates (updates_of sd) (bucket_view c content db) \<and>
       (\<exists>impl'. hs_ClearWorkingSet (bucket_hs H c D) impl True = (None, impl') \<and> bucket_clean H c D content db1 impl')" by blast
  show ?thesis
  proof (cases "Write D db ops")
    case (Inl e)
    then have "\<exists>e. Write D db ops = Inl e" by blast
    with cm run [of D] Inl show ?thesis
      by (auto simp: CommitStateDelta_def checkValidIDCommitORRollback_def split: prod.splits option.splits)
  next
    case (Inr db1)
    have "content db1 StateCF = apply_batch (content db) ops StateCF" using rocksdb_write [OF i Inr] by simp
    with ops obtain impl' where o: "bucket_view c content db1 = apply_updates (updates_of sd) (bucket_view c content db)"
      "hs_ClearWorkingSet (bucket_hs H c D) impl True = (None, impl')" by blast
    with cm run [of D] Inr show ?thesis
      by (auto simp: CommitStateDelta_def checkValidIDCommitORRollback_def resetForNextTxGroup_def ClearInMemoryChanges_def
          State_ApplyStateDelta_def split: prod.splits option.splits sum.splits)
  qed
qed

text \<open>
  C12: Undoing a block. After a commit with a delta history, \<open>GetStateDelta\<close> returns the delta of
  the committed block; applying it with \<open>RollBackwards\<close> set and committing that succeeds when the
  database accepts the write, and gives back exactly the state before the block.
\<close>

theorem undo_block:
  assumes "peer_inv H c D content P db L bs" "\<not> txInProgress (l_state L)" "currentID L = bid" "Suc (length bs) < 2 ^ 64"
    and "CommitTxBatch P H (bucket_hs H c D) D now db L bid txs results metadata = (None, db', L')"
    and "historyStateDeltaSize (l_state L) \<noteq> 0" "sd_sized (stateDelta (l_state L))"
  shows "\<exists>sd L1. GetStateDelta D db' L' (GetBlockchainSize L) = Inr (Some sd) \<and>
    ApplyStateDelta L' bid2 (sd\<lparr>RollBackwards := True\<rparr>) = (None, L1) \<and>
    (\<forall>r db'' L2. CommitStateDelta (bucket_hs H c D) D db' L1 bid2 = (r, db'', L2) \<longrightarrow>
       ((\<forall>ops e. Write D db' ops \<noteq> Inl e) \<longrightarrow> r = None) \<and>
       (r = None \<longrightarrow> bucket_view c content db'' = bucket_view c content db))"
proof -
  let ?sd = "stateDelta (l_state L)" and ?v = "bucket_view c content"
  let ?sd' = "?sd\<lparr>ChaincodeStateDeltas := norm_ccs (ChaincodeStateDeltas ?sd), RollBackwards := True\<rparr>"
  let ?inv = "ledger_inv P H content ?v (root_hash H c) (bucket_clean H c D content) (bucket_prepared H c D content)"
  have i: "?inv db L bs" "rocksdb_ok D content" "proto_ok P" using assms(1) by (simp_all add: peer_inv_def)
  have good: "delta_good ?sd" "records (delta_at ?sd) (world (?v db))"
    using peer_inv_state [OF assms(1)] by (simp_all add: state_inv_def)
  obtain b where c': "batch_closed L'" "?inv db' L' (bs @ [b])" "?v db' = apply_updates (updates_of ?sd) (?v db)"
    "content db' StateDeltaCF (encodeStateDeltaKey (of_nat (length bs))) = Some (StateDelta_Marshal ?sd)"
    using btf.commit_ok [OF i assms(2-5)] assms(6) by auto
  have sz: "GetBlockchainSize L = of_nat (length bs)" "GetBlockchainSize L' = of_nat (Suc (length bs))"
    using i(1) c'(2) by (simp_all add: ledger_inv_def chain_tip_def GetBlockchainSize_def)
  have "\<not> GetBlockchainSize L' \<le> GetBlockchainSize L"
    using assms(4) unfolding sz by (simp add: word_le_nat_alt unat_of_nat_u64 del: of_nat_Suc)
  then have get: "GetStateDelta D db' L' (GetBlockchainSize L) = Inr (Some (?sd'\<lparr>RollBackwards := False\<rparr>))"
    using c'(4) good(1) assms(7) Marshal_neq_Nil
    by (simp add: GetStateDelta_def FetchStateDeltaFromDB_def GetFromStateDeltaCF_def db_get_ok [OF i(2)] sz(1)
        Unmarshal_Marshal_norm delta_good_def NewStateDelta_def)
  have cl: "bucket_clean H c D content db' (stateImpl (l_state L'))"
    using c'(1,2) by (simp add: ledger_inv_def state_inv_def impl_ok_def batch_closed_def)
  have undo: "apply_updates (updates_of ?sd') (?v db') = ?v db"
    unfolding c'(3) using rolled_back [OF good(2) bucket_view_kv_ok [OF assms(1)]] good(1)
    by (simp add: delta_good_def)
  let ?L1 = "L'\<lparr>currentID := bid2, l_state := State_ApplyStateDelta (l_state L') ?sd'\<rparr>"
  have "ApplyStateDelta L' bid2 ((?sd'\<lparr>RollBackwards := False\<rparr>)\<lparr>RollBackwards := True\<rparr>) = (None, ?L1)"
    using c'(1) by (simp add: ApplyStateDelta_def checkValidIDBegin_def batch_closed_def)
  moreover have "((\<forall>ops e. Write D db' ops \<noteq> Inl e) \<longrightarrow> r = None) \<and> (r = None \<longrightarrow> ?v db'' = ?v db)"
    if cm: "CommitStateDelta (bucket_hs H c D) D db' ?L1 bid2 = (r, db'', L2)" for r db'' L2
    using CommitStateDelta_applied [OF i(2) cl supports_rolled_back [OF good(1)] cm] unfolding undo .
  ultimately show ?thesis using get by blast
qed

theorem undo_block_witness:
  "\<exists>c L P db' L' sd L1 r db'' L2.
    CommitTxBatch P ex_hash (bucket_hs ex_hash c memdb) memdb (1, 2) (\<lambda>_. []) L (Some ()) [ex_tx] [] [] = (None, db', L') \<and>
    GetStateDelta memdb db' L' (GetBlockchainSize L) = Inr (Some sd) \<and>
    ApplyStateDelta L' (Some ()) (sd\<lparr>RollBackwards := True\<rparr>) = (None, L1) \<and>
    CommitStateDelta (bucket_hs ex_hash c memdb) memdb db' L1 (Some ()) = (None, db'', L2) \<and>
    bucket_view c mem_content db'' = bucket_view c mem_content (\<lambda>_. [])"
proof -
  obtain c L P db' L' where c: "peer_inv ex_hash c memdb mem_content P (\<lambda>_. []) L []" "\<not> txInProgress (l_state L)"
    "currentID L = Some ()" "historyStateDeltaSize (l_state L) = 500" "sd_sized (stateDelta (l_state L))"
    "CommitTxBatch P ex_hash (bucket_hs ex_hash c memdb) memdb (1, 2) (\<lambda>_. []) L (Some ()) [ex_tx] [] [] = (None, db', L')"
    using ex_commit by blast
  obtain sd L1 where u: "GetStateDelta memdb db' L' (GetBlockchainSize L) = Inr (Some sd)"
    "ApplyStateDelta L' (Some ()) (sd\<lparr>RollBackwards := True\<rparr>) = (None, L1)"
    "\<forall>r db'' L2. CommitStateDelta (bucket_hs ex_hash c memdb) memdb db' L1 (Some ()) = (r, db'', L2) \<longrightarrow>
       ((\<forall>ops e. Write memdb db' ops \<noteq> Inl e) \<longrightarrow> r = None) \<and>
       (r = None \<longrightarrow> bucket_view c mem_content db'' = bucket_view c mem_content (\<lambda>_. []))"
    using undo_block [OF c(1-3) _ c(6) _ c(5), of "Some ()"] c(4) by auto
  obtain r db'' L2 where r: "CommitStateDelta (bucket_hs ex_hash c memdb) memdb db' L1 (Some ()) = (r, db'', L2)"
    using prod_cases3 by blast
  with u(3) memdb_writes have "r = None" "bucket_view c mem_content db'' = bucket_view c mem_content (\<lambda>_. [])" by blast+
  with c(6) u r show ?thesis by blast
qed

text \<open>
  C13: What a restarted peer recovers. A ledger opened on the database of a peer, with the same
  bucket tree configuration and delta history, has the same chain: its tip is that of the stored
  blocks and it has the same height. No batch is open, it reports the hash of the stored state and
  reads the committed values the peer read. It satisfies the whole invariant of the peer with the
  same blocks if the bucket cache is switched off or the memory of iterators keeps its contents,
  because the start-up code fills the cache with slices of that memory.
\<close>

theorem restart_ledger:
  assumes "peer_inv H c D content P db L bs" and "initConfig cfgs = Some (Inr c)"
    and "0 \<le> n" "word_of_int n = historyStateDeltaSize (l_state L)"
  shows "\<exists>st L'. si_Initialize H D db NewStateImpl cfgs = Some (Inr (c, st)) \<and>
    newLedger P H D db (Inr st) n = Inr L' \<and> currentID L' = None \<and>
    chain_tip P H bs (l_blockchain L') \<and> GetBlockchainSize L' = GetBlockchainSize L \<and>
    GetTempStateHash (bucket_hs H c D) db L' = (Inr (root_hash H c (bucket_view c content db)), L') \<and>
    (\<forall>cc k. GetState (bucket_hs H c D) db L' cc k True = GetState (bucket_hs H c D) db L cc k True) \<and>
    (itr_kept D \<or> cache_off cfgs \<longrightarrow> peer_inv H c D content P db L' bs)"
proof -
  let ?h = "root_hash H c (bucket_view c content db)"
  have i: "rocksdb_ok D content" "proto_ok P" "chain_db P H (content db) bs" "linked P H bs"
    "chain_tip P H bs (l_blockchain L)" "delta_window (content db) (length bs) (historyStateDeltaSize (l_state L))"
    "bs \<noteq> [] \<longrightarrow> StateHash (last bs) = sbytes ?h"
    using assms(1) by (simp_all add: peer_inv_def ledger_inv_def)
  have t: "hash_ok H" "conf_wf c" "tree_db H c (bucket_view c content db) (content db StateCF)"
    using peer_inv_state [OF assms(1)]
    by (auto simp: state_inv_def impl_ok_def bucket_clean_def st_clean_def bucket_prepared_def st_prepared_def tree_at_def
        split: if_splits)
  obtain cache where st: "si_Initialize H D db NewStateImpl cfgs = Some (Inr (c, NewStateImpl\<lparr>persistedStateHash := ?h,
      lastComputedCryptoHash := ?h, si_bucketCache := Some cache\<rparr>))" (is "_ = Some (Inr (c, ?st))")
    using Initialize_runs [OF i(1) t(1,3) assms(2) t(2)] by blast
  have clean: "bucket_clean H c D content db ?st" if "itr_kept D \<or> cache_off cfgs"
    using Initialize_ok [OF i(1) t(1,3) assms(2) t(2) that] st by auto
  obtain bc where bc: "newBlockchain P H D db = Inr bc" "chain_tip P H bs bc" "bc_lastProcessedBlock bc = None"
    using newBlockchain_chain [OF i(1,2,3)] by blast
  obtain s where s: "NewState (Inr ?st) n = Inr s" "historyStateDeltaSize s = historyStateDeltaSize (l_state L)"
    "stateImpl s = ?st" "\<not> updateStateImpl s" using assms(3,4) by (simp add: NewState_def)
  let ?L = "\<lparr>l_blockchain = bc, l_state = s, currentID = None\<rparr>"
  have "newLedger P H D db (Inr ?st) n = Inr ?L" using bc s by (simp add: newLedger_def)
  moreover have "peer_inv H c D content P db ?L bs" if "itr_kept D \<or> cache_off cfgs"
    using i bc s(2) NewState_inv(1) [OF clean [OF that] s(1)] by (simp add: peer_inv_def ledger_inv_def)
  moreover have "GetBlockchainSize ?L = GetBlockchainSize L"
    using i(5) bc(2) by (simp add: chain_tip_def GetBlockchainSize_def)
  moreover have "s\<lparr>stateImpl := ?st\<rparr> = s" using s(3) by simp
  then have "GetTempStateHash (bucket_hs H c D) db ?L = (Inr ?h, ?L)"
    using s(3,4) by (simp add: GetTempStateHash_def State_GetHash_def updateImpl_def si_ComputeCryptoHash_def NewStateImpl_def)
  moreover have "GetState (bucket_hs H c D) db ?L cc k True = GetState (bucket_hs H c D) db L cc k True" for cc k
    by (simp add: GetState_def State_Get_def)
  moreover have "chain_tip P H bs (l_blockchain ?L)" "currentID ?L = None" using bc(2) by simp_all
  ultimately show ?thesis using st by blast
qed

theorem restart_ledger_witness:
  "\<exists>c L P db' L' st L'' bs.
    CommitTxBatch P ex_hash (bucket_hs ex_hash c memdb) memdb (1, 2) (\<lambda>_. []) L (Some ()) [ex_tx] [] [] = (None, db', L') \<and>
    si_Initialize ex_hash memdb db' NewStateImpl (ex_configs 1) = Some (Inr (c, st)) \<and>
    newLedger P ex_hash memdb db' (Inr st) 500 = Inr (L'' :: (StateImpl, unit) Ledger) \<and>
    peer_inv ex_hash c memdb mem_content P db' L'' bs \<and> length bs = 1"
proof -
  obtain c L P db' L' b where c: "initConfig (ex_configs 1) = Some (Inr c)" "historyStateDeltaSize (l_state L') = 500"
    "CommitTxBatch P ex_hash (bucket_hs ex_hash c memdb) memdb (1, 2) (\<lambda>_. []) L (Some ()) [ex_tx] [] [] = (None, db', L')"
    "peer_inv ex_hash c memdb mem_content P db' L' [b]" using ex_committed by blast
  from restart_ledger [OF c(4,1), of 500] c(2) itr_kept_memdb obtain st L'' where
    "si_Initialize ex_hash memdb db' NewStateImpl (ex_configs 1) = Some (Inr (c, st))"
    "newLedger P ex_hash memdb db' (Inr st) 500 = Inr (L'' :: (StateImpl, unit) Ledger)"
    "peer_inv ex_hash c memdb mem_content P db' L'' [b]" by auto
  with c(3) show ?thesis by (metis length_Cons list.size(3) One_nat_def)
qed

text \<open>
  C28: Looking up transactions. If the transaction ids of the chain are distinct,
  \<open>GetTransactionByUUID\<close> returns every committed transaction under its id, and an id that was
  never committed gives \<open>ErrResourceNotFound\<close>.
\<close>

theorem transaction_lookup:
  assumes "peer_inv H c D content P db L bs" and "distinct (map fst (chain_txs 0 bs))"
  shows "(\<forall>i < length bs. \<forall>j < length (Transactions (bs ! i)). length (Transactions (bs ! i)) < 2 ^ 64 \<longrightarrow>
      GetTransactionByUUID P D db (tx_Uuid (Transactions (bs ! i) ! j)) = Inr (Transactions (bs ! i) ! j)) \<and>
    (\<forall>u. u \<notin> fst ` set (chain_txs 0 bs) \<longrightarrow> GetTransactionByUUID P D db u = Inl ErrResourceNotFound)"
proof -
  have i: "rocksdb_ok D content" "proto_ok P" "chain_db P H (content db) bs"
    using assms(1) by (simp_all add: peer_inv_def ledger_inv_def)
  have "GetTransactionByUUID P D db u = Inl ErrResourceNotFound" if "u \<notin> fst ` set (chain_txs 0 bs)" for u
  proof -
    have "map_of (rev (chain_txs 0 bs)) u = None" using that by (simp add: map_of_eq_None_iff)
    then show ?thesis
      using i(3) by (simp add: GetTransactionByUUID_def getTransactionByUUID_def fetchTransactionIndexByUUIDFromDB_def
          GetFromIndexesCF_def db_get_ok [OF i(1)] chain_db_def)
  qed
  moreover have "GetTransactionByUUID P D db (tx_Uuid (Transactions (bs ! n) ! j)) = Inr (Transactions (bs ! n) ! j)"
    if "n < length bs" "j < length (Transactions (bs ! n))" "length (Transactions (bs ! n)) < 2 ^ 64" for n j
    unfolding GetTransactionByUUID_def
    by (rule getTransactionByUUID_chain [OF i that refl chain_txs_lookup [OF assms(2) that(1,2)]])
  ultimately show ?thesis by blast
qed

theorem transaction_lookup_witness:
  "\<exists>c L P db' L'.
    CommitTxBatch P ex_hash (bucket_hs ex_hash c memdb) memdb (1, 2) (\<lambda>_. []) L (Some ()) [ex_tx] [] [] = (None, db', L') \<and>
    GetTransactionByUUID P memdb db' (lit ''t1'') = Inr ex_tx \<and>
    GetTransactionByUUID P memdb db' (lit ''t2'') = Inl ErrResourceNotFound"
proof -
  obtain c L P db' L' b where c: "peer_inv ex_hash c memdb mem_content P db' L' [b]" "Transactions b = [ex_tx]"
    "CommitTxBatch P ex_hash (bucket_hs ex_hash c memdb) memdb (1, 2) (\<lambda>_. []) L (Some ()) [ex_tx] [] [] = (None, db', L')"
    using ex_committed by blast
  have t: "map fst (chain_txs 0 [b]) = [lit ''t1'']" using c(2) by (simp add: block_txs_def ex_tx_def)
  then have "fst ` set (chain_txs 0 [b]) = {lit ''t1''}" by (metis list.set(1,2) list.set_map)
  with transaction_lookup [OF c(1)] t c(2) have
    "GetTransactionByUUID P memdb db' (lit ''t1'') = Inr ex_tx" "GetTransactionByUUID P memdb db' (lit ''t2'') = Inl ErrResourceNotFound"
    by (auto simp: ex_tx_def lit_def)
  with c(3) show ?thesis by blast
qed

text \<open>
  C30: An unknown block hash finds the first block. On a nonempty chain \<open>getBlockByHash\<close>
  returns the block with the given hash when the hashes are distinct, but for a hash that no
  block has it returns block 0 instead of an error.
\<close>

theorem getBlockByHash_behaviour:
  assumes "peer_inv H c D content P db L bs" and "distinct (map fst (chain_hashes P H 0 bs))" and "bs \<noteq> []"
  shows "(\<forall>i < length bs. \<forall>h. Block_GetHash P H (bs ! i) = Inr h \<longrightarrow> bc_getBlockByHash P D db h = Inr (Some (bs ! i))) \<and>
    (\<forall>h. h \<notin> fst ` set (chain_hashes P H 0 bs) \<longrightarrow> bc_getBlockByHash P D db h = Inr (Some (bs ! 0)))"
proof -
  have i: "rocksdb_ok D content" "proto_ok P" "chain_db P H (content db) bs"
    using assms(1) by (simp_all add: peer_inv_def ledger_inv_def)
  have num: "fetchBlockNumberByBlockHashFromDB D db h =
      Inr (case map_of (rev (chain_hashes P H 0 bs)) h of None \<Rightarrow> 0 | Some n \<Rightarrow> n)" for h
    using i(3) by (simp add: fetchBlockNumberByBlockHashFromDB_def GetFromIndexesCF_def db_get_ok [OF i(1)] chain_db_def
        decodeBlockNumber_Nil split: option.splits)
  have "bc_getBlockByHash P D db h = Inr (Some (bs ! n))" if "n < length bs" "Block_GetHash P H (bs ! n) = Inr h" for n h
    using fetchBlock_chain [OF i that(1)] chain_hashes_lookup [OF assms(2) that]
    by (simp add: bc_getBlockByHash_def num bc_getBlock_def)
  moreover have "bc_getBlockByHash P D db h = Inr (Some (bs ! 0))" if "h \<notin> fst ` set (chain_hashes P H 0 bs)" for h
  proof -
    have "map_of (rev (chain_hashes P H 0 bs)) h = None" using that by (simp add: map_of_eq_None_iff)
    then show ?thesis using fetchBlock_chain [OF i, of 0] assms(3) by (simp add: bc_getBlockByHash_def num bc_getBlock_def)
  qed
  ultimately show ?thesis by blast
qed

theorem getBlockByHash_behaviour_witness:
  "\<exists>c P db' (L' :: (StateImpl, unit) Ledger) b. peer_inv ex_hash c memdb mem_content P db' L' [b] \<and>
    bc_getBlockByHash P memdb db' (lit ''no such hash'') = Inr (Some b)"
proof -
  obtain c P db' b and L' :: "(StateImpl, unit) Ledger" where c: "peer_inv ex_hash c memdb mem_content P db' L' [b]"
    using ex_committed by blast
  have p: "proto_ok P" using c by (simp add: peer_inv_def)
  have "chain_hashes P ex_hash 0 [b] = [] \<or> (\<exists>x. chain_hashes P ex_hash 0 [b] = [(ex_hash x, 0)])"
    by (auto simp: Block_GetHash_Inr [OF p] split: sum.splits)
  moreover have "lit ''no such hash'' \<noteq> ex_hash x" for x by (simp add: lit_def ex_hash_def numeral_eq_Suc)
  ultimately have "distinct (map fst (chain_hashes P ex_hash 0 [b]))"
    "lit ''no such hash'' \<notin> fst ` set (chain_hashes P ex_hash 0 [b])" by (auto simp del: chain_hashes.simps)
  with getBlockByHash_behaviour [OF c] have "bc_getBlockByHash P memdb db' (lit ''no such hash'') = Inr (Some b)" by simp
  with c show ?thesis by blast
qed

text \<open>A database that can be read but not written.\<close>

definition failing_writes :: "'db gorocksdb \<Rightarrow> 'db gorocksdb" where
  "failing_writes D = D\<lparr>Write := \<lambda>_ _. Inl DBError\<rparr>"

lemma peer_inv_failing:
  assumes "peer_inv H c D content P db L bs"
  shows "peer_inv H c (failing_writes D) content P db L bs"
proof -
  have r: "rocksdb_ok (failing_writes D) content"
    using assms by (simp add: peer_inv_def rocksdb_ok_def failing_writes_def)
  then have "bucket_clean H c (failing_writes D) content db = bucket_clean H c D content db"
    "bucket_prepared H c (failing_writes D) content db = bucket_prepared H c D content db"
    using assms by (simp_all add: fun_eq_iff peer_inv_def bucket_clean_def st_clean_def bucket_prepared_def st_prepared_def tree_at_def)
  with assms r show ?thesis by (simp add: peer_inv_def ledger_inv_def state_inv_def impl_ok_def)
qed

text \<open>
  C37: A failed write of a raw block. \<open>PutRawBlock\<close> of a block beyond the tip reports the error
  of the write but has already moved the height and the previous hash in memory, so the ledger
  then announces blocks that the database does not have.
\<close>

theorem PutRawBlock_failed_write:
  assumes "peer_inv H c D content P db L bs" and "\<forall>ops. Write D db ops = Inl e"
    and "Block_Bytes P b = Inr bytes" "Block_GetHash P H b = Inr h" and "of_nat (length bs) < n + 1"
    and "PutRawBlock P H D db L b n = (r, db', L')"
  shows "r = Some e \<and> db' = db \<and> GetBlockchainSize L' = n + 1 \<and> (\<forall>bs'. \<not> peer_inv H c D content P db' L' bs')"
proof -
  have i: "chain_tip P H bs (l_blockchain L)" "chain_db P H (content db) bs"
    using assms(1) by (simp_all add: peer_inv_def ledger_inv_def)
  have r: "r = Some e" "db' = db" "GetBlockchainSize L' = n + 1"
    using assms(2-6) i(1)
    by (auto simp: PutRawBlock_def persistRawBlock_def chain_tip_def GetBlockchainSize_def simp del: Block_Bytes_Inr)
  have "length bs = length bs'" if "peer_inv H c D content P db L' bs'" for bs'
  proof -
    have "rocksdb_ok D content" "chain_db P H (content db) bs'" using that by (simp_all add: peer_inv_def ledger_inv_def)
    with fetchSize_chain [of D content P H db bs] fetchSize_chain [of D content P H db bs'] i(2)
    show ?thesis using of_nat_u64_inj [of "length bs" "length bs'"] by (simp add: chain_db_def)
  qed
  moreover have "n + 1 = of_nat (length bs')" if "peer_inv H c D content P db L' bs'" for bs'
    using that r(3) by (simp add: peer_inv_def ledger_inv_def chain_tip_def GetBlockchainSize_def)
  ultimately show ?thesis using r assms(5) by (metis less_irrefl)
qed

theorem PutRawBlock_failed_write_witness:
  "\<exists>c P b (L :: (StateImpl, unit) Ledger) L'. peer_inv ex_hash c (failing_writes memdb) mem_content P (\<lambda>_. []) L [] \<and>
    PutRawBlock P ex_hash (failing_writes memdb) (\<lambda>_. []) L b 6 = (Some DBError, \<lambda>_. [], L') \<and> GetBlockchainSize L' = 7"
proof -
  obtain c and L :: "(StateImpl, unit) Ledger" where
    L: "\<And>P. proto_ok P \<Longrightarrow> peer_inv ex_hash c memdb mem_content P (\<lambda>_. []) L []" using ex_open by blast
  let ?P = "ex_proto ex_b0" and ?D = "failing_writes memdb"
  have p: "peer_inv ex_hash c ?D mem_content ?P (\<lambda>_. []) L []" by (intro peer_inv_failing L ex_proto_ok)
  obtain h where h: "Block_GetHash ?P ex_hash ex_b0 = Inr h" using ex_proto_ok(2) by blast
  have b: "Block_Bytes ?P ex_b0 = Inr (encodeUint64 0)" by (simp add: ex_proto_def table_proto_def)
  obtain r db' L' where r: "PutRawBlock ?P ex_hash ?D (\<lambda>_. []) L ex_b0 6 = (r, db', L')" using prod_cases3 by blast
  from PutRawBlock_failed_write [OF p _ b h _ r, of DBError] have "r = Some DBError" "db' = (\<lambda>_. [])" "GetBlockchainSize L' = 7"
    by (auto simp: failing_writes_def)
  with p r show ?thesis by blast
qed

lemma cleared_hash:
  assumes "st_prepared H c D content db st dm u"
  shows "\<exists>ops st' st''. si_AddChangesForPersistence H c D db st [] = (Inr ops, st') \<and>
    si_ClearWorkingSet c st' True = Inr st'' \<and>
    lastComputedCryptoHash st'' = root_hash H c (apply_updates u dm) \<and> \<not> recomputeCryptoHash st''"
proof -
  obtain st' where st': "si_ComputeCryptoHash H c D db st = (Inr (root_hash H c (apply_updates u dm)), st')"
      "st_prepared H c D content db st' dm u" "\<not> recomputeCryptoHash st'" "si_dataNodesDelta st' = si_dataNodesDelta st"
    using compute_prepared [OF assms] by blast
  have "si_AddChangesForPersistence H c D db st [] = si_AddChangesForPersistence H c D db st' []"
  proof (cases "recomputeCryptoHash st")
    case True
    then show ?thesis using st' assms by (auto simp: si_AddChangesForPersistence_def st_prepared_def)
  next
    case False
    then have "st' = st" using st'(1) by (simp add: si_ComputeCryptoHash_def)
    then show ?thesis by simp
  qed
  with persist_computed [OF st'(2,3), of "[]"] obtain ops where "si_AddChangesForPersistence H c D db st [] = (Inr ops, st')"
    by auto
  moreover have "\<exists>st''. si_ClearWorkingSet c st' True = Inr st'' \<and>
      lastComputedCryptoHash st'' = root_hash H c (apply_updates u dm) \<and> \<not> recomputeCryptoHash st''"
    using st'(2,3) by (auto simp: si_ClearWorkingSet_def st_prepared_def updateBucketCache_def)
  ultimately show ?thesis by blast
qed

text \<open>
  C36: A failed write of a state delta. \<open>CommitStateDelta\<close> returns the error of the write, but
  its deferred reset runs as if the changes had been stored: the peer then reports the hash of
  the state with the delta, although neither the database nor any value read has changed.
\<close>

theorem CommitStateDelta_failed_write:
  assumes "peer_inv H c D content P db L bs" and "currentID L = None" "StateDelta_IsEmpty (stateDelta (l_state L))"
    and "\<forall>ops. Write D db ops = Inl DBError" and "bucket_supports sd"
  shows "\<exists>L1 L2 L3. ApplyStateDelta L bid sd = (None, L1) \<and>
    CommitStateDelta (bucket_hs H c D) D db L1 bid = (Some DBError, db, L2) \<and>
    GetTempStateHash (bucket_hs H c D) db L2 =
      (Inr (root_hash H c (apply_updates (updates_of sd) (bucket_view c content db))), L3) \<and>
    (\<forall>cc k. GetState (bucket_hs H c D) db L2 cc k True = GetState (bucket_hs H c D) db L cc k True)"
proof -
  let ?dm = "bucket_view c content db" and ?u = "updates_of sd" and ?s = "State_ApplyStateDelta (l_state L) sd"
  have "st_clean H c D content db (stateImpl (l_state L)) ?dm"
    using peer_inv_state [OF assms(1)] assms(3) by (simp add: state_inv_def impl_ok_def bucket_clean_def)
  then obtain st1 where st1: "si_PrepareWorkingSet c (stateImpl (l_state L)) sd = Inr st1"
    "st_prepared H c D content db st1 ?dm ?u"
    using prepare_ok [of H c D content db _ ?dm _ sd, OF disjI1] assms(5) by (auto simp: bucket_supports_def)
  obtain ops st2 st3 where st2: "si_AddChangesForPersistence H c D db st1 [] = (Inr ops, st2)"
    "si_ClearWorkingSet c st2 True = Inr st3"
    "lastComputedCryptoHash st3 = root_hash H c (apply_updates ?u ?dm)" "\<not> recomputeCryptoHash st3"
    using cleared_hash [OF st1(2)] by blast
  let ?L1 = "L\<lparr>currentID := bid, l_state := ?s\<rparr>"
  let ?s2 = "?s\<lparr>stateImpl := st3, stateDelta := NewStateDelta, txStateDeltaHash := [], updateStateImpl := False\<rparr>"
  have "ApplyStateDelta L bid sd = (None, ?L1)" using assms(2) by (simp add: ApplyStateDelta_def checkValidIDBegin_def)
  moreover have "State_CommitStateDelta (bucket_hs H c D) D db ?s = (Inl DBError, ?s\<lparr>stateImpl := st2, updateStateImpl := False\<rparr>)"
    using st1(1) st2(1) assms(4)
    by (simp add: State_CommitStateDelta_def updateImpl_def State_ApplyStateDelta_def bucket_hs_def)
  then have "CommitStateDelta (bucket_hs H c D) D db ?L1 bid = (Some DBError, db, L\<lparr>currentID := None, l_state := ?s2\<rparr>)"
    using st2(2) by (simp add: CommitStateDelta_def checkValidIDCommitORRollback_def resetForNextTxGroup_def
        ClearInMemoryChanges_def bucket_hs_def)
  moreover have "GetTempStateHash (bucket_hs H c D) db (L\<lparr>currentID := None, l_state := ?s2\<rparr>) =
      (Inr (root_hash H c (apply_updates ?u ?dm)), L\<lparr>currentID := None, l_state := ?s2\<rparr>)"
    using st2(3,4) by (simp add: GetTempStateHash_def State_GetHash_def updateImpl_def bucket_hs_def si_ComputeCryptoHash_def)
  moreover have "GetState (bucket_hs H c D) db (L\<lparr>currentID := None, l_state := ?s2\<rparr>) cc k True =
      GetState (bucket_hs H c D) db L cc k True" for cc k
    by (simp add: GetState_def State_Get_def bucket_hs_def)
  ultimately show ?thesis by blast
qed

theorem CommitStateDelta_failed_write_witness:
  "\<exists>c P (L :: (StateImpl, unit) Ledger) L1 L2 L3. peer_inv ex_hash c (failing_writes memdb) mem_content P (\<lambda>_. []) L [] \<and>
    ApplyStateDelta L (Some ()) ex_bdelta = (None, L1) \<and>
    CommitStateDelta (bucket_hs ex_hash c (failing_writes memdb)) (failing_writes memdb) (\<lambda>_. []) L1 (Some ()) =
      (Some DBError, \<lambda>_. [], L2) \<and>
    GetTempStateHash (bucket_hs ex_hash c (failing_writes memdb)) (\<lambda>_. []) L2 =
      (Inr (root_hash ex_hash c (apply_updates (updates_of ex_bdelta) Map.empty)), L3)"
proof -
  obtain c st s where s: "NewState (Inr st) 500 = Inr s" "bucket_view c mem_content (\<lambda>_. []) = Map.empty"
    "state_inv (bucket_view c mem_content) (bucket_clean ex_hash c memdb mem_content)
      (bucket_prepared ex_hash c memdb mem_content) (\<lambda>_. []) s" using ex_state by blast
  let ?L = "\<lparr>l_blockchain = ex_tip, l_state = s, currentID = None\<rparr> :: (StateImpl, unit) Ledger"
  have p: "peer_inv ex_hash c (failing_writes memdb) mem_content (table_proto []) (\<lambda>_. []) ?L []"
    by (intro peer_inv_failing peer_inv_empty [OF s(3)] proto_ok_table) simp
  have "StateDelta_IsEmpty (stateDelta (l_state ?L))" using s(1) by (auto simp: NewState_def)
  with CommitStateDelta_failed_write [OF p, of ex_bdelta "Some ()"] ex_bdelta_supported p show ?thesis
    unfolding s(2) by (fastforce simp: failing_writes_def)
qed

text \<open>
  C39: A failing read is taken for success. When the hash of an applied delta cannot be recomputed,
  whatever read of the database fails, \<open>AddChangesForPersistence\<close> drops the error and adds nothing to
  the batch: \<open>CommitStateDelta\<close> writes an empty batch, returns no error and forgets the delta, and
  the peer then reports the hash from before the delta.
\<close>

theorem CommitStateDelta_read_error:
  assumes "currentID L = None" and "\<not> StateDelta_IsEmpty sd" and "si_bucketCache (stateImpl (l_state L)) \<noteq> None"
    and "si_PrepareWorkingSet c (stateImpl (l_state L)) sd = Inr st1"
    and "si_ComputeCryptoHash H c D db st1 = (Inl e, st2)" "\<forall>m. e \<noteq> Panic m"
    and "Write D db [] = Inr db'"
  shows "\<exists>L1 L2 L3. ApplyStateDelta L bid sd = (None, L1) \<and>
    CommitStateDelta (bucket_hs H c D) D db L1 bid = (None, db', L2) \<and>
    currentID L2 = None \<and> StateDelta_IsEmpty (stateDelta (l_state L2)) \<and>
    GetTempStateHash (bucket_hs H c D) db' L2 = (Inr (lastComputedCryptoHash (stateImpl (l_state L))), L3)"
proof -
  let ?s = "State_ApplyStateDelta (l_state L) sd"
  let ?L1 = "L\<lparr>currentID := bid, l_state := ?s\<rparr>"
  have st1: "lastComputedCryptoHash st1 = lastComputedCryptoHash (stateImpl (l_state L))"
    "si_bucketCache st1 = si_bucketCache (stateImpl (l_state L))"
    using assms(2,4) by (auto simp: si_PrepareWorkingSet_def rbind_Inr_conv)
  note keep = compute_error_keeps [OF assms(5)]
  obtain st3 where st3: "si_ClearWorkingSet c st2 True = Inr st3"
    "lastComputedCryptoHash st3 = lastComputedCryptoHash (stateImpl (l_state L))" "\<not> recomputeCryptoHash st3"
    using ClearWorkingSet_runs [of st2 c] keep st1 assms(3) by auto
  let ?s2 = "?s\<lparr>stateImpl := st3, stateDelta := NewStateDelta, txStateDeltaHash := [], updateStateImpl := False\<rparr>"
  have "ApplyStateDelta L bid sd = (None, ?L1)" using assms(1) by (simp add: ApplyStateDelta_def checkValidIDBegin_def)
  moreover have "State_CommitStateDelta (bucket_hs H c D) D db ?s = (Inr db', ?s\<lparr>stateImpl := st2, updateStateImpl := False\<rparr>)"
    using assms(4,7) add_changes_error [OF assms(4,2,5,6)]
    by (simp add: State_CommitStateDelta_def updateImpl_def State_ApplyStateDelta_def)
  then have "CommitStateDelta (bucket_hs H c D) D db ?L1 bid = (None, db', L\<lparr>currentID := None, l_state := ?s2\<rparr>)"
    using st3(1) by (simp add: CommitStateDelta_def checkValidIDCommitORRollback_def resetForNextTxGroup_def
        ClearInMemoryChanges_def)
  moreover have "\<exists>L3. GetTempStateHash (bucket_hs H c D) db' (L\<lparr>currentID := None, l_state := ?s2\<rparr>) =
      (Inr (lastComputedCryptoHash (stateImpl (l_state L))), L3)"
    using st3(2,3) by (simp add: GetTempStateHash_def State_GetHash_def updateImpl_def si_ComputeCryptoHash_def)
  moreover have "StateDelta_IsEmpty (stateDelta ?s2)" by simp
  ultimately show ?thesis by fastforce
qed

text \<open>A peer whose bucket cache is enabled and holds no node yet.\<close>

lemma ex_read_error:
  "\<exists>c (L :: (StateImpl, unit) Ledger) st1 st2. currentID L = None \<and> si_bucketCache (stateImpl (l_state L)) \<noteq> None \<and>
    si_PrepareWorkingSet c (stateImpl (l_state L)) ex_bdelta = Inr st1 \<and>
    si_ComputeCryptoHash ex_hash c (failing_reads memdb) (\<lambda>_. []) st1 = (Inl DBError, st2)"
proof -
  obtain c st where st: "si_Initialize ex_hash memdb (\<lambda>_. []) NewStateImpl (ex_configs 1) = Some (Inr (c, st))"
    "bucket_clean ex_hash c memdb mem_content (\<lambda>_. []) st" using ex_started by blast
  have "Seek memdb (\<lambda>_. []) StateCF [0] = []" by (simp add: memdb_def mem_keys_def)
  with st(1) obtain cache where cache: "si_bucketCache st = Some cache" "cache_c cache = []"
    by (auto simp: si_Initialize_def rbind_Inr_conv loadAllBucketNodesFromDB_def newBucketCache_def
        split: option.splits if_splits)
  obtain st1 where p: "si_PrepareWorkingSet c st ex_bdelta = Inr st1"
      "bucket_prepared ex_hash c memdb mem_content (\<lambda>_. []) st1 (updates_of ex_bdelta)"
    using bt.prepare [of ex_hash c memdb mem_content "\<lambda>_. []" st _ ex_bdelta] st(2) ex_bdelta_supported by (auto split: sum.splits)
  have "recomputeCryptoHash st1" "si_bucketCache st1 = Some cache"
    using p(1) ex_bdelta_nonempty cache(1) by (auto simp: si_PrepareWorkingSet_def rbind_Inr_conv)
  with compute_failing [OF p(2) [unfolded bucket_prepared_def]] cache(2) obtain st2 where
    "si_ComputeCryptoHash ex_hash c (failing_reads memdb) (\<lambda>_. []) st1 = (Inl DBError, st2)" by blast
  moreover obtain s where "NewState (Inr st) 500 = Inr s" "stateImpl s = st" by (simp add: NewState_def)
  ultimately show ?thesis
    using cache(1) p(1)
    by (intro exI [of _ c] exI [of _ "\<lparr>l_blockchain = ex_tip, l_state = s, currentID = None\<rparr>"]) auto
qed

theorem CommitStateDelta_read_error_witness:
  "\<exists>c (L :: (StateImpl, unit) Ledger) L1 L2. ApplyStateDelta L (Some ()) ex_bdelta = (None, L1) \<and>
    CommitStateDelta (bucket_hs ex_hash c (failing_reads memdb)) (failing_reads memdb) (\<lambda>_. []) L1 (Some ()) = (None, \<lambda>_. [], L2) \<and>
    StateDelta_IsEmpty (stateDelta (l_state L2))"
proof -
  obtain c L st1 st2 where L: "currentID (L :: (StateImpl, unit) Ledger) = None" "si_bucketCache (stateImpl (l_state L)) \<noteq> None"
    "si_PrepareWorkingSet c (stateImpl (l_state L)) ex_bdelta = Inr st1"
    "si_ComputeCryptoHash ex_hash c (failing_reads memdb) (\<lambda>_. []) st1 = (Inl DBError, st2)" using ex_read_error by blast
  have "Write (failing_reads memdb) (\<lambda>_. []) [] = Inr (\<lambda>_. [])" by (simp add: failing_reads_def memdb_def)
  with CommitStateDelta_read_error [OF L(1) ex_bdelta_nonempty L(2,3,4) _ this, of "Some ()"] show ?thesis by fastforce
qed

end
