(* ===== verification/StateIterators.thy ===== *)
theory StateIterators
  imports Ledger
begin

text \<open>
  Iterating over the state: range scans over the bucket tree (\<open>range_scan_iterator.go\<close>), over a
  delta (\<open>state_delta_iterator.go\<close>) and over the layers of the world state
  (\<open>composite_range_scan_iterator.go\<close>), and state snapshots (\<open>snapshot_iterator.go\<close>,
  \<open>state_snapshot.go\<close>). The interface \<open>RangeScanIterator\<close> is the locale \<open>range_scan\<close>.

  A database iterator is the list of the entries from its position on. A call of \<open>Next\<close> returns
  \<open>None\<close> if it does not return, and otherwise an error or the result with the moved iterator.
\<close>

type_synonym 'itr next_result = "(gerr + bool \<times> 'itr) option"

subsection \<open>Range scans over the bucket tree\<close>

record RangeScanIterator =
  rs_dbItr :: "(bytes \<times> bytes) list"
  rs_chaincodeID :: gostring
  rs_startKey :: gostring
  rs_endKey :: gostring
  currentBucketNumber :: int
  rs_currentKey :: gostring
  rs_currentValue :: slice
  rs_done :: bool

definition seekForStartKeyWithinBucket ::
  "'db gorocksdb \<Rightarrow> 'db \<Rightarrow> RangeScanIterator \<Rightarrow> int \<Rightarrow> RangeScanIterator" where
  "seekForStartKeyWithinBucket D db itr bucketNumber =
     itr\<lparr>currentBucketNumber := bucketNumber,
       rs_dbItr := Seek D db StateCF (minimumPossibleDataKeyBytes bucketNumber (rs_chaincodeID itr) (rs_startKey itr))\<rparr>"

definition newRangeScanIterator ::
  "'db gorocksdb \<Rightarrow> 'db \<Rightarrow> gostring \<Rightarrow> gostring \<Rightarrow> gostring \<Rightarrow> RangeScanIterator" where
  "newRangeScanIterator D db chaincodeID startKey endKey =
     seekForStartKeyWithinBucket D db
       \<lparr>rs_dbItr = [], rs_chaincodeID = chaincodeID, rs_startKey = startKey, rs_endKey = endKey,
        currentBucketNumber = 0, rs_currentKey = [], rs_currentValue = None, rs_done = False\<rparr> 1"

definition unmarshalDataNodeFromBytes :: "config \<Rightarrow> bytes \<Rightarrow> bytes \<Rightarrow> gerr + dataNode" where
  "unmarshalDataNodeFromBytes c keyBytes valueBytes =
     rbind (newDataKeyFromEncodedBytes c keyBytes) (\<lambda>dk. Inr \<lparr>dn_key = dk, dn_value = Some valueBytes\<rparr>)"

partial_function (option) rs_Next_loop ::
  "config \<Rightarrow> 'db gorocksdb \<Rightarrow> 'db \<Rightarrow> RangeScanIterator \<Rightarrow> RangeScanIterator next_result" where
  "rs_Next_loop c D db itr =
     (case rs_dbItr itr of
        [] \<Rightarrow> Some (Inr (False, itr\<lparr>rs_done := True\<rparr>))
      | (keyBytes, valueBytes) # rest \<Rightarrow>
          (case rbind (unmarshalDataNodeFromBytes c keyBytes valueBytes) (\<lambda>dn.
                rbind (dn_getKeyElements dn) (\<lambda>(cc, key). Inr (dn, cc, key))) of
             Inl e \<Rightarrow> Some (Inl e)
           | Inr (dn, cc, key) \<Rightarrow>
               let bucketNumber = bk_number (dk_bucketKey (dn_key dn))
               in if bucketNumber > currentBucketNumber itr
                  then rs_Next_loop c D db (seekForStartKeyWithinBucket D db itr bucketNumber)
                  else if cc = rs_chaincodeID itr \<and> (rs_endKey itr = [] \<or> key \<le> rs_endKey itr)
                  then Some (Inr (True, itr\<lparr>rs_currentKey := key, rs_currentValue := dn_value dn, rs_dbItr := rest\<rparr>))
                  else rs_Next_loop c D db (seekForStartKeyWithinBucket D db itr (bucketNumber + 1))))"

definition rs_Next ::
  "config \<Rightarrow> 'db gorocksdb \<Rightarrow> 'db \<Rightarrow> RangeScanIterator \<Rightarrow> RangeScanIterator next_result" where
  "rs_Next c D db itr = (if rs_done itr then Some (Inr (False, itr)) else rs_Next_loop c D db itr)"

definition rs_GetKeyValue :: "RangeScanIterator \<Rightarrow> gerr + gostring \<times> slice" where
  "rs_GetKeyValue itr = Inr (rs_currentKey itr, rs_currentValue itr)"

subsection \<open>Range scans over a delta\<close>

record StateDeltaIterator =
  di_updates :: "(gostring, UpdatedValue) gomap option"
  relevantKeys :: "gostring list"
  currentKeyIndex :: int
  di_done :: bool

definition in_range :: "gostring \<Rightarrow> gostring \<Rightarrow> gostring \<Rightarrow> bool" where
  "in_range startKey endKey k \<longleftrightarrow> startKey \<le> k \<and> (endKey = [] \<or> k \<le> endKey)"

definition retrieveRelevantKeys ::
  "(gostring, UpdatedValue) gomap option \<Rightarrow> gostring \<Rightarrow> gostring \<Rightarrow> gostring list" where
  "retrieveRelevantKeys updates startKey endKey =
     (case updates of
        None \<Rightarrow> []
      | Some m \<Rightarrow> map fst (filter (\<lambda>(k, v). in_range startKey endKey k \<and> \<not> UpdatedValue_IsDelete v) m))"

definition NewStateDeltaRangeScanIterator ::
  "StateDelta \<Rightarrow> gostring \<Rightarrow> gostring \<Rightarrow> gostring \<Rightarrow> StateDeltaIterator" where
  "NewStateDeltaRangeScanIterator delta chaincodeID startKey endKey =
     (let updates = StateDelta_GetUpdates delta chaincodeID
      in \<lparr>di_updates = updates, relevantKeys = retrieveRelevantKeys updates startKey endKey,
          currentKeyIndex = -1, di_done = False\<rparr>)"

definition di_Next :: "StateDeltaIterator \<Rightarrow> StateDeltaIterator next_result" where
  "di_Next itr =
     (let itr = itr\<lparr>currentKeyIndex := currentKeyIndex itr + 1\<rparr>
      in if currentKeyIndex itr < int (length (relevantKeys itr)) then Some (Inr (True, itr))
         else Some (Inr (False, itr\<lparr>currentKeyIndex := currentKeyIndex itr - 1, di_done := True\<rparr>)))"

definition ContainsKey :: "StateDeltaIterator \<Rightarrow> gostring \<Rightarrow> bool" where
  "ContainsKey itr key = (case di_updates itr of None \<Rightarrow> False | Some m \<Rightarrow> mget m key \<noteq> None)"

definition di_GetKeyValue :: "StateDeltaIterator \<Rightarrow> gerr + gostring \<times> slice" where
  "di_GetKeyValue itr =
     (let i = currentKeyIndex itr
      in if i < 0 \<or> int (length (relevantKeys itr)) \<le> i then Inl (Panic ''index out of range'')
         else let key = relevantKeys itr ! nat i
              in case di_updates itr of
                   None \<Rightarrow> Inl (Panic ''nil pointer'')
                 | Some m \<Rightarrow> (case mget m key of
                     None \<Rightarrow> Inl (Panic ''nil pointer'') | Some uv \<Rightarrow> Inr (key, UpdatedValue_GetValue uv)))"

subsection \<open>Range scans over the layers of the world state\<close>

text \<open>The third iterator is the one of the state implementation, given by its two methods.\<close>

record 'itr CompositeRangeScanIterator =
  txDeltaItr :: StateDeltaIterator
  batchDeltaItr :: StateDeltaIterator
  implItr :: 'itr
  currentItrNumber :: nat

definition newCompositeRangeScanIterator ::
  "StateDeltaIterator \<Rightarrow> StateDeltaIterator \<Rightarrow> 'itr \<Rightarrow> 'itr CompositeRangeScanIterator" where
  "newCompositeRangeScanIterator tx batch impl =
     \<lparr>txDeltaItr = tx, batchDeltaItr = batch, implItr = impl, currentItrNumber = 0\<rparr>"

definition map_next :: "('a \<Rightarrow> 'b) \<Rightarrow> 'a next_result \<Rightarrow> 'b next_result" where
  "map_next f r = (case r of None \<Rightarrow> None | Some (Inl e) \<Rightarrow> Some (Inl e) | Some (Inr (b, x)) \<Rightarrow> Some (Inr (b, f x)))"

text \<open>\<open>Next\<close> and \<open>GetKeyValue\<close> of the iterator with a given number.\<close>

definition itrs_Next ::
  "('itr \<Rightarrow> 'itr next_result) \<Rightarrow> nat \<Rightarrow> 'itr CompositeRangeScanIterator \<Rightarrow> 'itr CompositeRangeScanIterator next_result" where
  "itrs_Next impl_Next n itr =
     (if n = 0 then map_next (\<lambda>i. itr\<lparr>txDeltaItr := i\<rparr>) (di_Next (txDeltaItr itr))
      else if n = 1 then map_next (\<lambda>i. itr\<lparr>batchDeltaItr := i\<rparr>) (di_Next (batchDeltaItr itr))
      else if n = 2 then map_next (\<lambda>i. itr\<lparr>implItr := i\<rparr>) (impl_Next (implItr itr))
      else Some (Inl (Panic ''index out of range'')))"

definition itrs_GetKeyValue ::
  "('itr \<Rightarrow> gerr + gostring \<times> slice) \<Rightarrow> nat \<Rightarrow> 'itr CompositeRangeScanIterator \<Rightarrow> gerr + gostring \<times> slice" where
  "itrs_GetKeyValue impl_GetKeyValue n itr =
     (if n = 0 then di_GetKeyValue (txDeltaItr itr)
      else if n = 1 then di_GetKeyValue (batchDeltaItr itr)
      else if n = 2 then impl_GetKeyValue (implItr itr)
      else Inl (Panic ''index out of range''))"

text \<open>The inner loop over the preceding iterators.\<close>

definition skipKey :: "nat \<Rightarrow> 'itr CompositeRangeScanIterator \<Rightarrow> gostring \<Rightarrow> bool" where
  "skipKey n itr key \<longleftrightarrow> n > 1 \<and> ContainsKey (batchDeltaItr itr) key \<or> n > 0 \<and> ContainsKey (txDeltaItr itr) key"

partial_function (option) comp_loop ::
  "('itr \<Rightarrow> 'itr next_result) \<Rightarrow> ('itr \<Rightarrow> gerr + gostring \<times> slice) \<Rightarrow> nat \<Rightarrow> 'itr CompositeRangeScanIterator \<Rightarrow>
     'itr CompositeRangeScanIterator next_result" where
  "comp_loop impl_Next impl_GetKeyValue n itr =
     (case itrs_Next impl_Next n itr of
        None \<Rightarrow> None
      | Some (Inl e) \<Rightarrow> Some (Inl e)
      | Some (Inr (keyAvailable, itr)) \<Rightarrow>
          if \<not> keyAvailable then Some (Inr (False, itr))
          else (case itrs_GetKeyValue impl_GetKeyValue n itr of
              Inl e \<Rightarrow> Some (Inl e)
            | Inr (key, _) \<Rightarrow>
                if skipKey n itr key then comp_loop impl_Next impl_GetKeyValue n itr else Some (Inr (True, itr))))"

function comp_Next_at ::
  "('itr \<Rightarrow> 'itr next_result) \<Rightarrow> ('itr \<Rightarrow> gerr + gostring \<times> slice) \<Rightarrow> nat \<Rightarrow> 'itr CompositeRangeScanIterator \<Rightarrow>
     'itr CompositeRangeScanIterator next_result" where
  "comp_Next_at impl_Next impl_GetKeyValue n itr =
     (case comp_loop impl_Next impl_GetKeyValue n itr of
        None \<Rightarrow> None
      | Some (Inl e) \<Rightarrow> Some (Inl e)
      | Some (Inr (keyAvailable, itr)) \<Rightarrow>
          if keyAvailable \<or> n \<ge> 2 then Some (Inr (keyAvailable, itr))
          else comp_Next_at impl_Next impl_GetKeyValue (n + 1) (itr\<lparr>currentItrNumber := n + 1\<rparr>))"
  by pat_completeness auto
termination by (relation "measure (\<lambda>(_, _, n, _). 2 - n)") auto

declare comp_Next_at.simps [simp del]

definition comp_Next ::
  "('itr \<Rightarrow> 'itr next_result) \<Rightarrow> ('itr \<Rightarrow> gerr + gostring \<times> slice) \<Rightarrow> 'itr CompositeRangeScanIterator \<Rightarrow>
     'itr CompositeRangeScanIterator next_result" where
  "comp_Next impl_Next impl_GetKeyValue itr = comp_Next_at impl_Next impl_GetKeyValue (currentItrNumber itr) itr"

definition comp_GetKeyValue ::
  "('itr \<Rightarrow> gerr + gostring \<times> slice) \<Rightarrow> 'itr CompositeRangeScanIterator \<Rightarrow> gerr + gostring \<times> slice" where
  "comp_GetKeyValue impl_GetKeyValue itr = itrs_GetKeyValue impl_GetKeyValue (currentItrNumber itr) itr"

subsection \<open>The iterators of the state and the ledger\<close>

text \<open>What \<open>GetRangeScanIterator\<close> returns is an interface value: the iterator of the
  implementation or a composite one.\<close>

datatype 'itr RangeItr = ImplItr 'itr | CompositeItr "'itr CompositeRangeScanIterator"

fun itr_Next ::
  "('itr \<Rightarrow> 'itr next_result) \<Rightarrow> ('itr \<Rightarrow> gerr + gostring \<times> slice) \<Rightarrow> 'itr RangeItr \<Rightarrow> 'itr RangeItr next_result" where
  "itr_Next impl_Next impl_GetKeyValue (ImplItr i) = map_next ImplItr (impl_Next i)"
| "itr_Next impl_Next impl_GetKeyValue (CompositeItr i) = map_next CompositeItr (comp_Next impl_Next impl_GetKeyValue i)"

fun itr_GetKeyValue :: "('itr \<Rightarrow> gerr + gostring \<times> slice) \<Rightarrow> 'itr RangeItr \<Rightarrow> gerr + gostring \<times> slice" where
  "itr_GetKeyValue impl_GetKeyValue (ImplItr i) = impl_GetKeyValue i"
| "itr_GetKeyValue impl_GetKeyValue (CompositeItr i) = comp_GetKeyValue impl_GetKeyValue i"

definition GetRangeScanIterator ::
  "'db gorocksdb \<Rightarrow> 'db \<Rightarrow> 'st State \<Rightarrow> gostring \<Rightarrow> gostring \<Rightarrow> gostring \<Rightarrow> bool \<Rightarrow> RangeScanIterator RangeItr" where
  "GetRangeScanIterator D db s chaincodeID startKey endKey committed =
     (let stateImplItr = newRangeScanIterator D db chaincodeID startKey endKey
      in if committed then ImplItr stateImplItr
         else CompositeItr (newCompositeRangeScanIterator
           (NewStateDeltaRangeScanIterator (currentTxStateDelta s) chaincodeID startKey endKey)
           (NewStateDeltaRangeScanIterator (stateDelta s) chaincodeID startKey endKey)
           stateImplItr))"

definition GetStateRangeScanIterator ::
  "'db gorocksdb \<Rightarrow> 'db \<Rightarrow> ('st, 'id) Ledger \<Rightarrow> gostring \<Rightarrow> gostring \<Rightarrow> gostring \<Rightarrow> bool \<Rightarrow> RangeScanIterator RangeItr" where
  "GetStateRangeScanIterator D db L chaincodeID startKey endKey committed =
     GetRangeScanIterator D db (l_state L) chaincodeID startKey endKey committed"

subsection \<open>Snapshots\<close>

text \<open>
  The snapshot iterator also moves backwards: a database iterator is then the entries before the
  position, last first, and those from it on. RocksDB defines \<open>Next\<close> and \<open>Prev\<close> only for a valid
  iterator; here they are errors otherwise. The snapshot of a database is the database itself,
  a value that later writes do not change.
\<close>

type_synonym db_itr = "(bytes \<times> bytes) list \<times> (bytes \<times> bytes) list"

definition itr_invalid :: gerr where
  "itr_invalid = Panic ''iterator is not valid''"

definition itr_Seek :: "'db gorocksdb \<Rightarrow> 'db \<Rightarrow> cf \<Rightarrow> bytes \<Rightarrow> db_itr" where
  "itr_Seek D db f k = (rev (filter (\<lambda>e. fst e < k) (Seek D db f [])), Seek D db f k)"

fun itr_forward :: "db_itr \<Rightarrow> gerr + db_itr" where
  "itr_forward (before, e # rest) = Inr (e # before, rest)"
| "itr_forward (before, []) = Inl itr_invalid"

fun itr_Prev :: "db_itr \<Rightarrow> gerr + db_itr" where
  "itr_Prev (before, []) = Inl itr_invalid"
| "itr_Prev ([], e # rest) = Inr ([], [])"
| "itr_Prev (e # before, rest) = Inr (before, e # rest)"

record StateSnapshotIterator =
  ss_dbItr :: db_itr

definition newStateSnapshotIterator :: "'db gorocksdb \<Rightarrow> 'db \<Rightarrow> gerr + StateSnapshotIterator" where
  "newStateSnapshotIterator D snapshot = rbind (itr_Prev (itr_Seek D snapshot StateCF [1])) (\<lambda>i. Inr \<lparr>ss_dbItr = i\<rparr>)"

definition ssi_Next :: "StateSnapshotIterator \<Rightarrow> StateSnapshotIterator next_result" where
  "ssi_Next itr = Some (rbind (itr_forward (ss_dbItr itr)) (\<lambda>i. Inr (snd i \<noteq> [], itr\<lparr>ss_dbItr := i\<rparr>)))"

definition ssi_GetRawKeyValue :: "config \<Rightarrow> StateSnapshotIterator \<Rightarrow> gerr + bytes \<times> slice" where
  "ssi_GetRawKeyValue c itr =
     (case snd (ss_dbItr itr) of
        [] \<Rightarrow> Inl itr_invalid
      | (keyBytes, valueBytes) # _ \<Rightarrow>
          rbind (unmarshalDataNodeFromBytes c keyBytes valueBytes) (\<lambda>dn. Inr (compositeKey (dn_key dn), dn_value dn)))"

record 'db StateSnapshot =
  ss_blockNumber :: u64
  stateImplItr :: StateSnapshotIterator
  dbSnapshot :: 'db

definition newStateSnapshot :: "'db gorocksdb \<Rightarrow> u64 \<Rightarrow> 'db \<Rightarrow> gerr + 'db StateSnapshot" where
  "newStateSnapshot D blockNumber db =
     rbind (newStateSnapshotIterator D db) (\<lambda>itr.
       Inr \<lparr>ss_blockNumber = blockNumber, stateImplItr = itr, dbSnapshot = db\<rparr>)"

definition ss_Next :: "'db StateSnapshot \<Rightarrow> 'db StateSnapshot next_result" where
  "ss_Next ss = map_next (\<lambda>i. ss\<lparr>stateImplItr := i\<rparr>) (ssi_Next (stateImplItr ss))"

definition ss_GetRawKeyValue :: "config \<Rightarrow> 'db StateSnapshot \<Rightarrow> gerr + bytes \<times> slice" where
  "ss_GetRawKeyValue c ss = ssi_GetRawKeyValue c (stateImplItr ss)"

definition GetStateSnapshot :: "'db gorocksdb \<Rightarrow> 'db \<Rightarrow> gerr + 'db StateSnapshot" where
  "GetStateSnapshot D db =
     rbind (fetchBlockchainSizeFromSnapshot D db) (\<lambda>blockHeight.
       if blockHeight = 0 then Inl (ErrMsg ''Blockchain has no blocks, cannot determine block number'')
       else newStateSnapshot D (blockHeight - 1) db)"

subsection \<open>The contract\<close>

text \<open>
  \<open>remaining itr\<close> are the pairs still to come. \<open>Next\<close> always returns; it says whether there is a
  pair left and moves to one.
\<close>

locale range_scan =
  fixes nxt :: "'itr \<Rightarrow> 'itr next_result"
    and get_kv :: "'itr \<Rightarrow> gerr + gostring \<times> slice"
    and inv :: "'itr \<Rightarrow> bool"
    and remaining :: "'itr \<Rightarrow> gostring \<rightharpoonup> slice"
  assumes finite_remaining: "inv itr \<Longrightarrow> finite (dom (remaining itr))"
    and next_done: "inv itr \<Longrightarrow> remaining itr = Map.empty \<Longrightarrow>
      \<exists>itr'. nxt itr = Some (Inr (False, itr')) \<and> inv itr' \<and> remaining itr' = Map.empty"
    and next_more: "inv itr \<Longrightarrow> remaining itr \<noteq> Map.empty \<Longrightarrow>
      \<exists>itr' k v. nxt itr = Some (Inr (True, itr')) \<and> inv itr' \<and> get_kv itr' = Inr (k, v) \<and>
        remaining itr k = Some v \<and> remaining itr' = (remaining itr)(k := None)"

text \<open>The loop of a client that reads all pairs, making at most \<open>n\<close> calls of \<open>Next\<close>.\<close>

fun drain :: "nat \<Rightarrow> ('itr \<Rightarrow> 'itr next_result) \<Rightarrow> ('itr \<Rightarrow> gerr + 'kv) \<Rightarrow> 'itr \<Rightarrow> (gerr + 'kv list) option" where
  "drain 0 nxt get_kv itr = None"
| "drain (Suc n) nxt get_kv itr =
     (case nxt itr of
        None \<Rightarrow> None
      | Some (Inl e) \<Rightarrow> Some (Inl e)
      | Some (Inr (avail, itr)) \<Rightarrow>
          if \<not> avail then Some (Inr [])
          else (case get_kv itr of
              Inl e \<Rightarrow> Some (Inl e)
            | Inr kv \<Rightarrow> map_option (\<lambda>r. rbind r (\<lambda>kvs. Inr (kv # kvs))) (drain n nxt get_kv itr)))"

context range_scan
begin

lemma drain_all:
  "inv itr \<Longrightarrow> card (dom (remaining itr)) < n \<Longrightarrow>
    \<exists>kvs. drain n nxt get_kv itr = Some (Inr kvs) \<and> distinct (map fst kvs) \<and> map_of kvs = remaining itr"
proof (induction n arbitrary: itr)
  case (Suc n)
  show ?case
  proof (cases "remaining itr = Map.empty")
    case True
    with next_done [OF Suc.prems(1)] show ?thesis by auto
  next
    case False
    from next_more [OF Suc.prems(1) False] obtain itr' k v where
      n: "nxt itr = Some (Inr (True, itr'))" "inv itr'" "get_kv itr' = Inr (k, v)"
        "remaining itr k = Some v" "remaining itr' = (remaining itr)(k := None)" by blast
    have "dom (remaining itr') = dom (remaining itr) - {k}" by (simp add: n(5))
    moreover have "k \<in> dom (remaining itr)" using n(4) by blast
    ultimately have "Suc (card (dom (remaining itr'))) = card (dom (remaining itr))"
      using card_Suc_Diff1 [OF finite_remaining [OF Suc.prems(1)]] by metis
    with Suc.prems(2) have "card (dom (remaining itr')) < n" by simp
    from Suc.IH [OF n(2) this] obtain kvs where
      kvs: "drain n nxt get_kv itr' = Some (Inr kvs)" "distinct (map fst kvs)" "map_of kvs = remaining itr'" by blast
    have "k \<notin> fst ` set kvs" using kvs(3) n(5) by (metis fun_upd_same map_of_eq_None_iff)
    moreover have "map_of ((k, v) # kvs) = remaining itr"
      using n(4) by (simp add: kvs(3) n(5) fun_upd_idem)
    ultimately show ?thesis using n kvs by auto
  qed
qed simp

end

subsection \<open>The delta iterator keeps the contract\<close>

definition di_inv :: "StateDeltaIterator \<Rightarrow> bool" where
  "di_inv itr \<longleftrightarrow> -1 \<le> currentKeyIndex itr \<and> currentKeyIndex itr < int (length (relevantKeys itr)) \<and>
     distinct (relevantKeys itr) \<and>
     (\<forall>k \<in> set (relevantKeys itr). \<exists>m uv. di_updates itr = Some m \<and> mget m k = Some uv)"

definition di_value :: "StateDeltaIterator \<Rightarrow> gostring \<rightharpoonup> slice" where
  "di_value itr k = (case di_updates itr of None \<Rightarrow> None | Some m \<Rightarrow> map_option UpdatedValue_GetValue (mget m k))"

definition di_remaining :: "StateDeltaIterator \<Rightarrow> gostring \<rightharpoonup> slice" where
  "di_remaining itr k =
     (if k \<in> set (drop (nat (currentKeyIndex itr + 1)) (relevantKeys itr)) then di_value itr k else None)"

lemma di_Next_updates: "di_Next itr = Some (Inr (b, itr')) \<Longrightarrow> di_updates itr' = di_updates itr"
  by (auto simp: di_Next_def Let_def split: if_splits)

lemma di_remaining_empty:
  assumes "di_inv itr"
  shows "di_remaining itr = Map.empty \<longleftrightarrow> currentKeyIndex itr + 1 = int (length (relevantKeys itr))"
proof -
  have "di_value itr k \<noteq> None" if "k \<in> set (relevantKeys itr)" for k
    using assms that by (fastforce simp: di_inv_def di_value_def)
  then have "di_remaining itr k = None \<longleftrightarrow> k \<notin> set (drop (nat (currentKeyIndex itr + 1)) (relevantKeys itr))" for k
    unfolding di_remaining_def using in_set_dropD by (metis (full_types))
  then have "di_remaining itr = Map.empty \<longleftrightarrow> set (drop (nat (currentKeyIndex itr + 1)) (relevantKeys itr)) = {}"
    unfolding fun_eq_iff by (simp only: set_eq_iff empty_iff) simp
  also have "\<dots> \<longleftrightarrow> length (relevantKeys itr) \<le> nat (currentKeyIndex itr + 1)" by simp
  finally show ?thesis using assms by (auto simp: di_inv_def)
qed

lemma di_step:
  assumes "di_inv itr" "di_remaining itr \<noteq> Map.empty"
  shows "\<exists>itr' k v. di_Next itr = Some (Inr (True, itr')) \<and> di_inv itr' \<and> di_GetKeyValue itr' = Inr (k, v) \<and>
    di_remaining itr k = Some v \<and> di_remaining itr' = (di_remaining itr)(k := None)"
proof -
  let ?i = "nat (currentKeyIndex itr + 1)" and ?ks = "relevantKeys itr"
  let ?itr = "itr\<lparr>currentKeyIndex := currentKeyIndex itr + 1\<rparr>"
  have lt: "0 \<le> currentKeyIndex itr + 1" "currentKeyIndex itr + 1 < int (length ?ks)"
    using assms di_remaining_empty [OF assms(1)] by (auto simp: di_inv_def)
  then have i: "?i < length ?ks" by linarith
  have d: "drop ?i ?ks = ?ks ! ?i # drop (Suc ?i) ?ks" using i by (simp add: Cons_nth_drop_Suc)
  have n: "nat (currentKeyIndex itr + 1 + 1) = Suc ?i" using lt(1) by linarith
  obtain m uv where u: "di_updates itr = Some m" "mget m (?ks ! ?i) = Some uv"
    using assms(1) nth_mem [OF i] unfolding di_inv_def by blast
  have nx: "di_Next itr = Some (Inr (True, ?itr))" using lt by (simp add: di_Next_def Let_def)
  have iv: "di_inv ?itr" using assms(1) lt by (simp add: di_inv_def)
  have g: "di_GetKeyValue ?itr = Inr (?ks ! ?i, UpdatedValue_GetValue uv)" using lt u by (simp add: di_GetKeyValue_def Let_def)
  have r: "di_remaining itr (?ks ! ?i) = Some (UpdatedValue_GetValue uv)" by (simp add: di_remaining_def d di_value_def u)
  have "distinct (drop ?i ?ks)" using assms(1) by (simp add: di_inv_def)
  then have "?ks ! ?i \<notin> set (drop (Suc ?i) ?ks)" by (simp add: d)
  moreover have "di_remaining ?itr x = (if x \<in> set (drop (Suc ?i) ?ks) then di_value itr x else None)" for x
  proof -
    have "nat (currentKeyIndex ?itr + 1) = Suc ?i" using n by simp
    then show ?thesis unfolding di_remaining_def by (simp add: di_value_def)
  qed
  ultimately have "di_remaining ?itr = (di_remaining itr)(?ks ! ?i := None)"
    by (simp add: fun_eq_iff) (simp add: di_remaining_def d)
  with nx iv g r show ?thesis by blast
qed

interpretation di: range_scan di_Next di_GetKeyValue di_inv di_remaining
proof unfold_locales
  show "finite (dom (di_remaining itr))" for itr
    by (rule finite_subset [of _ "set (relevantKeys itr)"])
      (auto simp: di_remaining_def dest: in_set_dropD split: if_splits)
  show "\<exists>itr'. di_Next itr = Some (Inr (False, itr')) \<and> di_inv itr' \<and> di_remaining itr' = Map.empty"
    if "di_inv itr" "di_remaining itr = Map.empty" for itr
    using that(1) di_remaining_empty [OF that(1)] that(2)
    by (auto simp: di_Next_def Let_def di_inv_def di_remaining_def fun_eq_iff)
  show "\<exists>itr' k v. di_Next itr = Some (Inr (True, itr')) \<and> di_inv itr' \<and> di_GetKeyValue itr' = Inr (k, v) \<and>
      di_remaining itr k = Some v \<and> di_remaining itr' = (di_remaining itr)(k := None)"
    if "di_inv itr" "di_remaining itr \<noteq> Map.empty" for itr
    by (rule di_step [OF that])
qed

lemma di_new:
  assumes "sd_wf sd" and itr: "itr = NewStateDeltaRangeScanIterator sd cc startKey endKey"
  shows "di_inv itr"
    "ContainsKey itr k \<longleftrightarrow> delta_at sd (cc, k) \<noteq> None"
    "di_remaining itr k = (case delta_at sd (cc, k) of None \<Rightarrow> None
       | Some uv \<Rightarrow> if in_range startKey endKey k \<and> Value uv \<noteq> None then Some (Value uv) else None)"
proof -
  have upd: "di_updates itr = StateDelta_GetUpdates sd cc" and idx: "currentKeyIndex itr = -1"
    and keys: "relevantKeys itr = (case di_updates itr of None \<Rightarrow> []
      | Some m \<Rightarrow> map fst (filter (\<lambda>(k, v). in_range startKey endKey k \<and> \<not> UpdatedValue_IsDelete v) m))"
    by (simp_all add: itr NewStateDeltaRangeScanIterator_def retrieveRelevantKeys_def Let_def)
  have at: "delta_at sd (cc, k) = (case di_updates itr of None \<Rightarrow> None | Some m \<Rightarrow> mget m k)"
    by (simp add: upd StateDelta_GetUpdates_def delta_at_def StateDelta_Get_def csd_get_def split: option.splits)
  have ok: "gomap_ok m" if "di_updates itr = Some m" for m
    using that assms(1) by (auto simp: upd StateDelta_GetUpdates_def csd_wf_def dest!: sd_wf_mget split: option.splits)
  show "ContainsKey itr k \<longleftrightarrow> delta_at sd (cc, k) \<noteq> None"
    by (simp add: at ContainsKey_def split: option.splits)
  show "di_inv itr"
  proof (cases "di_updates itr")
    case (Some m)
    have "distinct (map fst (filter P m))" for P using ok [OF Some] by (simp add: distinct_map_filter gomap_ok_def)
    moreover have "\<exists>uv. mget m k = Some uv" if "k \<in> fst ` set m" for k using that by (meson map_of_eq_None_iff option.exhaust)
    ultimately show ?thesis by (auto simp: di_inv_def keys idx Some)
  qed (simp add: di_inv_def keys idx)
  show "di_remaining itr k = (case delta_at sd (cc, k) of None \<Rightarrow> None
       | Some uv \<Rightarrow> if in_range startKey endKey k \<and> Value uv \<noteq> None then Some (Value uv) else None)"
  proof (cases "di_updates itr")
    case (Some m)
    have "k \<in> set (relevantKeys itr) \<longleftrightarrow> (\<exists>uv. mget m k = Some uv \<and> in_range startKey endKey k \<and> Value uv \<noteq> None)"
      unfolding keys Some using gomap_in_set [OF ok [OF Some], of k]
      by (force simp: UpdatedValue_IsDelete_def)
    then show ?thesis by (auto simp: di_remaining_def idx di_value_def Some at UpdatedValue_GetValue_def split: option.splits)
  qed (simp add: di_remaining_def keys at)
qed

subsection \<open>The composite iterator keeps the contract\<close>

locale composite_scan = range_scan nxt get_kv inv remaining
  for nxt :: "'itr \<Rightarrow> 'itr next_result"
    and get_kv :: "'itr \<Rightarrow> gerr + gostring \<times> slice"
    and inv :: "'itr \<Rightarrow> bool"
    and remaining :: "'itr \<Rightarrow> gostring \<rightharpoonup> slice"
begin

definition comp_inv :: "'itr CompositeRangeScanIterator \<Rightarrow> bool" where
  "comp_inv itr \<longleftrightarrow> di_inv (txDeltaItr itr) \<and> di_inv (batchDeltaItr itr) \<and> inv (implItr itr) \<and> currentItrNumber itr \<le> 2"

definition remaining_at :: "nat \<Rightarrow> 'itr CompositeRangeScanIterator \<Rightarrow> gostring \<rightharpoonup> slice" where
  "remaining_at n itr = (if n = 0 then di_remaining (txDeltaItr itr)
     else if n = 1 then di_remaining (batchDeltaItr itr) else remaining (implItr itr))"

definition visible_at :: "nat \<Rightarrow> 'itr CompositeRangeScanIterator \<Rightarrow> gostring \<rightharpoonup> slice" where
  "visible_at n itr k = (if skipKey n itr k then None else remaining_at n itr k)"

definition comp_remaining :: "'itr CompositeRangeScanIterator \<Rightarrow> gostring \<rightharpoonup> slice" where
  "comp_remaining itr =
     (let n = currentItrNumber itr
      in (\<lambda>k. if n = 0 \<and> visible_at 0 itr k \<noteq> None then visible_at 0 itr k
              else if n \<le> 1 \<and> visible_at 1 itr k \<noteq> None then visible_at 1 itr k
              else visible_at 2 itr k))"

text \<open>A step of the \<open>n\<close>th iterator leaves the others alone.\<close>

definition moved :: "nat \<Rightarrow> 'itr CompositeRangeScanIterator \<Rightarrow> 'itr CompositeRangeScanIterator \<Rightarrow> bool" where
  "moved n itr itr' \<longleftrightarrow> comp_inv itr' \<and> currentItrNumber itr' = currentItrNumber itr \<and>
     (\<forall>m. m \<noteq> n \<longrightarrow> m \<le> 2 \<longrightarrow> remaining_at m itr' = remaining_at m itr) \<and> (\<forall>m k. skipKey m itr' k = skipKey m itr k)"

lemma finite_at: "comp_inv itr \<Longrightarrow> n \<le> 2 \<Longrightarrow> finite (dom (remaining_at n itr))"
  using finite_remaining di.finite_remaining by (simp add: comp_inv_def remaining_at_def)

lemma ContainsKey_Next: "di_Next itr = Some (Inr (b, itr')) \<Longrightarrow> ContainsKey itr' k = ContainsKey itr k"
  by (simp add: ContainsKey_def di_Next_updates)

lemma itrs_done:
  assumes "comp_inv itr" "n \<le> 2" "remaining_at n itr = Map.empty"
  shows "\<exists>itr'. itrs_Next nxt n itr = Some (Inr (False, itr')) \<and> moved n itr itr' \<and> remaining_at n itr' = Map.empty"
proof -
  consider "n = 0" | "n = 1" | "n = 2" using assms(2) by linarith
  then show ?thesis
  proof cases
    case 1
    then obtain i where "di_Next (txDeltaItr itr) = Some (Inr (False, i))" "di_inv i" "di_remaining i = Map.empty"
      using di.next_done [of "txDeltaItr itr"] assms by (auto simp: comp_inv_def remaining_at_def)
    with 1 assms(1) show ?thesis
      by (auto simp: itrs_Next_def map_next_def moved_def comp_inv_def remaining_at_def skipKey_def ContainsKey_Next)
  next
    case 2
    then obtain i where "di_Next (batchDeltaItr itr) = Some (Inr (False, i))" "di_inv i" "di_remaining i = Map.empty"
      using di.next_done [of "batchDeltaItr itr"] assms by (auto simp: comp_inv_def remaining_at_def)
    with 2 assms(1) show ?thesis
      by (auto simp: itrs_Next_def map_next_def moved_def comp_inv_def remaining_at_def skipKey_def ContainsKey_Next)
  next
    case 3
    then obtain i where "nxt (implItr itr) = Some (Inr (False, i))" "inv i" "remaining i = Map.empty"
      using next_done [of "implItr itr"] assms by (auto simp: comp_inv_def remaining_at_def)
    with 3 assms(1) show ?thesis
      by (auto simp: itrs_Next_def map_next_def moved_def comp_inv_def remaining_at_def skipKey_def)
  qed
qed

lemma itrs_more:
  assumes "comp_inv itr" "n \<le> 2" "remaining_at n itr \<noteq> Map.empty"
  shows "\<exists>itr' k v. itrs_Next nxt n itr = Some (Inr (True, itr')) \<and> moved n itr itr' \<and>
    itrs_GetKeyValue get_kv n itr' = Inr (k, v) \<and> remaining_at n itr k = Some v \<and>
    remaining_at n itr' = (remaining_at n itr)(k := None)"
proof -
  consider "n = 0" | "n = 1" | "n = 2" using assms(2) by linarith
  then show ?thesis
  proof cases
    case 1
    then obtain i k v where "di_Next (txDeltaItr itr) = Some (Inr (True, i))" "di_inv i" "di_GetKeyValue i = Inr (k, v)"
      "di_remaining (txDeltaItr itr) k = Some v" "di_remaining i = (di_remaining (txDeltaItr itr))(k := None)"
      using di_step [of "txDeltaItr itr"] assms by (auto simp: comp_inv_def remaining_at_def)
    with 1 assms(1) show ?thesis
      by (auto simp: itrs_Next_def itrs_GetKeyValue_def map_next_def moved_def comp_inv_def remaining_at_def
          skipKey_def ContainsKey_Next)
  next
    case 2
    then obtain i k v where "di_Next (batchDeltaItr itr) = Some (Inr (True, i))" "di_inv i" "di_GetKeyValue i = Inr (k, v)"
      "di_remaining (batchDeltaItr itr) k = Some v" "di_remaining i = (di_remaining (batchDeltaItr itr))(k := None)"
      using di_step [of "batchDeltaItr itr"] assms by (auto simp: comp_inv_def remaining_at_def)
    with 2 assms(1) show ?thesis
      by (auto simp: itrs_Next_def itrs_GetKeyValue_def map_next_def moved_def comp_inv_def remaining_at_def
          skipKey_def ContainsKey_Next)
  next
    case 3
    then obtain i k v where "nxt (implItr itr) = Some (Inr (True, i))" "inv i" "get_kv i = Inr (k, v)"
      "remaining (implItr itr) k = Some v" "remaining i = (remaining (implItr itr))(k := None)"
      using next_more [of "implItr itr"] assms by (auto simp: comp_inv_def remaining_at_def)
    with 3 assms(1) show ?thesis
      by (auto simp: itrs_Next_def itrs_GetKeyValue_def map_next_def moved_def comp_inv_def remaining_at_def skipKey_def)
  qed
qed

lemma moved_trans: "moved n a b \<Longrightarrow> moved n b c \<Longrightarrow> moved n a c"
  by (simp add: moved_def)

lemma comp_loop_ok:
  assumes "comp_inv itr" "n \<le> 2"
  shows "if visible_at n itr = Map.empty
    then \<exists>itr'. comp_loop nxt get_kv n itr = Some (Inr (False, itr')) \<and> moved n itr itr' \<and> remaining_at n itr' = Map.empty
    else \<exists>itr' k v. comp_loop nxt get_kv n itr = Some (Inr (True, itr')) \<and> moved n itr itr' \<and>
      itrs_GetKeyValue get_kv n itr' = Inr (k, v) \<and> visible_at n itr k = Some v \<and>
      visible_at n itr' = (visible_at n itr)(k := None)"
  using assms
proof (induction "card (dom (remaining_at n itr))" arbitrary: itr rule: less_induct)
  case less
  show ?case
  proof (cases "remaining_at n itr = Map.empty")
    case True
    then have "visible_at n itr = Map.empty" by (simp add: visible_at_def fun_eq_iff)
    with itrs_done [OF less.prems True] show ?thesis by (auto simp: comp_loop.simps)
  next
    case False
    from itrs_more [OF less.prems this] obtain itr' k v where
      s: "itrs_Next nxt n itr = Some (Inr (True, itr'))" "moved n itr itr'" "itrs_GetKeyValue get_kv n itr' = Inr (k, v)"
        "remaining_at n itr k = Some v" "remaining_at n itr' = (remaining_at n itr)(k := None)" by blast
    have sk: "skipKey n itr' k' = skipKey n itr k'" for k' using s(2) by (simp add: moved_def)
    show ?thesis
    proof (cases "skipKey n itr k")
      case False
      then have "visible_at n itr k = Some v" "visible_at n itr' = (visible_at n itr)(k := None)"
        using s(4,5) sk by (auto simp: visible_at_def fun_eq_iff)
      moreover have "comp_loop nxt get_kv n itr = Some (Inr (True, itr'))"
        using s(1,3) False sk by (simp add: comp_loop.simps)
      ultimately show ?thesis using s(2,3) by auto
    next
      case True
      then have v: "visible_at n itr' = visible_at n itr"
        using s(5) sk by (auto simp: visible_at_def fun_eq_iff)
      have l: "comp_loop nxt get_kv n itr = comp_loop nxt get_kv n itr'"
        using s(1,3) True sk by (subst comp_loop.simps) simp
      have "dom (remaining_at n itr') \<subset> dom (remaining_at n itr)" using s(4,5) by auto
      then have lt: "card (dom (remaining_at n itr')) < card (dom (remaining_at n itr))"
        by (rule psubset_card_mono [OF finite_at [OF less.prems]])
      have "comp_inv itr'" using s(2) by (simp add: moved_def)
      from less.hyps [OF lt this less.prems(2)] show ?thesis
        unfolding l v by (metis moved_trans [OF s(2)])
    qed
  qed
qed

lemma visible_moved: "moved n itr itr' \<Longrightarrow> m \<noteq> n \<Longrightarrow> m \<le> 2 \<Longrightarrow> visible_at m itr' = visible_at m itr"
  by (simp add: moved_def visible_at_def fun_eq_iff)

text \<open>A key the first delta offers is skipped in the later iterators, and so on.\<close>

lemma visible_disjoint:
  assumes "comp_inv itr" "visible_at n itr k \<noteq> None" "n < m" "m \<le> 2"
  shows "visible_at m itr k = None"
proof -
  have c: "ContainsKey i k" if "di_remaining i k \<noteq> None" for i
    using that by (auto simp: di_remaining_def di_value_def ContainsKey_def split: if_splits option.splits)
  have "n = 0 \<or> n = 1" using assms(3,4) by linarith
  with assms(2-4) c show ?thesis
    by (auto simp: visible_at_def remaining_at_def skipKey_def split: if_splits)
qed

lemma visible_number [simp]: "visible_at m (itr\<lparr>currentItrNumber := n\<rparr>) = visible_at m itr"
  by (simp add: visible_at_def remaining_at_def skipKey_def fun_eq_iff)

lemma comp_remaining_from:
  assumes "currentItrNumber itr = n" "n \<le> 2"
  shows "comp_remaining itr k = (case visible_at n itr k of Some v \<Rightarrow> Some v
    | None \<Rightarrow> if n < 2 then comp_remaining (itr\<lparr>currentItrNumber := n + 1\<rparr>) k else None)"
proof -
  have "n = 0 \<or> n = 1 \<or> n = 2" using assms(2) by linarith
  with assms(1) show ?thesis by (auto simp: comp_remaining_def Let_def split: option.splits)
qed

lemma comp_remaining_moved:
  assumes "moved n itr itr'" "n < 2"
  shows "comp_remaining (itr'\<lparr>currentItrNumber := n + 1\<rparr>) = comp_remaining (itr\<lparr>currentItrNumber := n + 1\<rparr>)"
proof -
  have "n = 0 \<or> n = 1" using assms(2) by linarith
  then show ?thesis using visible_moved [OF assms(1)] by (auto simp: comp_remaining_def Let_def fun_eq_iff)
qed

lemma comp_Next_found:
  assumes "comp_inv itr" "currentItrNumber itr = n" "moved n itr itr'" "visible_at n itr k = Some v"
    "visible_at n itr' = (visible_at n itr)(k := None)"
  shows "comp_remaining itr k = Some v" "comp_remaining itr' = (comp_remaining itr)(k := None)"
proof -
  have n: "n \<le> 2" "currentItrNumber itr' = n" using assms(1-3) by (auto simp: comp_inv_def moved_def)
  note f = comp_remaining_from [OF assms(2) n(1)] comp_remaining_from [OF n(2,1)]
  show "comp_remaining itr k = Some v" by (simp add: f assms(4))
  have later: "comp_remaining (itr\<lparr>currentItrNumber := n + 1\<rparr>) k = None" if "n < 2"
  proof -
    have "visible_at m itr k = None" if "n < m" "m \<le> 2" for m
      using visible_disjoint [OF assms(1) _ that] assms(4) by simp
    moreover have "n = 0 \<or> n = 1" using that by linarith
    ultimately show ?thesis by (auto simp: comp_remaining_def Let_def)
  qed
  show "comp_remaining itr' = (comp_remaining itr)(k := None)"
  proof
    fix x
    show "comp_remaining itr' x = ((comp_remaining itr)(k := None)) x"
      using later comp_remaining_moved [OF assms(3)] by (simp add: f(2) [of x] f(1) [of x] assms(5) split: option.splits)
  qed
qed

lemma comp_Next_ok:
  assumes "comp_inv itr" "currentItrNumber itr = n"
  shows "if comp_remaining itr = Map.empty
    then \<exists>itr'. comp_Next_at nxt get_kv n itr = Some (Inr (False, itr')) \<and> comp_inv itr' \<and> comp_remaining itr' = Map.empty
    else \<exists>itr' k v. comp_Next_at nxt get_kv n itr = Some (Inr (True, itr')) \<and> comp_inv itr' \<and>
      comp_GetKeyValue get_kv itr' = Inr (k, v) \<and> comp_remaining itr k = Some v \<and>
      comp_remaining itr' = (comp_remaining itr)(k := None)"
  using assms
proof (induction "2 - n" arbitrary: itr n rule: less_induct)
  case less
  have n: "n \<le> 2" using less.prems by (simp add: comp_inv_def)
  note rem = comp_remaining_from [OF less.prems(2) n]
  show ?case
  proof (cases "visible_at n itr = Map.empty")
    case False
    with comp_loop_ok [OF less.prems(1) n] obtain itr' k v where
      l: "comp_loop nxt get_kv n itr = Some (Inr (True, itr'))" "moved n itr itr'" "itrs_GetKeyValue get_kv n itr' = Inr (k, v)"
        "visible_at n itr k = Some v" "visible_at n itr' = (visible_at n itr)(k := None)" by auto
    note found = comp_Next_found [OF less.prems l(2,4,5)]
    have "comp_Next_at nxt get_kv n itr = Some (Inr (True, itr'))" using l(1) by (subst comp_Next_at.simps) simp
    moreover have "comp_inv itr'" "comp_GetKeyValue get_kv itr' = Inr (k, v)"
      using l(2,3) less.prems(2) by (simp_all add: moved_def comp_GetKeyValue_def)
    moreover have "comp_remaining itr \<noteq> Map.empty" using found(1) by auto
    ultimately show ?thesis using found by auto
  next
    case True
    with comp_loop_ok [OF less.prems(1) n] obtain itr' where
      l: "comp_loop nxt get_kv n itr = Some (Inr (False, itr'))" "moved n itr itr'" "remaining_at n itr' = Map.empty" by auto
    have i: "comp_inv itr'" "currentItrNumber itr' = n" using l(2) less.prems(2) by (simp_all add: moved_def)
    have v': "visible_at n itr' = Map.empty" using l(3) by (simp add: visible_at_def fun_eq_iff)
    show ?thesis
    proof (cases "n < 2")
      case False
      then have "comp_remaining itr = Map.empty" "comp_remaining itr' = Map.empty"
        using rem comp_remaining_from [OF i(2) n] True v' by (simp_all add: fun_eq_iff)
      with l(1) i(1) False show ?thesis by (subst comp_Next_at.simps) simp
    next
      case lt: True
      let ?itr = "itr'\<lparr>currentItrNumber := n + 1\<rparr>"
      have e: "comp_Next_at nxt get_kv n itr = comp_Next_at nxt get_kv (n + 1) ?itr"
        using l(1) lt by (subst comp_Next_at.simps) simp
      have r: "comp_remaining itr = comp_remaining ?itr"
        using rem True lt comp_remaining_moved [OF l(2) lt] by (simp add: fun_eq_iff)
      have ci: "comp_inv ?itr" using i(1) lt by (simp add: comp_inv_def)
      have "2 - (n + 1) < 2 - n" "currentItrNumber ?itr = n + 1" using lt by simp_all
      from less.hyps [OF this(1) ci this(2)] show ?thesis unfolding e r .
    qed
  qed
qed

lemma comp_remaining_subset: "dom (comp_remaining itr) \<subseteq> (\<Union>n \<in> {0, 1, 2}. dom (remaining_at n itr))"
  by (auto simp: comp_remaining_def Let_def visible_at_def split: if_splits)

end

sublocale composite_scan \<subseteq> comp: range_scan "comp_Next nxt get_kv" "comp_GetKeyValue get_kv" comp_inv comp_remaining
proof
  show "finite (dom (comp_remaining itr))" if "comp_inv itr" for itr
    by (rule finite_subset [OF comp_remaining_subset]) (simp add: finite_at that)
  show "\<exists>itr'. comp_Next nxt get_kv itr = Some (Inr (False, itr')) \<and> comp_inv itr' \<and> comp_remaining itr' = Map.empty"
    if "comp_inv itr" "comp_remaining itr = Map.empty" for itr
    using comp_Next_ok [OF that(1) refl] that(2) by (simp add: comp_Next_def)
  show "\<exists>itr' k v. comp_Next nxt get_kv itr = Some (Inr (True, itr')) \<and> comp_inv itr' \<and>
      comp_GetKeyValue get_kv itr' = Inr (k, v) \<and> comp_remaining itr k = Some v \<and>
      comp_remaining itr' = (comp_remaining itr)(k := None)"
    if "comp_inv itr" "comp_remaining itr \<noteq> Map.empty" for itr
    using comp_Next_ok [OF that(1) refl] that(2) by (simp add: comp_Next_def)
qed

end
