(* ===== verification/StateScan.thy ===== *)
theory StateScan
  imports StateIterators LedgerTheorems
begin

text \<open>
  What range scans and snapshots return: the bucket tree's iterator keeps the contract
  \<open>range_scan\<close>, the composite iterator over it lists the top layer of the world state, and a
  snapshot lists the committed state.
\<close>

subsection \<open>Seeking in the bucket tree\<close>

lemma between_append:
  "xs @ ys \<le> zs \<Longrightarrow> zs \<le> xs @ ws \<Longrightarrow> \<exists>r. zs = xs @ r \<and> ys \<le> r \<and> r \<le> (ws :: 'a :: linorder list)"
proof (induction xs arbitrary: zs)
  case (Cons x xs)
  then obtain z zs' where z: "zs = z # zs'" by (cases zs) auto
  with Cons.prems have "z = x" "xs @ ys \<le> zs'" "zs' \<le> xs @ ws" by auto
  with Cons.IH [of zs'] z show ?case by auto
qed simp

lemma composite_between:
  assumes "ConstructCompositeKey cc k1 \<le> ck" "ck \<le> ConstructCompositeKey cc k2" "0 \<notin> set cc"
  shows "cc_of ck = cc \<and> k1 \<le> key_of ck \<and> key_of ck \<le> k2"
proof -
  from assms(1,2) between_append [of "cc @ stateKeyDelimiter" k1 ck k2] obtain r where
    "ck = ConstructCompositeKey cc r" "k1 \<le> r" "r \<le> k2"
    by (auto simp: ConstructCompositeKey_def)
  with assms(3) show ?thesis by (simp add: cc_key_of_Construct)
qed

lemma composite_le [simp]: "ConstructCompositeKey cc k1 \<le> ConstructCompositeKey cc k2 \<longleftrightarrow> k1 \<le> k2"
  by (simp add: ConstructCompositeKey_def append_le_iff)

lemma min_start_le:
  assumes "conf_wf c" "1 \<le> b" "b \<le> nb c (lowestLevel c) + 1"
  shows "minimumPossibleDataKeyBytes b cc k \<le> dkey c ck \<longleftrightarrow>
    b < bucket_no c ck \<or> b = bucket_no c ck \<and> ConstructCompositeKey cc k \<le> ck"
proof -
  note r = valid_bk_range [OF assms(1) bucket_no_valid [OF assms(1), of ck]]
  have bnd: "0 \<le> b" "b < 2 ^ 63" using assms conf_bound [OF assms(1)] conf_grouping [OF assms(1)] by linarith+
  consider "b < bucket_no c ck" | "bucket_no c ck < b" | "b = bucket_no c ck" by linarith
  then show ?thesis
  proof cases
    case 1
    with r bnd encodeBucketNumber_less [of b "bucket_no c ck" "ConstructCompositeKey cc k" ck] show ?thesis
      by (simp add: dkey_def minimumPossibleDataKeyBytes_def)
  next
    case 2
    with r bnd encodeBucketNumber_less [of "bucket_no c ck" b ck "ConstructCompositeKey cc k"] show ?thesis
      by (simp add: dkey_def minimumPossibleDataKeyBytes_def)
  qed (simp add: dkey_def minimumPossibleDataKeyBytes_def append_le_iff)
qed

lemma seek_start:
  assumes "rocksdb_ok D content" "conf_wf c" "tree_db H c dm (content db StateCF)" "1 \<le> b" "b \<le> nb c (lowestLevel c) + 1"
  shows "\<exists>cks. Seek D db StateCF (minimumPossibleDataKeyBytes b cc k) = map (\<lambda>ck. (dkey c ck, the (dm ck))) cks \<and>
    sorted_wrt (<) (map (dkey c) cks) \<and>
    set cks = {ck \<in> dom dm. b < bucket_no c ck \<or> b = bucket_no c ck \<and> ConstructCompositeKey cc k \<le> ck}"
proof -
  have "b < 2 ^ 63" using assms conf_bound [OF assms(2)] conf_grouping [OF assms(2)] by linarith
  then have "bk_getEncodedBytes bk < minimumPossibleDataKeyBytes b cc k" for bk
    using encodeBucketNumber_head [of b] assms(4) bk_encoded_head [of bk]
    by (auto simp: minimumPossibleDataKeyBytes_def word_greater_zero_iff)
  from seek_data [OF assms(1-3) this] show ?thesis by (simp add: min_start_le [OF assms(2,4,5)])
qed

subsection \<open>The iterator of the bucket tree\<close>

abbreviation start_ck :: "RangeScanIterator \<Rightarrow> bytes" where
  "start_ck itr \<equiv> ConstructCompositeKey (rs_chaincodeID itr) (rs_startKey itr)"

definition rs_pos :: "config \<Rightarrow> kvstate \<Rightarrow> RangeScanIterator \<Rightarrow> bytes list \<Rightarrow> bool" where
  "rs_pos c dm itr cks \<longleftrightarrow> rs_dbItr itr = map (\<lambda>ck. (dkey c ck, the (dm ck))) cks \<and> sorted_wrt (<) (map (dkey c) cks) \<and>
     set cks \<subseteq> dom dm \<and> {ck \<in> dom dm. currentBucketNumber itr < bucket_no c ck} \<subseteq> set cks \<and>
     (\<forall>ck \<in> set cks. currentBucketNumber itr \<le> bucket_no c ck \<and> (bucket_no c ck = currentBucketNumber itr \<longrightarrow> start_ck itr \<le> ck)) \<and>
     1 \<le> currentBucketNumber itr \<and> currentBucketNumber itr \<le> nb c (lowestLevel c) + 1"

definition rs_inv :: "(bytes \<Rightarrow> bytes) \<Rightarrow> config \<Rightarrow> 'db gorocksdb \<Rightarrow> ('db \<Rightarrow> dbmap) \<Rightarrow> 'db \<Rightarrow> kvstate \<Rightarrow> RangeScanIterator \<Rightarrow> bool" where
  "rs_inv H c D content db dm itr \<longleftrightarrow> rocksdb_ok D content \<and> conf_wf c \<and> tree_db H c dm (content db StateCF) \<and>
     0 \<notin> set (rs_chaincodeID itr) \<and> (\<exists>cks. rs_pos c dm itr cks) \<and> (rs_done itr \<longrightarrow> rs_dbItr itr = [])"

definition rs_remaining :: "config \<Rightarrow> kvstate \<Rightarrow> RangeScanIterator \<Rightarrow> gostring \<rightharpoonup> slice" where
  "rs_remaining c dm itr k =
     (let ck = ConstructCompositeKey (rs_chaincodeID itr) k
      in if in_range (rs_startKey itr) (rs_endKey itr) k \<and> dkey c ck \<in> fst ` set (rs_dbItr itr)
         then map_option Some (dm ck) else None)"

lemma rs_seek_pos:
  assumes "rocksdb_ok D content" "conf_wf c" "tree_db H c dm (content db StateCF)" "1 \<le> b" "b \<le> nb c (lowestLevel c) + 1"
  shows "\<exists>cks. rs_pos c dm (seekForStartKeyWithinBucket D db itr b) cks \<and>
    set cks = {ck \<in> dom dm. b < bucket_no c ck \<or> b = bucket_no c ck \<and> start_ck itr \<le> ck}"
  using seek_start [OF assms, of "rs_chaincodeID itr" "rs_startKey itr"] assms(4,5)
  by (fastforce simp: rs_pos_def seekForStartKeyWithinBucket_def)

lemma rs_remaining_iff:
  assumes "conf_wf c" "rs_pos c dm itr cks"
  shows "rs_remaining c dm itr k =
    (if in_range (rs_startKey itr) (rs_endKey itr) k \<and> ConstructCompositeKey (rs_chaincodeID itr) k \<in> set cks
     then map_option Some (dm (ConstructCompositeKey (rs_chaincodeID itr) k)) else None)"
proof -
  have "dkey c ck \<in> fst ` set (rs_dbItr itr) \<longleftrightarrow> ck \<in> set cks" for ck
    using assms by (auto simp: rs_pos_def image_iff)
  then show ?thesis by (simp add: rs_remaining_def Let_def)
qed

text \<open>In the sorted keys of a bucket, nothing after the first key out of range is in range.\<close>

lemma out_of_range_rest:
  assumes "conf_wf c" "rs_pos c dm itr (ck # cks)" "0 \<notin> set (rs_chaincodeID itr)" "bucket_no c ck = currentBucketNumber itr"
    and "\<not> (cc_of ck = rs_chaincodeID itr \<and> (rs_endKey itr = [] \<or> key_of ck \<le> rs_endKey itr))"
    and "in_range (rs_startKey itr) (rs_endKey itr) k" "ConstructCompositeKey (rs_chaincodeID itr) k \<in> set (ck # cks)"
  shows "currentBucketNumber itr < bucket_no c (ConstructCompositeKey (rs_chaincodeID itr) k)"
proof (rule ccontr)
  let ?x = "ConstructCompositeKey (rs_chaincodeID itr) k"
  assume "\<not> ?thesis"
  with assms(2,7) have b: "bucket_no c ?x = currentBucketNumber itr" by (force simp: rs_pos_def)
  have "ck = ?x \<or> dkey c ck < dkey c ?x" using assms(2,7) unfolding rs_pos_def by auto
  then have "ck \<le> ?x" using b assms(4) unfolding dkey_less [OF assms(1)] by auto
  moreover have "start_ck itr \<le> ck" using assms(2,4) by (simp add: rs_pos_def)
  ultimately have "cc_of ck = rs_chaincodeID itr \<and> key_of ck \<le> k" using composite_between assms(3) by blast
  with assms(5,6) show False by (auto simp: in_range_def)
qed

definition rs_measure :: "config \<Rightarrow> kvstate \<Rightarrow> RangeScanIterator \<Rightarrow> nat" where
  "rs_measure c dm itr = 2 * card {ck \<in> dom dm. currentBucketNumber itr < bucket_no c ck} +
     (if \<exists>ck. dkey c ck \<in> fst ` set (rs_dbItr itr) \<and> bucket_no c ck = currentBucketNumber itr then 1 else 0)"

lemma rs_skip:
  assumes inv: "rs_inv H c D content db dm itr" and pos: "rs_pos c dm itr cks"
    and b: "currentBucketNumber itr < b" "b \<le> nb c (lowestLevel c) + 1"
    and rest: "\<forall>k. in_range (rs_startKey itr) (rs_endKey itr) k \<longrightarrow> ConstructCompositeKey (rs_chaincodeID itr) k \<in> set cks \<longrightarrow>
      b \<le> bucket_no c (ConstructCompositeKey (rs_chaincodeID itr) k)"
    and prog: "(\<exists>x \<in> set cks. bucket_no c x = currentBucketNumber itr) \<or>
      (\<exists>x \<in> dom dm. currentBucketNumber itr < bucket_no c x \<and> bucket_no c x \<le> b)"
    and "\<not> rs_done itr"
  defines "itr' \<equiv> seekForStartKeyWithinBucket D db itr b"
  shows "rs_inv H c D content db dm itr'" "\<not> rs_done itr'" "rs_remaining c dm itr' = rs_remaining c dm itr"
    "rs_measure c dm itr' < rs_measure c dm itr"
proof -
  have i: "rocksdb_ok D content" "conf_wf c" "tree_db H c dm (content db StateCF)" "0 \<notin> set (rs_chaincodeID itr)"
    using inv by (simp_all add: rs_inv_def)
  have "1 \<le> b" using pos b(1) by (simp add: rs_pos_def)
  from rs_seek_pos [OF i(1-3) this b(2), of itr] obtain cks' where
    p': "rs_pos c dm itr' cks'" and set': "set cks' = {ck \<in> dom dm. b < bucket_no c ck \<or> b = bucket_no c ck \<and> start_ck itr \<le> ck}"
    unfolding itr'_def by blast
  have same: "rs_chaincodeID itr' = rs_chaincodeID itr" "rs_startKey itr' = rs_startKey itr" "rs_endKey itr' = rs_endKey itr"
    "rs_done itr' = rs_done itr" "currentBucketNumber itr' = b"
    by (simp_all add: itr'_def seekForStartKeyWithinBucket_def)
  show "\<not> rs_done itr'" using same assms(7) by simp
  with i p' same show "rs_inv H c D content db dm itr'" by (auto simp: rs_inv_def)
  have sub: "set cks \<subseteq> dom dm" "{ck \<in> dom dm. currentBucketNumber itr < bucket_no c ck} \<subseteq> set cks"
    using pos by (auto simp: rs_pos_def)
  have "ConstructCompositeKey (rs_chaincodeID itr) k \<in> set cks' \<longleftrightarrow> ConstructCompositeKey (rs_chaincodeID itr) k \<in> set cks"
    if "in_range (rs_startKey itr) (rs_endKey itr) k" for k
  proof -
    have "rs_startKey itr \<le> k" using that by (simp add: in_range_def)
    then show ?thesis using rest that sub b(1) unfolding set' by fastforce
  qed
  then show "rs_remaining c dm itr' = rs_remaining c dm itr"
    by (auto simp: fun_eq_iff rs_remaining_iff [OF i(2) p'] rs_remaining_iff [OF i(2) pos] same)
  have fin: "finite (dom dm)" using tree_db_kv_ok [OF i(3)] by (simp add: kv_ok_def)
  let ?A = "{ck \<in> dom dm. currentBucketNumber itr < bucket_no c ck}" and ?B = "{ck \<in> dom dm. b < bucket_no c ck}"
  have BA: "?B \<subseteq> ?A" using b(1) by auto
  have keys: "dkey c ck \<in> fst ` set (rs_dbItr itr) \<longleftrightarrow> ck \<in> set cks" "dkey c ck \<in> fst ` set (rs_dbItr itr') \<longleftrightarrow> ck \<in> set cks'" for ck
    using pos p' i(2) by (auto simp: rs_pos_def image_iff)
  show "rs_measure c dm itr' < rs_measure c dm itr"
  proof (cases "\<exists>x \<in> dom dm. currentBucketNumber itr < bucket_no c x \<and> bucket_no c x \<le> b")
    case True
    then obtain x where "x \<in> ?A" "x \<notin> ?B" by (force simp: not_less)
    with BA have "?B \<subset> ?A" by blast
    then have "card ?B < card ?A" using fin by (intro psubset_card_mono) auto
    then show ?thesis by (simp add: rs_measure_def same)
  next
    case False
    then have n: "\<not> (\<exists>ck. ck \<in> set cks' \<and> bucket_no c ck = b)" using b(1) unfolding set' by force
    have e: "\<exists>ck. ck \<in> set cks \<and> bucket_no c ck = currentBucketNumber itr" using prog False by blast
    have "card ?B \<le> card ?A" using fin BA by (intro card_mono) auto
    then show ?thesis unfolding rs_measure_def same keys if_not_P [OF n] if_P [OF e] by simp
  qed
qed

lemma rs_loop_Cons:
  assumes "rs_inv H c D content db dm itr" "rs_pos c dm itr (ck # rest)"
  shows "rs_Next_loop c D db itr =
    (if bucket_no c ck > currentBucketNumber itr then rs_Next_loop c D db (seekForStartKeyWithinBucket D db itr (bucket_no c ck))
     else if cc_of ck = rs_chaincodeID itr \<and> (rs_endKey itr = [] \<or> key_of ck \<le> rs_endKey itr)
     then Some (Inr (True, itr\<lparr>rs_currentKey := key_of ck, rs_currentValue := dm ck, rs_dbItr := tl (rs_dbItr itr)\<rparr>))
     else rs_Next_loop c D db (seekForStartKeyWithinBucket D db itr (bucket_no c ck + 1)))"
proof -
  have i: "conf_wf c" "kv_ok dm" using assms(1) tree_db_kv_ok by (auto simp: rs_inv_def)
  have e: "rs_dbItr itr = (dkey c ck, the (dm ck)) # tl (rs_dbItr itr)" "ck \<in> dom dm" using assms(2) by (simp_all add: rs_pos_def)
  then have z: "0 \<in> set ck" "Some (the (dm ck)) = dm ck" using i(2) by (auto simp: kv_ok_def)
  show ?thesis
    by (subst rs_Next_loop.simps, subst e(1),
        simp add: unmarshalDataNodeFromBytes_def newDataKeyFromEncodedBytes_dkey [OF i(1)] dn_getKeyElements_def
          DecodeCompositeKey_eq [OF z(1)] z(2) Let_def) blast
qed

lemma rs_found:
  assumes "rs_inv H c D content db dm itr" "\<not> rs_done itr" "rs_pos c dm itr (ck # rest)" "bucket_no c ck = currentBucketNumber itr"
    and "cc_of ck = rs_chaincodeID itr" "rs_endKey itr = [] \<or> key_of ck \<le> rs_endKey itr"
  defines "itr' \<equiv> itr\<lparr>rs_currentKey := key_of ck, rs_currentValue := dm ck, rs_dbItr := tl (rs_dbItr itr)\<rparr>"
  shows "rs_inv H c D content db dm itr'" "rs_GetKeyValue itr' = Inr (key_of ck, dm ck)"
    "rs_remaining c dm itr (key_of ck) = Some (dm ck)" "rs_remaining c dm itr' = (rs_remaining c dm itr)(key_of ck := None)"
proof -
  have i: "conf_wf c" "kv_ok dm" "0 \<notin> set (rs_chaincodeID itr)" using assms(1) tree_db_kv_ok by (auto simp: rs_inv_def)
  have d: "ck \<in> dom dm" and st: "start_ck itr \<le> ck" using assms(3,4) by (simp_all add: rs_pos_def)
  then have ck: "ck = ConstructCompositeKey (rs_chaincodeID itr) (key_of ck)"
    using composite_split [of ck] i(2) assms(5) by (auto simp: kv_ok_def)
  have pos': "rs_pos c dm itr' rest"
    using assms(3,4) by (auto simp: rs_pos_def itr'_def)
  then show "rs_inv H c D content db dm itr'" using assms(1,2) by (auto simp: rs_inv_def itr'_def)
  show "rs_GetKeyValue itr' = Inr (key_of ck, dm ck)" by (simp add: rs_GetKeyValue_def itr'_def)
  have "rs_startKey itr \<le> key_of ck" using st composite_le ck by metis
  then have rng: "in_range (rs_startKey itr) (rs_endKey itr) (key_of ck)" using assms(6) by (simp add: in_range_def)
  show "rs_remaining c dm itr (key_of ck) = Some (dm ck)"
    unfolding rs_remaining_iff [OF i(1) assms(3)] ck [symmetric] using rng d by auto
  have nin: "ck \<notin> set rest" using assms(3) unfolding rs_pos_def by auto
  have ne: "ConstructCompositeKey (rs_chaincodeID itr) k \<noteq> ck" if "k \<noteq> key_of ck" for k
    using that ck ConstructCompositeKey_inj [OF i(3) i(3)] by metis
  have same: "rs_chaincodeID itr' = rs_chaincodeID itr" "rs_startKey itr' = rs_startKey itr" "rs_endKey itr' = rs_endKey itr"
    by (simp_all add: itr'_def)
  show "rs_remaining c dm itr' = (rs_remaining c dm itr)(key_of ck := None)"
  proof
    fix k
    show "rs_remaining c dm itr' k = ((rs_remaining c dm itr)(key_of ck := None)) k"
    proof (cases "k = key_of ck")
      case True
      then show ?thesis
        unfolding rs_remaining_iff [OF i(1) pos'] same True ck [symmetric] using nin by simp
    next
      case False
      then show ?thesis
        unfolding rs_remaining_iff [OF i(1) pos'] same fun_upd_other [OF False] rs_remaining_iff [OF i(1) assms(3)]
        using ne [OF False] by simp
    qed
  qed
qed

text \<open>
  Where the loop goes on: at the bucket of the next key, or at the bucket after it when the key is
  out of range. Nothing that is left to list is lost.
\<close>

definition rs_jump :: "config \<Rightarrow> 'db gorocksdb \<Rightarrow> 'db \<Rightarrow> kvstate \<Rightarrow> RangeScanIterator \<Rightarrow> RangeScanIterator \<Rightarrow> bool" where
  "rs_jump c D db dm itr itr' \<longleftrightarrow> rs_Next_loop c D db itr = rs_Next_loop c D db itr' \<and> \<not> rs_done itr'
     \<and> rs_remaining c dm itr' = rs_remaining c dm itr \<and> rs_measure c dm itr' < rs_measure c dm itr"

lemma rs_next_bucket:
  assumes inv: "rs_inv H c D content db dm itr" "\<not> rs_done itr" and pos: "rs_pos c dm itr (ck # rest)"
    and lt: "currentBucketNumber itr < bucket_no c ck"
  shows "\<exists>itr'. rs_inv H c D content db dm itr' \<and> rs_jump c D db dm itr itr'"
proof -
  have c: "conf_wf c" using inv by (simp add: rs_inv_def)
  have b: "bucket_no c ck \<le> nb c (lowestLevel c) + 1" using bucket_no_valid [OF c, of ck] by (simp add: valid_bk_def)
  have "bucket_no c ck \<le> bucket_no c x" if "x \<in> set (ck # rest)" for x
  proof -
    have "x = ck \<or> dkey c ck < dkey c x" using that pos unfolding rs_pos_def by auto
    then show ?thesis using dkey_less [OF c, of ck x] by auto
  qed
  then have r: "\<forall>k. in_range (rs_startKey itr) (rs_endKey itr) k \<longrightarrow>
      ConstructCompositeKey (rs_chaincodeID itr) k \<in> set (ck # rest) \<longrightarrow>
      bucket_no c ck \<le> bucket_no c (ConstructCompositeKey (rs_chaincodeID itr) k)" by blast
  have "ck \<in> dom dm" using pos by (simp add: rs_pos_def)
  with lt have prog: "(\<exists>x \<in> set (ck # rest). bucket_no c x = currentBucketNumber itr) \<or>
      (\<exists>x \<in> dom dm. currentBucketNumber itr < bucket_no c x \<and> bucket_no c x \<le> bucket_no c ck)" by blast
  have "rs_Next_loop c D db itr = rs_Next_loop c D db (seekForStartKeyWithinBucket D db itr (bucket_no c ck))"
    unfolding rs_loop_Cons [OF inv(1) pos] using lt by simp
  with rs_skip [OF inv(1) pos lt b r prog inv(2)] show ?thesis unfolding rs_jump_def by blast
qed

lemma rs_out_of_range:
  assumes inv: "rs_inv H c D content db dm itr" "\<not> rs_done itr" and pos: "rs_pos c dm itr (ck # rest)"
    and out: "bucket_no c ck = currentBucketNumber itr"
      "\<not> (cc_of ck = rs_chaincodeID itr \<and> (rs_endKey itr = [] \<or> key_of ck \<le> rs_endKey itr))"
  shows "\<exists>itr'. rs_inv H c D content db dm itr' \<and> rs_jump c D db dm itr itr'"
proof -
  have c: "conf_wf c" "0 \<notin> set (rs_chaincodeID itr)" using inv by (simp_all add: rs_inv_def)
  have lt: "currentBucketNumber itr < bucket_no c ck + 1" "bucket_no c ck + 1 \<le> nb c (lowestLevel c) + 1"
    using out bucket_no_valid [OF c(1), of ck] by (simp_all add: valid_bk_def)
  have r: "\<forall>k. in_range (rs_startKey itr) (rs_endKey itr) k \<longrightarrow>
      ConstructCompositeKey (rs_chaincodeID itr) k \<in> set (ck # rest) \<longrightarrow>
      bucket_no c ck + 1 \<le> bucket_no c (ConstructCompositeKey (rs_chaincodeID itr) k)"
    using out_of_range_rest [OF c(1) pos c(2) out] out(1) by fastforce
  have prog: "(\<exists>x \<in> set (ck # rest). bucket_no c x = currentBucketNumber itr) \<or>
      (\<exists>x \<in> dom dm. currentBucketNumber itr < bucket_no c x \<and> bucket_no c x \<le> bucket_no c ck + 1)" using out(1) by simp
  have "rs_Next_loop c D db itr = rs_Next_loop c D db (seekForStartKeyWithinBucket D db itr (bucket_no c ck + 1))"
    unfolding rs_loop_Cons [OF inv(1) pos] by (simp only: out less_irrefl if_False)
  with rs_skip [OF inv(1) pos lt r prog inv(2)] show ?thesis unfolding rs_jump_def by blast
qed

lemma rs_exhausted:
  assumes "rs_inv H c D content db dm itr" "rs_pos c dm itr []"
  shows "rs_remaining c dm itr = Map.empty"
    "\<exists>itr'. rs_Next_loop c D db itr = Some (Inr (False, itr')) \<and> rs_inv H c D content db dm itr' \<and> rs_remaining c dm itr' = Map.empty"
proof -
  have e: "rs_dbItr itr = []" using assms(2) by (simp add: rs_pos_def)
  then show "rs_remaining c dm itr = Map.empty" by (simp add: rs_remaining_def fun_eq_iff)
  have "rs_remaining c dm (itr\<lparr>rs_done := True\<rparr>) = Map.empty" using e by (simp add: rs_remaining_def fun_eq_iff)
  moreover have "rs_Next_loop c D db itr = Some (Inr (False, itr\<lparr>rs_done := True\<rparr>))"
    by (subst rs_Next_loop.simps) (simp add: e)
  moreover have "rs_inv H c D content db dm (itr\<lparr>rs_done := True\<rparr>)"
    using assms(1) e by (auto simp: rs_inv_def rs_pos_def)
  ultimately show "\<exists>itr'. rs_Next_loop c D db itr = Some (Inr (False, itr')) \<and> rs_inv H c D content db dm itr' \<and>
      rs_remaining c dm itr' = Map.empty" by blast
qed

lemma rs_loop_ok:
  assumes "rs_inv H c D content db dm itr" "\<not> rs_done itr"
  shows "if rs_remaining c dm itr = Map.empty
    then \<exists>itr'. rs_Next_loop c D db itr = Some (Inr (False, itr')) \<and> rs_inv H c D content db dm itr' \<and> rs_remaining c dm itr' = Map.empty
    else \<exists>itr' k v. rs_Next_loop c D db itr = Some (Inr (True, itr')) \<and> rs_inv H c D content db dm itr' \<and>
      rs_GetKeyValue itr' = Inr (k, v) \<and> rs_remaining c dm itr k = Some v \<and>
      rs_remaining c dm itr' = (rs_remaining c dm itr)(k := None)"
  using assms
proof (induction "rs_measure c dm itr" arbitrary: itr rule: less_induct)
  case less
  then obtain cks where pos: "rs_pos c dm itr cks" by (auto simp: rs_inv_def)
  show ?case
  proof (cases cks)
    case Nil
    then show ?thesis using rs_exhausted [OF less.prems(1)] pos by simp
  next
    case (Cons ck rest)
    note pos = pos [unfolded Cons]
    have "currentBucketNumber itr \<le> bucket_no c ck" using pos by (simp add: rs_pos_def)
    then consider "\<exists>itr'. rs_inv H c D content db dm itr' \<and> rs_jump c D db dm itr itr'"
      | "bucket_no c ck = currentBucketNumber itr" "cc_of ck = rs_chaincodeID itr" "rs_endKey itr = [] \<or> key_of ck \<le> rs_endKey itr"
      using rs_next_bucket [OF less.prems pos] rs_out_of_range [OF less.prems pos] by (metis order_le_less)
    then show ?thesis
    proof cases
      case 1
      then obtain itr' where i: "rs_inv H c D content db dm itr'" and j: "rs_Next_loop c D db itr = rs_Next_loop c D db itr'"
        "\<not> rs_done itr'" "rs_remaining c dm itr' = rs_remaining c dm itr" "rs_measure c dm itr' < rs_measure c dm itr"
        unfolding rs_jump_def by blast
      from less.hyps [OF j(4) i j(2)] show ?thesis unfolding j(1,3) .
    next
      case 2
      with rs_found [OF less.prems pos 2] rs_loop_Cons [OF less.prems(1) pos] show ?thesis by auto
    qed
  qed
qed

end
