(* ===== verification/ScanTheorems.thy ===== *)
theory ScanTheorems
  imports StateScan LedgerRecovery
begin

text \<open>
  The properties of range scans and snapshots over the bucket tree.
\<close>

subsection \<open>Interpretations\<close>

lemma rs_range_scan: "range_scan (rs_Next c D db) rs_GetKeyValue (rs_inv H c D content db dm) (rs_remaining c dm)"
proof
  show "finite (dom (rs_remaining c dm itr))" if "rs_inv H c D content db dm itr" for itr
  proof -
    have "finite (dom dm)" using that tree_db_kv_ok by (auto simp: rs_inv_def kv_ok_def)
    moreover have "dom (rs_remaining c dm itr) \<subseteq> key_of ` dom dm"
    proof
      fix k
      assume "k \<in> dom (rs_remaining c dm itr)"
      then have "ConstructCompositeKey (rs_chaincodeID itr) k \<in> dom dm" by (auto simp: rs_remaining_def Let_def split: if_splits)
      moreover have "key_of (ConstructCompositeKey (rs_chaincodeID itr) k) = k"
        using that cc_key_of_Construct by (simp add: rs_inv_def)
      ultimately show "k \<in> key_of ` dom dm" by (metis imageI)
    qed
    ultimately show ?thesis by (meson finite_imageI finite_subset)
  qed
  have fin: "rs_remaining c dm itr = Map.empty" if "rs_inv H c D content db dm itr" "rs_done itr" for itr
    using that by (auto simp: rs_inv_def rs_remaining_def fun_eq_iff)
  show "\<exists>itr'. rs_Next c D db itr = Some (Inr (False, itr')) \<and> rs_inv H c D content db dm itr' \<and> rs_remaining c dm itr' = Map.empty"
    if "rs_inv H c D content db dm itr" "rs_remaining c dm itr = Map.empty" for itr
    using rs_loop_ok [OF that(1)] that fin by (simp add: rs_Next_def)
  show "\<exists>itr' k v. rs_Next c D db itr = Some (Inr (True, itr')) \<and> rs_inv H c D content db dm itr' \<and>
      rs_GetKeyValue itr' = Inr (k, v) \<and> rs_remaining c dm itr k = Some v \<and> rs_remaining c dm itr' = (rs_remaining c dm itr)(k := None)"
    if "rs_inv H c D content db dm itr" "rs_remaining c dm itr \<noteq> Map.empty" for itr
    using rs_loop_ok [OF that(1)] that fin [OF that(1)] by (auto simp: rs_Next_def)
qed

interpretation rs: composite_scan "rs_Next c D db" rs_GetKeyValue "rs_inv H c D content db dm" "rs_remaining c dm"
  for H c D content db dm
  unfolding composite_scan_def by (rule rs_range_scan)

subsection \<open>Draining an interface value\<close>

lemma drain_Impl:
  "drain n (itr_Next nxt get) (itr_GetKeyValue get) (ImplItr i) = drain n nxt get i"
  by (induction n arbitrary: i) (auto simp: map_next_def split: option.splits sum.splits prod.splits)

lemma drain_Composite:
  "drain n (itr_Next nxt get) (itr_GetKeyValue get) (CompositeItr i) = drain n (comp_Next nxt get) (comp_GetKeyValue get) i"
  by (induction n arbitrary: i) (auto simp: map_next_def split: option.splits sum.splits prod.splits)

lemma rs_new:
  assumes "rocksdb_ok D content" "conf_wf c" "tree_db H c dm (content db StateCF)" "0 \<notin> set cc"
    and itr: "itr = newRangeScanIterator D db cc startKey endKey"
  shows "rs_inv H c D content db dm itr"
    "rs_remaining c dm itr k = (if in_range startKey endKey k then map_option Some (world dm (cc, k)) else None)"
proof -
  have n: "1 \<le> (1 :: int)" "1 \<le> nb c (lowestLevel c) + 1"
    using conf_lowest [OF assms(2)] conf_pos [OF assms(2), of "lowestLevel c"] by auto
  from rs_seek_pos [OF assms(1-3) n] obtain cks where
    p: "rs_pos c dm itr cks" and s: "set cks = {ck \<in> dom dm. 1 < bucket_no c ck \<or> 1 = bucket_no c ck \<and> start_ck itr \<le> ck}"
    unfolding itr newRangeScanIterator_def by (fastforce simp: seekForStartKeyWithinBucket_def)
  have f: "rs_chaincodeID itr = cc" "rs_startKey itr = startKey" "rs_endKey itr = endKey" "\<not> rs_done itr"
    by (simp_all add: itr newRangeScanIterator_def seekForStartKeyWithinBucket_def)
  show "rs_inv H c D content db dm itr" using assms p f by (auto simp: rs_inv_def)
  have "1 \<le> bucket_no c ck" for ck using bucket_no_valid [OF assms(2), of ck] by (simp add: valid_bk_def)
  then have "1 < bucket_no c ck \<or> 1 = bucket_no c ck" for ck by (metis order_le_less)
  then have "ConstructCompositeKey cc k \<in> set cks \<longleftrightarrow> ConstructCompositeKey cc k \<in> dom dm" if "startKey \<le> k"
    using that unfolding s f by auto
  then show "rs_remaining c dm itr k = (if in_range startKey endKey k then map_option Some (world dm (cc, k)) else None)"
    unfolding rs_remaining_iff [OF assms(2) p] f by (auto simp: in_range_def world_def)
qed

lemma peer_inv_tree:
  assumes "state_inv (bucket_view c content) (bucket_clean H c D content) (bucket_prepared H c D content) db s"
  shows "rocksdb_ok D content" "conf_wf c" "tree_db H c (bucket_view c content db) (content db StateCF)"
  using assms
  by (auto simp: state_inv_def impl_ok_def bucket_clean_def st_clean_def bucket_prepared_def st_prepared_def tree_at_def
      split: if_splits)

lemma comp_new:
  assumes "state_inv (bucket_view c content) (bucket_clean H c D content) (bucket_prepared H c D content) db s" "0 \<notin> set cc"
    and itr: "itr = newCompositeRangeScanIterator
      (NewStateDeltaRangeScanIterator (currentTxStateDelta s) cc startKey endKey)
      (NewStateDeltaRangeScanIterator (stateDelta s) cc startKey endKey) (newRangeScanIterator D db cc startKey endKey)"
  shows "composite_scan.comp_inv (rs_inv H c D content db (bucket_view c content db)) itr"
    "composite_scan.comp_remaining (rs_remaining c (bucket_view c content db)) itr k =
      (let v = w_tx (abs_state (bucket_view c content db) s) (cc, k)
       in if in_range startKey endKey k \<and> v \<noteq> None then Some v else None)"
proof -
  have wf: "sd_wf (currentTxStateDelta s)" "sd_wf (stateDelta s)" using assms(1) by (simp_all add: state_inv_def delta_good_def)
  note tx = di_new [OF wf(1) refl, of cc startKey endKey] and batch = di_new [OF wf(2) refl, of cc startKey endKey]
  note impl = rs_new [OF peer_inv_tree [OF assms(1)] assms(2) refl, of startKey endKey]
  show "composite_scan.comp_inv (rs_inv H c D content db (bucket_view c content db)) itr"
    using tx(1) batch(1) impl(1) by (simp add: rs.comp_inv_def itr newCompositeRangeScanIterator_def)
  show "composite_scan.comp_remaining (rs_remaining c (bucket_view c content db)) itr k =
      (let v = w_tx (abs_state (bucket_view c content db) s) (cc, k)
       in if in_range startKey endKey k \<and> v \<noteq> None then Some v else None)"
  proof -
    note v = rs.visible_at_def rs.remaining_at_def skipKey_def itr newCompositeRangeScanIterator_def
    have v0: "composite_scan.visible_at (rs_remaining c (bucket_view c content db)) 0 itr k =
        di_remaining (NewStateDeltaRangeScanIterator (currentTxStateDelta s) cc startKey endKey) k" by (simp add: v)
    have v1: "composite_scan.visible_at (rs_remaining c (bucket_view c content db)) 1 itr k =
        (if delta_at (currentTxStateDelta s) (cc, k) \<noteq> None then None
         else di_remaining (NewStateDeltaRangeScanIterator (stateDelta s) cc startKey endKey) k)" by (simp add: v tx(2))
    have v2: "composite_scan.visible_at (rs_remaining c (bucket_view c content db)) 2 itr k =
        (if delta_at (currentTxStateDelta s) (cc, k) \<noteq> None \<or> delta_at (stateDelta s) (cc, k) \<noteq> None then None
         else rs_remaining c (bucket_view c content db) (newRangeScanIterator D db cc startKey endKey) k)"
      by (simp add: v tx(2) batch(2))
    have n: "currentItrNumber itr = 0" by (simp add: itr newCompositeRangeScanIterator_def)
    note r = rs.comp_remaining_def Let_def n v0 v1 v1 [unfolded One_nat_def] v2 tx(3) batch(3) impl(2)
    show ?thesis
    proof (cases "delta_at (currentTxStateDelta s) (cc, k)")
      case None
      then show ?thesis
        by (cases "delta_at (stateDelta s) (cc, k)"; cases "world (bucket_view c content db) (cc, k)")
          (simp_all add: r abs_state_def fwd_def)
    next
      case (Some uv)
      then show ?thesis by (simp add: r abs_state_def fwd_def)
    qed
  qed
qed

text \<open>What a scan lists, as a map, and that draining the iterator lists it.\<close>

definition scanned :: "kvstate \<Rightarrow> 'st State \<Rightarrow> gostring \<Rightarrow> gostring \<Rightarrow> gostring \<Rightarrow> bool \<Rightarrow> gostring \<Rightarrow> slice option" where
  "scanned dm s cc startKey endKey committed k =
     (let v = spec_read (abs_state dm s) (cc, k) committed in if in_range startKey endKey k \<and> v \<noteq> None then Some v else None)"

lemma scan_drains:
  assumes "state_inv (bucket_view c content) (bucket_clean H c D content) (bucket_prepared H c D content) db s"
    and "0 \<notin> set cc"
  shows "\<exists>N. \<forall>n \<ge> N. \<exists>kvs. drain n (itr_Next (rs_Next c D db) rs_GetKeyValue) (itr_GetKeyValue rs_GetKeyValue)
      (GetRangeScanIterator D db s cc startKey endKey committed) = Some (Inr kvs) \<and> distinct (map fst kvs) \<and>
      map_of kvs = scanned (bucket_view c content db) s cc startKey endKey committed"
proof (cases committed)
  case True
  let ?i = "newRangeScanIterator D db cc startKey endKey" and ?dm = "bucket_view c content db"
  note new = rs_new [OF peer_inv_tree [OF assms(1)] assms(2) refl, of startKey endKey]
  have "rs_remaining c ?dm ?i k = scanned ?dm s cc startKey endKey committed k" for k
    using True by (cases "world ?dm (cc, k)") (simp_all add: new(2) scanned_def spec_read_def abs_state_def Let_def)
  then have e: "rs_remaining c ?dm ?i = scanned ?dm s cc startKey endKey committed" by blast
  show ?thesis
    using rs.drain_all [OF new(1)] True unfolding e
    by (intro exI [of _ "Suc (card (dom (rs_remaining c ?dm ?i)))"])
      (simp add: e GetRangeScanIterator_def Let_def drain_Impl Suc_le_eq)
next
  case False
  let ?i = "newCompositeRangeScanIterator (NewStateDeltaRangeScanIterator (currentTxStateDelta s) cc startKey endKey)
      (NewStateDeltaRangeScanIterator (stateDelta s) cc startKey endKey) (newRangeScanIterator D db cc startKey endKey)"
  let ?R = "composite_scan.comp_remaining (rs_remaining c (bucket_view c content db)) ?i"
  note new = comp_new [OF assms refl, of startKey endKey]
  have "?R k = scanned (bucket_view c content db) s cc startKey endKey committed k" for k
    using False by (simp add: new(2) scanned_def spec_read_def Let_def)
  then have e: "?R = scanned (bucket_view c content db) s cc startKey endKey committed" by blast
  show ?thesis
    using rs.comp.drain_all [OF new(1)] False unfolding e
    by (intro exI [of _ "Suc (card (dom ?R))"]) (simp add: e GetRangeScanIterator_def Let_def drain_Composite Suc_le_eq)
qed

lemma scanned_iff:
  assumes "distinct (map fst kvs)" "map_of kvs = scanned dm s cc startKey endKey committed"
  shows "(k, v) \<in> set kvs \<longleftrightarrow> in_range startKey endKey k \<and> v \<noteq> None \<and> spec_read (abs_state dm s) (cc, k) committed = v"
proof -
  have "(k, v) \<in> set kvs \<longleftrightarrow> map_of kvs k = Some v" using assms(1) by (simp only: map_of_eq_Some_iff)
  then show ?thesis unfolding assms(2) scanned_def Let_def by auto
qed

subsection \<open>Properties\<close>

text \<open>
  C10: Range scans are complete. For a chaincode id without zero bytes, draining the iterator of
  \<open>GetRangeScanIterator\<close> ends, with every key of the range that has a value exactly once and with
  the value that \<open>Get\<close> returns: from the committed state only, or from the running transaction
  and the batch over the committed state.
\<close>

theorem range_scan_complete:
  assumes "state_inv (bucket_view c content) (bucket_clean H c D content) (bucket_prepared H c D content) db s"
    and "0 \<notin> set cc"
  shows "\<exists>N. \<forall>n \<ge> N. \<exists>kvs. drain n (itr_Next (rs_Next c D db) rs_GetKeyValue) (itr_GetKeyValue rs_GetKeyValue)
      (GetRangeScanIterator D db s cc startKey endKey committed) = Some (Inr kvs) \<and> distinct (map fst kvs) \<and>
    (\<forall>k v. (k, v) \<in> set kvs \<longleftrightarrow> in_range startKey endKey k \<and> v \<noteq> None \<and>
       spec_read (abs_state (bucket_view c content db) s) (cc, k) committed = v)"
proof -
  let ?drain = "\<lambda>n. drain n (itr_Next (rs_Next c D db) rs_GetKeyValue) (itr_GetKeyValue rs_GetKeyValue)
      (GetRangeScanIterator D db s cc startKey endKey committed)"
  obtain N where N: "\<forall>n \<ge> N. \<exists>kvs. ?drain n = Some (Inr kvs) \<and> distinct (map fst kvs) \<and>
      map_of kvs = scanned (bucket_view c content db) s cc startKey endKey committed"
    using scan_drains [OF assms] by blast
  show ?thesis
  proof (intro exI [of _ N] allI impI)
    fix n
    assume "N \<le> n"
    with N obtain kvs where k: "?drain n = Some (Inr kvs)" "distinct (map fst kvs)"
      "map_of kvs = scanned (bucket_view c content db) s cc startKey endKey committed" by blast
    show "\<exists>kvs. ?drain n = Some (Inr kvs) \<and> distinct (map fst kvs) \<and>
        (\<forall>k v. (k, v) \<in> set kvs \<longleftrightarrow> in_range startKey endKey k \<and> v \<noteq> None \<and>
          spec_read (abs_state (bucket_view c content db) s) (cc, k) committed = v)"
      by (intro exI [of _ kvs] conjI allI k(1,2) scanned_iff [OF k(2,3)])
  qed
qed

text \<open>A peer in a batch that has set one key: the scan over the layers finds it, the committed scan does not.\<close>

theorem range_scan_complete_witness:
  "\<exists>c (L :: (StateImpl, unit) Ledger) n.
    drain n (itr_Next (rs_Next c memdb (\<lambda>_. [])) rs_GetKeyValue) (itr_GetKeyValue rs_GetKeyValue)
      (GetRangeScanIterator memdb (\<lambda>_. []) (l_state L) (lit ''cc'') (lit ''a'') [] False) = Some (Inr [(lit ''k'', Some (lit ''v''))]) \<and>
    drain n (itr_Next (rs_Next c memdb (\<lambda>_. [])) rs_GetKeyValue) (itr_GetKeyValue rs_GetKeyValue)
      (GetRangeScanIterator memdb (\<lambda>_. []) (l_state L) (lit ''cc'') (lit ''a'') [] True) = Some (Inr [])"
proof -
  obtain c and L :: "(StateImpl, unit) Ledger" where L: "\<And>P. proto_ok P \<Longrightarrow> peer_inv ex_hash c memdb mem_content P (\<lambda>_. []) L []"
    "w_tx (abs_state (bucket_view c mem_content (\<lambda>_. [])) (l_state L)) = (\<lambda>_. None)((lit ''cc'', lit ''k'') := Some (lit ''v''))"
    "bucket_view c mem_content (\<lambda>_. []) = Map.empty"
    using ex_open by blast
  let ?w = "abs_state (bucket_view c mem_content (\<lambda>_. [])) (l_state L)"
  have cm: "w_committed ?w x = None" for x by (simp add: abs_state_def Let_def world_def L(3))
  note inv = peer_inv_state [OF L(1) [OF ex_proto_ok(1)]]
  have z: "0 \<notin> set (lit ''cc'')" by (simp add: lit_def)
  let ?d = "\<lambda>n b. drain n (itr_Next (rs_Next c memdb (\<lambda>_. [])) rs_GetKeyValue) (itr_GetKeyValue rs_GetKeyValue)
      (GetRangeScanIterator memdb (\<lambda>_. []) (l_state L) (lit ''cc'') (lit ''a'') [] b)"
  let ?P = "\<lambda>b kvs. distinct (map fst kvs) \<and> (\<forall>k v. (k, v) \<in> set kvs \<longleftrightarrow> in_range (lit ''a'') [] k \<and> v \<noteq> None \<and>
      spec_read ?w (lit ''cc'', k) b = v)"
  obtain N where N: "\<forall>n \<ge> N. \<exists>kvs. ?d n False = Some (Inr kvs) \<and> ?P False kvs"
    using range_scan_complete [OF inv z, of "lit ''a''" "[]" False] by (elim exE) (rule that)
  obtain M where M: "\<forall>n \<ge> M. \<exists>kvs. ?d n True = Some (Inr kvs) \<and> ?P True kvs"
    using range_scan_complete [OF inv z, of "lit ''a''" "[]" True] by (elim exE) (rule that)
  obtain kvs where f: "?d (max N M) False = Some (Inr kvs)" "?P False kvs"
    using N [rule_format, OF max.cobounded1 [of N M]] by (elim exE) (erule conjE, rule that)
  obtain kvs' where t: "?d (max N M) True = Some (Inr kvs')" "?P True kvs'"
    using M [rule_format, OF max.cobounded2 [of M N]] by (elim exE) (erule conjE, rule that)
  have s: "set kvs = {(lit ''k'', Some (lit ''v''))}"
  proof -
    have a: "(k, v) \<in> set kvs \<longleftrightarrow> in_range (lit ''a'') [] k \<and> v \<noteq> None \<and>
        ((\<lambda>_. None)((lit ''cc'', lit ''k'') := Some (lit ''v''))) (lit ''cc'', k) = v" for k v
      using f(2) unfolding spec_read_def L(2) by simp
    have "in_range (lit ''a'') [] (lit ''k'')" by (simp add: in_range_def lit_def)
    then have "(k, v) \<in> set kvs \<longleftrightarrow> k = lit ''k'' \<and> v = Some (lit ''v'')" for k v
      unfolding a by (cases "k = lit ''k''") auto
    then show ?thesis by auto
  qed
  have "distinct kvs" using f(2) by (simp add: distinct_map)
  then have "length kvs = 1" using distinct_card s by fastforce
  then obtain kv where "kvs = [kv]" by (auto simp: length_Suc_conv)
  with s have "kvs = [(lit ''k'', Some (lit ''v''))]" by simp
  moreover have "x \<notin> set kvs'" for x using t(2) by (cases x) (auto simp: spec_read_def cm)
  then have "kvs' = []" by (cases kvs') auto
  ultimately show ?thesis using f(1) t(1) by auto
qed

subsection \<open>Snapshots\<close>

lemma drain_snapshot:
  assumes "conf_wf c" "set cks \<subseteq> dom dm" "length cks < n"
    and "ss_dbItr (stateImplItr ss) = (bef, e # map (\<lambda>ck. (dkey c ck, the (dm ck))) cks)"
  shows "drain n ss_Next (ss_GetRawKeyValue c) ss = Some (Inr (map (\<lambda>ck. (ck, dm ck)) cks))"
  using assms(2-4)
proof (induction cks arbitrary: n ss bef e)
  case Nil
  then obtain m where "n = Suc m" by (cases n) auto
  with Nil(3) show ?case by (simp add: ss_Next_def ssi_Next_def map_next_def)
next
  case (Cons ck cks)
  then obtain m where m: "n = Suc m" "length cks < m" by (cases n) auto
  let ?rest = "(dkey c ck, the (dm ck)) # map (\<lambda>ck. (dkey c ck, the (dm ck))) cks"
  let ?ss = "ss\<lparr>stateImplItr := (stateImplItr ss)\<lparr>ss_dbItr := (e # bef, ?rest)\<rparr>\<rparr>"
  have nx: "ss_Next ss = Some (Inr (True, ?ss))" using Cons.prems(3) by (simp add: ss_Next_def ssi_Next_def map_next_def)
  have "Some (the (dm ck)) = dm ck" using Cons.prems(1) by auto
  then have g: "ss_GetRawKeyValue c ?ss = Inr (ck, dm ck)"
    by (simp add: ss_GetRawKeyValue_def ssi_GetRawKeyValue_def unmarshalDataNodeFromBytes_def
        newDataKeyFromEncodedBytes_dkey [OF assms(1)])
  have "drain m ss_Next (ss_GetRawKeyValue c) ?ss = Some (Inr (map (\<lambda>ck. (ck, dm ck)) cks))"
    using Cons.prems(1) m(2) by (intro Cons.IH [of m ?ss "e # bef" "(dkey c ck, the (dm ck))"]) simp_all
  with nx g m(1) show ?case by simp
qed

lemma seek_all_data:
  assumes "rocksdb_ok D content" "conf_wf c" "tree_db H c dm (content db StateCF)"
  shows "\<exists>cks. Seek D db StateCF [1] = map (\<lambda>ck. (dkey c ck, the (dm ck))) cks \<and> distinct cks \<and> set cks = dom dm"
proof -
  have "bk_getEncodedBytes bk < [1]" for bk using bk_encoded_head [of bk] by auto
  from seek_data [OF assms this] obtain cks where
    c: "Seek D db StateCF [1] = map (\<lambda>ck. (dkey c ck, the (dm ck))) cks" "sorted_wrt (<) (map (dkey c) cks)"
      "set cks = {ck \<in> dom dm. [1] \<le> dkey c ck}" by blast
  have "[1] \<le> dkey c ck" for ck
  proof -
    obtain x xs where x: "dkey c ck = x # xs" "x \<noteq> 0" using dkey_head [OF assms(2), of ck] by blast
    then have "x = 1 \<or> 1 < x" by (metis less_one not_less_iff_gr_or_eq word_gt_0 word_le_sub1 linorder_not_less order_le_less word_coorder.not_eq_extremum)
    with x show ?thesis by auto
  qed
  moreover have "distinct cks" using c(2) by (simp add: strict_sorted_iff distinct_map)
  ultimately show ?thesis using c by auto
qed

lemma root_node_before:
  assumes "rocksdb_ok D content" "conf_wf c" "tree_db H c dm (content db StateCF)" "root_hash H c dm \<noteq> None"
  shows "filter (\<lambda>e. fst e < [1]) (Seek D db StateCF []) \<noteq> []"
proof -
  let ?k = "bk_getEncodedBytes (bkey 0 1)"
  have l: "0 < lowestLevel c" using conf_lowest [OF assms(2)] by simp
  have v: "valid_bk c 0 1" using conf_root [OF assms(2)] l by (simp add: valid_bk_def)
  have "\<not> all_nil (child_hashes H c dm 0 1)"
  proof
    assume "all_nil (child_hashes H c dm 0 1)"
    then have "filter NotNil (child_hashes H c dm 0 1) = []" by (auto simp: all_nil_def filter_empty_conv)
    then have "combine H (child_hashes H c dm 0 1) = None" by (simp add: combine_def)
    with assms(4) l show False by (simp add: root_hash_def bucket_node_hash_inner)
  qed
  then have "content db StateCF ?k \<noteq> None" using assms(3) v l by (simp add: tree_db_def)
  then have "map_of (Seek D db StateCF []) ?k \<noteq> None" using rocksdb_seek_map [OF assms(1)] by simp
  then obtain v where "(?k, v) \<in> set (Seek D db StateCF [])" by (auto dest: map_of_SomeD)
  moreover have "?k < [1]" using bk_encoded_head [of "bkey 0 1"] by auto
  ultimately show ?thesis by (force simp: filter_empty_conv)
qed

text \<open>The snapshot of a nonempty chain is taken at its last block.\<close>

lemma GetStateSnapshot_chain:
  assumes i: "chain_db P H (content db) bs" and r: "rocksdb_ok D content" and m: "length bs = Suc m"
  shows "GetStateSnapshot D db = newStateSnapshot D (of_nat m) db" "unat (of_nat m :: u64) = m"
proof -
  have len: "Suc m < 2 ^ 64" using i m by (simp add: chain_db_def)
  have enc: "encodeUint64 k \<noteq> []" for k using length_encodeUint64 [of k] by (metis list.size(3) zero_neq_numeral)
  have "bs \<noteq> []" using m by auto
  then have "GetCF D db BlockchainCF blockCountKey = Inr (Some (encodeUint64 (of_nat (Suc m))))"
    using i m by (simp add: rocksdb_get [OF r] chain_db_def)
  then have sz: "fetchBlockchainSizeFromSnapshot D db = Inr (of_nat (Suc m))"
    using enc by (simp add: fetchBlockchainSizeFromSnapshot_def GetFromBlockchainCFSnapshot_def getFromSnapshot_def)
  have nz: "(of_nat (Suc m) :: u64) \<noteq> 0" using of_nat_u64_inj [of "Suc m" 0] len by simp
  show "GetStateSnapshot D db = newStateSnapshot D (of_nat m) db"
    using nz by (simp add: GetStateSnapshot_def sz)
  show "unat (of_nat m :: u64) = m" using len by (simp add: unat_of_nat_u64)
qed

text \<open>
  C11: A state snapshot lists the committed state. On a chain with blocks, if some key belongs to
  a chaincode with a nonempty id, \<open>GetStateSnapshot\<close> returns a snapshot for the last block, and
  draining it gives every composite key of the committed state exactly once with its value. On
  an empty state the constructor steps back from an iterator that is not valid, which RocksDB
  does not define.
\<close>

theorem snapshot_complete:
  assumes "peer_inv H c D content P db L bs" and "bs \<noteq> []" and "dm = bucket_view c content db"
  shows "((\<exists>ck \<in> dom dm. cc_of ck \<noteq> []) \<longrightarrow>
      (\<exists>ss N kvs. GetStateSnapshot D db = Inr ss \<and> unat (ss_blockNumber ss) = length bs - 1 \<and>
        (\<forall>n \<ge> N. drain n ss_Next (ss_GetRawKeyValue c) ss = Some (Inr kvs)) \<and>
        distinct (map fst kvs) \<and> (\<forall>ck v. (ck, v) \<in> set kvs \<longleftrightarrow> v \<noteq> None \<and> dm ck = v))) \<and>
    (dm = Map.empty \<longrightarrow> GetStateSnapshot D db = Inl itr_invalid)"
proof -
  have i: "chain_db P H (content db) bs" using assms(1) by (simp add: peer_inv_def ledger_inv_def)
  note t = peer_inv_tree [OF peer_inv_state [OF assms(1)], folded assms(3)]
  obtain m where m: "length bs = Suc m" using assms(2) by (cases bs) auto
  note snap = GetStateSnapshot_chain [OF i t(1) m]
  obtain cks where cks: "Seek D db StateCF [1] = map (\<lambda>ck. (dkey c ck, the (dm ck))) cks" "distinct cks" "set cks = dom dm"
    using seek_all_data [OF t] by blast
  have "GetStateSnapshot D db = Inl itr_invalid" if "dm = Map.empty"
    using that cks(1,3) by (simp add: snap(1) newStateSnapshot_def newStateSnapshotIterator_def itr_Seek_def)
  moreover have "\<exists>ss N kvs. GetStateSnapshot D db = Inr ss \<and> unat (ss_blockNumber ss) = length bs - 1 \<and>
        (\<forall>n \<ge> N. drain n ss_Next (ss_GetRawKeyValue c) ss = Some (Inr kvs)) \<and>
        distinct (map fst kvs) \<and> (\<forall>ck v. (ck, v) \<in> set kvs \<longleftrightarrow> v \<noteq> None \<and> dm ck = v)"
    if ck: "ck \<in> dom dm" "cc_of ck \<noteq> []" for ck
  proof -
    have "hash_ok H" "kv_ok dm"
      using peer_inv_state [OF assms(1)] tree_db_kv_ok [OF t(3)]
      by (auto simp: state_inv_def impl_ok_def bucket_clean_def st_clean_def bucket_prepared_def st_prepared_def tree_at_def
          split: if_splits)
    from root_node_before [OF t root_hash_neq_None [OF t(2) this ck]] obtain e bef where
      bef: "rev (filter (\<lambda>e. fst e < [1]) (Seek D db StateCF [])) = e # bef" by (metis list.exhaust rev_is_Nil_conv)
    let ?ss = "\<lparr>ss_blockNumber = of_nat m, stateImplItr = \<lparr>ss_dbItr = (bef, e # map (\<lambda>ck. (dkey c ck, the (dm ck))) cks)\<rparr>, dbSnapshot = db\<rparr>"
    have "cks \<noteq> []" using ck(1) cks(3) by auto
    then have "itr_Prev (e # bef, map (\<lambda>ck. (dkey c ck, the (dm ck))) cks) = Inr (bef, e # map (\<lambda>ck. (dkey c ck, the (dm ck))) cks)"
      by (cases cks) auto
    then have "GetStateSnapshot D db = Inr ?ss"
      by (simp add: snap(1) newStateSnapshot_def newStateSnapshotIterator_def itr_Seek_def bef cks(1))
    moreover have "unat (ss_blockNumber ?ss) = length bs - 1" using m by (simp add: snap(2))
    moreover have "\<forall>n \<ge> Suc (length cks). drain n ss_Next (ss_GetRawKeyValue c) ?ss = Some (Inr (map (\<lambda>ck. (ck, dm ck)) cks))"
      using drain_snapshot [OF t(2), of cks dm _ ?ss] cks(3) by (auto simp: Suc_le_eq)
    moreover have "distinct (map fst (map (\<lambda>ck. (ck, dm ck)) cks))" using cks(2) by (simp add: comp_def)
    moreover have "\<forall>ck v. (ck, v) \<in> set (map (\<lambda>ck. (ck, dm ck)) cks) \<longleftrightarrow> v \<noteq> None \<and> dm ck = v" using cks(3) by auto
    ultimately show ?thesis by blast
  qed
  ultimately show ?thesis by blast
qed

theorem snapshot_complete_witness:
  "\<exists>c L P db' (L' :: (StateImpl, unit) Ledger) ss n.
    CommitTxBatch P ex_hash (bucket_hs ex_hash c memdb) memdb (1, 2) (\<lambda>_. []) L (Some ()) [ex_tx] [] [] = (None, db', L') \<and>
    GetStateSnapshot memdb db' = Inr ss \<and> ss_blockNumber ss = 0 \<and>
    drain n ss_Next (ss_GetRawKeyValue c) ss = Some (Inr [(lit ''cc'' @ [0] @ lit ''k'', Some (lit ''v''))])"
proof -
  obtain c L P db' L' b where e: "peer_inv ex_hash c memdb mem_content P db' L' [b]"
    "CommitTxBatch P ex_hash (bucket_hs ex_hash c memdb) memdb (1, 2) (\<lambda>_. []) L (Some ()) [ex_tx] [] [] = (None, db', L')"
    "bucket_view c mem_content db' = [lit ''cc'' @ [0] @ lit ''k'' \<mapsto> lit ''v'']"
    using ex_committed by blast
  have "cc_of (lit ''cc'' @ [0] @ lit ''k'') \<noteq> []" by (simp add: cc_of_def lit_def)
  with snapshot_complete [OF e(1) _ e(3) [symmetric]] obtain ss N kvs where
    s: "GetStateSnapshot memdb db' = Inr ss" "unat (ss_blockNumber ss) = 0"
      "\<forall>n \<ge> N. drain n ss_Next (ss_GetRawKeyValue c) ss = Some (Inr kvs)" "distinct (map fst kvs)"
      "\<forall>ck v. (ck, v) \<in> set kvs \<longleftrightarrow> v \<noteq> None \<and> [lit ''cc'' @ [0] @ lit ''k'' \<mapsto> lit ''v''] ck = v"
    by auto
  have "(ck, v) \<in> set kvs \<longleftrightarrow> ck = lit ''cc'' @ [0] @ lit ''k'' \<and> v = Some (lit ''v'')" for ck v
    unfolding s(5) [rule_format] by (cases "ck = lit ''cc'' @ [0] @ lit ''k''") auto
  then have set: "set kvs = {(lit ''cc'' @ [0] @ lit ''k'', Some (lit ''v''))}" by auto
  have "distinct kvs" using s(4) by (simp add: distinct_map)
  then have "length kvs = 1" using distinct_card set by fastforce
  then obtain kv where "kvs = [kv]" by (auto simp: length_Suc_conv)
  with set have "kvs = [(lit ''cc'' @ [0] @ lit ''k'', Some (lit ''v''))]" by simp
  moreover have "ss_blockNumber ss = 0" using s(2) by (simp add: unat_eq_zero)
  ultimately show ?thesis using e(2) s(1,3) by blast
qed

end
