(* ===== verification/Base64.thy ===== *)
theory Base64
  imports Prelude
begin

text \<open>
  The standard base64 encoding of Go's \<open>encoding/base64\<close> (\<open>StdEncoding.EncodeToString\<close> and
  \<open>StdEncoding.DecodeString\<close>), which the consensus code uses for request digests and for the
  identifiers of checkpoints. The decoder drops carriage returns and newlines, insists on the
  padding and rejects whatever follows it, as the library does. The round trip
  \<open>base64_decode_encode\<close> is what lets a snapshot identifier travel inside a checkpoint message.
\<close>

definition alphabet64 :: "gostring" where
  "alphabet64 = lit ''ABCDEFGHIJKLMNOPQRSTUVWXYZabcdefghijklmnopqrstuvwxyz0123456789+/''"

definition pad64 :: byte where
  "pad64 = 61"

text \<open>The four sextets of a 24-bit group, most significant first.\<close>

definition sextets :: "nat \<Rightarrow> gostring" where
  "sextets x = map (\<lambda>k. alphabet64 ! (x div 64 ^ k mod 64)) [3, 2, 1, 0]"

fun EncodeToString :: "bytes \<Rightarrow> gostring" where
  "EncodeToString [] = []"
| "EncodeToString [a] = take 2 (sextets (unat a * 65536)) @ [pad64, pad64]"
| "EncodeToString [a, b] = take 3 (sextets (unat a * 65536 + unat b * 256)) @ [pad64]"
| "EncodeToString (a # b # c # bs) =
     sextets (unat a * 65536 + unat b * 256 + unat c) @ EncodeToString bs"

text \<open>The inverse of the alphabet, \<open>None\<close> for a byte outside it.\<close>

fun position :: "'a \<Rightarrow> 'a list \<Rightarrow> nat option" where
  "position x [] = None"
| "position x (y # ys) = (if x = y then Some 0 else map_option Suc (position x ys))"

definition decodeMap :: "byte \<Rightarrow> nat option" where
  "decodeMap c = position c alphabet64"

definition decode_group :: "byte list \<Rightarrow> nat option" where
  "decode_group cs = foldl (\<lambda>acc c. case acc of None \<Rightarrow> None | Some x \<Rightarrow>
     map_option (\<lambda>k. x * 64 + k) (decodeMap c)) (Some 0) cs"

fun decode_quanta :: "gostring \<Rightarrow> bytes option" where
  "decode_quanta [] = Some []"
| "decode_quanta (a # b # c # d # cs) =
     (if c = pad64 then
        if d = pad64 \<and> cs = [] then
          map_option (\<lambda>x. [word_of_nat (x div 16)]) (decode_group [a, b])
        else None
      else if d = pad64 then
        if cs = [] then
          map_option (\<lambda>x. [word_of_nat (x div 1024), word_of_nat (x div 4)]) (decode_group [a, b, c])
        else None
      else
        (case decode_group [a, b, c, d] of
           None \<Rightarrow> None
         | Some x \<Rightarrow> map_option (\<lambda>bs. [word_of_nat (x div 65536), word_of_nat (x div 256), word_of_nat x] @ bs)
                       (decode_quanta cs)))"
| "decode_quanta cs = None"

definition DecodeString :: "gostring \<Rightarrow> bytes option" where
  "DecodeString s = decode_quanta (filter (\<lambda>c. c \<noteq> 10 \<and> c \<noteq> 13) s)"

subsection \<open>Round trip\<close>

lemma position_nth: "distinct xs \<Longrightarrow> k < length xs \<Longrightarrow> position (xs ! k) xs = Some k"
proof (induction xs arbitrary: k)
  case (Cons x xs)
  then show ?case by (cases k) auto
qed simp

lemma alphabet64_props:
  "length alphabet64 = 64" "distinct alphabet64"
  "pad64 \<notin> set alphabet64" "10 \<notin> set alphabet64" "13 \<notin> set alphabet64"
  by (simp_all add: alphabet64_def lit_def pad64_def)

lemma decodeMap_nth [simp]: "k < 64 \<Longrightarrow> decodeMap (alphabet64 ! k) = Some k"
  by (simp add: decodeMap_def position_nth alphabet64_props)

lemma alphabet64_nth_special [simp]:
  assumes "k < 64"
  shows "alphabet64 ! k \<noteq> pad64" "alphabet64 ! k \<noteq> 10" "alphabet64 ! k \<noteq> 13"
  by (metis assms alphabet64_props nth_mem)+

lemma EncodeToString_no_newline: "filter (\<lambda>c. c \<noteq> 10 \<and> c \<noteq> 13) (EncodeToString bs) = EncodeToString bs"
  by (induction bs rule: EncodeToString.induct)
    (simp_all add: sextets_def pad64_def)

lemma sextet_value:
  fixes x :: nat
  shows "x div 64 ^ 3 mod 64 * 64 + x div 64 ^ 2 mod 64 = x div 4096 mod 4096"
    and "(x div 4096 mod 4096) * 64 + x div 64 mod 64 = x div 64 mod 262144"
    and "(x div 64 mod 262144) * 64 + x mod 64 = x mod 16777216"
proof -
  have g: "x div (m * 64) mod k * 64 + x div m mod 64 = x div m mod (64 * k)" for m k :: nat
    by (simp add: div_mult2_eq mod_mult2_eq)
  show "x div 64 ^ 3 mod 64 * 64 + x div 64 ^ 2 mod 64 = x div 4096 mod 4096"
    using g [of 4096 64] by simp
  show "(x div 4096 mod 4096) * 64 + x div 64 mod 64 = x div 64 mod 262144"
    using g [of 64 4096] by simp
  show "(x div 64 mod 262144) * 64 + x mod 64 = x mod 16777216"
    using g [of 1 262144] by simp
qed

lemma decode_sextets:
  "decode_group (take 2 (sextets x)) = Some (x div 4096 mod 4096)"
  "decode_group (take 3 (sextets x)) = Some (x div 64 mod 262144)"
  "decode_group (sextets x) = Some (x mod 16777216)"
  using sextet_value [of x] by (simp_all add: sextets_def decode_group_def numeral_3_eq_3 numeral_2_eq_2)

lemma byte_multiples [simp]:
  "a * 256 = (0 :: byte)" "256 * a = (0 :: byte)" "a * 65536 = (0 :: byte)" "65536 * a = (0 :: byte)"
proof -
  have "(256 :: byte) = 0" "(65536 :: byte) = 0" by simp_all
  then show "a * 256 = (0 :: byte)" "256 * a = (0 :: byte)"
    "a * 65536 = (0 :: byte)" "65536 * a = (0 :: byte)"
    by (metis mult_zero_right mult_zero_left)+
qed

lemma unat_byte_bound: "unat (a :: byte) < 256"
  using unsigned_less [of a] by simp

theorem base64_decode_encode: "DecodeString (EncodeToString bs) = Some bs"
proof -
  have "decode_quanta (EncodeToString bs) = Some bs"
  proof (induction bs rule: EncodeToString.induct)
    case (2 a)
    let ?x = "unat a * 65536"
    have "decode_quanta (EncodeToString [a])
        = map_option (\<lambda>x. [word_of_nat (x div 16)]) (decode_group (take 2 (sextets ?x)))"
      by (simp add: sextets_def)
    moreover have "?x div 4096 mod 4096 div 16 = unat a"
      using unat_byte_bound [of a] by simp
    ultimately show ?case by (simp only: decode_sextets) simp
  next
    case (3 a b)
    let ?x = "unat a * 65536 + unat b * 256"
    have "decode_quanta (EncodeToString [a, b])
        = map_option (\<lambda>x. [word_of_nat (x div 1024), word_of_nat (x div 4)]) (decode_group (take 3 (sextets ?x)))"
      by (simp add: sextets_def)
    moreover have "?x div 64 mod 262144 = unat a * 1024 + unat b * 4"
      using unat_byte_bound [of a] unat_byte_bound [of b] by simp
    moreover have "(unat a * 1024 + unat b * 4) div 1024 = unat a"
      "(unat a * 1024 + unat b * 4) div 4 = unat a * 256 + unat b"
      using unat_byte_bound [of b] by simp_all
    moreover have "(word_of_nat (unat a * 256 + unat b) :: byte) = b"
      by simp
    ultimately show ?case by (simp only: decode_sextets) simp
  next
    case (4 a b c bs)
    let ?x = "unat a * 65536 + unat b * 256 + unat c"
    have "decode_quanta (EncodeToString (a # b # c # bs))
        = (case decode_group (sextets ?x) of
           None \<Rightarrow> None
         | Some x \<Rightarrow> map_option (\<lambda>bs. [word_of_nat (x div 65536), word_of_nat (x div 256), word_of_nat x] @ bs)
                       (decode_quanta (EncodeToString bs)))"
      by (simp add: sextets_def)
    moreover have "?x mod 16777216 = ?x" "?x div 65536 = unat a" "?x div 256 = unat a * 256 + unat b"
      using unat_byte_bound [of a] unat_byte_bound [of b] unat_byte_bound [of c] by simp_all
    moreover have "(word_of_nat (unat a * 256 + unat b) :: byte) = b" "(word_of_nat ?x :: byte) = c"
      by (simp_all)
    ultimately show ?case using 4 by (simp only: decode_sextets) simp
  qed simp
  then show ?thesis by (simp add: DecodeString_def EncodeToString_no_newline)
qed

lemma EncodeToString_inj: "EncodeToString a = EncodeToString b \<longleftrightarrow> a = b"
  by (metis base64_decode_encode option.inject)

end
