(* ===== verification/PbftCore.thy ===== *)
theory PbftCore
  imports Base64
begin

text \<open>
  The state and the message handlers of the PBFT replica, \<open>consensus/obcpbft/pbft-core.go\<close>, up
  to the point where they meet the view change: the messages of \<open>messages.pb.go\<close>, the replica
  state \<open>pbftCore\<close>, the quorum predicates, the three-phase protocol, execution, watermarks and
  checkpoints.

  \<^item> What the replica asks of its surroundings is the record \<open>penv\<close>: the consumer's \<open>validate\<close>,
    \<open>sign\<close> and \<open>verify\<close>, the hash function and the protocol buffer codec. Marshalled messages
    have an abstract type \<open>'w\<close>: the code never looks inside them.
  \<^item> What the replica does to its surroundings (broadcast, unicast, execute, skipTo, validState,
    viewChange) is appended to \<open>i_trace\<close> in the order of the calls.
  \<^item> A handler returns the new state, or \<open>Inl\<close> when the code panics or never returns. The error
    values of the handlers are only logged by their callers, so the model has the early returns
    but not the error texts.
  \<^item> The mutex serialises the handlers, so one handler is one step. \<open>consumer.execute\<close> is called
    with the mutex released; the model treats that call as part of the step.
\<close>

subsection \<open>Messages\<close>

record Request =
  rq_Timestamp :: "(u64 \<times> u32) option"
  rq_Payload :: bytes
  rq_ReplicaId :: u64

record PrePrepare =
  pp_View :: u64
  pp_SequenceNumber :: u64
  pp_RequestDigest :: gostring
  pp_Request :: "Request option"
  pp_ReplicaId :: u64

record Prepare =
  pr_View :: u64
  pr_SequenceNumber :: u64
  pr_RequestDigest :: gostring
  pr_ReplicaId :: u64

record Commit =
  cm_View :: u64
  cm_SequenceNumber :: u64
  cm_RequestDigest :: gostring
  cm_ReplicaId :: u64

record Checkpoint =
  ck_SequenceNumber :: u64
  ck_ReplicaId :: u64
  ck_Id :: gostring

record ViewChange_C =
  vcc_SequenceNumber :: u64
  vcc_Id :: gostring

record ViewChange_PQ =
  pq_SequenceNumber :: u64
  pq_Digest :: gostring
  pq_View :: u64

record ViewChange =
  vc_View :: u64
  vc_H :: u64
  vc_Cset :: "ViewChange_C list"
  vc_Pset :: "ViewChange_PQ list"
  vc_Qset :: "ViewChange_PQ list"
  vc_ReplicaId :: u64
  vc_Signature :: bytes

record NewView =
  nv_View :: u64
  nv_Vset :: "ViewChange list"
  nv_Xset :: "(u64, gostring) gomap"
  nv_ReplicaId :: u64

record FetchRequest =
  fr_RequestDigest :: gostring
  fr_ReplicaId :: u64

text \<open>The payload of a message; \<open>NoPayload\<close> is a message whose oneof field is not set.\<close>

datatype Message =
    MRequest Request
  | MPrePrepare PrePrepare
  | MPrepare Prepare
  | MCommit Commit
  | MCheckpoint Checkpoint
  | MViewChange ViewChange
  | MNewView NewView
  | MFetchRequest FetchRequest
  | MReturnRequest Request
  | NoPayload

record ExecutionInfo =
  ei_Checkpoint :: bool
  ei_Validate :: bool
  ei_Null :: bool

text \<open>The calls a replica makes on its consumer, in the order it makes them.\<close>

datatype 'w action =
    ABroadcast 'w
  | AUnicast 'w u64
  | AExecute u64 "bytes option" ExecutionInfo
  | ASkipTo u64 bytes "u64 list" ExecutionInfo
  | AValidState u64 bytes "u64 list" ExecutionInfo
  | AViewChange u64

text \<open>
  What the replica is given: the consumer's validation and signatures, the hash function
  \<open>util.ComputeCryptoHash\<close>, the protocol buffer codec, and the draws of the random source that
  the byzantine test mode uses.
\<close>

record 'w penv =
  e_validate :: "bytes \<Rightarrow> bool"
  e_sign :: "bytes \<Rightarrow> gerr + bytes"
  e_verify :: "u64 \<Rightarrow> bytes \<Rightarrow> bytes \<Rightarrow> bool"
  e_hash :: "bytes \<Rightarrow> bytes"
  e_marshalRequest :: "Request option \<Rightarrow> gerr + bytes"
  e_marshalViewChange :: "ViewChange \<Rightarrow> gerr + bytes"
  e_marshal :: "Message \<Rightarrow> gerr + 'w"
  e_unmarshal :: "'w \<Rightarrow> gerr + Message"
  e_random :: "nat \<Rightarrow> nat"

subsection \<open>The replica\<close>

record msgCert =
  mc_prePrepare :: "PrePrepare option"
  mc_sentPrepare :: bool
  mc_prepare :: "Prepare list"
  mc_sentCommit :: bool
  mc_commit :: "Commit list"

type_synonym msgID = "u64 \<times> u64"
type_synonym qidx = "gostring \<times> u64"
type_synonym vcidx = "u64 \<times> u64"

text \<open>
  A Go timer: whether it is running, and whether its channel, which holds one value, has a value
  that the goroutine \<open>timerHander\<close> has not received. \<open>i_timerWaiting\<close> says that the goroutine has
  received an expiry and is waiting for the lock.
\<close>

record gotimer =
  tm_running :: bool
  tm_C :: bool

record 'w pbftCore =
  i_activeView :: bool
  i_byzantine :: bool
  i_f :: nat
  i_N :: nat
  i_h :: u64
  i_id :: u64
  i_K :: u64
  i_logMultiplier :: u64
  i_L :: u64
  i_lastExec :: u64
  i_replicaCount :: nat
  i_seqNo :: u64
  i_view :: u64
  i_chkpts :: "(u64, gostring) gomap"
  i_pset :: "(u64, ViewChange_PQ) gomap"
  i_qset :: "(qidx, ViewChange_PQ) gomap"
  i_skipInProgress :: bool
  i_hChkpts :: "(u64, u64) gomap"
  i_newViewTimer :: gotimer
  i_timerActive :: bool
  i_timerWaiting :: bool
  i_closed :: bool
  i_requestTimeout :: u64
  i_newViewTimeout :: u64
  i_lastNewViewTimeout :: u64
  i_outstandingReqs :: "(gostring, Request) gomap"
  i_timerExpiredCount :: u64
  i_timerResetCount :: u64
  i_missingReqs :: "(gostring, bool) gomap"
  i_reqStore :: "(gostring, Request) gomap"
  i_certStore :: "(msgID, msgCert) gomap"
  i_checkpointStore :: "(Checkpoint, bool) gomap"
  i_viewChangeStore :: "(vcidx, ViewChange) gomap"
  i_newViewStore :: "(u64, NewView) gomap"
  i_trace :: "'w action list"
  i_now :: nat

datatype pstop = Crash string | Diverges

type_synonym 'w presult = "pstop + 'w pbftCore"

text \<open>
  The configuration values \<open>newPbftCore\<close> reads. A timeout is what \<open>time.ParseDuration\<close> made of
  the configured text, \<open>None\<close> when it does not parse. \<open>N\<close> and \<open>f\<close>, signed \<open>int\<close> values in the code,
  are natural numbers here: a configuration with a negative one is not covered.
\<close>

record pbft_config =
  cfg_N :: nat
  cfg_f :: nat
  cfg_K :: int
  cfg_logmultiplier :: int
  cfg_byzantine :: bool
  cfg_timeout_request :: "u64 option"
  cfg_timeout_viewchange :: "u64 option"

definition newPbftCore :: "u64 \<Rightarrow> pbft_config \<Rightarrow> bytes \<Rightarrow> 'w presult" where
  "newPbftCore rid config startupID =
     (if cfg_f config * 3 + 1 > cfg_N config then Inl (Crash ''need enough replicas'')
      else case cfg_timeout_request config of
        None \<Rightarrow> Inl (Crash ''Cannot parse request timeout'')
      | Some rt \<Rightarrow> (case cfg_timeout_viewchange config of
          None \<Rightarrow> Inl (Crash ''Cannot parse new view timeout'')
        | Some vt \<Rightarrow>
            let K = word_of_int (cfg_K config); lm = word_of_int (cfg_logmultiplier config)
            in Inr \<lparr>i_activeView = True, i_byzantine = cfg_byzantine config,
                 i_f = cfg_f config, i_N = cfg_N config, i_h = 0, i_id = rid,
                 i_K = K, i_logMultiplier = lm, i_L = lm * K, i_lastExec = 0,
                 i_replicaCount = cfg_N config, i_seqNo = 0, i_view = 0,
                 i_chkpts = [(0, EncodeToString startupID)], i_pset = [], i_qset = [],
                 i_skipInProgress = False, i_hChkpts = [],
                 i_newViewTimer = \<lparr>tm_running = False, tm_C = False\<rparr>,
                 i_timerActive = False, i_timerWaiting = False, i_closed = False,
                 i_requestTimeout = rt, i_newViewTimeout = vt, i_lastNewViewTimeout = vt,
                 i_outstandingReqs = [], i_timerExpiredCount = 0, i_timerResetCount = 1,
                 i_missingReqs = [], i_reqStore = [], i_certStore = [], i_checkpointStore = [],
                 i_viewChangeStore = [], i_newViewStore = [], i_trace = [], i_now = 0\<rparr>))"

subsection \<open>Helpers\<close>

definition primary :: "'w pbftCore \<Rightarrow> u64 \<Rightarrow> u64" where
  "primary s n = n mod word_of_nat (i_replicaCount s)"

definition inW :: "'w pbftCore \<Rightarrow> u64 \<Rightarrow> bool" where
  "inW s n = (n - i_h s > 0 \<and> n - i_h s \<le> i_L s)"

definition inWV :: "'w pbftCore \<Rightarrow> u64 \<Rightarrow> u64 \<Rightarrow> bool" where
  "inWV s v n = (i_view s = v \<and> inW s n)"

definition emptyCert :: msgCert where
  "emptyCert = \<lparr>mc_prePrepare = None, mc_sentPrepare = False, mc_prepare = [],
     mc_sentCommit = False, mc_commit = []\<rparr>"

definition getCert :: "u64 \<Rightarrow> u64 \<Rightarrow> 'w pbftCore \<Rightarrow> msgCert \<times> 'w pbftCore" where
  "getCert v n s =
     (case mget (i_certStore s) (v, n) of
        Some cert \<Rightarrow> (cert, s)
      | None \<Rightarrow> (emptyCert, s\<lparr>i_certStore := mput (v, n) emptyCert (i_certStore s)\<rparr>))"

text \<open>A write through the pointer that \<open>getCert\<close> returned.\<close>

definition setCert :: "u64 \<Rightarrow> u64 \<Rightarrow> msgCert \<Rightarrow> 'w pbftCore \<Rightarrow> 'w pbftCore" where
  "setCert v n cert s = s\<lparr>i_certStore := mput (v, n) cert (i_certStore s)\<rparr>"

definition intersectionQuorum :: "'w pbftCore \<Rightarrow> nat" where
  "intersectionQuorum s = (i_N s + i_f s + 2) div 2"

definition allCorrectReplicasQuorum :: "'w pbftCore \<Rightarrow> nat" where
  "allCorrectReplicasQuorum s = i_N s - i_f s"

definition prePrepared :: "'w pbftCore \<Rightarrow> gostring \<Rightarrow> u64 \<Rightarrow> u64 \<Rightarrow> bool" where
  "prePrepared s digest v n =
     (if digest \<noteq> [] \<and> mget (i_reqStore s) digest = None then False
      else if (case mget (i_qset s) (digest, n) of Some q \<Rightarrow> pq_View q = v | None \<Rightarrow> False) then True
      else case mget (i_certStore s) (v, n) of
        None \<Rightarrow> False
      | Some cert \<Rightarrow> (case mc_prePrepare cert of
          None \<Rightarrow> False
        | Some p \<Rightarrow> pp_View p = v \<and> pp_SequenceNumber p = n \<and> pp_RequestDigest p = digest))"

definition prepareCount :: "msgCert \<Rightarrow> gostring \<Rightarrow> u64 \<Rightarrow> u64 \<Rightarrow> nat" where
  "prepareCount cert digest v n =
     length (filter (\<lambda>p. pr_View p = v \<and> pr_SequenceNumber p = n \<and> pr_RequestDigest p = digest) (mc_prepare cert))"

definition prepared :: "'w pbftCore \<Rightarrow> gostring \<Rightarrow> u64 \<Rightarrow> u64 \<Rightarrow> bool" where
  "prepared s digest v n =
     (if \<not> prePrepared s digest v n then False
      else if (case mget (i_pset s) n of Some p \<Rightarrow> pq_View p = v \<and> pq_Digest p = digest | None \<Rightarrow> False) then True
      else case mget (i_certStore s) (v, n) of
        None \<Rightarrow> False
      | Some cert \<Rightarrow> prepareCount cert digest v n \<ge> intersectionQuorum s - 1)"

definition commitCount :: "msgCert \<Rightarrow> u64 \<Rightarrow> u64 \<Rightarrow> nat" where
  "commitCount cert v n =
     length (filter (\<lambda>p. cm_View p = v \<and> cm_SequenceNumber p = n) (mc_commit cert))"

definition committed :: "'w pbftCore \<Rightarrow> gostring \<Rightarrow> u64 \<Rightarrow> u64 \<Rightarrow> bool" where
  "committed s digest v n =
     (if \<not> prepared s digest v n then False
      else case mget (i_certStore s) (v, n) of
        None \<Rightarrow> False
      | Some cert \<Rightarrow> commitCount cert v n \<ge> intersectionQuorum s)"

text \<open>\<open>hashReq\<close> drops the marshalling error, so a nil request hashes as the empty byte string.\<close>

definition hashReq :: "'w penv \<Rightarrow> Request option \<Rightarrow> gostring" where
  "hashReq E req =
     EncodeToString (e_hash E (case e_marshalRequest E req of Inl _ \<Rightarrow> [] | Inr raw \<Rightarrow> raw))"

subsection \<open>Sending and timers\<close>

definition act :: "'w action \<Rightarrow> 'w pbftCore \<Rightarrow> 'w pbftCore" where
  "act a s = s\<lparr>i_trace := i_trace s @ [a]\<rparr>"

definition byzantineSend :: "nat \<Rightarrow> 'w \<Rightarrow> 'w pbftCore \<Rightarrow> 'w pbftCore" where
  "byzantineSend ignoreidx raw s =
     foldl (\<lambda>s i. if i \<noteq> ignoreidx \<and> word_of_nat i \<noteq> i_id s then act (AUnicast raw (word_of_nat i)) s else s)
       s [0..<i_N s]"

text \<open>
  \<open>innerBroadcast\<close>: \<open>toSelf\<close> is what \<open>recvMsgSync\<close> does with the message on the local instance,
  absent when the message is not delivered there.
\<close>

definition innerBroadcast ::
  "'w penv \<Rightarrow> Message \<Rightarrow> ('w pbftCore \<Rightarrow> 'w presult) option \<Rightarrow> 'w pbftCore \<Rightarrow> 'w presult" where
  "innerBroadcast E msg toSelf s =
     (case e_marshal E msg of
        Inl _ \<Rightarrow> Inr s
      | Inr raw \<Rightarrow>
          let doByzantine = (i_byzantine s \<and> e_random E (i_now s) mod 3 = 1);
              s1 = s\<lparr>i_now := i_now s + 2\<rparr>;
              s2 = (if doByzantine then byzantineSend (e_random E (i_now s + 1) mod i_N s) raw s1
                    else act (ABroadcast raw) s1)
          in case toSelf of None \<Rightarrow> Inr s2 | Some deliver \<Rightarrow> deliver s2)"

text \<open>The sender check of \<open>recvMsgSync\<close>, which comes before each handler.\<close>

definition fromSender :: "u64 \<Rightarrow> u64 \<Rightarrow> ('w pbftCore \<Rightarrow> 'w presult) \<Rightarrow> 'w pbftCore \<Rightarrow> 'w presult" where
  "fromSender senderID replicaId handler s = (if senderID \<noteq> replicaId then Inr s else handler s)"

definition startTimer :: "u64 \<Rightarrow> 'w pbftCore \<Rightarrow> 'w pbftCore" where
  "startTimer timeout s =
     s\<lparr>i_newViewTimer := (i_newViewTimer s)\<lparr>tm_running := True\<rparr>,
       i_timerResetCount :=
         (if \<not> tm_running (i_newViewTimer s) \<and> i_timerActive s then i_timerResetCount s + 1
          else i_timerResetCount s),
       i_timerActive := True\<rparr>"

definition stopTimer :: "'w pbftCore \<Rightarrow> 'w pbftCore" where
  "stopTimer s =
     s\<lparr>i_newViewTimer := (i_newViewTimer s)\<lparr>tm_running := False\<rparr>,
       i_timerResetCount :=
         (if \<not> tm_running (i_newViewTimer s) \<and> i_timerActive s then i_timerResetCount s + 1
          else i_timerResetCount s),
       i_timerActive := False\<rparr>"

text \<open>\<open>close\<close> closes the channel the timer goroutine watches and stops the timer itself.\<close>

definition close :: "'w pbftCore \<Rightarrow> 'w pbftCore" where
  "close s = s\<lparr>i_closed := True, i_newViewTimer := (i_newViewTimer s)\<lparr>tm_running := False\<rparr>\<rparr>"

subsection \<open>Execution\<close>

text \<open>
  \<open>executeOne\<close> up to the point where it releases the lock to call the consumer: \<open>None\<close> if it returns
  \<open>false\<close>, otherwise the call it is about to make, if any, and the state at that point.
\<close>

definition executeBegin :: "msgID \<Rightarrow> 'w pbftCore \<Rightarrow> pstop + ('w action list \<times> 'w pbftCore) option" where
  "executeBegin idx s =
     (case mget (i_certStore s) idx of
        None \<Rightarrow> Inr None
      | Some cert \<Rightarrow> (case mc_prePrepare cert of
          None \<Rightarrow> Inr None
        | Some pp \<Rightarrow>
            if snd idx \<noteq> i_lastExec s + 1 then Inr None
            else if i_skipInProgress s then Inr None
            else
              let digest = pp_RequestDigest pp
              in if \<not> committed s digest (fst idx) (snd idx) then Inr None
              else
                let s1 = (stopTimer (s\<lparr>i_lastExec := snd idx\<rparr>))\<lparr>i_lastNewViewTimeout := i_newViewTimeout s\<rparr>
                in if i_K s = 0 then Inl (Crash ''integer divide by zero'')
                else if digest = [] then
                  Inr (Some (if snd idx mod i_K s = 0
                          then [AExecute (snd idx) None \<lparr>ei_Checkpoint = True, ei_Validate = False, ei_Null = True\<rparr>]
                          else [], s1))
                else (case mget (i_reqStore s) digest of
                    None \<Rightarrow> Inl (Crash ''nil request'')
                  | Some req \<Rightarrow>
                      Inr (Some ([AExecute (snd idx) (Some (rq_Payload req))
                                    \<lparr>ei_Checkpoint = (snd idx mod i_K s = 0), ei_Validate = False, ei_Null = False\<rparr>],
                                 s1\<lparr>i_outstandingReqs := mdel digest (i_outstandingReqs s1)\<rparr>)))))"

text \<open>The end of \<open>executeOne\<close>: the timer runs again while requests are outstanding.\<close>

definition watchOutstanding :: "'w pbftCore \<Rightarrow> 'w pbftCore" where
  "watchOutstanding s = (if i_outstandingReqs s \<noteq> [] then startTimer (i_requestTimeout s) s else s)"

text \<open>
  The whole of \<open>executeOne\<close> when no other goroutine takes the lock while it is released. What other
  goroutines can do in between is described by \<open>exstep\<close> in \<open>PbftExecution\<close>.
\<close>

definition executeOne :: "msgID \<Rightarrow> 'w pbftCore \<Rightarrow> pstop + bool \<times> 'w pbftCore" where
  "executeOne idx s =
     rbind (executeBegin idx s) (\<lambda>r. case r of
        None \<Rightarrow> Inr (False, s)
      | Some (calls, s1) \<Rightarrow> Inr (True, watchOutstanding (foldl (\<lambda>s a. act a s) s1 calls)))"

lemmas executeOne_defs = executeOne_def executeBegin_def

text \<open>One pass over the certificates: the first one that executes stops the pass.\<close>

fun executePass :: "msgID list \<Rightarrow> 'w pbftCore \<Rightarrow> pstop + bool \<times> 'w pbftCore" where
  "executePass [] s = Inr (False, s)"
| "executePass (idx # idxs) s =
     rbind (executeOne idx s) (\<lambda>(b, s'). if b then Inr (True, s') else executePass idxs s')"

partial_function (option) executeLoop :: "'w pbftCore \<Rightarrow> (pstop + 'w pbftCore) option" where
  "executeLoop s =
     (case executePass (map fst (i_certStore s)) s of
        Inl e \<Rightarrow> Some (Inl e)
      | Inr r \<Rightarrow> if fst r then executeLoop (snd r) else Some (Inr (snd r)))"

definition executeOutstanding :: "'w pbftCore \<Rightarrow> 'w presult" where
  "executeOutstanding s = (case executeLoop s of None \<Rightarrow> Inl Diverges | Some r \<Rightarrow> r)"

subsection \<open>The three phases\<close>

definition recvCommit :: "Commit \<Rightarrow> 'w pbftCore \<Rightarrow> 'w presult" where
  "recvCommit commit s =
     (if \<not> inWV s (cm_View commit) (cm_SequenceNumber commit) then Inr s
      else
        let (cert, s1) = getCert (cm_View commit) (cm_SequenceNumber commit) s
        in if \<exists>prevCommit \<in> set (mc_commit cert). cm_ReplicaId prevCommit = cm_ReplicaId commit then Inr s1
        else executeOutstanding
          (setCert (cm_View commit) (cm_SequenceNumber commit)
            (cert\<lparr>mc_commit := mc_commit cert @ [commit]\<rparr>) s1))"

text \<open>The debug message of \<open>maybeSendCommit\<close> reads \<open>cert.prePrepare\<close> without a nil check.\<close>

definition maybeSendCommit :: "'w penv \<Rightarrow> gostring \<Rightarrow> u64 \<Rightarrow> u64 \<Rightarrow> 'w pbftCore \<Rightarrow> 'w presult" where
  "maybeSendCommit E digest v n s =
     (let (cert, s1) = getCert v n s
      in if prepared s1 digest v n \<and> \<not> mc_sentCommit cert then
           if mc_prePrepare cert = None then Inl (Crash ''nil pre-prepare'')
           else
             let commit = \<lparr>cm_View = v, cm_SequenceNumber = n, cm_RequestDigest = digest, cm_ReplicaId = i_id s\<rparr>
             in innerBroadcast E (MCommit commit)
                  (Some (fromSender (i_id s) (cm_ReplicaId commit) (recvCommit commit)))
                  (setCert v n (cert\<lparr>mc_sentCommit := True\<rparr>) s1)
         else Inr s1)"

definition recvPrepare :: "'w penv \<Rightarrow> Prepare \<Rightarrow> 'w pbftCore \<Rightarrow> 'w presult" where
  "recvPrepare E prep s =
     (if primary s (pr_View prep) = pr_ReplicaId prep then Inr s
      else if \<not> inWV s (pr_View prep) (pr_SequenceNumber prep) then Inr s
      else
        let (cert, s1) = getCert (pr_View prep) (pr_SequenceNumber prep) s
        in if \<exists>prevPrep \<in> set (mc_prepare cert). pr_ReplicaId prevPrep = pr_ReplicaId prep then Inr s1
        else maybeSendCommit E (pr_RequestDigest prep) (pr_View prep) (pr_SequenceNumber prep)
          (setCert (pr_View prep) (pr_SequenceNumber prep)
            (cert\<lparr>mc_prepare := mc_prepare cert @ [prep]\<rparr>) s1))"

definition broadcastPrepare :: "'w penv \<Rightarrow> Prepare \<Rightarrow> 'w pbftCore \<Rightarrow> 'w presult" where
  "broadcastPrepare E prep s =
     innerBroadcast E (MPrepare prep)
       (Some (fromSender (i_id s) (pr_ReplicaId prep) (recvPrepare E prep))) s"

text \<open>
  The pre-prepare is filed unless one with another digest is there; the request it carries is
  filed when it is not known and matches the digest. The result is \<open>None\<close> when the handler
  returns at that point.
\<close>

definition storePrePrepare :: "PrePrepare \<Rightarrow> 'w pbftCore \<Rightarrow> 'w pbftCore" where
  "storePrePrepare preprep s =
     (let (cert, s1) = getCert (pp_View preprep) (pp_SequenceNumber preprep) s
      in case mc_prePrepare cert of
           Some p \<Rightarrow> if pp_RequestDigest p \<noteq> pp_RequestDigest preprep then s1
                     else setCert (pp_View preprep) (pp_SequenceNumber preprep)
                            (cert\<lparr>mc_prePrepare := Some preprep\<rparr>) s1
         | None \<Rightarrow> setCert (pp_View preprep) (pp_SequenceNumber preprep)
                     (cert\<lparr>mc_prePrepare := Some preprep\<rparr>) s1)"

definition storeCarriedRequest :: "'w penv \<Rightarrow> PrePrepare \<Rightarrow> 'w pbftCore \<Rightarrow> pstop + bool \<times> 'w pbftCore" where
  "storeCarriedRequest E preprep s =
     (if mget (i_reqStore s) (pp_RequestDigest preprep) \<noteq> None then Inr (True, s)
      else
        let digest = hashReq E (pp_Request preprep)
        in if digest \<noteq> pp_RequestDigest preprep then Inr (False, s)
        else case pp_Request preprep of
            None \<Rightarrow> Inl (Crash ''nil request'')
          | Some req \<Rightarrow>
              if \<not> e_validate E (rq_Payload req) then Inr (False, s)
              else Inr (True, s\<lparr>i_reqStore := mput digest req (i_reqStore s),
                                i_outstandingReqs := mput digest req (i_outstandingReqs s)\<rparr>))"

definition recvPrePrepare :: "'w penv \<Rightarrow> PrePrepare \<Rightarrow> 'w pbftCore \<Rightarrow> 'w presult" where
  "recvPrePrepare E preprep s =
     (let v = pp_View preprep; n = pp_SequenceNumber preprep
      in if \<not> i_activeView s then Inr s
      else if primary s (i_view s) \<noteq> pp_ReplicaId preprep then Inr s
      else if \<not> inWV s v n then Inr s
      else rbind (storeCarriedRequest E preprep (storePrePrepare preprep s)) (\<lambda>(go, s1).
        if \<not> go then Inr s1
        else
          let s2 = (if \<not> i_timerActive s1 then startTimer (i_requestTimeout s1) s1 else s1);
              (cert, s3) = getCert v n s2
          in if primary s3 (i_view s3) \<noteq> i_id s3 \<and> prePrepared s3 (pp_RequestDigest preprep) v n
                \<and> \<not> mc_sentPrepare cert then
               let prep = \<lparr>pr_View = v, pr_SequenceNumber = n,
                           pr_RequestDigest = pp_RequestDigest preprep, pr_ReplicaId = i_id s3\<rparr>
               in broadcastPrepare E prep (setCert v n (cert\<lparr>mc_sentPrepare := True\<rparr>) s3)
             else Inr s3))"

subsection \<open>Requests\<close>

text \<open>Another pre-prepare of the current view carries the same digest under another number.\<close>

definition haveOther :: "'w pbftCore \<Rightarrow> gostring \<Rightarrow> u64 \<Rightarrow> bool" where
  "haveOther s digest n =
     (\<exists>cert \<in> snd ` set (i_certStore s). case mc_prePrepare cert of
        None \<Rightarrow> False
      | Some p \<Rightarrow> pp_View p = i_view s \<and> pp_SequenceNumber p \<noteq> n \<and> pp_RequestDigest p = digest)"

definition recvRequest :: "'w penv \<Rightarrow> Request \<Rightarrow> 'w pbftCore \<Rightarrow> 'w presult" where
  "recvRequest E req s =
     (let digest = hashReq E (Some req)
      in if \<not> e_validate E (rq_Payload req) then Inr s
      else
        let s1 = s\<lparr>i_reqStore := mput digest req (i_reqStore s),
                   i_outstandingReqs := mput digest req (i_outstandingReqs s)\<rparr>;
            s2 = (if \<not> i_timerActive s1 \<and> i_activeView s1 then startTimer (i_requestTimeout s1) s1 else s1);
            v = i_view s2; n = i_seqNo s2 + 1
        in if primary s2 v = i_id s2 \<and> i_activeView s2 \<and> inWV s2 v n \<and> \<not> haveOther s2 digest n then
             let preprep = \<lparr>pp_View = v, pp_SequenceNumber = n, pp_RequestDigest = digest,
                            pp_Request = Some req, pp_ReplicaId = i_id s2\<rparr>;
                 (cert, s3) = getCert v n (s2\<lparr>i_seqNo := n\<rparr>);
                 s4 = setCert v n (cert\<lparr>mc_prePrepare := Some preprep\<rparr>) s3
             in rbind (innerBroadcast E (MPrePrepare preprep) None s4) (maybeSendCommit E digest v n)
           else Inr s2)"

text \<open>
  The loop of \<open>resubmitRequests\<close> ranges over a map that its body changes: an entry deleted before
  it is reached is not visited.
\<close>

definition resubmitRequests :: "'w penv \<Rightarrow> 'w pbftCore \<Rightarrow> 'w presult" where
  "resubmitRequests E s =
     (if primary s (i_view s) \<noteq> i_id s then Inr s
      else rfold (\<lambda>s d. case mget (i_outstandingReqs s) d of
          None \<Rightarrow> Inr s
        | Some req \<Rightarrow>
            if \<exists>cert \<in> snd ` set (i_certStore s). map_option pp_RequestDigest (mc_prePrepare cert) = Some d
            then Inr s
            else recvRequest E req s) (map fst (i_outstandingReqs s)) s)"

subsection \<open>Watermarks and checkpoints\<close>

definition moveWatermarks :: "'w penv \<Rightarrow> u64 \<Rightarrow> 'w pbftCore \<Rightarrow> 'w presult" where
  "moveWatermarks E h s =
     (let old = filter (\<lambda>(idx, cert). snd idx \<le> h) (i_certStore s)
      in resubmitRequests E
          (s\<lparr>i_reqStore := foldl (\<lambda>reqs (idx, cert). case mc_prePrepare cert of
                None \<Rightarrow> reqs | Some p \<Rightarrow> mdel (pp_RequestDigest p) reqs) (i_reqStore s) old,
             i_certStore := filter (\<lambda>(idx, cert). \<not> snd idx \<le> h) (i_certStore s),
             i_checkpointStore := filter (\<lambda>(testChkpt, b). \<not> ck_SequenceNumber testChkpt \<le> h) (i_checkpointStore s),
             i_pset := filter (\<lambda>(n, p). \<not> n \<le> h) (i_pset s),
             i_qset := filter (\<lambda>(idx, q). \<not> snd idx \<le> h) (i_qset s),
             i_chkpts := filter (\<lambda>(n, c). \<not> n < h) (i_chkpts s),
             i_h := h\<rparr>))"

definition weakCheckpointSetOutOfRange ::
  "'w penv \<Rightarrow> Checkpoint \<Rightarrow> 'w pbftCore \<Rightarrow> pstop + bool \<times> 'w pbftCore" where
  "weakCheckpointSetOutOfRange E chkpt s =
     (let H = i_h s + i_L s
      in if ck_SequenceNumber chkpt < H then
           Inr (False, s\<lparr>i_hChkpts := mdel (ck_ReplicaId chkpt) (i_hChkpts s)\<rparr>)
         else
           let s1 = s\<lparr>i_hChkpts := mput (ck_ReplicaId chkpt) (ck_SequenceNumber chkpt) (i_hChkpts s)\<rparr>
           in if length (i_hChkpts s1) \<ge> i_f s1 + 1 then
                let chkptSeqNumArray = sort (map snd (i_hChkpts s1));
                    s2 = s1\<lparr>i_hChkpts := filter (\<lambda>(replicaID, hChkpt). \<not> hChkpt < H) (i_hChkpts s1)\<rparr>;
                    m = chkptSeqNumArray ! (length chkptSeqNumArray - (i_f s1 + 1))
                in if m > H then
                     rbind (moveWatermarks E m (s2\<lparr>i_reqStore := []\<rparr>)) (\<lambda>s3.
                       Inr (True, s3\<lparr>i_skipInProgress := True\<rparr>))
                   else Inr (False, s2)
              else Inr (False, s1))"

definition matchingCheckpoints :: "'w pbftCore \<Rightarrow> Checkpoint \<Rightarrow> Checkpoint list" where
  "matchingCheckpoints s chkpt =
     filter (\<lambda>t. ck_SequenceNumber t = ck_SequenceNumber chkpt \<and> ck_Id t = ck_Id chkpt)
       (map fst (i_checkpointStore s))"

text \<open>
  The members are written into an array of length \<open>f + 1\<close>: more of them would be an index out of
  range, fewer leave zeros at the end.
\<close>

definition witnessCheckpointWeakCert :: "'w penv \<Rightarrow> Checkpoint \<Rightarrow> 'w pbftCore \<Rightarrow> 'w presult" where
  "witnessCheckpointWeakCert E chkpt s =
     (let members = map ck_ReplicaId (matchingCheckpoints s chkpt)
      in if length members > i_f s + 1 then Inl (Crash ''index out of range'')
      else
        let checkpointMembers = members @ replicate (i_f s + 1 - length members) 0
        in case DecodeString (ck_Id chkpt) of
            None \<Rightarrow> Inr s
          | Some snapshotID \<Rightarrow>
              if i_skipInProgress s then
                rbind (moveWatermarks E (ck_SequenceNumber chkpt) (s\<lparr>i_skipInProgress := False\<rparr>)) (\<lambda>s1.
                  Inr (act (ASkipTo (ck_SequenceNumber chkpt) snapshotID checkpointMembers
                              \<lparr>ei_Checkpoint = True, ei_Validate = False, ei_Null = False\<rparr>)
                        (s1\<lparr>i_lastExec := ck_SequenceNumber chkpt\<rparr>)))
              else
                Inr (act (AValidState (ck_SequenceNumber chkpt) snapshotID checkpointMembers
                            \<lparr>ei_Checkpoint = True, ei_Validate = False, ei_Null = False\<rparr>) s))"

subsection \<open>Fetching requests\<close>

definition fetchRequests :: "'w penv \<Rightarrow> 'w pbftCore \<Rightarrow> 'w presult" where
  "fetchRequests E s =
     rfold (\<lambda>s digest. innerBroadcast E
         (MFetchRequest \<lparr>fr_RequestDigest = digest, fr_ReplicaId = i_id s\<rparr>) None s)
       (map fst (i_missingReqs s)) s"

definition recvFetchRequest :: "'w penv \<Rightarrow> FetchRequest \<Rightarrow> 'w pbftCore \<Rightarrow> 'w presult" where
  "recvFetchRequest E fr s =
     (case mget (i_reqStore s) (fr_RequestDigest fr) of
        None \<Rightarrow> Inr s
      | Some req \<Rightarrow> (case e_marshal E (MReturnRequest req) of
          Inl _ \<Rightarrow> Inr s
        | Inr msgPacked \<Rightarrow> Inr (act (AUnicast msgPacked (fr_ReplicaId fr)) s)))"

end
