(* ===== verification/PbftViewChange.thy ===== *)
theory PbftViewChange
  imports PbftCore
begin

text \<open>
  The view change of the PBFT replica, \<open>consensus/obcpbft/viewchange.go\<close> and the signing of
  \<open>sign.go\<close>, and the handlers of \<open>pbft-core.go\<close> that reach it: checkpoints, returned requests, the
  dispatcher \<open>recvMsgSync\<close> and the goroutine of the view change timer.

  \<open>sendViewChange\<close>, \<open>recvViewChange\<close>, \<open>sendNewView\<close> and \<open>processNewView\<close> call one another: a
  replica delivers its own view change to itself, and a new view that does not check out makes it
  send the next view change. The last three are written with \<open>sendViewChange\<close> as an argument and
  the cycle is closed by \<open>sendViewChangeN\<close>, which counts down once per view change sent. The
  bound of \<open>sendViewChange\<close> is the number of stored new-view and view-change messages: each turn
  of the cycle uses one of them up.
\<close>

subsection \<open>Signatures\<close>

definition sign :: "'w penv \<Rightarrow> ViewChange \<Rightarrow> ViewChange" where
  "sign E vc =
     (let vc0 = vc\<lparr>vc_Signature := []\<rparr>
      in case e_marshalViewChange E vc0 of
           Inl _ \<Rightarrow> vc0
         | Inr raw \<Rightarrow> (case e_sign E raw of
             Inl _ \<Rightarrow> vc0
           | Inr signedRaw \<Rightarrow> vc0\<lparr>vc_Signature := signedRaw\<rparr>))"

definition verify :: "'w penv \<Rightarrow> ViewChange \<Rightarrow> bool" where
  "verify E vc =
     (case e_marshalViewChange E (vc\<lparr>vc_Signature := []\<rparr>) of
        Inl _ \<Rightarrow> False
      | Inr raw \<Rightarrow> e_verify E (vc_ReplicaId vc) (vc_Signature vc) raw)"

definition correctViewChange :: "'w pbftCore \<Rightarrow> ViewChange \<Rightarrow> bool" where
  "correctViewChange s vc =
     ((\<forall>p \<in> set (vc_Pset vc @ vc_Qset vc).
         pq_View p < vc_View vc \<and> pq_SequenceNumber p > vc_H vc \<and> pq_SequenceNumber p \<le> vc_H vc + i_L s)
      \<and> (\<forall>c \<in> set (vc_Cset vc).
         vcc_SequenceNumber c \<ge> vc_H vc \<and> vcc_SequenceNumber c \<le> vc_H vc + i_L s))"

subsection \<open>Choosing the start of the new view\<close>

text \<open>
  The code ranges over a Go map of checkpoints, in an order the runtime picks; \<open>collectCheckpoints\<close>
  fixes the order of first occurrence. The order matters only when several checkpoints have a
  quorum: which of two with the same sequence number is chosen, and whose replicas are returned.
\<close>

definition getViewChanges :: "'w pbftCore \<Rightarrow> ViewChange list" where
  "getViewChanges s = map snd (i_viewChangeStore s)"

definition collectCheckpoints :: "ViewChange list \<Rightarrow> (ViewChange_C, ViewChange list) gomap" where
  "collectCheckpoints vset =
     foldl (\<lambda>m (vc, c). mput c ((case mget m c of None \<Rightarrow> [] | Some vcs \<Rightarrow> vcs) @ [vc]) m) []
       (concat (map (\<lambda>vc. map (\<lambda>c. (vc, c)) (vc_Cset vc)) vset))"

definition zeroC :: ViewChange_C where
  "zeroC = \<lparr>vcc_SequenceNumber = 0, vcc_Id = []\<rparr>"

definition selectInitialCheckpoint ::
  "'w pbftCore \<Rightarrow> ViewChange list \<Rightarrow> ViewChange_C \<times> bool \<times> u64 list" where
  "selectInitialCheckpoint s vset =
     foldl (\<lambda>(checkpoint, ok, replicas) (idx, vcList).
         if length vcList \<le> i_f s then (checkpoint, ok, replicas)
         else if length (filter (\<lambda>vc. vc_H vc \<le> vcc_SequenceNumber idx) vcList) < intersectionQuorum s
         then (checkpoint, ok, replicas)
         else if vcc_SequenceNumber checkpoint \<le> vcc_SequenceNumber idx
         then (idx, True, map vc_ReplicaId vcList)
         else (checkpoint, ok, map vc_ReplicaId vcList))
       (zeroC, False, []) (collectCheckpoints vset)"

text \<open>
  The tests of \<open>assignSequenceNumbers\<close> for the sequence number \<open>n\<close> and the entry \<open>em\<close> of some P
  set: condition A1, condition A2, and the test for the null request.
\<close>

definition quorumA1 :: "ViewChange list \<Rightarrow> u64 \<Rightarrow> ViewChange_PQ \<Rightarrow> nat" where
  "quorumA1 vset n em =
     length (filter (\<lambda>mp. \<not> vc_H mp \<ge> n \<and>
       \<not> (\<exists>emp \<in> set (vc_Pset mp). n = pq_SequenceNumber emp \<and>
            \<not> (pq_View emp < pq_View em \<or> (pq_View emp = pq_View em \<and> pq_Digest emp = pq_Digest em)))) vset)"

definition quorumA2 :: "ViewChange list \<Rightarrow> u64 \<Rightarrow> ViewChange_PQ \<Rightarrow> nat" where
  "quorumA2 vset n em =
     length (filter (\<lambda>emp. n = pq_SequenceNumber emp \<and> pq_View emp \<ge> pq_View em \<and> pq_Digest emp = pq_Digest em)
       (concat (map vc_Qset vset)))"

definition quorumNull :: "ViewChange list \<Rightarrow> u64 \<Rightarrow> nat" where
  "quorumNull vset n =
     length (filter (\<lambda>m. \<not> (\<exists>em \<in> set (vc_Pset m). pq_SequenceNumber em = n)) vset)"

definition selectRequest :: "'w pbftCore \<Rightarrow> ViewChange list \<Rightarrow> u64 \<Rightarrow> ViewChange_PQ option" where
  "selectRequest s vset n =
     find (\<lambda>em. \<not> quorumA1 vset n em < intersectionQuorum s \<and> \<not> quorumA2 vset n em < i_f s + 1)
       (concat (map vc_Pset vset))"

text \<open>
  The loop over the sequence numbers. \<open>None\<close> is a loop that never ends, which the wrap-around of
  \<open>n\<close> makes possible; \<open>Some None\<close> is the early \<open>return nil\<close>.
\<close>

partial_function (option) nLoop ::
  "'w pbftCore \<Rightarrow> ViewChange list \<Rightarrow> u64 \<Rightarrow> u64 \<Rightarrow> (u64, gostring) gomap \<Rightarrow> u64
   \<Rightarrow> ((u64, gostring) gomap \<times> u64) option option" where
  "nLoop s vset h n msgList maxN =
     (if \<not> n \<le> h + i_L s then Some (Some (msgList, maxN))
      else case selectRequest s vset n of
        Some em \<Rightarrow> nLoop s vset h (n + 1) (mput n (pq_Digest em) msgList) n
      | None \<Rightarrow>
          if quorumNull vset n \<ge> intersectionQuorum s
          then nLoop s vset h (n + 1) (mput n [] msgList) maxN
          else Some None)"

definition assignSequenceNumbers ::
  "'w pbftCore \<Rightarrow> ViewChange list \<Rightarrow> u64 \<Rightarrow> (u64, gostring) gomap option option" where
  "assignSequenceNumbers s vset h =
     (case nLoop s vset h (h + 1) [] (h + 1) of
        None \<Rightarrow> None
      | Some None \<Rightarrow> Some None
      | Some (Some (msgList, maxN)) \<Rightarrow>
          Some (Some (filter (\<lambda>(n, msg). \<not> (n > maxN \<and> msg = [])) msgList)))"

subsection \<open>Accepting a new view\<close>

definition installPrePrepare :: "'w pbftCore \<Rightarrow> u64 \<times> gostring \<Rightarrow> 'w pbftCore" where
  "installPrePrepare s x =
     (let preprep = \<lparr>pp_View = i_view s, pp_SequenceNumber = fst x, pp_RequestDigest = snd x,
                     pp_Request = None, pp_ReplicaId = i_id s\<rparr>;
          (cert, s1) = getCert (i_view s) (fst x) s;
          s2 = setCert (i_view s) (fst x) (cert\<lparr>mc_prePrepare := Some preprep\<rparr>) s1
      in if fst x > i_seqNo s2 then s2\<lparr>i_seqNo := fst x\<rparr> else s2)"

definition prepareAssigned :: "'w penv \<Rightarrow> 'w pbftCore \<Rightarrow> u64 \<times> gostring \<Rightarrow> 'w presult" where
  "prepareAssigned E s x =
     (let prep = \<lparr>pr_View = i_view s, pr_SequenceNumber = fst x, pr_RequestDigest = snd x,
                  pr_ReplicaId = i_id s\<rparr>;
          (cert, s1) = getCert (i_view s) (fst x) s
      in broadcastPrepare E prep
           (setCert (i_view s) (fst x)
             (cert\<lparr>mc_prepare := mc_prepare cert @ [prep], mc_sentPrepare := True\<rparr>) s1))"

definition processNewView2 :: "'w penv \<Rightarrow> NewView \<Rightarrow> 'w pbftCore \<Rightarrow> 'w presult" where
  "processNewView2 E nv s =
     (let s1 = s\<lparr>i_activeView := True, i_newViewStore := mdel (i_view s - 1) (i_newViewStore s)\<rparr>;
          s2 = foldl installPrePrepare s1 (nv_Xset nv)
      in rbind (if primary s2 (i_view s2) \<noteq> i_id s2
                then rfold (prepareAssigned E) (nv_Xset nv) s2
                else resubmitRequests E s2) (\<lambda>s3.
           Inr (act (AViewChange (i_view s3)) s3)))"

text \<open>The assigned requests that are not stored; the flag is \<open>newRequestMissing\<close>.\<close>

definition noteMissing :: "bool \<times> 'w pbftCore \<Rightarrow> u64 \<times> gostring \<Rightarrow> bool \<times> 'w pbftCore" where
  "noteMissing r x =
     (let s = snd r
      in if fst x \<le> i_h s then r
         else if snd x = [] then r
         else if mget (i_reqStore s) (snd x) \<noteq> None then r
         else if mget (i_missingReqs s) (snd x) \<noteq> None then r
         else (True, s\<lparr>i_missingReqs := mput (snd x) True (i_missingReqs s)\<rparr>))"

text \<open>The last part of \<open>processNewView\<close>: fetch what is missing or accept the view.\<close>

definition acceptNewView :: "'w penv \<Rightarrow> NewView \<Rightarrow> 'w pbftCore \<Rightarrow> 'w presult" where
  "acceptNewView E nv s =
     (let (newRequestMissing, s1) = foldl noteMissing (False, s) (nv_Xset nv)
      in if i_missingReqs s1 = [] then processNewView2 E nv s1
         else if newRequestMissing then fetchRequests E s1
         else Inr s1)"

text \<open>\<open>reflect.DeepEqual\<close> on two maps.\<close>

definition deepEqual :: "('k, 'v) gomap \<Rightarrow> ('k, 'v) gomap \<Rightarrow> bool" where
  "deepEqual m m' = (length m = length m' \<and> (\<forall>(k, v) \<in> set m. mget m' k = Some v))"

definition processNewViewWith ::
  "'w penv \<Rightarrow> ('w pbftCore \<Rightarrow> 'w presult) \<Rightarrow> 'w pbftCore \<Rightarrow> 'w presult" where
  "processNewViewWith E sendVC s =
     (case mget (i_newViewStore s) (i_view s) of
        None \<Rightarrow> Inr s
      | Some nv \<Rightarrow>
          if i_activeView s then Inr s
          else let (cp, ok, replicas) = selectInitialCheckpoint s (nv_Vset nv)
          in if \<not> ok then sendVC s
          else case assignSequenceNumbers s (nv_Vset nv) (vcc_SequenceNumber cp) of
              None \<Rightarrow> Inl Diverges
            | Some None \<Rightarrow> sendVC s
            | Some (Some msgList) \<Rightarrow>
                if \<not> (msgList = [] \<and> nv_Xset nv = []) \<and> \<not> deepEqual msgList (nv_Xset nv) then sendVC s
                else if i_h s < vcc_SequenceNumber cp then
                  rbind (moveWatermarks E (vcc_SequenceNumber cp) s) (\<lambda>s1.
                    case DecodeString (vcc_Id cp) of
                      None \<Rightarrow> Inr s1
                    | Some snapshotID \<Rightarrow>
                        acceptNewView E nv
                          ((act (ASkipTo (vcc_SequenceNumber cp) snapshotID replicas
                                   \<lparr>ei_Checkpoint = True, ei_Validate = False, ei_Null = False\<rparr>) s1)
                            \<lparr>i_lastExec := vcc_SequenceNumber cp\<rparr>))
                else acceptNewView E nv s)"

subsection \<open>Sending and receiving view changes\<close>

definition addPset :: "'w pbftCore \<Rightarrow> msgID \<times> msgCert \<Rightarrow> 'w pbftCore" where
  "addPset s x = s\<lparr>i_pset :=
     (let (idx, cert) = x
      in case mc_prePrepare cert of
           None \<Rightarrow> i_pset s
         | Some pp \<Rightarrow>
             let digest = pp_RequestDigest pp
             in if \<not> prepared s digest (fst idx) (snd idx) then i_pset s
                else if (case mget (i_pset s) (snd idx) of Some p \<Rightarrow> pq_View p > fst idx | None \<Rightarrow> False)
                then i_pset s
                else mput (snd idx)
                       \<lparr>pq_SequenceNumber = snd idx, pq_Digest = digest, pq_View = fst idx\<rparr> (i_pset s))\<rparr>"

definition addQset :: "'w pbftCore \<Rightarrow> msgID \<times> msgCert \<Rightarrow> 'w pbftCore" where
  "addQset s x = s\<lparr>i_qset :=
     (let (idx, cert) = x
      in case mc_prePrepare cert of
           None \<Rightarrow> i_qset s
         | Some pp \<Rightarrow>
             let digest = pp_RequestDigest pp; qi = (digest, snd idx)
             in if \<not> prePrepared s digest (fst idx) (snd idx) then i_qset s
                else if (case mget (i_qset s) qi of Some q \<Rightarrow> pq_View q > fst idx | None \<Rightarrow> False)
                then i_qset s
                else mput qi
                       \<lparr>pq_SequenceNumber = snd idx, pq_Digest = digest, pq_View = fst idx\<rparr> (i_qset s))\<rparr>"

definition collectPQ :: "'w pbftCore \<Rightarrow> 'w pbftCore" where
  "collectPQ s = (let s1 = foldl addPset s (i_certStore s) in foldl addQset s1 (i_certStore s1))"

definition clearOldMessages :: "'w pbftCore \<Rightarrow> 'w pbftCore" where
  "clearOldMessages s =
     s\<lparr>i_certStore := filter (\<lambda>(idx, cert). \<not> fst idx < i_view s) (i_certStore s),
       i_viewChangeStore := filter (\<lambda>(idx, vc). \<not> fst idx < i_view s) (i_viewChangeStore s)\<rparr>"

text \<open>
  The first part of \<open>sendViewChange\<close>, up to the broadcast: the next view, the P and Q sets, and the
  removal of messages of earlier views.
\<close>

definition enterNextView :: "'w pbftCore \<Rightarrow> 'w pbftCore" where
  "enterNextView s =
     clearOldMessages (collectPQ ((stopTimer s)
       \<lparr>i_newViewStore := mdel (i_view s) (i_newViewStore s), i_view := i_view s + 1, i_activeView := False\<rparr>))"

definition makeViewChange :: "'w penv \<Rightarrow> 'w pbftCore \<Rightarrow> ViewChange" where
  "makeViewChange E s =
     sign E \<lparr>vc_View = i_view s, vc_H = i_h s,
       vc_Cset = map (\<lambda>(n, cid). \<lparr>vcc_SequenceNumber = n, vcc_Id = cid\<rparr>) (i_chkpts s),
       vc_Pset = map snd (i_pset s), vc_Qset = map snd (i_qset s),
       vc_ReplicaId = i_id s, vc_Signature = []\<rparr>"

definition sendNewViewWith ::
  "'w penv \<Rightarrow> ('w pbftCore \<Rightarrow> 'w presult) \<Rightarrow> 'w pbftCore \<Rightarrow> 'w presult" where
  "sendNewViewWith E sendVC s =
     (if mget (i_newViewStore s) (i_view s) \<noteq> None then Inr s
      else
        let vset = getViewChanges s; (cp, ok, replicas) = selectInitialCheckpoint s vset
        in if \<not> ok then Inr s
        else case assignSequenceNumbers s vset (vcc_SequenceNumber cp) of
            None \<Rightarrow> Inl Diverges
          | Some None \<Rightarrow> Inr s
          | Some (Some msgList) \<Rightarrow>
              let nv = \<lparr>nv_View = i_view s, nv_Vset = vset, nv_Xset = msgList, nv_ReplicaId = i_id s\<rparr>
              in (case e_marshal E (MNewView nv) of
                    Inl _ \<Rightarrow> Inr s
                  | Inr _ \<Rightarrow> rbind (innerBroadcast E (MNewView nv) None s) (\<lambda>s1.
                      processNewViewWith E sendVC
                        (s1\<lparr>i_newViewStore := mput (i_view s1) nv (i_newViewStore s1)\<rparr>))))"

text \<open>The loop that finds the smallest view, zero standing for none yet.\<close>

definition smallestView :: "u64 \<Rightarrow> vcidx list \<Rightarrow> u64" where
  "smallestView m idxs = foldl (\<lambda>m idx. if m = 0 \<or> fst idx < m then fst idx else m) m idxs"

definition recvViewChangeWith ::
  "'w penv \<Rightarrow> ('w pbftCore \<Rightarrow> 'w presult) \<Rightarrow> ViewChange \<Rightarrow> 'w pbftCore \<Rightarrow> 'w presult" where
  "recvViewChangeWith E sendVC vc s =
     (if \<not> verify E vc then Inr s
      else if \<not> (vc_View vc \<ge> i_view s \<and> correctViewChange s vc
                 \<and> mget (i_viewChangeStore s) (vc_View vc, vc_ReplicaId vc) = None) then Inr s
      else
        let s1 = s\<lparr>i_viewChangeStore := mput (vc_View vc, vc_ReplicaId vc) vc (i_viewChangeStore s)\<rparr>;
            later = filter (\<lambda>idx. \<not> fst idx \<le> i_view s1) (map fst (i_viewChangeStore s1));
            minView = smallestView 0 later
        in if length (remdups (map snd later)) \<ge> i_f s1 + 1 then sendVC (s1\<lparr>i_view := minView - 1\<rparr>)
        else
          let quorum = length (filter (\<lambda>idx. fst idx = i_view s1) (map fst (i_viewChangeStore s1)))
          in if vc_View vc = i_view s1 \<and> quorum = allCorrectReplicasQuorum s1 then
               let s2 = startTimer (i_lastNewViewTimeout s1) s1;
                   s3 = s2\<lparr>i_lastNewViewTimeout := 2 * i_lastNewViewTimeout s2\<rparr>
               in if primary s3 (i_view s3) = i_id s3 then sendNewViewWith E sendVC s3
                  else processNewViewWith E sendVC s3
             else processNewViewWith E sendVC s1)"

fun sendViewChangeN :: "'w penv \<Rightarrow> nat \<Rightarrow> 'w pbftCore \<Rightarrow> 'w presult" where
  "sendViewChangeN E 0 s = Inl Diverges"
| "sendViewChangeN E (Suc k) s =
     (let s1 = enterNextView s; vc = makeViewChange E s1
      in innerBroadcast E (MViewChange vc)
           (Some (fromSender (i_id s1) (vc_ReplicaId vc) (recvViewChangeWith E (sendViewChangeN E k) vc))) s1)"

definition sendViewChange :: "'w penv \<Rightarrow> 'w pbftCore \<Rightarrow> 'w presult" where
  "sendViewChange E s =
     sendViewChangeN E (length (i_newViewStore s) + length (i_viewChangeStore s) + 2) s"

definition processNewView :: "'w penv \<Rightarrow> 'w pbftCore \<Rightarrow> 'w presult" where
  "processNewView E = processNewViewWith E (sendViewChange E)"

definition sendNewView :: "'w penv \<Rightarrow> 'w pbftCore \<Rightarrow> 'w presult" where
  "sendNewView E = sendNewViewWith E (sendViewChange E)"

definition recvViewChange :: "'w penv \<Rightarrow> ViewChange \<Rightarrow> 'w pbftCore \<Rightarrow> 'w presult" where
  "recvViewChange E = recvViewChangeWith E (sendViewChange E)"

definition recvNewView :: "'w penv \<Rightarrow> NewView \<Rightarrow> 'w pbftCore \<Rightarrow> 'w presult" where
  "recvNewView E nv s =
     (if \<not> (nv_View nv > 0 \<and> nv_View nv \<ge> i_view s \<and> primary s (nv_View nv) = nv_ReplicaId nv
            \<and> mget (i_newViewStore s) (nv_View nv) = None) then Inr s
      else if \<exists>vc \<in> set (nv_Vset nv). \<not> verify E vc then Inr s
      else processNewView E (s\<lparr>i_newViewStore := mput (nv_View nv) nv (i_newViewStore s)\<rparr>))"

subsection \<open>Handlers of \<open>pbft-core.go\<close> that reach the view change\<close>

definition recvCheckpoint :: "'w penv \<Rightarrow> Checkpoint \<Rightarrow> 'w pbftCore \<Rightarrow> 'w presult" where
  "recvCheckpoint E chkpt s =
     rbind (weakCheckpointSetOutOfRange E chkpt s) (\<lambda>(outOfRange, s1).
       if outOfRange then Inr s1
       else if \<not> inW s1 (ck_SequenceNumber chkpt) then Inr s1
       else
         let s2 = s1\<lparr>i_checkpointStore := mput chkpt True (i_checkpointStore s1)\<rparr>;
             matching = length (matchingCheckpoints s2 chkpt)
         in rbind (if matching = i_f s2 + 1 then witnessCheckpointWeakCert E chkpt s2 else Inr s2) (\<lambda>s3.
              if matching < intersectionQuorum s3 then Inr s3
              else if mget (i_chkpts s3) (ck_SequenceNumber chkpt) = None then Inr s3
              else rbind (moveWatermarks E (ck_SequenceNumber chkpt) s3) (processNewView E)))"

definition Checkpoint_op :: "'w penv \<Rightarrow> u64 \<Rightarrow> bytes \<Rightarrow> 'w pbftCore \<Rightarrow> 'w presult" where
  "Checkpoint_op E seqNo cid s =
     (if i_K s = 0 then Inl (Crash ''integer divide by zero'')
      else if seqNo mod i_K s \<noteq> 0 then Inr s
      else
        let idAsString = EncodeToString cid;
            chkpt = \<lparr>ck_SequenceNumber = i_lastExec s, ck_ReplicaId = i_id s, ck_Id = idAsString\<rparr>
        in innerBroadcast E (MCheckpoint chkpt)
             (Some (fromSender (i_id s) (ck_ReplicaId chkpt) (recvCheckpoint E chkpt)))
             (s\<lparr>i_chkpts := mput (i_lastExec s) idAsString (i_chkpts s)\<rparr>))"

definition recvReturnRequest :: "'w penv \<Rightarrow> Request \<Rightarrow> 'w pbftCore \<Rightarrow> 'w presult" where
  "recvReturnRequest E req s =
     (let digest = hashReq E (Some req)
      in if mget (i_missingReqs s) digest = None then Inr s
         else processNewView E
           (s\<lparr>i_reqStore := mput digest req (i_reqStore s), i_missingReqs := mdel digest (i_missingReqs s)\<rparr>))"

definition recvMsgSync :: "'w penv \<Rightarrow> Message \<Rightarrow> u64 \<Rightarrow> 'w pbftCore \<Rightarrow> 'w presult" where
  "recvMsgSync E msg senderID =
     (case msg of
        MRequest req \<Rightarrow> fromSender senderID (rq_ReplicaId req) (recvRequest E req)
      | MPrePrepare preprep \<Rightarrow> fromSender senderID (pp_ReplicaId preprep) (recvPrePrepare E preprep)
      | MPrepare prep \<Rightarrow> fromSender senderID (pr_ReplicaId prep) (recvPrepare E prep)
      | MCommit commit \<Rightarrow> fromSender senderID (cm_ReplicaId commit) (recvCommit commit)
      | MCheckpoint chkpt \<Rightarrow> fromSender senderID (ck_ReplicaId chkpt) (recvCheckpoint E chkpt)
      | MViewChange vc \<Rightarrow> fromSender senderID (vc_ReplicaId vc) (recvViewChange E vc)
      | MNewView nv \<Rightarrow> fromSender senderID (nv_ReplicaId nv) (recvNewView E nv)
      | MFetchRequest fr \<Rightarrow> fromSender senderID (fr_ReplicaId fr) (recvFetchRequest E fr)
      | MReturnRequest req \<Rightarrow> recvReturnRequest E req
      | NoPayload \<Rightarrow> Inr)"

definition request :: "'w penv \<Rightarrow> bytes \<Rightarrow> u64 \<Rightarrow> 'w pbftCore \<Rightarrow> 'w presult" where
  "request E msgPayload senderID =
     recvMsgSync E (MRequest \<lparr>rq_Timestamp = None, rq_Payload = msgPayload, rq_ReplicaId = senderID\<rparr>) senderID"

definition receive :: "'w penv \<Rightarrow> 'w \<Rightarrow> u64 \<Rightarrow> 'w pbftCore \<Rightarrow> 'w presult" where
  "receive E msgPayload senderID s =
     (case e_unmarshal E msgPayload of
        Inl _ \<Rightarrow> Inr s
      | Inr msg \<Rightarrow> recvMsgSync E msg senderID s)"

text \<open>
  The goroutine of the view change timer. The timer fires on its own and leaves a value in its
  channel, unless one is already there; the goroutine receives it and counts it without the lock;
  later it gets the lock and decides whether the expiry still stands.
\<close>

definition timerFire :: "'w pbftCore \<Rightarrow> 'w pbftCore" where
  "timerFire s =
     (if tm_running (i_newViewTimer s)
      then s\<lparr>i_newViewTimer := \<lparr>tm_running = False, tm_C = True\<rparr>\<rparr> else s)"

definition timerReceive :: "'w pbftCore \<Rightarrow> 'w pbftCore" where
  "timerReceive s =
     (if tm_C (i_newViewTimer s) \<and> \<not> i_timerWaiting s
      then s\<lparr>i_newViewTimer := (i_newViewTimer s)\<lparr>tm_C := False\<rparr>, i_timerWaiting := True,
             i_timerExpiredCount := i_timerExpiredCount s + 1\<rparr>
      else s)"

definition timerHander :: "'w penv \<Rightarrow> 'w pbftCore \<Rightarrow> 'w presult" where
  "timerHander E s =
     (if \<not> i_timerWaiting s then Inr s
      else
        let s1 = s\<lparr>i_timerWaiting := False\<rparr>
        in if i_timerResetCount s1 > i_timerExpiredCount s1 then Inr s1
           else sendViewChange E s1)"

text \<open>What can happen to a replica, one atomic step each.\<close>

datatype 'w pinput =
    Receive 'w u64
  | NewRequest bytes u64
  | CheckpointDone u64 bytes
  | TimerFires
  | TimerReceived
  | TimerLocked
  | Closes

definition pstep :: "'w penv \<Rightarrow> 'w pinput \<Rightarrow> 'w pbftCore \<Rightarrow> 'w presult" where
  "pstep E x =
     (case x of
        Receive w sender \<Rightarrow> receive E w sender
      | NewRequest payload sender \<Rightarrow> request E payload sender
      | CheckpointDone n cid \<Rightarrow> Checkpoint_op E n cid
      | TimerFires \<Rightarrow> (\<lambda>s. Inr (timerFire s))
      | TimerReceived \<Rightarrow> (\<lambda>s. Inr (timerReceive s))
      | TimerLocked \<Rightarrow> timerHander E
      | Closes \<Rightarrow> (\<lambda>s. Inr (close s)))"

end
