(* ===== verification/PbftInv.thy ===== *)
theory PbftInv
  imports PbftViewChange
begin

text \<open>
  The invariant of one correct PBFT replica. It relates the logs of the replica to the evidence it
  has: the messages it received, each with its sender, and the messages it sent. Every prepare in
  a certificate came from the replica it names, every accepted pre-prepare came from the primary
  of its view, either directly or inside a new-view message, and the replica itself sends at most
  one prepare for a view and sequence number, and as a primary at most one assignment. The
  invariant is shown for every handler; \<open>prun\<close> is the reachability relation of a correct replica.

  Views and sequence numbers are 64-bit and wrap around. The runs considered are those in which
  they do not: no view change for view zero is sent, and the watermark window does not wrap.
\<close>

named_theorems pbft_sel \<open>what the small state changes leave alone\<close>

subsection \<open>Evidence\<close>

definition sentMsgs :: "'w penv \<Rightarrow> 'w pbftCore \<Rightarrow> Message set" where
  "sentMsgs E s = {m. \<exists>w. e_unmarshal E w = Inr m \<and>
     (ABroadcast w \<in> set (i_trace s) \<or> (\<exists>r. AUnicast w r \<in> set (i_trace s)))}"

type_synonym evidence = "(u64 \<times> Message) set"

definition primaryOf :: "nat \<Rightarrow> u64 \<Rightarrow> u64" where
  "primaryOf N v = v mod word_of_nat N"

definition quorumOf :: "nat \<Rightarrow> nat \<Rightarrow> nat" where
  "quorumOf N f = (N + f + 2) div 2"

text \<open>The primary of view \<open>v\<close> assigned digest \<open>d\<close> to \<open>n\<close>, by a pre-prepare or in its new view.\<close>

definition assigned :: "evidence \<Rightarrow> nat \<Rightarrow> gostring \<Rightarrow> u64 \<Rightarrow> u64 \<Rightarrow> bool" where
  "assigned Ev N d v n \<longleftrightarrow>
     (\<exists>pp. (primaryOf N v, MPrePrepare pp) \<in> Ev \<and> pp_View pp = v \<and> pp_SequenceNumber pp = n
        \<and> pp_RequestDigest pp = d)
   \<or> (\<exists>nv. (primaryOf N v, MNewView nv) \<in> Ev \<and> nv_View nv = v \<and> v > 0 \<and> mget (nv_Xset nv) n = Some d)"

definition voted :: "evidence \<Rightarrow> gostring \<Rightarrow> u64 \<Rightarrow> u64 \<Rightarrow> u64 \<Rightarrow> bool" where
  "voted Ev d v n r \<longleftrightarrow>
     (\<exists>p. (r, MPrepare p) \<in> Ev \<and> pr_View p = v \<and> pr_SequenceNumber p = n \<and> pr_RequestDigest p = d)"

text \<open>A prepared certificate: the assignment and a quorum of votes, that of the primary aside.\<close>

definition certified :: "evidence \<Rightarrow> nat \<Rightarrow> nat \<Rightarrow> gostring \<Rightarrow> u64 \<Rightarrow> u64 \<Rightarrow> bool" where
  "certified Ev N f d v n \<longleftrightarrow> assigned Ev N d v n \<and>
     (\<exists>R. finite R \<and> quorumOf N f - 1 \<le> card R \<and> primaryOf N v \<notin> R \<and> (\<forall>r \<in> R. voted Ev d v n r))"

lemma certifiedI:
  assumes "assigned Ev N d v n" "finite R" "quorumOf N f - 1 \<le> card R" "primaryOf N v \<notin> R"
    "\<forall>r \<in> R. voted Ev d v n r"
  shows "certified Ev N f d v n"
  unfolding certified_def using assms by blast

lemma assigned_mono: "assigned Ev N d v n \<Longrightarrow> Ev \<subseteq> Ev' \<Longrightarrow> assigned Ev' N d v n"
  unfolding assigned_def by blast

lemma voted_mono: "voted Ev d v n r \<Longrightarrow> Ev \<subseteq> Ev' \<Longrightarrow> voted Ev' d v n r"
  unfolding voted_def by blast

lemma certified_mono: "certified Ev N f d v n \<Longrightarrow> Ev \<subseteq> Ev' \<Longrightarrow> certified Ev' N f d v n"
  unfolding certified_def by (meson assigned_mono voted_mono)

subsection \<open>The invariant\<close>

definition evidence :: "evidence \<Rightarrow> Message set \<Rightarrow> 'w pbftCore \<Rightarrow> evidence" where
  "evidence X M s = X \<union> (\<lambda>m. (i_id s, m)) ` M"

definition config_ok :: "'w pbftCore \<Rightarrow> bool" where
  "config_ok s \<longleftrightarrow> \<not> i_byzantine s \<and> i_replicaCount s = i_N s \<and> 3 * i_f s + 1 \<le> i_N s \<and> i_N s < 2 ^ 64"

definition cert_ok :: "evidence \<Rightarrow> 'w pbftCore \<Rightarrow> u64 \<Rightarrow> u64 \<Rightarrow> msgCert \<Rightarrow> bool" where
  "cert_ok Ev s v n c \<longleftrightarrow> v \<le> i_view s
     \<and> distinct (map pr_ReplicaId (mc_prepare c))
     \<and> (\<forall>p \<in> set (mc_prepare c). pr_View p = v \<and> pr_SequenceNumber p = n
          \<and> pr_ReplicaId p \<noteq> primaryOf (i_N s) v \<and> (pr_ReplicaId p, MPrepare p) \<in> Ev
          \<and> (pr_ReplicaId p = i_id s \<longrightarrow> mc_sentPrepare c))
     \<and> (\<forall>pp. mc_prePrepare c = Some pp \<longrightarrow> pp_View pp = v \<and> pp_SequenceNumber pp = n
          \<and> assigned Ev (i_N s) (pp_RequestDigest pp) v n)
     \<and> (v = i_view s \<and> \<not> i_activeView s \<longrightarrow> \<not> mc_sentPrepare c \<and> mc_prePrepare c = None)"

definition certs_ok :: "evidence \<Rightarrow> 'w pbftCore \<Rightarrow> bool" where
  "certs_ok Ev s \<longleftrightarrow> gomap_ok (i_certStore s)
     \<and> (\<forall>v n c. mget (i_certStore s) (v, n) = Some c \<longrightarrow> cert_ok Ev s v n c)"

definition pqsets_ok :: "evidence \<Rightarrow> 'w pbftCore \<Rightarrow> bool" where
  "pqsets_ok Ev s \<longleftrightarrow>
     (\<forall>n p. mget (i_pset s) n = Some p \<longrightarrow> certified Ev (i_N s) (i_f s) (pq_Digest p) (pq_View p) n)
   \<and> (\<forall>d n q. mget (i_qset s) (d, n) = Some q \<longrightarrow> assigned Ev (i_N s) d (pq_View q) n)"

definition newviews_ok :: "evidence \<Rightarrow> 'w pbftCore \<Rightarrow> bool" where
  "newviews_ok Ev s \<longleftrightarrow>
     (\<forall>v nv. mget (i_newViewStore s) v = Some nv \<longrightarrow>
        nv_View nv = v \<and> gomap_ok (nv_Xset nv) \<and> (v > 0 \<longrightarrow> (primaryOf (i_N s) v, MNewView nv) \<in> Ev))
   \<and> (i_activeView s \<and> i_view s > 0 \<longrightarrow> mget (i_newViewStore s) (i_view s) \<noteq> None)
   \<and> (i_view s = 0 \<longrightarrow> i_activeView s)"

definition flagged :: "'w pbftCore \<Rightarrow> u64 \<Rightarrow> u64 \<Rightarrow> bool" where
  "flagged s v n \<longleftrightarrow> (case mget (i_certStore s) (v, n) of Some c \<Rightarrow> mc_sentPrepare c | None \<Rightarrow> False)"

definition prepares_ok :: "Message set \<Rightarrow> 'w pbftCore \<Rightarrow> bool" where
  "prepares_ok M s \<longleftrightarrow>
     (\<forall>p. MPrepare p \<in> M \<longrightarrow> pr_View p \<le> i_view s
        \<and> (pr_View p = i_view s \<longrightarrow> i_activeView s
             \<and> (pr_SequenceNumber p \<le> i_h s \<or> flagged s (pr_View p) (pr_SequenceNumber p))))
   \<and> (\<forall>p p'. MPrepare p \<in> M \<longrightarrow> MPrepare p' \<in> M \<longrightarrow> pr_View p = pr_View p' \<longrightarrow>
        pr_SequenceNumber p = pr_SequenceNumber p' \<longrightarrow> pr_RequestDigest p = pr_RequestDigest p')"

definition preprepares_ok :: "Message set \<Rightarrow> 'w pbftCore \<Rightarrow> bool" where
  "preprepares_ok M s \<longleftrightarrow>
     (\<forall>p. MPrePrepare p \<in> M \<longrightarrow> pp_View p \<le> i_view s
        \<and> (pp_View p = i_view s \<longrightarrow> i_activeView s \<and> pp_SequenceNumber p \<le> i_seqNo s))
   \<and> (\<forall>p p'. MPrePrepare p \<in> M \<longrightarrow> MPrePrepare p' \<in> M \<longrightarrow> pp_View p = pp_View p' \<longrightarrow>
        pp_SequenceNumber p = pp_SequenceNumber p' \<longrightarrow> pp_RequestDigest p = pp_RequestDigest p')"

definition sentviews_ok :: "Message set \<Rightarrow> 'w pbftCore \<Rightarrow> bool" where
  "sentviews_ok M s \<longleftrightarrow>
     (\<forall>nv. MNewView nv \<in> M \<longrightarrow> nv_View nv > 0 \<longrightarrow> nv_View nv \<le> i_view s
        \<and> (nv_View nv = i_view s \<longrightarrow> mget (i_newViewStore s) (i_view s) = Some nv
            \<and> (i_activeView s \<longrightarrow> (\<forall>n d. mget (nv_Xset nv) n = Some d \<longrightarrow> n \<le> i_seqNo s))))
   \<and> (\<forall>nv nv'. MNewView nv \<in> M \<longrightarrow> MNewView nv' \<in> M \<longrightarrow> nv_View nv > 0 \<longrightarrow>
        nv_View nv = nv_View nv' \<longrightarrow> nv = nv')
   \<and> (\<forall>nv p. MNewView nv \<in> M \<longrightarrow> MPrePrepare p \<in> M \<longrightarrow> nv_View nv > 0 \<longrightarrow>
        nv_View nv = pp_View p \<longrightarrow> mget (nv_Xset nv) (pp_SequenceNumber p) = None)"

definition core_inv :: "evidence \<Rightarrow> Message set \<Rightarrow> 'w pbftCore \<Rightarrow> bool" where
  "core_inv X M s \<longleftrightarrow> config_ok s \<and> certs_ok (evidence X M s) s \<and> pqsets_ok (evidence X M s) s
     \<and> newviews_ok (evidence X M s) s \<and> prepares_ok M s \<and> preprepares_ok M s \<and> sentviews_ok M s"

lemmas core_inv_defs = core_inv_def config_ok_def certs_ok_def cert_ok_def pqsets_ok_def
  newviews_ok_def prepares_ok_def preprepares_ok_def sentviews_ok_def

text \<open>The range in which nothing wraps around.\<close>

definition in_range :: "Message set \<Rightarrow> 'w pbftCore \<Rightarrow> bool" where
  "in_range M s \<longleftrightarrow> (\<forall>vc. MViewChange vc \<in> M \<longrightarrow> vc_View vc \<noteq> 0)
     \<and> unat (i_h s) + unat (i_L s) < 2 ^ 64"

text \<open>
  One state extends another: the configuration is the same, what was sent stays sent, and the low
  watermark does not fall. \<open>step_ok\<close> says that, and that the invariant is carried over.
\<close>

definition extends :: "'w penv \<Rightarrow> 'w pbftCore \<Rightarrow> 'w pbftCore \<Rightarrow> bool" where
  "extends E s s' \<longleftrightarrow> sentMsgs E s \<subseteq> sentMsgs E s' \<and> i_h s \<le> i_h s' \<and> i_id s' = i_id s \<and> i_L s' = i_L s
     \<and> i_N s' = i_N s \<and> i_f s' = i_f s \<and> i_replicaCount s' = i_replicaCount s \<and> i_byzantine s' = i_byzantine s"

definition step_ok :: "'w penv \<Rightarrow> evidence \<Rightarrow> 'w pbftCore \<Rightarrow> 'w pbftCore \<Rightarrow> bool" where
  "step_ok E X s s' \<longleftrightarrow> (\<not> i_byzantine s \<longrightarrow> extends E s s' \<and>
     (in_range (sentMsgs E s') s' \<longrightarrow> core_inv X (sentMsgs E s) s \<longrightarrow> core_inv X (sentMsgs E s') s'))"

lemma extends_refl [simp]: "extends E s s"
  by (simp add: extends_def)

lemma extends_trans: "extends E s s1 \<Longrightarrow> extends E s1 s2 \<Longrightarrow> extends E s s2"
  unfolding extends_def by (auto intro: order_trans)

lemma in_range_mono: "extends E s s' \<Longrightarrow> in_range (sentMsgs E s') s' \<Longrightarrow> in_range (sentMsgs E s) s"
  unfolding extends_def in_range_def by (auto simp: word_le_nat_alt)

lemma step_ok_refl [simp]: "step_ok E X s s"
  by (simp add: step_ok_def)

lemma step_ok_trans: "step_ok E X s s1 \<Longrightarrow> step_ok E X s1 s2 \<Longrightarrow> step_ok E X s s2"
  unfolding step_ok_def by (metis (no_types, lifting) extends_trans in_range_mono extends_def)

lemma step_okI:
  assumes "\<not> i_byzantine s \<Longrightarrow> extends E s s'"
    and "\<not> i_byzantine s \<Longrightarrow> in_range (sentMsgs E s') s' \<Longrightarrow> core_inv X (sentMsgs E s) s \<Longrightarrow>
      core_inv X (sentMsgs E s') s'"
  shows "step_ok E X s s'"
  using assms by (simp add: step_ok_def)

lemma rfold_step_ok:
  assumes "\<And>s x s'. x \<in> set xs \<Longrightarrow> f s x = Inr s' \<Longrightarrow> step_ok E X s s'"
    and "rfold f xs s = Inr s'"
  shows "step_ok E X s s'"
  using assms
proof (induction xs arbitrary: s)
  case (Cons x xs)
  from Cons.prems(2) obtain s1 where 1: "f s x = Inr s1" "rfold f xs s1 = Inr s'"
    by (auto simp: rbind_Inr_conv)
  have "step_ok E X s s1" using Cons.prems(1) [OF _ 1(1)] by simp
  moreover have "step_ok E X s1 s'"
    by (rule Cons.IH [OF _ 1(2)]) (rule Cons.prems(1), simp_all)
  ultimately show ?case by (rule step_ok_trans)
qed simp

subsection \<open>State changes that do not touch the logs\<close>

text \<open>The part of the state the invariant reads.\<close>

definition logs :: "'w pbftCore \<Rightarrow> _" where
  "logs s = ((i_activeView s, i_byzantine s, i_f s, i_N s, i_h s, i_id s, i_L s), i_replicaCount s, i_seqNo s,
     i_view s, i_pset s, i_qset s, i_certStore s, i_newViewStore s)"

lemma core_inv_logs: "logs s' = logs s \<Longrightarrow> core_inv X M s' \<longleftrightarrow> core_inv X M s"
  by (simp add: logs_def core_inv_defs flagged_def evidence_def)

lemma step_ok_logs:
  assumes "logs s' = logs s" and "sentMsgs E s' = sentMsgs E s"
  shows "step_ok E X s s'"
  using assms core_inv_logs [OF assms(1)] by (auto simp: step_ok_def extends_def logs_def)

lemma sentMsgs_trace: "i_trace s' = i_trace s \<Longrightarrow> sentMsgs E s' = sentMsgs E s"
  by (simp add: sentMsgs_def)

lemma sentMsgs_act:
  "sentMsgs E (act a s) = sentMsgs E s \<union> (case a of
     ABroadcast w \<Rightarrow> {m. e_unmarshal E w = Inr m} | AUnicast w r \<Rightarrow> {m. e_unmarshal E w = Inr m} | _ \<Rightarrow> {})"
  by (auto simp: sentMsgs_def act_def split: action.splits)

lemma logs_small [pbft_sel, simp]:
  "logs (act a s) = logs s"
  "logs (startTimer t s) = logs s"
  "logs (stopTimer s) = logs s"
  "logs (watchOutstanding s) = logs s"
  by (simp_all add: logs_def act_def startTimer_def stopTimer_def watchOutstanding_def)

lemma logs_updates [pbft_sel, simp]:
  "logs (i_lastExec_update g1 s) = logs s" "logs (i_lastNewViewTimeout_update g2 s) = logs s"
  "logs (i_outstandingReqs_update g3 s) = logs s" "logs (i_reqStore_update g4 s) = logs s"
  "logs (i_missingReqs_update g5 s) = logs s" "logs (i_now_update g6 s) = logs s"
  "logs (i_checkpointStore_update g7 s) = logs s" "logs (i_chkpts_update g8 s) = logs s"
  "logs (i_hChkpts_update g9 s) = logs s" "logs (i_skipInProgress_update g10 s) = logs s"
  "logs (i_viewChangeStore_update g11 s) = logs s" "logs (i_timerWaiting_update g12 s) = logs s"
  "logs (i_closed_update g15 s) = logs s" "logs (i_timerExpiredCount_update g13 s) = logs s" "logs (i_newViewTimer_update g14 s) = logs s"
  by (simp_all add: logs_def)

lemma trace_timers [pbft_sel, simp]:
  "i_trace (startTimer t s) = i_trace s" "i_trace (stopTimer s) = i_trace s"
  "i_trace (watchOutstanding s) = i_trace s"
  by (simp_all add: startTimer_def stopTimer_def watchOutstanding_def)

lemma sentMsgs_quiet [pbft_sel, simp]:
  "sentMsgs E (i_closed_update g0 s) = sentMsgs E s" "sentMsgs E (startTimer t s) = sentMsgs E s" "sentMsgs E (stopTimer s) = sentMsgs E s"
  "sentMsgs E (watchOutstanding s) = sentMsgs E s"
  "sentMsgs E (i_lastExec_update g1 s) = sentMsgs E s" "sentMsgs E (i_lastNewViewTimeout_update g2 s) = sentMsgs E s"
  "sentMsgs E (i_outstandingReqs_update g3 s) = sentMsgs E s" "sentMsgs E (i_reqStore_update g4 s) = sentMsgs E s"
  "sentMsgs E (i_missingReqs_update g5 s) = sentMsgs E s" "sentMsgs E (i_now_update g6 s) = sentMsgs E s"
  "sentMsgs E (i_checkpointStore_update g7 s) = sentMsgs E s" "sentMsgs E (i_chkpts_update g8 s) = sentMsgs E s"
  "sentMsgs E (i_hChkpts_update g9 s) = sentMsgs E s" "sentMsgs E (i_skipInProgress_update g10 s) = sentMsgs E s"
  "sentMsgs E (i_viewChangeStore_update g11 s) = sentMsgs E s" "sentMsgs E (i_timerWaiting_update g12 s) = sentMsgs E s"
  "sentMsgs E (i_timerExpiredCount_update g13 s) = sentMsgs E s" "sentMsgs E (i_newViewTimer_update g14 s) = sentMsgs E s"
  "sentMsgs E (i_certStore_update g15 s) = sentMsgs E s" "sentMsgs E (i_newViewStore_update g16 s) = sentMsgs E s"
  "sentMsgs E (i_view_update g17 s) = sentMsgs E s" "sentMsgs E (i_activeView_update g18 s) = sentMsgs E s"
  "sentMsgs E (i_h_update g19 s) = sentMsgs E s" "sentMsgs E (i_seqNo_update g20 s) = sentMsgs E s"
  "sentMsgs E (i_pset_update g21 s) = sentMsgs E s" "sentMsgs E (i_qset_update g22 s) = sentMsgs E s"
  by (simp_all add: sentMsgs_def)

text \<open>Execution reads the logs and changes none of them.\<close>

lemma executeOne_logs:
  assumes "executeOne idx s = Inr (b, s')"
  shows "logs s' = logs s" "sentMsgs E s' = sentMsgs E s"
  using assms
  by (auto simp: executeOne_defs Let_def sentMsgs_act split: option.splits if_splits)

lemma executePass_logs:
  assumes "executePass idxs s = Inr (b, s')"
  shows "logs s' = logs s \<and> sentMsgs E s' = sentMsgs E s"
  using assms
proof (induction idxs arbitrary: s)
  case (Cons idx idxs)
  from Cons.prems obtain b1 s1 where 1: "executeOne idx s = Inr (b1, s1)"
    and 2: "(if b1 then Inr (True, s1) else executePass idxs s1) = Inr (b, s')"
    by (auto simp: rbind_Inr_conv)
  from 2 Cons.IH [of s1] have "logs s' = logs s1 \<and> sentMsgs E s' = sentMsgs E s1"
    by (auto split: if_splits)
  with executeOne_logs(1) [OF 1] executeOne_logs(2) [OF 1, of E] show ?case by simp
qed simp

lemma executeLoop_logs:
  assumes "executeLoop s = Some r"
  shows "\<forall>s'. r = Inr s' \<longrightarrow> logs s' = logs s \<and> sentMsgs E s' = sentMsgs E s"
proof (rule executeLoop.raw_induct [OF _ assms])
  fix f s r
  assume IH: "\<And>s r. f s = Some r \<Longrightarrow> \<forall>s'. r = Inr s' \<longrightarrow> logs s' = logs s \<and> sentMsgs E s' = sentMsgs E s"
    and "(case executePass (map fst (i_certStore s)) s of
        Inl e \<Rightarrow> Some (Inl e)
      | Inr r \<Rightarrow> if fst r then f (snd r) else Some (Inr (snd r))) = Some r"
  then show "\<forall>s'. r = Inr s' \<longrightarrow> logs s' = logs s \<and> sentMsgs E s' = sentMsgs E s"
    using executePass_logs [of "map fst (i_certStore s)" s, where E = E]
    by (fastforce split: sum.splits if_splits)
qed

lemma executeOutstanding_step_ok:
  assumes "executeOutstanding s = Inr s'"
  shows "step_ok E X s s'"
  using assms executeLoop_logs [of s, where E = E]
  by (auto simp: executeOutstanding_def intro!: step_ok_logs split: option.splits)

subsection \<open>Certificates\<close>

lemma evidence_eqI: "i_id s' = i_id s \<Longrightarrow> evidence X M s' = evidence X M s"
  by (simp add: evidence_def)

lemma sel_setCert [simp]:
  "i_certStore (setCert v n c s) = mput (v, n) c (i_certStore s)"
  "i_trace (setCert v n c s) = i_trace s" "sentMsgs E (setCert v n c s) = sentMsgs E s"
  "i_view (setCert v n c s) = i_view s" "i_activeView (setCert v n c s) = i_activeView s"
  "i_h (setCert v n c s) = i_h s" "i_id (setCert v n c s) = i_id s" "i_N (setCert v n c s) = i_N s"
  "i_f (setCert v n c s) = i_f s" "i_L (setCert v n c s) = i_L s" "i_seqNo (setCert v n c s) = i_seqNo s"
  "i_replicaCount (setCert v n c s) = i_replicaCount s" "i_byzantine (setCert v n c s) = i_byzantine s"
  "i_pset (setCert v n c s) = i_pset s" "i_qset (setCert v n c s) = i_qset s"
  "i_newViewStore (setCert v n c s) = i_newViewStore s" "i_now (setCert v n c s) = i_now s"
  "i_reqStore (setCert v n c s) = i_reqStore s"
  by (simp_all add: setCert_def sentMsgs_def)

lemma cert_ok_setCert [simp]: "cert_ok Ev (setCert v n c s) = cert_ok Ev s"
  by (intro ext) (simp add: cert_ok_def)

lemma evidence_setCert [simp]: "evidence X M (setCert v n c s) = evidence X M s"
  by (simp add: evidence_def)

lemma getCert_cases:
  assumes "getCert v n s = (c, s1)"
  obtains "mget (i_certStore s) (v, n) = Some c" "s1 = s"
  | "mget (i_certStore s) (v, n) = None" "c = emptyCert" "s1 = setCert v n emptyCert s"
  using assms by (auto simp: getCert_def setCert_def split: option.splits)

text \<open>
  Writing a certificate keeps the invariant if the new one is well-formed and keeps the mark of a
  prepare that was sent.
\<close>

lemma core_inv_setCert:
  assumes "core_inv X M s" and "cert_ok (evidence X M s) s v n c"
    and "\<And>c0. mget (i_certStore s) (v, n) = Some c0 \<Longrightarrow> mc_sentPrepare c0 \<Longrightarrow> mc_sentPrepare c"
  shows "core_inv X M (setCert v n c s)"
proof -
  have fl: "flagged (setCert v n c s) v' n'" if "flagged s v' n'" for v' n'
    using that assms(3) by (auto simp: flagged_def split: option.splits if_splits)
  have "prepares_ok M s" using assms(1) by (simp only: core_inv_def)
  then have "prepares_ok M (setCert v n c s)"
    unfolding prepares_ok_def sel_setCert using fl by blast
  moreover have "certs_ok (evidence X M s) (setCert v n c s)"
    using assms(1,2) unfolding core_inv_def certs_ok_def cert_ok_setCert by auto
  ultimately show ?thesis
    using assms(1) unfolding core_inv_def evidence_setCert config_ok_def pqsets_ok_def newviews_ok_def
      preprepares_ok_def sentviews_ok_def sel_setCert by (elim conjE) (intro conjI; assumption)
qed

lemma extends_setCert [simp]: "extends E s (setCert v n c s)"
  by (simp add: extends_def)

lemma cert_ok_empty: "v \<le> i_view s \<Longrightarrow> cert_ok Ev s v n emptyCert"
  by (simp add: cert_ok_def emptyCert_def)

lemma cert_ok_stored: "core_inv X M s \<Longrightarrow> mget (i_certStore s) (v, n) = Some c \<Longrightarrow> cert_ok (evidence X M s) s v n c"
  by (simp add: core_inv_def certs_ok_def)

text \<open>The certificate \<open>getCert\<close> hands out is well-formed, and asking for it keeps the invariant.\<close>

lemma getCert_inv:
  assumes "core_inv X M s" and "getCert v n s = (c, s1)" and "v \<le> i_view s"
  shows "core_inv X M s1" "cert_ok (evidence X M s) s v n c" "mget (i_certStore s1) (v, n) = Some c"
    "s1 = s \<or> s1 = setCert v n emptyCert s"
  using assms(2)
  by (atomize(full), cases rule: getCert_cases)
    (use assms in \<open>auto intro!: core_inv_setCert cert_ok_empty simp: cert_ok_stored\<close>)

lemma getCert_step_ok:
  assumes "getCert v n s = (c, s1)" and "v \<le> i_view s"
  shows "step_ok E X s s1"
proof (rule step_okI)
  show "extends E s s1" using assms(1) by (cases rule: getCert_cases) auto
  have "sentMsgs E s1 = sentMsgs E s" using assms(1) by (cases rule: getCert_cases) auto
  then show "core_inv X (sentMsgs E s) s \<Longrightarrow> core_inv X (sentMsgs E s1) s1"
    by (simp only: getCert_inv(1) [OF _ assms])
qed

subsection \<open>What the quorum predicates say\<close>

lemma primary_primaryOf: "config_ok s \<Longrightarrow> primary s v = primaryOf (i_N s) v"
  by (simp add: primary_def primaryOf_def config_ok_def)

lemma intersectionQuorum_quorumOf: "intersectionQuorum s = quorumOf (i_N s) (i_f s)"
  by (simp add: intersectionQuorum_def quorumOf_def)

lemma prePrepared_assigned:
  assumes "certs_ok Ev s" "pqsets_ok Ev s" and "prePrepared s d v n"
  shows "assigned Ev (i_N s) d v n"
  using assms
  by (auto simp: prePrepared_def certs_ok_def cert_ok_def pqsets_ok_def split: if_splits option.splits)

lemma prepareCount_certified:
  assumes "cert_ok Ev s v n c" and "assigned Ev (i_N s) d v n"
    and "quorumOf (i_N s) (i_f s) - 1 \<le> prepareCount c d v n"
  shows "certified Ev (i_N s) (i_f s) d v n"
proof -
  let ?ps = "filter (\<lambda>p. pr_View p = v \<and> pr_SequenceNumber p = n \<and> pr_RequestDigest p = d) (mc_prepare c)"
  let ?R = "set (map pr_ReplicaId ?ps)"
  have "distinct (map pr_ReplicaId ?ps)"
    using assms(1) by (simp add: cert_ok_def distinct_map_filter)
  then have "quorumOf (i_N s) (i_f s) - 1 \<le> card ?R"
    using assms(3) by (simp only: distinct_card length_map prepareCount_def)
  moreover have "\<forall>r \<in> ?R. voted Ev d v n r" "primaryOf (i_N s) v \<notin> ?R"
    using assms(1) by (auto simp: cert_ok_def voted_def)
  ultimately show ?thesis by (intro certifiedI [OF assms(2), of ?R]) simp_all
qed

lemma prepared_certified:
  assumes "certs_ok Ev s" "pqsets_ok Ev s" and "prepared s d v n"
  shows "certified Ev (i_N s) (i_f s) d v n"
proof -
  have a: "assigned Ev (i_N s) d v n"
    using assms prePrepared_assigned by (auto simp: prepared_def split: if_splits)
  show ?thesis
  proof (cases "\<exists>p. mget (i_pset s) n = Some p \<and> pq_View p = v \<and> pq_Digest p = d")
    case True
    with assms(2) show ?thesis by (auto simp: pqsets_ok_def)
  next
    case False
    with assms(3) obtain c where c: "mget (i_certStore s) (v, n) = Some c"
      "intersectionQuorum s - 1 \<le> prepareCount c d v n"
      by (auto simp: prepared_def split: if_splits option.splits)
    moreover from assms(1) c(1) have "cert_ok Ev s v n c" by (simp add: certs_ok_def)
    ultimately show ?thesis
      using prepareCount_certified a by (simp add: intersectionQuorum_quorumOf)
  qed
qed

subsection \<open>Sending\<close>

text \<open>
  The codec of the wire: every message marshals, and the bytes unmarshal to the message they were
  made from.
\<close>

definition codec_ok :: "'w penv \<Rightarrow> bool" where
  "codec_ok E \<longleftrightarrow> (\<forall>m. \<exists>w. e_marshal E m = Inr w \<and> e_unmarshal E w = Inr m)"

definition emit :: "'w penv \<Rightarrow> Message \<Rightarrow> 'w pbftCore \<Rightarrow> 'w pbftCore" where
  "emit E m s = (case e_marshal E m of
     Inl _ \<Rightarrow> s | Inr w \<Rightarrow> act (ABroadcast w) (s\<lparr>i_now := i_now s + 2\<rparr>))"

lemma innerBroadcast_emit:
  assumes "codec_ok E" and "\<not> i_byzantine s"
  shows "innerBroadcast E m toSelf s = (case toSelf of None \<Rightarrow> Inr (emit E m s) | Some deliver \<Rightarrow> deliver (emit E m s))"
proof -
  from assms(1) obtain w where "e_marshal E m = Inr w" unfolding codec_ok_def by blast
  with assms(2) show ?thesis by (simp add: innerBroadcast_def emit_def Let_def split: option.splits)
qed

lemma logs_emit [simp]: "logs (emit E m s) = logs s"
  by (simp add: emit_def split: sum.splits)

lemma sel_logs:
  assumes "logs s' = logs s"
  shows "i_certStore s' = i_certStore s" "i_view s' = i_view s" "i_activeView s' = i_activeView s"
    "i_h s' = i_h s" "i_id s' = i_id s" "i_N s' = i_N s" "i_f s' = i_f s" "i_L s' = i_L s"
    "i_seqNo s' = i_seqNo s" "i_replicaCount s' = i_replicaCount s" "i_byzantine s' = i_byzantine s"
    "i_pset s' = i_pset s" "i_qset s' = i_qset s" "i_newViewStore s' = i_newViewStore s"
  using assms by (simp_all add: logs_def)

lemmas sel_emit [simp] = sel_logs [OF logs_emit]

lemma sentMsgs_emit:
  assumes "codec_ok E"
  shows "sentMsgs E (emit E m s) = insert m (sentMsgs E s)"
proof -
  from assms obtain w where w: "e_marshal E m = Inr w" "e_unmarshal E w = Inr m"
    unfolding codec_ok_def by blast
  have "emit E m s = act (ABroadcast w) (s\<lparr>i_now := i_now s + 2\<rparr>)" by (simp add: emit_def w(1))
  then show ?thesis by (auto simp: sentMsgs_act w(2))
qed

lemma extends_emit: "codec_ok E \<Longrightarrow> extends E s (emit E m s)"
  by (auto simp: extends_def sentMsgs_emit)

lemma core_inv_emit: "core_inv X M (emit E m s) = core_inv X M s"
  by (rule core_inv_logs) simp

text \<open>Evidence only grows.\<close>

lemma cert_ok_mono: "cert_ok Ev s v n c \<Longrightarrow> Ev \<subseteq> Ev' \<Longrightarrow> cert_ok Ev' s v n c"
  unfolding cert_ok_def by (blast intro: assigned_mono)

lemma logs_evidence_mono:
  assumes "certs_ok Ev s" "pqsets_ok Ev s" "newviews_ok Ev s" and "Ev \<subseteq> Ev'"
  shows "certs_ok Ev' s" "pqsets_ok Ev' s" "newviews_ok Ev' s"
proof -
  show "certs_ok Ev' s" using assms(1,4) unfolding certs_ok_def by (blast intro: cert_ok_mono)
  show "pqsets_ok Ev' s"
    using assms(2,4) unfolding pqsets_ok_def by (blast intro: assigned_mono certified_mono)
  show "newviews_ok Ev' s" using assms(3,4) unfolding newviews_ok_def by blast
qed

lemma core_inv_evidence_mono:
  assumes "core_inv X M s" and "X \<subseteq> X'"
  shows "core_inv X' M s"
proof -
  have "evidence X M s \<subseteq> evidence X' M s" using assms(2) by (auto simp: evidence_def)
  with assms(1) logs_evidence_mono [of "evidence X M s" s "evidence X' M s"] show ?thesis
    by (simp only: core_inv_def)
qed

lemma evidence_insert: "evidence X M s \<subseteq> evidence X (insert m M) s"
  by (auto simp: evidence_def)

text \<open>A message that is neither a vote nor an assignment changes nothing but the evidence.\<close>

definition neutral :: "Message \<Rightarrow> bool" where
  "neutral m \<longleftrightarrow> (case m of MPrePrepare _ \<Rightarrow> False | MPrepare _ \<Rightarrow> False | MNewView _ \<Rightarrow> False | _ \<Rightarrow> True)"

lemma core_inv_insert_neutral:
  assumes "core_inv X M s" and "neutral m"
  shows "core_inv X (insert m M) s"
proof -
  have "MPrepare p \<noteq> m" "MPrePrepare q \<noteq> m" "MNewView nv \<noteq> m" for p q nv
    using assms(2) by (auto simp: neutral_def)
  then have "prepares_ok (insert m M) s = prepares_ok M s"
    "preprepares_ok (insert m M) s = preprepares_ok M s" "sentviews_ok (insert m M) s = sentviews_ok M s"
    by (simp_all only: prepares_ok_def preprepares_ok_def sentviews_ok_def insert_iff simp_thms)
  moreover from assms(1) have "certs_ok (evidence X M s) s" "pqsets_ok (evidence X M s) s"
    "newviews_ok (evidence X M s) s" by (simp_all only: core_inv_def)
  note logs_evidence_mono [OF this evidence_insert [of X M s m]]
  ultimately show ?thesis using assms(1) by (simp only: core_inv_def)
qed

lemma emit_step_ok:
  assumes "codec_ok E" and "neutral m"
  shows "step_ok E X s (emit E m s)"
  by (rule step_okI)
    (simp_all add: extends_emit assms sentMsgs_emit core_inv_emit core_inv_insert_neutral)

subsection \<open>Commits\<close>

lemma cert_ok_commit [simp]:
  "cert_ok Ev s v n (c\<lparr>mc_commit := x\<rparr>) = cert_ok Ev s v n c"
  "cert_ok Ev s v n (c\<lparr>mc_sentCommit := b\<rparr>) = cert_ok Ev s v n c"
  by (simp_all add: cert_ok_def)

text \<open>Rewriting the certificate that \<open>getCert\<close> returned.\<close>

lemma update_cert_step_ok:
  assumes "getCert v n s = (c, s1)" and "v \<le> i_view s"
    and "core_inv X (sentMsgs E s) s \<Longrightarrow> cert_ok (evidence X (sentMsgs E s) s) s v n c \<Longrightarrow>
      cert_ok (evidence X (sentMsgs E s) s) s v n c'"
    and "mc_sentPrepare c \<Longrightarrow> mc_sentPrepare c'"
  shows "step_ok E X s (setCert v n c' s1)"
proof (rule step_okI)
  show "extends E s (setCert v n c' s1)" using assms(1) by (cases rule: getCert_cases) (auto simp: extends_def)
next
  assume inv: "core_inv X (sentMsgs E s) s"
  have M: "sentMsgs E (setCert v n c' s1) = sentMsgs E s"
    using assms(1) by (cases rule: getCert_cases) auto
  note g = getCert_inv [OF inv assms(1,2)]
  from g(4) have e: "evidence X (sentMsgs E s) s1 = evidence X (sentMsgs E s) s"
    "cert_ok Ev s1 = cert_ok Ev s" for Ev
    by (elim disjE; simp)+
  show "core_inv X (sentMsgs E (setCert v n c' s1)) (setCert v n c' s1)"
    unfolding M
  proof (rule core_inv_setCert [OF g(1)])
    show "cert_ok (evidence X (sentMsgs E s) s1) s1 v n c'"
      unfolding e by (rule assms(3) [OF inv g(2)])
    show "\<And>c0. mget (i_certStore s1) (v, n) = Some c0 \<Longrightarrow> mc_sentPrepare c0 \<Longrightarrow> mc_sentPrepare c'"
      using g(3) assms(4) by simp
  qed
qed

lemma recvCommit_step_ok:
  assumes "recvCommit commit s = Inr s'"
  shows "step_ok E X s s'"
proof (cases "inWV s (cm_View commit) (cm_SequenceNumber commit)")
  case True
  obtain c s1 where g: "getCert (cm_View commit) (cm_SequenceNumber commit) s = (c, s1)" by fastforce
  from True have v: "cm_View commit \<le> i_view s" by (simp add: inWV_def)
  let ?s2 = "setCert (cm_View commit) (cm_SequenceNumber commit) (c\<lparr>mc_commit := mc_commit c @ [commit]\<rparr>) s1"
  have "step_ok E X s ?s2" by (rule update_cert_step_ok [OF g v]) simp_all
  moreover have "step_ok E X s s1" by (rule getCert_step_ok [OF g v])
  ultimately show ?thesis
    using assms True executeOutstanding_step_ok [of ?s2 s' E X]
    by (auto simp: recvCommit_def g intro: step_ok_trans split: if_splits)
next
  case False
  with assms show ?thesis by (simp add: recvCommit_def)
qed

lemma maybeSendCommit_step_ok:
  assumes "codec_ok E" and "maybeSendCommit E d v n s = Inr s'" and "v \<le> i_view s"
  shows "step_ok E X s s'"
proof (cases "i_byzantine s")
  case False
  obtain c s1 where g: "getCert v n s = (c, s1)" by fastforce
  then have same: "i_byzantine s1 = i_byzantine s" "i_id s1 = i_id s"
    by (cases rule: getCert_cases; simp)+
  let ?m = "\<lparr>cm_View = v, cm_SequenceNumber = n, cm_RequestDigest = d, cm_ReplicaId = i_id s\<rparr>"
  let ?s2 = "setCert v n (c\<lparr>mc_sentCommit := True\<rparr>) s1"
  show ?thesis
  proof (cases "prepared s1 d v n \<and> \<not> mc_sentCommit c")
    case True
    with assms(2) False same have "recvCommit ?m (emit E (MCommit ?m) ?s2) = Inr s'"
      by (simp add: maybeSendCommit_def Let_def g innerBroadcast_emit [OF assms(1)] fromSender_def split: if_splits)
    moreover have "step_ok E X s ?s2" by (rule update_cert_step_ok [OF g assms(3)]) simp_all
    moreover have "step_ok E X ?s2 (emit E (MCommit ?m) ?s2)"
      by (rule emit_step_ok [OF assms(1)]) (simp add: neutral_def)
    ultimately show ?thesis by (meson step_ok_trans recvCommit_step_ok)
  next
    case F: False
    with assms(2) have "s' = s1" by (auto simp: maybeSendCommit_def g)
    then show ?thesis using getCert_step_ok [OF g assms(3)] by simp
  qed
qed (simp add: step_ok_def)

end
