(* ===== verification/PbftHandlers.thy ===== *)
theory PbftHandlers
  imports PbftInv
begin

text \<open>
  Every handler of the normal case keeps the invariant of \<open>PbftInv\<close>: prepares, pre-prepares,
  requests, the move of the watermarks and the handling of checkpoints.
\<close>

subsection \<open>The watermark window\<close>

lemma inW_above:
  assumes "inW s n" and "unat (i_h s) + unat (i_L s) < 2 ^ 64"
  shows "i_h s < n"
proof -
  let ?d = "n - i_h s"
  have "unat ?d \<le> unat (i_L s)" "0 < unat ?d"
    using assms(1) by (simp_all add: inW_def word_le_nat_alt word_less_nat_alt)
  moreover have "unat n = (unat (i_h s) + unat ?d) mod 2 ^ 64"
    using unat_word_ariths(1) [of "i_h s" ?d] by simp
  then have "unat n = unat (i_h s) + unat ?d"
    using assms(2) \<open>unat ?d \<le> unat (i_L s)\<close> by simp
  ultimately show ?thesis by (simp add: word_less_nat_alt)
qed

lemma less_succ_word: "(x :: u64) + 1 \<noteq> 0 \<Longrightarrow> x < x + 1"
  using unatSuc [of x] by (simp add: word_less_nat_alt add.commute)

lemma inW_bound:
  assumes "inW s n" and "unat (i_h s) + unat (i_L s) < 2 ^ 64"
  shows "unat (i_h s) < unat n" "unat n \<le> unat (i_h s) + unat (i_L s)"
proof -
  show "unat (i_h s) < unat n" using inW_above [OF assms] by (simp add: word_less_nat_alt)
  then have "unat (n - i_h s) = unat n - unat (i_h s)"
    by (intro unat_sub) (simp add: word_le_nat_alt)
  with assms(1) show "unat n \<le> unat (i_h s) + unat (i_L s)"
    unfolding inW_def word_le_nat_alt by linarith
qed

subsection \<open>Prepares\<close>

lemma getCert_flagged:
  assumes "getCert v n s = (c, s1)" and "flagged s v n"
  shows "mc_sentPrepare c"
  using assms(1) by (cases rule: getCert_cases) (use assms(2) in \<open>auto simp: flagged_def\<close>)

lemma cert_ok_add_prepare:
  assumes "cert_ok Ev s v n c" and "pr_View p = v" "pr_SequenceNumber p = n"
    and "pr_ReplicaId p \<noteq> primaryOf (i_N s) v" and "(pr_ReplicaId p, MPrepare p) \<in> Ev"
    and "pr_ReplicaId p = i_id s \<longrightarrow> mc_sentPrepare c"
    and "pr_ReplicaId p \<notin> pr_ReplicaId ` set (mc_prepare c)"
  shows "cert_ok Ev s v n (c\<lparr>mc_prepare := mc_prepare c @ [p]\<rparr>)"
  using assms by (simp add: cert_ok_def)

lemma recvPrepare_step_ok:
  assumes "codec_ok E" and "recvPrepare E p s = Inr s'"
    and "(pr_ReplicaId p, MPrepare p) \<in> evidence X (sentMsgs E s) s"
    and "pr_ReplicaId p = i_id s \<longrightarrow> flagged s (pr_View p) (pr_SequenceNumber p)"
  shows "step_ok E X s s'"
proof (cases "primary s (pr_View p) \<noteq> pr_ReplicaId p \<and> inWV s (pr_View p) (pr_SequenceNumber p)")
  case True
  obtain c s1 where g: "getCert (pr_View p) (pr_SequenceNumber p) s = (c, s1)" by fastforce
  from True have v: "pr_View p \<le> i_view s" by (simp add: inWV_def)
  let ?c = "c\<lparr>mc_prepare := mc_prepare c @ [p]\<rparr>"
  let ?s2 = "setCert (pr_View p) (pr_SequenceNumber p) ?c s1"
  show ?thesis
  proof (cases "\<exists>q \<in> set (mc_prepare c). pr_ReplicaId q = pr_ReplicaId p")
    case dup: True
    with assms(2) True have "s' = s1" by (simp add: recvPrepare_def g)
    then show ?thesis using getCert_step_ok [OF g v] by simp
  next
    case False
    with assms(2) True have m: "maybeSendCommit E (pr_RequestDigest p) (pr_View p) (pr_SequenceNumber p) ?s2 = Inr s'"
      by (simp add: recvPrepare_def g)
    have "step_ok E X s ?s2"
    proof (rule update_cert_step_ok [OF g v])
      assume inv: "core_inv X (sentMsgs E s) s"
        and c: "cert_ok (evidence X (sentMsgs E s) s) s (pr_View p) (pr_SequenceNumber p) c"
      have "pr_ReplicaId p \<noteq> primaryOf (i_N s) (pr_View p)"
        using True inv primary_primaryOf [of s] by (auto simp: core_inv_def)
      moreover have "pr_ReplicaId p = i_id s \<longrightarrow> mc_sentPrepare c"
        using assms(4) getCert_flagged [OF g] by blast
      ultimately show "cert_ok (evidence X (sentMsgs E s) s) s (pr_View p) (pr_SequenceNumber p) ?c"
        using False by (intro cert_ok_add_prepare [OF c refl refl _ assms(3)]) force+
    qed simp
    moreover have "pr_View p \<le> i_view ?s2" using g v by (cases rule: getCert_cases) simp_all
    then have "step_ok E X ?s2 s'" by (rule maybeSendCommit_step_ok [OF assms(1) m])
    ultimately show ?thesis by (rule step_ok_trans)
  qed
next
  case False
  with assms(2) have "s' = s" unfolding recvPrepare_def
    by (cases "primary s (pr_View p) = pr_ReplicaId p"; simp)
  then show ?thesis by simp
qed

text \<open>
  A replica that votes for a number for the first time: the vote is recorded as sent together with
  the mark in the certificate.
\<close>

lemma insert_prepare_others [simp]:
  "preprepares_ok (insert (MPrepare p) M) s = preprepares_ok M s"
  "sentviews_ok (insert (MPrepare p) M) s = sentviews_ok M s"
  by (simp_all add: preprepares_ok_def sentviews_ok_def)

lemma setCert_others [simp]:
  "config_ok (setCert v n c s) = config_ok s"
  "pqsets_ok Ev (setCert v n c s) = pqsets_ok Ev s" "newviews_ok Ev (setCert v n c s) = newviews_ok Ev s"
  "preprepares_ok M (setCert v n c s) = preprepares_ok M s" "sentviews_ok M (setCert v n c s) = sentviews_ok M s"
  by (simp_all add: config_ok_def pqsets_ok_def newviews_ok_def preprepares_ok_def sentviews_ok_def)

lemma core_inv_vote:
  assumes inv: "core_inv X M s"
    and p: "pr_View p = i_view s" "i_activeView s"
    and fresh: "\<And>q. MPrepare q \<in> M \<Longrightarrow> pr_View q = pr_View p \<Longrightarrow> pr_SequenceNumber q \<noteq> pr_SequenceNumber p"
    and c: "cert_ok (evidence X (insert (MPrepare p) M) s) s (pr_View p) (pr_SequenceNumber p) c" "mc_sentPrepare c"
  shows "core_inv X (insert (MPrepare p) M) (setCert (pr_View p) (pr_SequenceNumber p) c s)"
proof -
  let ?s = "setCert (pr_View p) (pr_SequenceNumber p) c s"
  let ?Ev = "evidence X (insert (MPrepare p) M) s"
  from inv have "certs_ok (evidence X M s) s" "pqsets_ok (evidence X M s) s" "newviews_ok (evidence X M s) s"
    by (simp_all only: core_inv_def)
  note ev = logs_evidence_mono [OF this evidence_insert [of X M s "MPrepare p"]]
  have "certs_ok ?Ev ?s" using ev(1) c(1) unfolding certs_ok_def cert_ok_setCert by auto
  moreover have "prepares_ok (insert (MPrepare p) M) ?s"
  proof -
    have fl: "flagged ?s (pr_View p) (pr_SequenceNumber p)" using c(2) by (simp add: flagged_def)
    have old: "flagged ?s v n" if "flagged s v n" for v n
      using that c(2) by (auto simp: flagged_def split: option.splits)
    from inv have ok: "prepares_ok M s" by (simp only: core_inv_def)
    show ?thesis unfolding prepares_ok_def sel_setCert
    proof (intro conjI allI impI)
      fix q assume "MPrepare q \<in> insert (MPrepare p) M"
      then consider "q = p" | "MPrepare q \<in> M" by auto
      then show "pr_View q \<le> i_view s" "pr_View q = i_view s \<Longrightarrow> i_activeView s"
        "pr_View q = i_view s \<Longrightarrow> pr_SequenceNumber q \<le> i_h s \<or> flagged ?s (pr_View q) (pr_SequenceNumber q)"
        using p fl old ok unfolding prepares_ok_def by (cases; metis order_refl)+
    next
      fix q q' assume "MPrepare q \<in> insert (MPrepare p) M" "MPrepare q' \<in> insert (MPrepare p) M"
        and e: "pr_View q = pr_View q'" "pr_SequenceNumber q = pr_SequenceNumber q'"
      then consider "q = q'" | "q = p" "MPrepare q' \<in> M" | "q' = p" "MPrepare q \<in> M"
        | "MPrepare q \<in> M" "MPrepare q' \<in> M" by auto
      then show "pr_RequestDigest q = pr_RequestDigest q'"
        using e fresh ok unfolding prepares_ok_def by cases metis+
    qed
  qed
  ultimately show ?thesis using inv ev unfolding core_inv_def by simp
qed

lemma fresh_above:
  assumes "core_inv X M s" and "i_h s < n" and "\<not> flagged s (i_view s) n"
    and "MPrepare q \<in> M" and "pr_View q = i_view s"
  shows "pr_SequenceNumber q \<noteq> n"
  using assms unfolding core_inv_def prepares_ok_def by (metis leD)

subsection \<open>Pre-prepares\<close>

lemma storePrePrepare_step_ok:
  assumes "(primaryOf (i_N s) (pp_View pp), MPrePrepare pp) \<in> X"
    and "i_activeView s" and "pp_View pp = i_view s"
  shows "step_ok E X s (storePrePrepare pp s)"
proof -
  obtain c s1 where g: "getCert (pp_View pp) (pp_SequenceNumber pp) s = (c, s1)" by fastforce
  have v: "pp_View pp \<le> i_view s" using assms(3) by simp
  let ?s2 = "setCert (pp_View pp) (pp_SequenceNumber pp) (c\<lparr>mc_prePrepare := Some pp\<rparr>) s1"
  have "step_ok E X s ?s2"
  proof (rule update_cert_step_ok [OF g v])
    assume "cert_ok (evidence X (sentMsgs E s) s) s (pp_View pp) (pp_SequenceNumber pp) c"
    moreover have "assigned (evidence X (sentMsgs E s) s) (i_N s) (pp_RequestDigest pp) (pp_View pp) (pp_SequenceNumber pp)"
      using assms(1) by (auto simp: assigned_def evidence_def)
    ultimately show "cert_ok (evidence X (sentMsgs E s) s) s (pp_View pp) (pp_SequenceNumber pp) (c\<lparr>mc_prePrepare := Some pp\<rparr>)"
      using assms(2) by (simp add: cert_ok_def)
  qed simp
  moreover have "step_ok E X s s1" by (rule getCert_step_ok [OF g v])
  ultimately show ?thesis by (simp add: storePrePrepare_def g split: option.splits)
qed

lemma storePrePrepare_sel [simp]:
  "i_view (storePrePrepare pp s) = i_view s" "i_activeView (storePrePrepare pp s) = i_activeView s"
  "i_h (storePrePrepare pp s) = i_h s" "i_L (storePrePrepare pp s) = i_L s"
  "i_id (storePrePrepare pp s) = i_id s" "i_byzantine (storePrePrepare pp s) = i_byzantine s"
  by (auto simp: storePrePrepare_def getCert_def setCert_def split: option.splits prod.splits)

lemma storeCarriedRequest_logs:
  assumes "storeCarriedRequest E pp s = Inr (go, s')"
  shows "logs s' = logs s" "sentMsgs E s' = sentMsgs E s"
  using assms by (auto simp: storeCarriedRequest_def Let_def split: if_splits option.splits)

text \<open>The vote that \<open>recvPrePrepare\<close> casts.\<close>

lemma vote_step_ok:
  assumes codec: "codec_ok E" and g: "getCert v n s = (c, s1)"
    and w: "inWV s v n" "i_activeView s" "\<not> mc_sentPrepare c"
    and b: "broadcastPrepare E \<lparr>pr_View = v, pr_SequenceNumber = n, pr_RequestDigest = d, pr_ReplicaId = i_id s1\<rparr>
      (setCert v n (c\<lparr>mc_sentPrepare := True\<rparr>) s1) = Inr s'"
  shows "step_ok E X s s'"
proof (cases "i_byzantine s")
  case False
  let ?p = "\<lparr>pr_View = v, pr_SequenceNumber = n, pr_RequestDigest = d, pr_ReplicaId = i_id s1\<rparr>"
  let ?c = "c\<lparr>mc_sentPrepare := True\<rparr>"
  let ?s2 = "setCert v n ?c s1"
  let ?s3 = "emit E (MPrepare ?p) ?s2"
  from w(1) have v: "v = i_view s" "inW s n" by (simp_all add: inWV_def)
  have s1: "s1 = s \<or> s1 = setCert v n emptyCert s" using g by (cases rule: getCert_cases) auto
  then have same: "i_byzantine s1 = i_byzantine s" "i_id s1 = i_id s" "i_view s1 = i_view s"
    "i_activeView s1 = i_activeView s" "sentMsgs E s1 = sentMsgs E s" "i_h s1 = i_h s" "i_L s1 = i_L s"
    by auto
  from b False have r: "recvPrepare E ?p ?s3 = Inr s'"
    by (simp add: broadcastPrepare_def innerBroadcast_emit [OF codec] same fromSender_def)
  have "step_ok E X s ?s3"
  proof (rule step_okI)
    show "extends E s ?s3"
      using s1 extends_emit [OF codec] extends_trans extends_setCert by (metis (no_types, lifting))
  next
    assume ir: "in_range (sentMsgs E ?s3) ?s3" and inv: "core_inv X (sentMsgs E s) s"
    have inv1: "core_inv X (sentMsgs E s) s1" and c: "cert_ok (evidence X (sentMsgs E s) s) s v n c"
      and c1: "mget (i_certStore s1) (v, n) = Some c"
      using getCert_inv [OF inv g] v(1) by simp_all
    from ir have "unat (i_h s) + unat (i_L s) < 2 ^ 64" by (simp add: in_range_def same)
    then have "i_h s1 < n" using inW_above [OF v(2)] same by simp
    moreover have "\<not> flagged s1 (i_view s1) n" using c1 w(3) same v(1) by (simp add: flagged_def)
    ultimately have fresh: "pr_SequenceNumber q \<noteq> n" if "MPrepare q \<in> sentMsgs E s" "pr_View q = v" for q
      using fresh_above [OF inv1] that same v(1) by metis
    have "core_inv X (insert (MPrepare ?p) (sentMsgs E s)) (setCert (pr_View ?p) (pr_SequenceNumber ?p) ?c s1)"
    proof (rule core_inv_vote [OF inv1])
      have "evidence X (sentMsgs E s) s \<subseteq> evidence X (insert (MPrepare ?p) (sentMsgs E s)) s1"
        using same by (auto simp: evidence_def)
      then have "cert_ok (evidence X (insert (MPrepare ?p) (sentMsgs E s)) s1) s v n c"
        by (rule cert_ok_mono [OF c])
      then show "cert_ok (evidence X (insert (MPrepare ?p) (sentMsgs E s)) s1) s1 (pr_View ?p) (pr_SequenceNumber ?p) ?c"
        using s1 w(2) by (auto simp: cert_ok_def)
    qed (use fresh v w(2) same in auto)
    then show "core_inv X (sentMsgs E ?s3) ?s3"
      by (simp add: core_inv_emit sentMsgs_emit [OF codec] same)
  qed
  moreover have "step_ok E X ?s3 s'"
    by (rule recvPrepare_step_ok [OF codec r])
      (simp_all add: evidence_def sentMsgs_emit [OF codec] same flagged_def)
  ultimately show ?thesis by (rule step_ok_trans)
qed (simp add: step_ok_def)

lemma recvPrePrepare_step_ok:
  assumes codec: "codec_ok E" and r: "recvPrePrepare E pp s = Inr s'"
    and X: "(pp_ReplicaId pp, MPrePrepare pp) \<in> X" and cfg: "config_ok s"
  shows "step_ok E X s s'"
proof (cases "i_activeView s \<and> primary s (i_view s) = pp_ReplicaId pp \<and> inWV s (pp_View pp) (pp_SequenceNumber pp)")
  case True
  let ?v = "pp_View pp" and ?n = "pp_SequenceNumber pp"
  let ?s0 = "storePrePrepare pp s"
  from True have v: "?v = i_view s" by (simp add: inWV_def)
  have a: "step_ok E X s ?s0"
    using storePrePrepare_step_ok X True v primary_primaryOf [OF cfg] by metis
  from r True obtain go s1 where st: "storeCarriedRequest E pp ?s0 = Inr (go, s1)"
    by (auto simp: recvPrePrepare_def Let_def rbind_Inr_conv)
  note lg = storeCarriedRequest_logs [OF st]
  have b: "step_ok E X ?s0 s1" by (rule step_ok_logs [OF lg])
  define s2 where "s2 = (if \<not> i_timerActive s1 then startTimer (i_requestTimeout s1) s1 else s1)"
  have lg2: "logs s2 = logs s1" "sentMsgs E s2 = sentMsgs E s1" by (simp_all add: s2_def)
  have c: "step_ok E X s1 s2" by (rule step_ok_logs [OF lg2])
  have l: "logs s2 = logs ?s0" using lg lg2 by simp
  obtain ct s3 where g: "getCert ?v ?n s2 = (ct, s3)" by fastforce
  have same: "i_view s2 = i_view s" "i_activeView s2 = i_activeView s" "i_h s2 = i_h s" "i_L s2 = i_L s"
    using sel_logs [OF l] by simp_all
  have d: "step_ok E X s2 s3" by (rule getCert_step_ok [OF g]) (simp add: v same)
  show ?thesis
  proof (cases "go \<and> primary s3 (i_view s3) \<noteq> i_id s3 \<and> prePrepared s3 (pp_RequestDigest pp) ?v ?n \<and> \<not> mc_sentPrepare ct")
    case vote: True
    with r True st g have "broadcastPrepare E \<lparr>pr_View = ?v, pr_SequenceNumber = ?n,
        pr_RequestDigest = pp_RequestDigest pp, pr_ReplicaId = i_id s3\<rparr>
        (setCert ?v ?n (ct\<lparr>mc_sentPrepare := True\<rparr>) s3) = Inr s'"
      by (simp add: recvPrePrepare_def Let_def s2_def [symmetric])
    moreover have "inWV s2 ?v ?n" "i_activeView s2"
      using True same by (simp_all add: inWV_def inW_def)
    ultimately have "step_ok E X s2 s'" using vote_step_ok [OF codec g] vote by blast
    with a b c show ?thesis by (meson step_ok_trans)
  next
    case no_vote: False
    with r True st g have "s' = s1 \<or> s' = s3"
      by (auto simp: recvPrePrepare_def Let_def s2_def [symmetric] split: if_splits)
    with a b c d show ?thesis by (meson step_ok_trans)
  qed
next
  case False
  with r have "s' = s" unfolding recvPrePrepare_def Let_def
    by (cases "i_activeView s"; cases "primary s (i_view s) = pp_ReplicaId pp"; simp)
  then show ?thesis by simp
qed

subsection \<open>Requests\<close>

text \<open>The primary assigns the next number: no earlier assignment of the view has it.\<close>

lemma seqNo_others [simp]:
  "config_ok (s\<lparr>i_seqNo := x\<rparr>) = config_ok s" "certs_ok Ev (s\<lparr>i_seqNo := x\<rparr>) = certs_ok Ev s"
  "pqsets_ok Ev (s\<lparr>i_seqNo := x\<rparr>) = pqsets_ok Ev s" "newviews_ok Ev (s\<lparr>i_seqNo := x\<rparr>) = newviews_ok Ev s"
  "prepares_ok M (s\<lparr>i_seqNo := x\<rparr>) = prepares_ok M s" "evidence X M (s\<lparr>i_seqNo := x\<rparr>) = evidence X M s"
  by (simp_all add: config_ok_def certs_ok_def cert_ok_def pqsets_ok_def newviews_ok_def prepares_ok_def
      flagged_def evidence_def)

lemma insert_preprepare_prepares [simp]: "prepares_ok (insert (MPrePrepare p) M) s = prepares_ok M s"
  by (simp add: prepares_ok_def)

lemma preprepares_ok_assign:
  assumes pp: "preprepares_ok M s"
    and p: "pp_View p = i_view s" "i_activeView s" "pp_SequenceNumber p = i_seqNo s + 1"
    and nowrap: "i_seqNo s < i_seqNo s + 1"
  shows "preprepares_ok (insert (MPrePrepare p) M) (s\<lparr>i_seqNo := i_seqNo s + 1\<rparr>)"
    (is "preprepares_ok ?M ?s")
proof -
  have new: "pp_SequenceNumber q < pp_SequenceNumber p" if "MPrePrepare q \<in> M" "pp_View q = pp_View p" for q
    using pp that p nowrap unfolding preprepares_ok_def by (metis le_less_trans)
  show ?thesis
    unfolding preprepares_ok_def
  proof (intro conjI allI impI)
    fix q assume "MPrePrepare q \<in> ?M"
    then consider "q = p" | "MPrePrepare q \<in> M" by auto
    then have "pp_View q \<le> i_view s \<and> (pp_View q = i_view s \<longrightarrow> pp_SequenceNumber q \<le> i_seqNo s + 1)"
    proof cases
      case 1
      with p show ?thesis by simp
    next
      case 2
      with pp new [OF 2] p show ?thesis unfolding preprepares_ok_def by (metis less_imp_le)
    qed
    with p(2) show "pp_View q \<le> i_view ?s" "pp_View q = i_view ?s \<Longrightarrow> i_activeView ?s"
      "pp_View q = i_view ?s \<Longrightarrow> pp_SequenceNumber q \<le> i_seqNo ?s"
      by simp_all
  next
    fix q q' assume "MPrePrepare q \<in> ?M" "MPrePrepare q' \<in> ?M"
      and e: "pp_View q = pp_View q'" "pp_SequenceNumber q = pp_SequenceNumber q'"
    then consider "q = q'" | "q = p" "MPrePrepare q' \<in> M" | "q' = p" "MPrePrepare q \<in> M"
      | "MPrePrepare q \<in> M" "MPrePrepare q' \<in> M" by auto
    then show "pp_RequestDigest q = pp_RequestDigest q'"
      using e new pp unfolding preprepares_ok_def by cases (metis less_irrefl)+
  qed
qed

lemma sentviews_ok_assign:
  assumes sv: "sentviews_ok M s"
    and p: "pp_View p = i_view s" "i_activeView s" "pp_SequenceNumber p = i_seqNo s + 1"
    and nowrap: "i_seqNo s < i_seqNo s + 1"
  shows "sentviews_ok (insert (MPrePrepare p) M) (s\<lparr>i_seqNo := i_seqNo s + 1\<rparr>)"
    (is "sentviews_ok ?M ?s")
proof -
  have newv: "n < pp_SequenceNumber p"
    if "MNewView nv \<in> M" "0 < nv_View nv" "nv_View nv = pp_View p" "mget (nv_Xset nv) n = Some d" for nv n d
    using sv that p nowrap unfolding sentviews_ok_def by (metis le_less_trans)
  show ?thesis
    unfolding sentviews_ok_def
  proof (intro conjI allI impI)
    fix nv assume "MNewView nv \<in> ?M" "0 < nv_View nv"
    then show "nv_View nv \<le> i_view ?s"
      "nv_View nv = i_view ?s \<Longrightarrow> mget (i_newViewStore ?s) (i_view ?s) = Some nv"
      "\<And>n d. nv_View nv = i_view ?s \<Longrightarrow> i_activeView ?s \<Longrightarrow> mget (nv_Xset nv) n = Some d \<Longrightarrow> n \<le> i_seqNo ?s"
      using sv newv p unfolding sentviews_ok_def by (simp_all add: less_imp_le)
  next
    fix nv nv' assume "MNewView nv \<in> ?M" "MNewView nv' \<in> ?M" "0 < nv_View nv" "nv_View nv = nv_View nv'"
    then show "nv = nv'" using sv unfolding sentviews_ok_def by simp
  next
    fix nv q assume "MNewView nv \<in> ?M" "MPrePrepare q \<in> ?M" "0 < nv_View nv" "nv_View nv = pp_View q"
    then show "mget (nv_Xset nv) (pp_SequenceNumber q) = None"
      using sv newv unfolding sentviews_ok_def by (cases "mget (nv_Xset nv) (pp_SequenceNumber q)") auto
  qed
qed

lemma core_inv_assign:
  assumes inv: "core_inv X M s"
    and p: "pp_View p = i_view s" "i_activeView s" "pp_SequenceNumber p = i_seqNo s + 1"
    and nowrap: "i_seqNo s < i_seqNo s + 1"
  shows "core_inv X (insert (MPrePrepare p) M) (s\<lparr>i_seqNo := i_seqNo s + 1\<rparr>)"
proof -
  from inv have "certs_ok (evidence X M s) s" "pqsets_ok (evidence X M s) s" "newviews_ok (evidence X M s) s"
    by (simp_all only: core_inv_def)
  note ev = logs_evidence_mono [OF this evidence_insert [of X M s "MPrePrepare p"]]
  from inv have "preprepares_ok M s" "sentviews_ok M s" by (simp_all only: core_inv_def)
  from preprepares_ok_assign [OF this(1) p nowrap] sentviews_ok_assign [OF this(2) p nowrap]
  show ?thesis using inv ev unfolding core_inv_def by simp
qed

text \<open>The primary gives a request the next sequence number and broadcasts its pre-prepare.\<close>

lemma assign_request_step_ok:
  assumes codec: "codec_ok E" and g: "getCert (i_view s) (i_seqNo s + 1) (s\<lparr>i_seqNo := i_seqNo s + 1\<rparr>) = (c, s3)"
    and True: "primary s (i_view s) = i_id s \<and> i_activeView s \<and> inWV s (i_view s) (i_seqNo s + 1) \<and>
      \<not> haveOther s d (i_seqNo s + 1)"
    and p_def: "p = \<lparr>pp_View = i_view s, pp_SequenceNumber = i_seqNo s + 1, pp_RequestDigest = d,
      pp_Request = Some req, pp_ReplicaId = i_id s\<rparr>"
  shows "step_ok E X s (emit E (MPrePrepare p) (setCert (i_view s) (i_seqNo s + 1) (c\<lparr>mc_prePrepare := Some p\<rparr>) s3))"
    (is "step_ok E X s ?s5")
proof (rule step_okI)
  let ?v = "i_view s" and ?n = "i_seqNo s + 1" and ?sq = "s\<lparr>i_seqNo := i_seqNo s + 1\<rparr>"
  have s3: "s3 = ?sq \<or> s3 = setCert ?v ?n emptyCert ?sq" using g by (cases rule: getCert_cases) auto
  show "extends E s ?s5"
    using s3 by (auto simp: extends_def sentMsgs_emit [OF codec])
  assume ir: "in_range (sentMsgs E ?s5) ?s5" and inv: "core_inv X (sentMsgs E s) s"
  let ?M = "insert (MPrePrepare p) (sentMsgs E s)"
  have same: "i_h s3 = i_h s" "i_L s3 = i_L s" "i_activeView s3 = i_activeView s" "sentMsgs E s3 = sentMsgs E s"
    "i_N s3 = i_N s" "i_id s3 = i_id s"
    using s3 by auto
  from ir have "unat (i_h s) + unat (i_L s) < 2 ^ 64" by (simp add: in_range_def same)
  then have "i_h s < ?n" using True inW_above by (auto simp: inWV_def)
  then have "?n \<noteq> 0" by auto
  then have nowrap: "i_seqNo s < ?n" by (simp add: less_succ_word)
  have inv1: "core_inv X ?M ?sq"
    by (rule core_inv_assign [OF inv]) (use True nowrap in \<open>simp_all add: p_def\<close>)
  have v: "?v \<le> i_view ?sq" by simp
  note gi = getCert_inv [OF inv1 g v]
  have "primaryOf (i_N s) ?v = i_id s"
    using True inv primary_primaryOf [of s] by (auto simp: core_inv_def)
  then have "assigned (evidence X ?M ?sq) (i_N s) d ?v ?n"
    by (auto simp: assigned_def evidence_def p_def)
  then have "cert_ok (evidence X ?M ?sq) ?sq ?v ?n (c\<lparr>mc_prePrepare := Some p\<rparr>)"
    using gi(2) True by (simp add: cert_ok_def p_def)
  then have "cert_ok (evidence X ?M s3) s3 ?v ?n (c\<lparr>mc_prePrepare := Some p\<rparr>)"
    using s3 by auto
  then have "core_inv X ?M (setCert ?v ?n (c\<lparr>mc_prePrepare := Some p\<rparr>) s3)"
    by (rule core_inv_setCert [OF gi(1)]) (use gi(3) in simp)
  then show "core_inv X (sentMsgs E ?s5) ?s5"
    by (simp add: core_inv_emit sentMsgs_emit [OF codec] same)
qed

lemma recvRequest_step_ok:
  assumes codec: "codec_ok E" and r: "recvRequest E req s = Inr s'"
  shows "step_ok E X s s'"
proof (cases "i_byzantine s \<or> \<not> e_validate E (rq_Payload req)")
  case False
  let ?d = "hashReq E (Some req)"
  define s1 where "s1 = s\<lparr>i_reqStore := mput ?d req (i_reqStore s), i_outstandingReqs := mput ?d req (i_outstandingReqs s)\<rparr>"
  define s2 where "s2 = (if \<not> i_timerActive s1 \<and> i_activeView s1 then startTimer (i_requestTimeout s1) s1 else s1)"
  let ?v = "i_view s2" and ?n = "i_seqNo s2 + 1"
  have l: "logs s2 = logs s" "sentMsgs E s2 = sentMsgs E s" by (simp_all add: s2_def s1_def)
  have a: "step_ok E X s s2" by (rule step_ok_logs [OF l])
  show ?thesis
  proof (cases "primary s2 ?v = i_id s2 \<and> i_activeView s2 \<and> inWV s2 ?v ?n \<and> \<not> haveOther s2 ?d ?n")
    case True
    define p where "p = \<lparr>pp_View = ?v, pp_SequenceNumber = ?n, pp_RequestDigest = ?d,
                          pp_Request = Some req, pp_ReplicaId = i_id s2\<rparr>"
    let ?sq = "s2\<lparr>i_seqNo := ?n\<rparr>"
    obtain c s3 where g: "getCert ?v ?n ?sq = (c, s3)" by fastforce
    let ?s4 = "setCert ?v ?n (c\<lparr>mc_prePrepare := Some p\<rparr>) s3"
    let ?s5 = "emit E (MPrePrepare p) ?s4"
    have s3: "s3 = ?sq \<or> s3 = setCert ?v ?n emptyCert ?sq" using g by (cases rule: getCert_cases) auto
    have byz: "\<not> i_byzantine ?s4" using s3 False sel_logs [OF l(1)] by auto
    have m: "maybeSendCommit E ?d ?v ?n ?s5 = Inr s'"
      using r False True innerBroadcast_emit [OF codec byz] g
      by (simp add: recvRequest_def Let_def s1_def [symmetric] s2_def [symmetric] p_def [symmetric])
    have "step_ok E X s2 ?s5" by (rule assign_request_step_ok [OF codec g True p_def])
    moreover have "?v \<le> i_view ?s5" using s3 by auto
    then have "step_ok E X ?s5 s'" by (rule maybeSendCommit_step_ok [OF codec m])
    ultimately show ?thesis using a by (meson step_ok_trans)
  next
    case no: False
    with r False have "s' = s2"
      unfolding recvRequest_def Let_def s1_def [symmetric] s2_def [symmetric] by auto
    with a show ?thesis by simp
  qed
next
  case True
  with r show ?thesis by (auto simp: recvRequest_def step_ok_def)
qed

lemma resubmitRequests_step_ok:
  assumes "codec_ok E" and "resubmitRequests E s = Inr s'"
  shows "step_ok E X s s'"
proof (cases "primary s (i_view s) \<noteq> i_id s")
  case True
  with assms(2) show ?thesis by (simp add: resubmitRequests_def)
next
  case False
  show ?thesis
  proof (rule rfold_step_ok)
    show "rfold (\<lambda>s d. case mget (i_outstandingReqs s) d of
          None \<Rightarrow> Inr s
        | Some req \<Rightarrow>
            if \<exists>cert \<in> snd ` set (i_certStore s). map_option pp_RequestDigest (mc_prePrepare cert) = Some d
            then Inr s
            else recvRequest E req s) (map fst (i_outstandingReqs s)) s = Inr s'"
      using assms(2) False unfolding resubmitRequests_def by simp
  qed (auto split: option.splits if_splits intro: recvRequest_step_ok [OF assms(1)])
qed

subsection \<open>Watermarks\<close>

text \<open>The state of \<open>moveWatermarks\<close> before the requests are resubmitted.\<close>

definition belowRemoved :: "u64 \<Rightarrow> 'w pbftCore \<Rightarrow> 'w pbftCore" where
  "belowRemoved h s = s\<lparr>i_certStore := filter (\<lambda>(idx, cert). \<not> snd idx \<le> h) (i_certStore s),
     i_pset := filter (\<lambda>(n, p). \<not> n \<le> h) (i_pset s), i_qset := filter (\<lambda>(idx, q). \<not> snd idx \<le> h) (i_qset s),
     i_h := h\<rparr>"

lemma sentMsgs_belowRemoved [simp]: "sentMsgs E (belowRemoved h s) = sentMsgs E s"
  by (simp add: belowRemoved_def)

lemma core_inv_belowRemoved:
  assumes inv: "core_inv X M s" and "i_h s \<le> h"
  shows "core_inv X M (belowRemoved h s)"
proof -
  let ?s = "belowRemoved h s"
  have sel: "i_view ?s = i_view s" "i_activeView ?s = i_activeView s" "i_id ?s = i_id s" "i_N ?s = i_N s"
    "i_f ?s = i_f s" "i_newViewStore ?s = i_newViewStore s" "i_seqNo ?s = i_seqNo s" "i_h ?s = h"
    "i_replicaCount ?s = i_replicaCount s" "i_byzantine ?s = i_byzantine s"
    by (simp_all add: belowRemoved_def)
  have ev: "evidence X M ?s = evidence X M s" by (simp add: evidence_def sel)
  have co: "cert_ok Ev ?s = cert_ok Ev s" for Ev by (intro ext) (simp add: cert_ok_def sel)
  have cs: "mget (i_certStore ?s) (v, n) = (if n \<le> h then None else mget (i_certStore s) (v, n))" for v n
    by (simp add: belowRemoved_def mget_filter_keys)
  have ps: "mget (i_pset ?s) n = (if n \<le> h then None else mget (i_pset s) n)"
    "mget (i_qset ?s) (d, n) = (if n \<le> h then None else mget (i_qset s) (d, n))" for d n
    by (simp_all add: belowRemoved_def mget_filter_keys)
  have "gomap_ok (i_certStore ?s)" using inv by (simp add: belowRemoved_def core_inv_def certs_ok_def)
  then have "certs_ok (evidence X M s) ?s"
    using inv unfolding core_inv_def certs_ok_def co cs by simp
  moreover have "pqsets_ok (evidence X M s) ?s"
    using inv unfolding core_inv_def pqsets_ok_def ps sel by simp
  moreover have "prepares_ok M ?s"
  proof -
    have fl: "n \<le> h \<or> flagged ?s v n" if "flagged s v n" for v n
      using that by (simp add: flagged_def cs)
    have "prepares_ok M s" using inv by (simp only: core_inv_def)
    then show ?thesis unfolding prepares_ok_def sel using fl assms(2) by (meson order_trans)
  qed
  moreover have "newviews_ok Ev ?s = newviews_ok Ev s" "preprepares_ok M ?s = preprepares_ok M s"
    "sentviews_ok M ?s = sentviews_ok M s" "config_ok ?s = config_ok s" for Ev
    by (simp_all only: newviews_ok_def preprepares_ok_def sentviews_ok_def config_ok_def sel)
  ultimately show ?thesis using inv unfolding core_inv_def ev by blast
qed

lemma moveWatermarks_step_ok:
  assumes "codec_ok E" and "moveWatermarks E h s = Inr s'" and "i_h s \<le> h"
  shows "step_ok E X s s'"
proof -
  from assms(2) obtain s1 where r: "resubmitRequests E s1 = Inr s'"
    and l: "logs s1 = logs (belowRemoved h s)" and M: "sentMsgs E s1 = sentMsgs E s"
    by (simp add: moveWatermarks_def Let_def belowRemoved_def logs_def)
  have "step_ok E X s (belowRemoved h s)"
  proof (rule step_okI)
    show "extends E s (belowRemoved h s)" using assms(3) by (simp add: extends_def) (simp add: belowRemoved_def)
  qed (simp add: core_inv_belowRemoved [OF _ assms(3)])
  moreover have "step_ok E X (belowRemoved h s) s1" by (rule step_ok_logs [OF l]) (simp add: M)
  ultimately show ?thesis using resubmitRequests_step_ok [OF assms(1) r] by (meson step_ok_trans)
qed

subsection \<open>Checkpoints and fetched requests\<close>

lemma weakCheckpoint_step_ok:
  assumes codec: "codec_ok E" and r: "weakCheckpointSetOutOfRange E chkpt s = Inr (b, s')"
    and w: "unat (i_h s) + unat (i_L s) < 2 ^ 64"
  shows "step_ok E X s s'"
proof -
  have le: "i_h s \<le> i_h s + i_L s"
    using w by (simp add: word_le_nat_alt unat_word_ariths)
  have quiet: "step_ok E X s (s\<lparr>i_hChkpts := x\<rparr>)" "step_ok E X s (s\<lparr>i_hChkpts := x, i_reqStore := y\<rparr>)"
    "step_ok E X t (t\<lparr>i_skipInProgress := True\<rparr>)" for x y and t
    by (rule step_ok_logs; simp)+
  consider x where "s' = s\<lparr>i_hChkpts := x\<rparr>"
    | x m s3 where "moveWatermarks E m (s\<lparr>i_hChkpts := x, i_reqStore := []\<rparr>) = Inr s3" "i_h s + i_L s < m"
      "s' = s3\<lparr>i_skipInProgress := True\<rparr>"
    using r unfolding weakCheckpointSetOutOfRange_def Let_def
    by (auto simp: rbind_Inr_conv split: if_splits)
  then show ?thesis
  proof cases
    case 1
    then show ?thesis using quiet(1) by simp
  next
    case (2 x m s3)
    then have "step_ok E X (s\<lparr>i_hChkpts := x, i_reqStore := []\<rparr>) s3"
      using le by (intro moveWatermarks_step_ok [OF codec 2(1)]) simp
    with quiet(2) [where x = x and y = "[]"] quiet(3) [of s3] 2(3) show ?thesis by (meson step_ok_trans)
  qed
qed

lemma act_step_ok:
  assumes "\<And>w r. a \<noteq> ABroadcast w \<and> a \<noteq> AUnicast w r"
  shows "step_ok E X s (act a s)"
  by (rule step_ok_logs) (use assms in \<open>auto simp: sentMsgs_act split: action.splits\<close>)

lemma witnessCheckpoint_step_ok:
  assumes codec: "codec_ok E" and r: "witnessCheckpointWeakCert E chkpt s = Inr s'"
    and "i_h s \<le> ck_SequenceNumber chkpt"
  shows "step_ok E X s s'"
proof -
  consider "s' = s" | n cid ms ei where "s' = act (AValidState n cid ms ei) s"
    | n cid ms ei s1 where "moveWatermarks E (ck_SequenceNumber chkpt) (s\<lparr>i_skipInProgress := False\<rparr>) = Inr s1"
      "s' = act (ASkipTo n cid ms ei) (s1\<lparr>i_lastExec := ck_SequenceNumber chkpt\<rparr>)"
    using r unfolding witnessCheckpointWeakCert_def Let_def
    by (auto simp: rbind_Inr_conv split: if_splits option.splits)
  then show ?thesis
  proof cases
    case (3 n cid ms ei s1)
    have "step_ok E X s (s\<lparr>i_skipInProgress := False\<rparr>)" by (rule step_ok_logs) simp_all
    moreover have "step_ok E X (s\<lparr>i_skipInProgress := False\<rparr>) s1"
      using assms(3) by (intro moveWatermarks_step_ok [OF codec 3(1)]) simp
    moreover have "step_ok E X s1 (s1\<lparr>i_lastExec := ck_SequenceNumber chkpt\<rparr>)"
      by (rule step_ok_logs) simp_all
    moreover have "step_ok E X (s1\<lparr>i_lastExec := ck_SequenceNumber chkpt\<rparr>) s'"
      unfolding 3(2) by (rule act_step_ok) simp
    ultimately show ?thesis by (meson step_ok_trans)
  qed (auto intro: act_step_ok)
qed

lemma fetchRequests_step_ok:
  assumes "codec_ok E" and "fetchRequests E s = Inr s'"
  shows "step_ok E X s s'"
  using assms(2) unfolding fetchRequests_def
proof (rule rfold_step_ok [rotated])
  fix s d s1
  assume r: "innerBroadcast E (MFetchRequest \<lparr>fr_RequestDigest = d, fr_ReplicaId = i_id s\<rparr>) None s = Inr s1"
  show "step_ok E X s s1"
  proof (cases "i_byzantine s")
    case False
    with r have "s1 = emit E (MFetchRequest \<lparr>fr_RequestDigest = d, fr_ReplicaId = i_id s\<rparr>) s"
      by (simp add: innerBroadcast_emit [OF assms(1)])
    then show ?thesis using emit_step_ok [OF assms(1)] by (simp add: neutral_def)
  qed (simp add: step_ok_def)
qed

lemma recvFetchRequest_step_ok:
  assumes codec: "codec_ok E" and r: "recvFetchRequest E fr s = Inr s'"
  shows "step_ok E X s s'"
proof (cases "mget (i_reqStore s) (fr_RequestDigest fr)")
  case (Some req)
  from codec obtain w where w: "e_marshal E (MReturnRequest req) = Inr w" "e_unmarshal E w = Inr (MReturnRequest req)"
    unfolding codec_ok_def by blast
  with r Some have s': "s' = act (AUnicast w (fr_ReplicaId fr)) s" by (simp add: recvFetchRequest_def)
  have M: "sentMsgs E s' = insert (MReturnRequest req) (sentMsgs E s)"
    by (auto simp: s' sentMsgs_act w)
  have l: "logs s' = logs s" by (simp add: s')
  show ?thesis
  proof (rule step_okI)
    show "extends E s s'" using M sel_logs [OF l] by (auto simp: extends_def)
    show "core_inv X (sentMsgs E s') s'" if "core_inv X (sentMsgs E s) s"
      unfolding M core_inv_logs [OF l] by (rule core_inv_insert_neutral [OF that]) (simp add: neutral_def)
  qed
qed (use r in \<open>simp add: recvFetchRequest_def\<close>)

end
