(* ===== verification/PbftViewInv.thy ===== *)
theory PbftViewInv
  imports PbftHandlers
begin

text \<open>
  The view change keeps the invariant of \<open>PbftInv\<close>: leaving a view, sending and receiving view
  changes and new views, and the activation of a new view. At the end of the theory every step of
  a replica is shown to keep it, and with it every state a correct replica reaches.
\<close>

subsection \<open>Leaving a view\<close>

lemma addPset_shape: "\<exists>ps. addPset s x = s\<lparr>i_pset := ps\<rparr>"
  unfolding addPset_def by (rule exI) (rule refl)

lemma addQset_shape: "\<exists>qs. addQset s x = s\<lparr>i_qset := qs\<rparr>"
  unfolding addQset_def by (rule exI) (rule refl)

lemma foldl_addPset_shape: "\<exists>ps. foldl addPset s xs = s\<lparr>i_pset := ps\<rparr>"
proof (induction xs rule: rev_induct)
  case Nil
  show ?case by (rule exI [of _ "i_pset s"]) simp
next
  case (snoc x xs)
  then obtain ps where "foldl addPset s xs = s\<lparr>i_pset := ps\<rparr>" ..
  moreover obtain ps' where "addPset (s\<lparr>i_pset := ps\<rparr>) x = s\<lparr>i_pset := ps, i_pset := ps'\<rparr>"
    using addPset_shape by blast
  ultimately have "foldl addPset s (xs @ [x]) = s\<lparr>i_pset := ps'\<rparr>" by simp
  then show ?case ..
qed

lemma foldl_addQset_shape: "\<exists>qs. foldl addQset s xs = s\<lparr>i_qset := qs\<rparr>"
proof (induction xs rule: rev_induct)
  case Nil
  show ?case by (rule exI [of _ "i_qset s"]) simp
next
  case (snoc x xs)
  then obtain qs where "foldl addQset s xs = s\<lparr>i_qset := qs\<rparr>" ..
  moreover obtain qs' where "addQset (s\<lparr>i_qset := qs\<rparr>) x = s\<lparr>i_qset := qs, i_qset := qs'\<rparr>"
    using addQset_shape by blast
  ultimately have "foldl addQset s (xs @ [x]) = s\<lparr>i_qset := qs'\<rparr>" by simp
  then show ?case ..
qed

lemma collectPQ_shape: "\<exists>ps qs. collectPQ s = s\<lparr>i_pset := ps, i_qset := qs\<rparr>"
proof -
  obtain ps where "foldl addPset s (i_certStore s) = s\<lparr>i_pset := ps\<rparr>" using foldl_addPset_shape by blast
  moreover obtain qs where "foldl addQset (s\<lparr>i_pset := ps\<rparr>) (i_certStore s) = s\<lparr>i_pset := ps, i_qset := qs\<rparr>"
    using foldl_addQset_shape by blast
  ultimately have "collectPQ s = s\<lparr>i_pset := ps, i_qset := qs\<rparr>" by (simp add: collectPQ_def)
  then show ?thesis by blast
qed

lemma stopTimer_sel [simp]:
  "i_view (stopTimer s) = i_view s" "i_certStore (stopTimer s) = i_certStore s" "i_N (stopTimer s) = i_N s"
  "i_f (stopTimer s) = i_f s" "i_h (stopTimer s) = i_h s" "i_id (stopTimer s) = i_id s" "i_L (stopTimer s) = i_L s"
  "i_seqNo (stopTimer s) = i_seqNo s" "i_replicaCount (stopTimer s) = i_replicaCount s"
  "i_byzantine (stopTimer s) = i_byzantine s" "i_newViewStore (stopTimer s) = i_newViewStore s"
  "i_viewChangeStore (stopTimer s) = i_viewChangeStore s" "i_pset (stopTimer s) = i_pset s"
  "i_qset (stopTimer s) = i_qset s" "i_chkpts (stopTimer s) = i_chkpts s" "i_reqStore (stopTimer s) = i_reqStore s"
  by (simp_all add: stopTimer_def)

lemma enterNextView_sel [simp]:
  "i_view (enterNextView s) = i_view s + 1" "\<not> i_activeView (enterNextView s)"
  "i_h (enterNextView s) = i_h s" "i_id (enterNextView s) = i_id s" "i_L (enterNextView s) = i_L s"
  "i_N (enterNextView s) = i_N s" "i_f (enterNextView s) = i_f s" "i_seqNo (enterNextView s) = i_seqNo s"
  "i_replicaCount (enterNextView s) = i_replicaCount s" "i_byzantine (enterNextView s) = i_byzantine s"
  "i_newViewStore (enterNextView s) = mdel (i_view s) (i_newViewStore s)"
  "i_certStore (enterNextView s) = filter (\<lambda>(idx, cert). \<not> fst idx < i_view s + 1) (i_certStore s)"
  "i_viewChangeStore (enterNextView s) = filter (\<lambda>(idx, vc). \<not> fst idx < i_view s + 1) (i_viewChangeStore s)"
  "i_trace (enterNextView s) = i_trace s" "i_chkpts (enterNextView s) = i_chkpts s"
proof -
  let ?s = "(stopTimer s)\<lparr>i_newViewStore := mdel (i_view s) (i_newViewStore s), i_view := i_view s + 1, i_activeView := False\<rparr>"
  obtain ps qs where "collectPQ ?s = ?s\<lparr>i_pset := ps, i_qset := qs\<rparr>" using collectPQ_shape by blast
  then have e: "enterNextView s = clearOldMessages (?s\<lparr>i_pset := ps, i_qset := qs\<rparr>)" by (simp only: enterNextView_def)
  show "i_view (enterNextView s) = i_view s + 1" "\<not> i_activeView (enterNextView s)"
    "i_h (enterNextView s) = i_h s" "i_id (enterNextView s) = i_id s" "i_L (enterNextView s) = i_L s"
    "i_N (enterNextView s) = i_N s" "i_f (enterNextView s) = i_f s" "i_seqNo (enterNextView s) = i_seqNo s"
    "i_replicaCount (enterNextView s) = i_replicaCount s" "i_byzantine (enterNextView s) = i_byzantine s"
    "i_newViewStore (enterNextView s) = mdel (i_view s) (i_newViewStore s)"
    "i_certStore (enterNextView s) = filter (\<lambda>(idx, cert). \<not> fst idx < i_view s + 1) (i_certStore s)"
    "i_viewChangeStore (enterNextView s) = filter (\<lambda>(idx, vc). \<not> fst idx < i_view s + 1) (i_viewChangeStore s)"
    "i_trace (enterNextView s) = i_trace s" "i_chkpts (enterNextView s) = i_chkpts s"
    unfolding e clearOldMessages_def by simp_all
qed

text \<open>The P and Q sets a replica collects are backed by evidence.\<close>

lemma addPset_ok:
  assumes "certs_ok Ev s" "pqsets_ok Ev s"
  shows "certs_ok Ev (addPset s x)" "pqsets_ok Ev (addPset s x)" "i_certStore (addPset s x) = i_certStore s"
proof -
  show c: "i_certStore (addPset s x) = i_certStore s" by (simp add: addPset_def)
  have "cert_ok Ev (addPset s x) = cert_ok Ev s" by (intro ext) (simp add: cert_ok_def addPset_def)
  then show "certs_ok Ev (addPset s x)" using assms(1) by (simp add: certs_ok_def c)
  have "certified Ev (i_N s) (i_f s) (pq_Digest p) (pq_View p) n" if "mget (i_pset (addPset s x)) n = Some p" for n p
  proof (cases "mget (i_pset s) n = Some p")
    case True
    then show ?thesis using assms(2) by (simp add: pqsets_ok_def)
  next
    case False
    with that obtain v d where "p = \<lparr>pq_SequenceNumber = n, pq_Digest = d, pq_View = v\<rparr>" "prepared s d v n"
      by (auto simp: addPset_def Let_def split: prod.splits option.splits if_splits)
    then show ?thesis using prepared_certified [OF assms] by simp
  qed
  moreover have "i_N (addPset s x) = i_N s" "i_f (addPset s x) = i_f s" "i_qset (addPset s x) = i_qset s"
    by (simp_all add: addPset_def)
  ultimately show "pqsets_ok Ev (addPset s x)" using assms(2) by (simp add: pqsets_ok_def)
qed

lemma addQset_ok:
  assumes "certs_ok Ev s" "pqsets_ok Ev s"
  shows "certs_ok Ev (addQset s x)" "pqsets_ok Ev (addQset s x)"
proof -
  have c: "i_certStore (addQset s x) = i_certStore s" by (simp add: addQset_def)
  have "cert_ok Ev (addQset s x) = cert_ok Ev s" by (intro ext) (simp add: cert_ok_def addQset_def)
  then show "certs_ok Ev (addQset s x)" using assms(1) by (simp add: certs_ok_def c)
  have "assigned Ev (i_N s) d (pq_View q) n" if "mget (i_qset (addQset s x)) (d, n) = Some q" for d n q
  proof (cases "mget (i_qset s) (d, n) = Some q")
    case True
    then show ?thesis using assms(2) by (simp add: pqsets_ok_def)
  next
    case False
    with that obtain v where "q = \<lparr>pq_SequenceNumber = n, pq_Digest = d, pq_View = v\<rparr>" "prePrepared s d v n"
      by (auto simp: addQset_def Let_def split: prod.splits option.splits if_splits)
    then show ?thesis using prePrepared_assigned [OF assms] by simp
  qed
  moreover have "i_N (addQset s x) = i_N s" "i_f (addQset s x) = i_f s" "i_pset (addQset s x) = i_pset s"
    by (simp_all add: addQset_def)
  ultimately show "pqsets_ok Ev (addQset s x)" using assms(2) by (simp add: pqsets_ok_def)
qed

lemma collectPQ_ok:
  assumes "certs_ok Ev s" "pqsets_ok Ev s"
  shows "pqsets_ok Ev (collectPQ s)"
proof -
  have P: "certs_ok Ev (foldl addPset s xs) \<and> pqsets_ok Ev (foldl addPset s xs)" for xs
    by (induction xs rule: rev_induct) (simp_all add: assms addPset_ok)
  have Q: "certs_ok Ev (foldl addQset t xs) \<and> pqsets_ok Ev (foldl addQset t xs)"
    if "certs_ok Ev t" "pqsets_ok Ev t" for t xs
    by (induction xs rule: rev_induct) (simp_all add: that addQset_ok)
  show ?thesis unfolding collectPQ_def Let_def using P Q by blast
qed

lemma cert_ok_view: "cert_ok Ev s v n c \<Longrightarrow> v \<le> i_view s"
  by (simp add: cert_ok_def)

lemma cert_ok_later:
  assumes "cert_ok Ev s v n c" and "i_view s < i_view t" "i_N t = i_N s" "i_id t = i_id s"
  shows "cert_ok Ev t v n c"
proof -
  have "v < i_view t" using le_less_trans [OF cert_ok_view [OF assms(1)] assms(2)] .
  then have "v \<le> i_view t" "v \<noteq> i_view t" by auto
  with assms(1) show ?thesis unfolding cert_ok_def assms(3,4) by simp
qed

lemma sent_ok_later:
  assumes "i_view s < i_view t"
  shows "prepares_ok M s \<Longrightarrow> prepares_ok M t" "preprepares_ok M s \<Longrightarrow> preprepares_ok M t"
    "sentviews_ok M s \<Longrightarrow> sentviews_ok M t"
proof -
  have later: "v \<le> i_view t" "v \<noteq> i_view t" if "v \<le> i_view s" for v
    using le_less_trans [OF that assms] by auto
  show "prepares_ok M s \<Longrightarrow> prepares_ok M t" unfolding prepares_ok_def using later by blast
  show "preprepares_ok M s \<Longrightarrow> preprepares_ok M t" unfolding preprepares_ok_def using later by blast
  show "sentviews_ok M s \<Longrightarrow> sentviews_ok M t" unfolding sentviews_ok_def using later by blast
qed

text \<open>
  Leaving a view for a later one. The view may first jump ahead to \<open>w\<close>, as it does when enough
  view changes for later views have arrived.
\<close>

lemma core_inv_enterNextView:
  assumes inv: "core_inv X M s" and w: "i_view s \<le> w" "w + 1 \<noteq> 0"
  shows "core_inv X M (enterNextView (s\<lparr>i_view := w\<rparr>))"
proof -
  let ?sw = "s\<lparr>i_view := w\<rparr>"
  let ?s = "enterNextView ?sw"
  let ?t = "(stopTimer ?sw)\<lparr>i_newViewStore := mdel w (i_newViewStore s), i_view := w + 1, i_activeView := False\<rparr>"
  let ?Ev = "evidence X M s"
  have lt: "i_view s < w + 1" using w less_succ_word [of w] by simp
  have old: "v < w + 1" if "mget (i_certStore s) (v, n) = Some c" for v n c
    using le_less_trans [OF cert_ok_view [OF cert_ok_stored [OF inv that]] lt] .
  have "certs_ok ?Ev s" and pq: "pqsets_ok ?Ev s" and nv: "newviews_ok ?Ev s"
    using inv by (simp_all only: core_inv_def)
  then have "certs_ok ?Ev ?t"
    using cert_ok_later [of ?Ev s _ _ _ ?t] lt by (simp add: certs_ok_def)
  moreover have "pqsets_ok ?Ev ?t" using pq by (simp add: pqsets_ok_def)
  ultimately have "pqsets_ok ?Ev (collectPQ ?t)" by (rule collectPQ_ok)
  then have "pqsets_ok ?Ev ?s" by (simp add: enterNextView_def clearOldMessages_def pqsets_ok_def)
  moreover have "mget (i_certStore ?s) (v, n) = None" for v n
    using old by (cases "mget (i_certStore s) (v, n)") (auto simp: mget_filter_keys)
  then have "certs_ok ?Ev ?s"
    using inv by (simp add: certs_ok_def core_inv_def)
  moreover have "newviews_ok ?Ev ?s"
    using nv w(2) unfolding newviews_ok_def by simp
  moreover have "prepares_ok M s" "preprepares_ok M s" "sentviews_ok M s"
    using inv by (simp_all only: core_inv_def)
  then have "prepares_ok M ?s" "preprepares_ok M ?s" "sentviews_ok M ?s"
    using lt by (simp_all add: sent_ok_later [where s = s])
  ultimately show ?thesis using inv by (simp add: core_inv_def config_ok_def evidence_def)
qed

end
