(* ===== verification/PbftActivate.thy ===== *)
theory PbftActivate
  imports PbftViewInv
begin

text \<open>
  The activation of a new view keeps the invariant of \<open>PbftInv\<close>: the assignments of the new-view
  message are installed and, on a backup, voted for.
\<close>

subsection \<open>Installing the assignments\<close>

lemma certs_ok_setCert: "certs_ok Ev s \<Longrightarrow> cert_ok Ev s v n c \<Longrightarrow> certs_ok Ev (setCert v n c s)"
  by (auto simp: certs_ok_def)

lemma getCert_certs_ok:
  assumes "certs_ok Ev s" and "getCert v n s = (c, s1)" and "v \<le> i_view s"
  shows "certs_ok Ev s1" "cert_ok Ev s v n c" "s1 = s \<or> s1 = setCert v n emptyCert s"
  using assms(2)
  by (atomize(full), cases rule: getCert_cases)
    (use assms in \<open>auto intro!: certs_ok_setCert cert_ok_empty simp: certs_ok_def\<close>)

lemma install_sel [simp]:
  "i_view (installPrePrepare s x) = i_view s" "i_activeView (installPrePrepare s x) = i_activeView s"
  "i_h (installPrePrepare s x) = i_h s" "i_id (installPrePrepare s x) = i_id s" "i_L (installPrePrepare s x) = i_L s"
  "i_N (installPrePrepare s x) = i_N s" "i_f (installPrePrepare s x) = i_f s"
  "i_replicaCount (installPrePrepare s x) = i_replicaCount s" "i_byzantine (installPrePrepare s x) = i_byzantine s"
  "i_newViewStore (installPrePrepare s x) = i_newViewStore s" "i_pset (installPrePrepare s x) = i_pset s"
  "i_qset (installPrePrepare s x) = i_qset s" "i_trace (installPrePrepare s x) = i_trace s"
  "i_seqNo (installPrePrepare s x) = (if i_seqNo s < fst x then fst x else i_seqNo s)"
  by (simp_all add: installPrePrepare_def Let_def getCert_def setCert_def split: option.splits)

lemma install_flagged [simp]: "flagged (installPrePrepare s x) v n = flagged s v n"
  by (auto simp: installPrePrepare_def Let_def getCert_def setCert_def flagged_def emptyCert_def split: option.splits)

lemma install_certs_ok:
  assumes "certs_ok Ev s" and "i_activeView s" and "assigned Ev (i_N s) (snd x) (i_view s) (fst x)"
  shows "certs_ok Ev (installPrePrepare s x)"
proof -
  obtain c s1 where g: "getCert (i_view s) (fst x) s = (c, s1)" by fastforce
  note gi = getCert_certs_ok [OF assms(1) g order_refl]
  let ?p = "\<lparr>pp_View = i_view s, pp_SequenceNumber = fst x, pp_RequestDigest = snd x,
    pp_Request = None, pp_ReplicaId = i_id s\<rparr>"
  have "cert_ok Ev s (i_view s) (fst x) (c\<lparr>mc_prePrepare := Some ?p\<rparr>)"
    using gi(2) assms(2,3) by (simp add: cert_ok_def)
  then have "cert_ok Ev s1 (i_view s) (fst x) (c\<lparr>mc_prePrepare := Some ?p\<rparr>)" using gi(3) by auto
  then have "certs_ok Ev (setCert (i_view s) (fst x) (c\<lparr>mc_prePrepare := Some ?p\<rparr>) s1)"
    by (rule certs_ok_setCert [OF gi(1)])
  then show ?thesis by (simp add: installPrePrepare_def Let_def g)
qed

lemma foldl_install_sel [simp]:
  "i_view (foldl installPrePrepare s xs) = i_view s"
  "i_activeView (foldl installPrePrepare s xs) = i_activeView s"
  "i_h (foldl installPrePrepare s xs) = i_h s" "i_id (foldl installPrePrepare s xs) = i_id s"
  "i_L (foldl installPrePrepare s xs) = i_L s" "i_N (foldl installPrePrepare s xs) = i_N s"
  "i_f (foldl installPrePrepare s xs) = i_f s" "i_replicaCount (foldl installPrePrepare s xs) = i_replicaCount s"
  "i_byzantine (foldl installPrePrepare s xs) = i_byzantine s"
  "i_newViewStore (foldl installPrePrepare s xs) = i_newViewStore s"
  "i_pset (foldl installPrePrepare s xs) = i_pset s" "i_qset (foldl installPrePrepare s xs) = i_qset s"
  "i_trace (foldl installPrePrepare s xs) = i_trace s"
  "flagged (foldl installPrePrepare s xs) v n = flagged s v n"
  by (induction xs arbitrary: s) simp_all

lemma foldl_install_seqNo:
  "i_seqNo s \<le> i_seqNo (foldl installPrePrepare s xs)
   \<and> (\<forall>x \<in> set xs. fst x \<le> i_seqNo (foldl installPrePrepare s xs))"
  by (induction xs rule: rev_induct) (auto dest: less_imp_le)

lemma foldl_install_certs_ok:
  assumes "certs_ok Ev s" and "i_activeView s"
    and "\<forall>x \<in> set xs. assigned Ev (i_N s) (snd x) (i_view s) (fst x)"
  shows "certs_ok Ev (foldl installPrePrepare s xs)"
  using assms(3)
  by (induction xs rule: rev_induct) (simp_all add: assms(1,2) install_certs_ok)

text \<open>The state in which the votes for the assignments are cast.\<close>

definition activated :: "NewView \<Rightarrow> 'w pbftCore \<Rightarrow> 'w pbftCore" where
  "activated nv s = foldl installPrePrepare
     (s\<lparr>i_activeView := True, i_newViewStore := mdel (i_view s - 1) (i_newViewStore s)\<rparr>) (nv_Xset nv)"

lemma activated_sel [simp]:
  "i_view (activated nv s) = i_view s" "i_activeView (activated nv s)"
  "i_h (activated nv s) = i_h s" "i_id (activated nv s) = i_id s" "i_L (activated nv s) = i_L s"
  "i_N (activated nv s) = i_N s" "i_f (activated nv s) = i_f s" "i_replicaCount (activated nv s) = i_replicaCount s"
  "i_byzantine (activated nv s) = i_byzantine s" "i_pset (activated nv s) = i_pset s"
  "i_qset (activated nv s) = i_qset s" "i_trace (activated nv s) = i_trace s"
  "i_newViewStore (activated nv s) = mdel (i_view s - 1) (i_newViewStore s)"
  "sentMsgs E (activated nv s) = sentMsgs E s"
  by (simp_all add: activated_def sentMsgs_def)

lemma activated_flagged [simp]: "flagged (activated nv s) v n = flagged s v n"
proof -
  have "flagged (s\<lparr>i_activeView := True, i_newViewStore := x\<rparr>) v n = flagged s v n" for x
    by (simp add: flagged_def)
  then show ?thesis by (simp add: activated_def)
qed

lemma activated_seqNo:
  "i_seqNo s \<le> i_seqNo (activated nv s)" "gomap_ok (nv_Xset nv) \<Longrightarrow> mget (nv_Xset nv) n = Some d \<Longrightarrow> n \<le> i_seqNo (activated nv s)"
proof -
  let ?t = "s\<lparr>i_activeView := True, i_newViewStore := mdel (i_view s - 1) (i_newViewStore s)\<rparr>"
  note q = foldl_install_seqNo [of ?t "nv_Xset nv"]
  from q show "i_seqNo s \<le> i_seqNo (activated nv s)" unfolding activated_def by simp
  assume "mget (nv_Xset nv) n = Some d"
  then have "(n, d) \<in> set (nv_Xset nv)" by (rule map_of_SomeD)
  with q show "n \<le> i_seqNo (activated nv s)" unfolding activated_def by force
qed

lemma core_inv_activated:
  assumes inv: "core_inv X M s" and na: "\<not> i_activeView s" and nv: "mget (i_newViewStore s) (i_view s) = Some nv"
  shows "core_inv X M (activated nv s)"
proof -
  let ?Ev = "evidence X M s" and ?s = "activated nv s"
  let ?t = "s\<lparr>i_activeView := True, i_newViewStore := mdel (i_view s - 1) (i_newViewStore s)\<rparr>"
  have cs: "certs_ok ?Ev s" and pq: "pqsets_ok ?Ev s" and nvs: "newviews_ok ?Ev s" and pr: "prepares_ok M s"
    and pp: "preprepares_ok M s" and sv: "sentviews_ok M s" using inv by (simp_all only: core_inv_def)
  have v: "0 < i_view s" using nvs na unfolding newviews_ok_def by (metis word_neq_0_conv)
  have n: "nv_View nv = i_view s" "gomap_ok (nv_Xset nv)" "(primaryOf (i_N s) (i_view s), MNewView nv) \<in> ?Ev"
    using nvs nv v unfolding newviews_ok_def by blast+
  have "certs_ok ?Ev ?t" using cs unfolding certs_ok_def cert_ok_def by simp
  moreover have "\<forall>x \<in> set (nv_Xset nv). assigned ?Ev (i_N s) (snd x) (i_view s) (fst x)"
  proof
    fix x assume "x \<in> set (nv_Xset nv)"
    then have "mget (nv_Xset nv) (fst x) = Some (snd x)" using gomap_in_set [OF n(2)] by (metis prod.collapse)
    with n v show "assigned ?Ev (i_N s) (snd x) (i_view s) (fst x)" unfolding assigned_def by blast
  qed
  ultimately have "certs_ok ?Ev ?s" unfolding activated_def by (intro foldl_install_certs_ok) simp_all
  moreover have "pqsets_ok ?Ev ?s" using pq by (simp add: pqsets_ok_def)
  moreover have "newviews_ok ?Ev ?s"
  proof -
    have "i_view s - 1 \<noteq> i_view s" by simp
    with nvs nv show ?thesis unfolding newviews_ok_def by simp
  qed
  moreover have "prepares_ok M ?s"
    using pr na unfolding prepares_ok_def activated_sel by blast
  moreover have "preprepares_ok M ?s"
    using pp na unfolding preprepares_ok_def activated_sel by blast
  moreover have "sentviews_ok M ?s"
  proof -
    have eq: "nv' = nv" if "MNewView nv' \<in> M" "0 < nv_View nv'" "nv_View nv' = i_view s" for nv'
      using sv nv that unfolding sentviews_ok_def by (metis option.inject)
    have st: "mget (mdel (i_view s - 1) (i_newViewStore s)) (i_view s) = Some nv" using nv by simp
    show ?thesis unfolding sentviews_ok_def activated_sel
    proof (intro conjI allI impI)
      fix nv' assume m: "MNewView nv' \<in> M" "0 < nv_View nv'"
      then show "nv_View nv' \<le> i_view s" using sv unfolding sentviews_ok_def by blast
      assume "nv_View nv' = i_view s"
      with eq [OF m] have [simp]: "nv' = nv" .
      show "mget (mdel (i_view s - 1) (i_newViewStore s)) (i_view s) = Some nv'" using st by simp
      show "k \<le> i_seqNo ?s" if "mget (nv_Xset nv') k = Some d" for k d
        using that activated_seqNo(2) [OF n(2)] by simp
    qed (use sv in \<open>unfold sentviews_ok_def, blast+\<close>)
  qed
  ultimately show ?thesis using inv by (simp add: core_inv_def config_ok_def evidence_def)
qed

subsection \<open>Voting for the assignments\<close>

lemma prepareAssigned_eq:
  assumes "codec_ok E" and "\<not> i_byzantine s"
    and "getCert (i_view s) (fst x) s = (c, s1)"
    and "p = \<lparr>pr_View = i_view s, pr_SequenceNumber = fst x, pr_RequestDigest = snd x, pr_ReplicaId = i_id s\<rparr>"
  shows "prepareAssigned E s x = Inr (emit E (MPrepare p)
    (setCert (i_view s) (fst x) (c\<lparr>mc_prepare := mc_prepare c @ [p], mc_sentPrepare := True\<rparr>) s1))"
    (is "_ = Inr (emit E _ ?s2)")
proof -
  have s1: "s1 = s \<or> s1 = setCert (i_view s) (fst x) emptyCert s" using assms(3) by (cases rule: getCert_cases) auto
  then have same: "i_byzantine ?s2 = i_byzantine s" "i_id ?s2 = i_id s" by auto
  have "prepareAssigned E s x = recvPrepare E p (emit E (MPrepare p) ?s2)"
    using assms same by (simp add: prepareAssigned_def Let_def broadcastPrepare_def innerBroadcast_emit fromSender_def)
  also have "\<dots> = Inr (emit E (MPrepare p) ?s2)"
    by (simp add: recvPrepare_def assms(4) getCert_def)
  finally show ?thesis .
qed

lemma prepareAssigned_step:
  assumes codec: "codec_ok E" and inv: "core_inv X (sentMsgs E s) s" and act: "i_activeView s"
    and backup: "primary s (i_view s) \<noteq> i_id s"
    and fresh: "\<not> flagged s (i_view s) (fst x)"
      "\<And>q. MPrepare q \<in> sentMsgs E s \<Longrightarrow> pr_View q = i_view s \<Longrightarrow> pr_SequenceNumber q \<noteq> fst x"
    and r: "prepareAssigned E s x = Inr s'"
  shows "core_inv X (sentMsgs E s') s'" "i_activeView s'" "i_view s' = i_view s" "i_id s' = i_id s"
    "i_replicaCount s' = i_replicaCount s"
    "\<And>n. n \<noteq> fst x \<Longrightarrow> flagged s' (i_view s) n = flagged s (i_view s) n"
    "\<And>q. MPrepare q \<in> sentMsgs E s' \<Longrightarrow> MPrepare q \<in> sentMsgs E s \<or> pr_SequenceNumber q = fst x"
    "extends E s s'"
proof -
  obtain c s1 where g: "getCert (i_view s) (fst x) s = (c, s1)" by fastforce
  define p where "p = \<lparr>pr_View = i_view s, pr_SequenceNumber = fst x, pr_RequestDigest = snd x, pr_ReplicaId = i_id s\<rparr>"
  let ?c = "c\<lparr>mc_prepare := mc_prepare c @ [p], mc_sentPrepare := True\<rparr>"
  let ?s2 = "setCert (i_view s) (fst x) ?c s1"
  let ?M = "insert (MPrepare p) (sentMsgs E s)"
  note gi = getCert_inv [OF inv g order_refl]
  have cfg: "config_ok s" using inv by (simp add: core_inv_def)
  then have byz: "\<not> i_byzantine s" by (simp add: config_ok_def)
  have s': "s' = emit E (MPrepare p) ?s2" using prepareAssigned_eq [OF codec byz g p_def] r by simp
  have same: "i_view s1 = i_view s" "i_activeView s1 = i_activeView s" "sentMsgs E s1 = sentMsgs E s"
    "i_id s1 = i_id s" "i_replicaCount s1 = i_replicaCount s" "i_N s1 = i_N s" "i_h s1 = i_h s" "i_f s1 = i_f s"
    "i_L s1 = i_L s" "i_byzantine s1 = i_byzantine s"
    using gi(4) by auto
  have M: "sentMsgs E s' = ?M" by (simp add: s' sentMsgs_emit [OF codec] same)
  have nf: "\<not> mc_sentPrepare c"
    using g fresh(1) by (cases rule: getCert_cases) (auto simp: flagged_def emptyCert_def)
  have "cert_ok (evidence X ?M s1) s1 (i_view s) (fst x) c"
  proof -
    have "cert_ok (evidence X ?M s) s (i_view s) (fst x) c"
      by (rule cert_ok_mono [OF gi(2) evidence_insert])
    then show ?thesis using gi(4) by auto
  qed
  then have "cert_ok (evidence X ?M s1) s1 (i_view s) (fst x) (c\<lparr>mc_sentPrepare := True\<rparr>)"
    using act same by (simp add: cert_ok_def)
  moreover have "i_id s \<noteq> primaryOf (i_N s1) (i_view s)"
    using backup primary_primaryOf [OF cfg] same by simp
  moreover have "i_id s \<notin> pr_ReplicaId ` set (mc_prepare c)"
    using gi(2) nf by (auto simp: cert_ok_def)
  ultimately have "cert_ok (evidence X ?M s1) s1 (i_view s) (fst x)
      ((c\<lparr>mc_sentPrepare := True\<rparr>)\<lparr>mc_prepare := mc_prepare (c\<lparr>mc_sentPrepare := True\<rparr>) @ [p]\<rparr>)"
    by (intro cert_ok_add_prepare) (simp_all add: p_def evidence_def same)
  moreover have "(c\<lparr>mc_sentPrepare := True\<rparr>)\<lparr>mc_prepare := mc_prepare (c\<lparr>mc_sentPrepare := True\<rparr>) @ [p]\<rparr> = ?c"
    by (cases c) simp
  moreover have "pr_View p = i_view s" "pr_SequenceNumber p = fst x" by (simp_all add: p_def)
  ultimately have "cert_ok (evidence X ?M s1) s1 (pr_View p) (pr_SequenceNumber p) ?c" by (simp only:)
  then have "core_inv X ?M (setCert (pr_View p) (pr_SequenceNumber p) ?c s1)"
    by (rule core_inv_vote [OF gi(1), rotated 3]) (use fresh(2) act same in \<open>auto simp: p_def\<close>)
  then show "core_inv X (sentMsgs E s') s'"
    unfolding M unfolding s' core_inv_emit by (simp add: p_def)
  show "i_activeView s'" "i_view s' = i_view s" "i_id s' = i_id s" "i_replicaCount s' = i_replicaCount s"
    using act by (simp_all add: s' same)
  show "flagged s' (i_view s) n = flagged s (i_view s) n" if "n \<noteq> fst x" for n
    using that gi(4) by (auto simp: s' flagged_def)
  show "MPrepare q \<in> sentMsgs E s \<or> pr_SequenceNumber q = fst x" if "MPrepare q \<in> sentMsgs E s'" for q
    using that M by (auto simp: p_def)
  show "extends E s s'" unfolding extends_def M by (auto simp: s' same)
qed

lemma prepareAssigned_extends:
  assumes "codec_ok E" and "\<not> i_byzantine s" and "prepareAssigned E s x = Inr s'"
  shows "extends E s s'"
proof -
  obtain c s1 where g: "getCert (i_view s) (fst x) s = (c, s1)" by fastforce
  from prepareAssigned_eq [OF assms(1,2) g refl] assms(3) obtain m c'
    where "s' = emit E m (setCert (i_view s) (fst x) c' s1)" by auto
  moreover have "extends E s (setCert (i_view s) (fst x) c' s1)" for c'
    using g by (cases rule: getCert_cases) (auto simp: extends_def)
  ultimately show ?thesis using extends_emit [OF assms(1)] extends_trans by blast
qed

lemma prepareAssigned_loop:
  assumes codec: "codec_ok E" and byz: "\<not> i_byzantine s" and r: "rfold (prepareAssigned E) xs s = Inr s'"
  shows "extends E s s'"
    and "core_inv X (sentMsgs E s) s \<Longrightarrow> i_activeView s \<Longrightarrow> primary s (i_view s) \<noteq> i_id s \<Longrightarrow>
      distinct (map fst xs) \<Longrightarrow> (\<forall>x \<in> set xs. \<not> flagged s (i_view s) (fst x)) \<Longrightarrow>
      (\<forall>x \<in> set xs. \<forall>q. MPrepare q \<in> sentMsgs E s \<longrightarrow> pr_View q = i_view s \<longrightarrow> pr_SequenceNumber q \<noteq> fst x) \<Longrightarrow>
      core_inv X (sentMsgs E s') s'"
  using byz r
proof (atomize(full), induction xs arbitrary: s)
  case (Cons x xs)
  from Cons.prems(2) obtain s1 where 1: "prepareAssigned E s x = Inr s1" and 2: "rfold (prepareAssigned E) xs s1 = Inr s'"
    by (auto simp: rbind_Inr_conv)
  have ext: "extends E s s1" by (rule prepareAssigned_extends [OF codec Cons.prems(1) 1])
  then have "\<not> i_byzantine s1" using Cons.prems(1) by (simp add: extends_def)
  note IH = Cons.IH [OF this 2]
  show ?case
  proof (intro conjI impI)
    show "extends E s s'" using ext IH extends_trans by blast
  next
    assume inv: "core_inv X (sentMsgs E s) s" and act: "i_activeView s" and backup: "primary s (i_view s) \<noteq> i_id s"
      and d: "distinct (map fst (x # xs))" and fl: "\<forall>x \<in> set (x # xs). \<not> flagged s (i_view s) (fst x)"
      and fr: "\<forall>x \<in> set (x # xs). \<forall>q. MPrepare q \<in> sentMsgs E s \<longrightarrow> pr_View q = i_view s \<longrightarrow> pr_SequenceNumber q \<noteq> fst x"
    have "\<not> flagged s (i_view s) (fst x)"
      "\<And>q. MPrepare q \<in> sentMsgs E s \<Longrightarrow> pr_View q = i_view s \<Longrightarrow> pr_SequenceNumber q \<noteq> fst x"
      using fl fr by simp_all
    note st = prepareAssigned_step [OF codec inv act backup this 1]
    have ne: "fst y \<noteq> fst x" if "y \<in> set xs" for y
    proof -
      have "fst y \<in> set (map fst xs)" using that by simp
      moreover have "fst x \<notin> set (map fst xs)" using d by simp
      ultimately show ?thesis by metis
    qed
    have "primary s1 (i_view s1) \<noteq> i_id s1" using backup st(3-5) by (simp add: primary_def)
    moreover have "\<forall>y \<in> set xs. \<not> flagged s1 (i_view s1) (fst y)"
      using st(3) st(6) ne fl by simp
    moreover have "\<forall>y \<in> set xs. \<forall>q. MPrepare q \<in> sentMsgs E s1 \<longrightarrow> pr_View q = i_view s1 \<longrightarrow> pr_SequenceNumber q \<noteq> fst y"
      using st(3) st(7) ne fr by (metis list.set_intros(2))
    ultimately show "core_inv X (sentMsgs E s') s'" using IH st(1,2) d by simp
  qed
qed simp

lemma unflagged_inactive:
  assumes "core_inv X M s" and "\<not> i_activeView s"
  shows "\<not> flagged s (i_view s) n"
proof (cases "mget (i_certStore s) (i_view s, n)")
  case (Some c)
  have "cert_ok (evidence X M s) s (i_view s) n c" by (rule cert_ok_stored [OF assms(1) Some])
  then show ?thesis using assms(2) Some by (simp add: cert_ok_def flagged_def)
qed (simp add: flagged_def)

lemma processNewView2_step_ok:
  assumes codec: "codec_ok E" and r: "processNewView2 E nv s = Inr s'"
    and na: "\<not> i_activeView s" and nv: "mget (i_newViewStore s) (i_view s) = Some nv"
  shows "step_ok E X s s'"
proof (cases "i_byzantine s")
  case False
  let ?t = "activated nv s"
  have "processNewView2 E nv s = rbind (if primary ?t (i_view ?t) \<noteq> i_id ?t
      then rfold (prepareAssigned E) (nv_Xset nv) ?t else resubmitRequests E ?t)
      (\<lambda>s3. Inr (act (AViewChange (i_view s3)) s3))"
    by (simp only: processNewView2_def Let_def activated_def)
  with r obtain s3 where b: "(if primary ?t (i_view ?t) \<noteq> i_id ?t then rfold (prepareAssigned E) (nv_Xset nv) ?t
      else resubmitRequests E ?t) = Inr s3" and s': "s' = act (AViewChange (i_view s3)) s3"
    by (auto simp: rbind_Inr_conv)
  have ext: "extends E s ?t" by (simp add: extends_def)
  have "step_ok E X s s3"
  proof (cases "primary ?t (i_view ?t) \<noteq> i_id ?t")
    case True
    with b have l: "rfold (prepareAssigned E) (nv_Xset nv) ?t = Inr s3" by simp
    have nb: "\<not> i_byzantine ?t" using False by simp
    note loop = prepareAssigned_loop [OF codec nb l]
    show ?thesis
    proof (rule step_okI)
      show "extends E s s3" using ext loop(1) by (rule extends_trans)
      assume inv: "core_inv X (sentMsgs E s) s"
      have "distinct (map fst (nv_Xset nv))"
        using inv nv by (auto simp: core_inv_def newviews_ok_def gomap_ok_def)
      moreover have "\<not> flagged ?t (i_view ?t) n" for n
        using unflagged_inactive [OF inv na] by simp
      moreover have "\<not> (MPrepare q \<in> sentMsgs E s \<and> pr_View q = i_view s)" for q
        using inv na unfolding core_inv_def prepares_ok_def by blast
      ultimately show "core_inv X (sentMsgs E s3) s3"
        using loop(2) [of X] core_inv_activated [OF inv na nv] True by simp
    qed
  next
    case prim: False
    with b have "step_ok E X ?t s3" using resubmitRequests_step_ok [OF codec] by simp
    moreover have "step_ok E X s ?t"
      by (rule step_okI [OF ext]) (simp add: core_inv_activated [OF _ na nv])
    ultimately show ?thesis by (rule step_ok_trans [rotated])
  qed
  moreover have "step_ok E X s3 s'" unfolding s' by (rule act_step_ok) simp
  ultimately show ?thesis by (rule step_ok_trans)
qed (simp add: step_ok_def)

end
