(* ===== verification/PbftRun.thy ===== *)
theory PbftRun
  imports PbftActivate
begin

text \<open>
  Every step of a correct PBFT replica keeps the invariant of \<open>PbftInv\<close>. The relation \<open>prun\<close>
  describes the runs of a correct replica: it starts in the state \<open>newPbftCore\<close> builds and takes
  one input after another; the first component collects the messages it received.
\<close>

subsection \<open>While a view change is in progress\<close>

lemma rfold_preserves:
  assumes "\<And>s x s'. P s \<Longrightarrow> f s x = Inr s' \<Longrightarrow> P s'" and "rfold f xs s = Inr s'" and "P s"
  shows "P s'"
  using assms(2,3)
proof (induction xs arbitrary: s)
  case (Cons x xs)
  from Cons.prems(1) obtain s1 where "f s x = Inr s1" "rfold f xs s1 = Inr s'"
    by (auto simp: rbind_Inr_conv)
  with Cons.IH [of s1] Cons.prems(2) assms(1) show ?case by blast
qed simp

lemma recvRequest_inactive:
  assumes "\<not> i_activeView s" and "recvRequest E req s = Inr s'"
  shows "logs s' = logs s \<and> sentMsgs E s' = sentMsgs E s"
  using assms by (auto simp: recvRequest_def Let_def split: if_splits)

lemma resubmitRequests_inactive:
  assumes "\<not> i_activeView s" and "resubmitRequests E s = Inr s'"
  shows "logs s' = logs s \<and> sentMsgs E s' = sentMsgs E s"
proof (cases "primary s (i_view s) \<noteq> i_id s")
  case True
  with assms(2) show ?thesis by (simp add: resubmitRequests_def)
next
  case False
  show ?thesis
  proof (rule rfold_preserves [where P = "\<lambda>t. logs t = logs s \<and> sentMsgs E t = sentMsgs E s"])
    show "rfold (\<lambda>s d. case mget (i_outstandingReqs s) d of
          None \<Rightarrow> Inr s
        | Some req \<Rightarrow>
            if \<exists>cert \<in> snd ` set (i_certStore s). map_option pp_RequestDigest (mc_prePrepare cert) = Some d
            then Inr s
            else recvRequest E req s) (map fst (i_outstandingReqs s)) s = Inr s'"
      using assms(2) False unfolding resubmitRequests_def by simp
  next
    fix t d t' assume t: "logs t = logs s \<and> sentMsgs E t = sentMsgs E s"
      and r: "(case mget (i_outstandingReqs t) d of
          None \<Rightarrow> Inr t
        | Some req \<Rightarrow>
            if \<exists>cert \<in> snd ` set (i_certStore t). map_option pp_RequestDigest (mc_prePrepare cert) = Some d
            then Inr t
            else recvRequest E req t) = Inr t'"
    have "\<not> i_activeView t" using assms(1) t sel_logs(3) by blast
    with r recvRequest_inactive [of t E _ t'] t show "logs t' = logs s \<and> sentMsgs E t' = sentMsgs E s"
      by (auto split: option.splits if_splits)
  qed simp
qed

lemma moveWatermarks_inactive:
  assumes "\<not> i_activeView s" and "moveWatermarks E h s = Inr s'"
  shows "\<not> i_activeView s'" "i_view s' = i_view s" "i_newViewStore s' = i_newViewStore s"
proof -
  from assms(2) obtain s1 where r: "resubmitRequests E s1 = Inr s'" and l: "logs s1 = logs (belowRemoved h s)"
    by (simp add: moveWatermarks_def Let_def belowRemoved_def logs_def)
  have sel: "i_activeView s1 = i_activeView s" "i_view s1 = i_view s" "i_newViewStore s1 = i_newViewStore s"
    using sel_logs [OF l] by (simp_all add: belowRemoved_def)
  from resubmitRequests_inactive [OF _ r] assms(1) sel have "logs s' = logs s1" by blast
  from sel_logs [OF this] sel assms(1)
  show "\<not> i_activeView s'" "i_view s' = i_view s" "i_newViewStore s' = i_newViewStore s" by simp_all
qed

subsection \<open>Accepting a new view\<close>

lemma noteMissing_shape: "\<exists>b ms. foldl noteMissing (b0, s) xs = (b, s\<lparr>i_missingReqs := ms\<rparr>)"
proof (induction xs rule: rev_induct)
  case Nil
  show ?case by (intro exI [of _ b0] exI [of _ "i_missingReqs s"]) simp
next
  case (snoc x xs)
  then obtain b ms where "foldl noteMissing (b0, s) xs = (b, s\<lparr>i_missingReqs := ms\<rparr>)" by blast
  moreover have "\<exists>b' ms'. noteMissing (b, s\<lparr>i_missingReqs := ms\<rparr>) x = (b', s\<lparr>i_missingReqs := ms'\<rparr>)"
    by (simp add: noteMissing_def Let_def) blast
  ultimately show ?case by simp
qed

lemma acceptNewView_step_ok:
  assumes codec: "codec_ok E" and r: "acceptNewView E nv s = Inr s'"
    and na: "\<not> i_activeView s" and nv: "mget (i_newViewStore s) (i_view s) = Some nv"
  shows "step_ok E X s s'"
proof -
  obtain b ms where n: "foldl noteMissing (False, s) (nv_Xset nv) = (b, s\<lparr>i_missingReqs := ms\<rparr>)"
    using noteMissing_shape by blast
  let ?s = "s\<lparr>i_missingReqs := ms\<rparr>"
  have "step_ok E X s ?s" by (rule step_ok_logs) simp_all
  moreover have "step_ok E X ?s s'"
    using r n processNewView2_step_ok [OF codec, of nv ?s s' X] fetchRequests_step_ok [OF codec, of ?s s' X] na nv
    by (auto simp: acceptNewView_def split: if_splits)
  ultimately show ?thesis by (rule step_ok_trans)
qed

lemma processNewViewWith_step_ok:
  assumes codec: "codec_ok E" and svc: "\<And>t'. sendVC s = Inr t' \<Longrightarrow> step_ok E X s t'"
    and r: "processNewViewWith E sendVC s = Inr s'"
  shows "step_ok E X s s'"
proof (cases "\<exists>nv. mget (i_newViewStore s) (i_view s) = Some nv \<and> \<not> i_activeView s")
  case True
  then obtain nv where nv: "mget (i_newViewStore s) (i_view s) = Some nv" and na: "\<not> i_activeView s" by blast
  obtain cp ok rs where sc: "selectInitialCheckpoint s (nv_Vset nv) = (cp, ok, rs)" by (metis prod_cases3)
  from r nv na sc consider "sendVC s = Inr s'" | "acceptNewView E nv s = Inr s'"
    | s1 where "i_h s < vcc_SequenceNumber cp" "moveWatermarks E (vcc_SequenceNumber cp) s = Inr s1" "s' = s1"
    | s1 a where "i_h s < vcc_SequenceNumber cp" "moveWatermarks E (vcc_SequenceNumber cp) s = Inr s1"
        "a = act (ASkipTo (vcc_SequenceNumber cp) (the (DecodeString (vcc_Id cp))) rs
               \<lparr>ei_Checkpoint = True, ei_Validate = False, ei_Null = False\<rparr>) s1"
        "acceptNewView E nv (a\<lparr>i_lastExec := vcc_SequenceNumber cp\<rparr>) = Inr s'"
    by (auto simp: processNewViewWith_def rbind_Inr_conv split: if_splits option.splits)
  then show ?thesis
  proof cases
    case 1
    then show ?thesis by (rule svc)
  next
    case 2
    then show ?thesis by (rule acceptNewView_step_ok [OF codec _ na nv])
  next
    case 3
    then show ?thesis using moveWatermarks_step_ok [OF codec] by (metis less_imp_le)
  next
    case (4 s1 a)
    have a: "step_ok E X s s1" by (rule moveWatermarks_step_ok [OF codec 4(2)]) (use 4(1) in simp)
    have b: "step_ok E X s1 (a\<lparr>i_lastExec := vcc_SequenceNumber cp\<rparr>)"
      by (rule step_ok_logs) (simp_all add: 4(3) sentMsgs_act)
    have "logs a = logs s1" by (simp add: 4(3))
    note sel = sel_logs [OF this]
    have "step_ok E X (a\<lparr>i_lastExec := vcc_SequenceNumber cp\<rparr>) s'"
      by (rule acceptNewView_step_ok [OF codec 4(4)])
        (use moveWatermarks_inactive [OF na 4(2)] nv sel in simp_all)
    with a b show ?thesis by (meson step_ok_trans)
  qed
next
  case False
  with r have "s' = s" by (auto simp: processNewViewWith_def split: option.splits)
  then show ?thesis by simp
qed

subsection \<open>Sending a new view\<close>

lemma nLoop_gomap_ok:
  assumes "nLoop s vset h n m0 k = Some r" and "gomap_ok m0" and "r = Some (m, k')"
  shows "gomap_ok m"
proof -
  let ?ok = "\<lambda>r. \<forall>m k'. r = Some (m, k') \<longrightarrow> gomap_ok m"
  have "gomap_ok m0 \<longrightarrow> ?ok r"
    using assms(1)
  proof (rule nLoop.raw_induct [where P = "\<lambda>s vset h n m0 k r. gomap_ok m0 \<longrightarrow> ?ok r", rotated], goal_cases)
    case (1 f s vset h n m0 k r)
    note b = 1(2)
    have step: "gomap_ok m0 \<longrightarrow> ?ok r" if "f s vset h (n + 1) (mput n d m0) k1 = Some r" for d k1
    proof
      assume "gomap_ok m0"
      then have "gomap_ok (mput n d m0)" by (rule gomap_ok_mput)
      then show "?ok r" by (rule mp [OF 1(1) [OF that]])
    qed
    show ?case
    proof (cases "n \<le> h + i_L s")
      case True
      show ?thesis
      proof (cases "selectRequest s vset n")
        case (Some em)
        with b True have "f s vset h (n + 1) (mput n (pq_Digest em) m0) n = Some r" by simp
        then show ?thesis by (rule step)
      next
        case None
        show ?thesis
        proof (cases "intersectionQuorum s \<le> quorumNull vset n")
          case q: True
          with b True None have "f s vset h (n + 1) (mput n [] m0) k = Some r" by simp
          then show ?thesis by (rule step)
        qed (use b True None in simp)
      qed
    qed (use b in auto)
  qed
  with assms(2,3) show ?thesis by simp
qed

lemma assign_gomap_ok:
  assumes "assignSequenceNumbers s vset h = Some (Some m)"
  shows "gomap_ok m"
proof -
  from assms obtain m0 k where l: "nLoop s vset h (h + 1) [] (h + 1) = Some (Some (m0, k))"
    and m: "m = filter (\<lambda>(n, msg). \<not> (n > k \<and> msg = [])) m0"
    by (auto simp: assignSequenceNumbers_def split: option.splits)
  have "gomap_ok m0" by (rule nLoop_gomap_ok [OF l]) simp_all
  then show ?thesis by (simp add: m)
qed

lemma insert_newview_others [simp]:
  "prepares_ok (insert (MNewView nv) M) s = prepares_ok M s"
  "preprepares_ok (insert (MNewView nv) M) s = preprepares_ok M s"
  by (simp_all add: prepares_ok_def preprepares_ok_def)

lemma newViewStore_others [simp]:
  "config_ok (s\<lparr>i_newViewStore := x\<rparr>) = config_ok s" "certs_ok Ev (s\<lparr>i_newViewStore := x\<rparr>) = certs_ok Ev s"
  "pqsets_ok Ev (s\<lparr>i_newViewStore := x\<rparr>) = pqsets_ok Ev s" "prepares_ok M (s\<lparr>i_newViewStore := x\<rparr>) = prepares_ok M s"
  "preprepares_ok M (s\<lparr>i_newViewStore := x\<rparr>) = preprepares_ok M s"
  "evidence X M (s\<lparr>i_newViewStore := x\<rparr>) = evidence X M s"
  by (simp_all add: config_ok_def certs_ok_def cert_ok_def pqsets_ok_def prepares_ok_def preprepares_ok_def
      flagged_def evidence_def)

text \<open>Filing a new-view message for which there is evidence.\<close>

lemma newviews_ok_store:
  assumes "newviews_ok Ev s" and "gomap_ok (nv_Xset nv)"
    and "nv_View nv > 0 \<longrightarrow> (primaryOf (i_N s) (nv_View nv), MNewView nv) \<in> Ev"
  shows "newviews_ok Ev (s\<lparr>i_newViewStore := mput (nv_View nv) nv (i_newViewStore s)\<rparr>)"
  using assms unfolding newviews_ok_def by auto

lemma sentviews_ok_same_view:
  assumes "sentviews_ok M s" and "i_view t = i_view s" "i_activeView t = i_activeView s" "i_seqNo t = i_seqNo s"
    and "\<And>nv. mget (i_newViewStore s) (i_view s) = Some nv \<Longrightarrow> mget (i_newViewStore t) (i_view s) = Some nv"
  shows "sentviews_ok M t"
  using assms(1,5) unfolding sentviews_ok_def assms(2-4) by blast

lemma sentviews_ok_store:
  assumes "sentviews_ok M s" and "mget (i_newViewStore s) (nv_View nv) = None"
  shows "sentviews_ok M (s\<lparr>i_newViewStore := mput (nv_View nv) nv (i_newViewStore s)\<rparr>)"
  by (rule sentviews_ok_same_view [OF assms(1)]) (use assms(2) in auto)

lemma core_inv_recv_newview:
  assumes inv: "core_inv X M s" and "mget (i_newViewStore s) (nv_View nv) = None" and "gomap_ok (nv_Xset nv)"
    and "nv_View nv > 0 \<longrightarrow> (primaryOf (i_N s) (nv_View nv), MNewView nv) \<in> X"
  shows "core_inv X M (s\<lparr>i_newViewStore := mput (nv_View nv) nv (i_newViewStore s)\<rparr>)"
proof -
  from inv have "newviews_ok (evidence X M s) s" "sentviews_ok M s" by (simp_all only: core_inv_def)
  with assms newviews_ok_store [of "evidence X M s" s nv] sentviews_ok_store [of M s nv] show ?thesis
    by (auto simp: core_inv_def evidence_def)
qed

lemma core_inv_send_newview:
  assumes inv: "core_inv X M s" and none: "mget (i_newViewStore s) (i_view s) = None"
    and prim: "primaryOf (i_N s) (i_view s) = i_id s" and nv: "nv_View nv = i_view s" "gomap_ok (nv_Xset nv)"
  shows "core_inv X (insert (MNewView nv) M) (s\<lparr>i_newViewStore := mput (i_view s) nv (i_newViewStore s)\<rparr>)"
    (is "core_inv X ?M ?s")
proof -
  let ?Ev = "evidence X ?M s"
  from inv have "certs_ok (evidence X M s) s" "pqsets_ok (evidence X M s) s" and n: "newviews_ok (evidence X M s) s"
    by (simp_all only: core_inv_def)
  note ev = logs_evidence_mono [OF this evidence_insert [of X M s "MNewView nv"]]
  have "newviews_ok ?Ev (s\<lparr>i_newViewStore := mput (nv_View nv) nv (i_newViewStore s)\<rparr>)"
    by (rule newviews_ok_store [OF ev(3) nv(2)]) (use prim nv(1) in \<open>simp add: evidence_def\<close>)
  moreover have "sentviews_ok ?M ?s"
  proof -
    have sv: "sentviews_ok M s" and pp: "preprepares_ok M s" using inv by (simp_all only: core_inv_def)
    have old: "nv_View nv' \<noteq> i_view s" if "MNewView nv' \<in> M" "0 < nv_View nv'" for nv'
      using sv none that unfolding sentviews_ok_def by fastforce
    have na: "0 < i_view s \<Longrightarrow> \<not> i_activeView s" using n none unfolding newviews_ok_def by blast
    have npp: "pp_View p \<noteq> i_view s" if "MPrePrepare p \<in> M" "0 < i_view s" for p
      using pp na that unfolding preprepares_ok_def by blast
    show ?thesis unfolding sentviews_ok_def
    proof (intro conjI allI impI)
      fix nv' assume a: "MNewView nv' \<in> ?M" "0 < nv_View nv'"
      then consider "nv' = nv" | "MNewView nv' \<in> M" by auto
      note c = this
      show "nv_View nv' \<le> i_view ?s" using c sv a(2) nv(1) unfolding sentviews_ok_def by cases auto
      assume e: "nv_View nv' = i_view ?s"
      show "mget (i_newViewStore ?s) (i_view ?s) = Some nv'" using c old [OF _ a(2)] e by cases auto
      show "k \<le> i_seqNo ?s" if "i_activeView ?s" for k using that na e a(2) by simp
    next
      fix nv1 nv2 assume "MNewView nv1 \<in> ?M" "MNewView nv2 \<in> ?M" and p: "0 < nv_View nv1" "nv_View nv1 = nv_View nv2"
      then consider "nv1 = nv2" | "nv1 = nv" "MNewView nv2 \<in> M" | "nv2 = nv" "MNewView nv1 \<in> M"
        | "MNewView nv1 \<in> M" "MNewView nv2 \<in> M" by auto
      then show "nv1 = nv2"
        using p old nv(1) sv unfolding sentviews_ok_def by cases metis+
    next
      fix nv' p assume "MNewView nv' \<in> ?M" and p: "MPrePrepare p \<in> ?M" "0 < nv_View nv'" "nv_View nv' = pp_View p"
      then consider "nv' = nv" | "MNewView nv' \<in> M" by auto
      then show "mget (nv_Xset nv') (pp_SequenceNumber p) = None"
        using p npp nv(1) sv unfolding sentviews_ok_def by cases auto
    qed
  qed
  ultimately show ?thesis using inv ev(1,2) nv(1) unfolding core_inv_def by simp
qed

lemma sendNewViewWith_cases:
  assumes codec: "codec_ok E" and byz: "\<not> i_byzantine s" and r: "sendNewViewWith E sendVC s = Inr s'"
  obtains "s' = s" | cp m nv where "mget (i_newViewStore s) (i_view s) = None"
      "assignSequenceNumbers s (getViewChanges s) (vcc_SequenceNumber (cp :: ViewChange_C)) = Some (Some m)"
      "nv = \<lparr>nv_View = i_view s, nv_Vset = getViewChanges s, nv_Xset = m, nv_ReplicaId = i_id s\<rparr>"
      "processNewViewWith E sendVC ((emit E (MNewView nv) s)
         \<lparr>i_newViewStore := mput (i_view s) nv (i_newViewStore s)\<rparr>) = Inr s'"
proof -
  obtain cp ok rs where sc: "selectInitialCheckpoint s (getViewChanges s) = (cp, ok, rs)" by (metis prod_cases3)
  show thesis
  proof (cases "mget (i_newViewStore s) (i_view s) = None \<and> ok")
    case skip: False
    with r have "s' = s"
      by (cases "mget (i_newViewStore s) (i_view s)") (simp_all add: sendNewViewWith_def Let_def sc)
    then show thesis by (rule that(1))
  next
    case True
    show thesis
    proof (cases "assignSequenceNumbers s (getViewChanges s) (vcc_SequenceNumber cp)")
      case None
      with r True show thesis by (simp add: sendNewViewWith_def sc)
    next
      case (Some x)
      show thesis
      proof (cases x)
        case None
        with r True Some have "s' = s" by (simp add: sendNewViewWith_def sc)
        then show thesis by (rule that(1))
      next
        case m: (Some m)
        define nv where "nv = \<lparr>nv_View = i_view s, nv_Vset = getViewChanges s, nv_Xset = m, nv_ReplicaId = i_id s\<rparr>"
        obtain w where "e_marshal E (MNewView nv) = Inr w" using codec unfolding codec_ok_def by blast
        then have "processNewViewWith E sendVC ((emit E (MNewView nv) s)
            \<lparr>i_newViewStore := mput (i_view s) nv (i_newViewStore s)\<rparr>) = Inr s'"
          using r True Some m innerBroadcast_emit [OF codec byz]
          by (simp add: sendNewViewWith_def sc Let_def nv_def [symmetric])
        with True Some m nv_def show thesis by (intro that(2) [of cp m nv]) simp_all
      qed
    qed
  qed
qed

lemma sendNewViewWith_step_ok:
  assumes codec: "codec_ok E" and svc: "\<And>t t'. sendVC t = Inr t' \<Longrightarrow> step_ok E X t t'"
    and r: "sendNewViewWith E sendVC s = Inr s'" and prim: "primary s (i_view s) = i_id s"
  shows "step_ok E X s s'"
proof (cases "i_byzantine s")
  case False
  show ?thesis
  proof (cases rule: sendNewViewWith_cases [OF codec False r])
    case (2 cp m nv)
    let ?s1 = "(emit E (MNewView nv) s)\<lparr>i_newViewStore := mput (i_view s) nv (i_newViewStore s)\<rparr>"
    have l: "logs ?s1 = logs (s\<lparr>i_newViewStore := mput (i_view s) nv (i_newViewStore s)\<rparr>)"
      using logs_emit [of E "MNewView nv" s] by (simp add: logs_def)
    have M: "sentMsgs E ?s1 = insert (MNewView nv) (sentMsgs E s)" by (simp add: sentMsgs_emit [OF codec])
    have "step_ok E X s ?s1"
    proof (rule step_okI)
      show "extends E s ?s1" unfolding extends_def M by auto
    next
      assume inv: "core_inv X (sentMsgs E s) s"
      then have "primaryOf (i_N s) (i_view s) = i_id s"
        using prim primary_primaryOf [of s] by (simp add: core_inv_def)
      then show "core_inv X (sentMsgs E ?s1) ?s1"
        unfolding M core_inv_logs [OF l] using assign_gomap_ok [OF 2(2)] 2(1,3)
        by (intro core_inv_send_newview [OF inv]) simp_all
    qed
    moreover have "step_ok E X ?s1 s'"
      by (rule processNewViewWith_step_ok [OF codec _ 2(4)]) (rule svc)
    ultimately show ?thesis by (rule step_ok_trans)
  qed simp
qed (simp add: step_ok_def)

subsection \<open>View changes\<close>

lemma smallestView_in:
  assumes "\<forall>idx \<in> set idxs. 0 < fst idx"
  shows "smallestView m idxs = m \<or> smallestView m idxs \<in> fst ` set idxs"
    and "idxs \<noteq> [] \<Longrightarrow> smallestView m idxs \<noteq> 0"
  using assms
proof (atomize(full), induction idxs arbitrary: m)
  case (Cons idx idxs)
  let ?m = "if m = 0 \<or> fst idx < m then fst idx else m"
  have IH: "smallestView ?m idxs = ?m \<or> smallestView ?m idxs \<in> fst ` set idxs"
    "idxs \<noteq> [] \<longrightarrow> smallestView ?m idxs \<noteq> 0"
    using Cons by simp_all
  have e: "smallestView m (idx # idxs) = smallestView ?m idxs" by (simp add: smallestView_def)
  have "?m \<noteq> 0" using Cons.prems by auto
  with IH(2) have "smallestView ?m idxs \<noteq> 0" by (cases "idxs = []") (auto simp: smallestView_def)
  moreover have "smallestView ?m idxs = m \<or> smallestView ?m idxs \<in> fst ` set (idx # idxs)"
    using IH(1) by (auto split: if_splits)
  ultimately show ?case by (simp only: e simp_thms)
qed (simp add: smallestView_def)

lemma smallestView_later:
  assumes "idxs \<noteq> []" and "\<forall>idx \<in> set idxs. v < fst idx"
  shows "v < smallestView 0 idxs" "smallestView 0 idxs \<in> fst ` set idxs"
proof -
  have "\<forall>idx \<in> set idxs. 0 < fst idx" using assms(2) by (metis le_less_trans word_zero_le)
  from smallestView_in [OF this, of 0] assms(1) show "smallestView 0 idxs \<in> fst ` set idxs" by auto
  with assms(2) show "v < smallestView 0 idxs" by auto
qed

lemma le_pred_word: "(v :: u64) < m \<Longrightarrow> v \<le> m - 1"
proof -
  assume "v < m"
  then have "m \<noteq> 0" by auto
  with \<open>v < m\<close> show ?thesis by (simp add: word_le_nat_alt word_less_nat_alt unat_minus_one)
qed

lemma recvViewChangeWith_step_ok:
  assumes codec: "codec_ok E"
    and svc: "\<And>t w t'. i_view t \<le> w \<Longrightarrow> sendVC (t\<lparr>i_view := w\<rparr>) = Inr t' \<Longrightarrow> step_ok E X t t'"
    and r: "recvViewChangeWith E sendVC vc s = Inr s'"
  shows "step_ok E X s s'"
proof -
  define s1 where "s1 = s\<lparr>i_viewChangeStore := mput (vc_View vc, vc_ReplicaId vc) vc (i_viewChangeStore s)\<rparr>"
  define later where "later = filter (\<lambda>idx. \<not> fst idx \<le> i_view s1) (map fst (i_viewChangeStore s1))"
  define s3 where "s3 = (startTimer (i_lastNewViewTimeout s1) s1)\<lparr>i_lastNewViewTimeout := 2 * i_lastNewViewTimeout (startTimer (i_lastNewViewTimeout s1) s1)\<rparr>"
  have plain: "\<And>t t'. sendVC t = Inr t' \<Longrightarrow> step_ok E X t t'"
    using svc [OF order_refl] by simp
  have a: "step_ok E X s s1" by (rule step_ok_logs) (simp_all add: s1_def)
  have b: "step_ok E X s1 s3" by (rule step_ok_logs) (simp_all add: s3_def)
  have e: "recvViewChangeWith E sendVC vc s =
     (if \<not> verify E vc then Inr s
      else if \<not> (vc_View vc \<ge> i_view s \<and> correctViewChange s vc
                 \<and> mget (i_viewChangeStore s) (vc_View vc, vc_ReplicaId vc) = None) then Inr s
      else if length (remdups (map snd later)) \<ge> i_f s1 + 1 then sendVC (s1\<lparr>i_view := smallestView 0 later - 1\<rparr>)
      else if vc_View vc = i_view s1 \<and> length (filter (\<lambda>idx. fst idx = i_view s1) (map fst (i_viewChangeStore s1)))
          = allCorrectReplicasQuorum s1 then
        if primary s3 (i_view s3) = i_id s3 then sendNewViewWith E sendVC s3 else processNewViewWith E sendVC s3
      else processNewViewWith E sendVC s1)"
    by (simp only: recvViewChangeWith_def Let_def s1_def later_def s3_def)
  have ne: "length (remdups (map snd later)) \<ge> i_f s1 + 1 \<Longrightarrow> later \<noteq> []" by (cases later) simp_all
  from r ne consider "s' = s"
    | "later \<noteq> []" "sendVC (s1\<lparr>i_view := smallestView 0 later - 1\<rparr>) = Inr s'"
    | "primary s3 (i_view s3) = i_id s3" "sendNewViewWith E sendVC s3 = Inr s'"
    | "processNewViewWith E sendVC s3 = Inr s'" | "processNewViewWith E sendVC s1 = Inr s'"
    unfolding e by (metis (no_types, lifting) sum.inject(2))
  then show ?thesis
  proof cases
    case 2
    have "i_view s1 < smallestView 0 later"
      by (rule smallestView_later [OF 2(1)]) (auto simp: later_def not_le)
    from svc [OF le_pred_word [OF this] 2(2)] a show ?thesis by (rule step_ok_trans [rotated])
  next
    case 3
    from sendNewViewWith_step_ok [OF codec plain 3(2,1)] a b show ?thesis by (meson step_ok_trans)
  next
    case 4
    from processNewViewWith_step_ok [OF codec plain 4] a b show ?thesis by (meson step_ok_trans)
  next
    case 5
    from processNewViewWith_step_ok [OF codec plain 5] a show ?thesis by (meson step_ok_trans)
  qed simp
qed

lemma sign_sel [simp]: "vc_View (sign E vc) = vc_View vc" "vc_ReplicaId (sign E vc) = vc_ReplicaId vc"
  by (simp_all add: sign_def Let_def split: sum.splits)

lemma makeViewChange_sel [simp]:
  "vc_View (makeViewChange E s) = i_view s" "vc_ReplicaId (makeViewChange E s) = i_id s"
  by (simp_all add: makeViewChange_def)

lemma sendViewChangeN_step_ok:
  assumes codec: "codec_ok E" and "sendViewChangeN E k (s\<lparr>i_view := w\<rparr>) = Inr s'" and "i_view s \<le> w"
  shows "step_ok E X s s'"
  using assms(2,3)
proof (induction k arbitrary: s w s')
  case (Suc k)
  show ?case
  proof (cases "i_byzantine s")
    case False
    let ?s1 = "enterNextView (s\<lparr>i_view := w\<rparr>)"
    let ?vc = "makeViewChange E ?s1"
    let ?s2 = "emit E (MViewChange ?vc) ?s1"
    have nb: "\<not> i_byzantine ?s1" using False by simp
    from Suc.prems(1) have r: "recvViewChangeWith E (sendViewChangeN E k) ?vc ?s2 = Inr s'"
      using innerBroadcast_emit [OF codec nb] by (simp add: Let_def fromSender_def)
    have M1: "sentMsgs E ?s1 = sentMsgs E s" by (rule sentMsgs_trace) simp
    have M: "sentMsgs E ?s2 = insert (MViewChange ?vc) (sentMsgs E s)" by (simp add: sentMsgs_emit [OF codec] M1)
    have "step_ok E X s ?s2"
    proof (rule step_okI)
      show "extends E s ?s2" unfolding extends_def M by auto
    next
      assume "in_range (sentMsgs E ?s2) ?s2" and inv: "core_inv X (sentMsgs E s) s"
      then have "w + 1 \<noteq> 0" by (auto simp: in_range_def M)
      from core_inv_enterNextView [OF inv Suc.prems(2) this]
      show "core_inv X (sentMsgs E ?s2) ?s2"
        unfolding M core_inv_emit by (rule core_inv_insert_neutral) (simp add: neutral_def)
    qed
    moreover have "step_ok E X ?s2 s'"
      by (rule recvViewChangeWith_step_ok [OF codec _ r]) (rule Suc.IH)
    ultimately show ?thesis by (rule step_ok_trans)
  qed (simp add: step_ok_def)
qed simp

lemma sendViewChange_step_ok':
  assumes "codec_ok E" and "sendViewChange E (s\<lparr>i_view := w\<rparr>) = Inr s'" and "i_view s \<le> w"
  shows "step_ok E X s s'"
  using sendViewChangeN_step_ok [OF assms(1) _ assms(3)] assms(2) unfolding sendViewChange_def by blast

lemma sendViewChange_step_ok:
  assumes "codec_ok E" and "sendViewChange E s = Inr s'"
  shows "step_ok E X s s'"
  by (rule sendViewChange_step_ok' [OF assms(1), where s = s and w = "i_view s"]) (simp_all add: assms(2))

lemma processNewView_step_ok:
  assumes "codec_ok E" and "processNewView E s = Inr s'"
  shows "step_ok E X s s'"
  by (rule processNewViewWith_step_ok [OF assms(1) _ assms(2) [unfolded processNewView_def]])
    (rule sendViewChange_step_ok [OF assms(1)])

lemma recvViewChange_step_ok:
  assumes "codec_ok E" and "recvViewChange E vc s = Inr s'"
  shows "step_ok E X s s'"
  by (rule recvViewChangeWith_step_ok [OF assms(1) _ assms(2) [unfolded recvViewChange_def]])
    (rule sendViewChange_step_ok' [OF assms(1)])

lemma recvNewView_step_ok:
  assumes codec: "codec_ok E" and r: "recvNewView E nv s = Inr s'"
    and X: "(nv_ReplicaId nv, MNewView nv) \<in> X" "gomap_ok (nv_Xset nv)"
  shows "step_ok E X s s'"
proof -
  let ?s1 = "s\<lparr>i_newViewStore := mput (nv_View nv) nv (i_newViewStore s)\<rparr>"
  consider "s' = s" | "primary s (nv_View nv) = nv_ReplicaId nv" "mget (i_newViewStore s) (nv_View nv) = None"
      "processNewView E ?s1 = Inr s'"
    using r unfolding recvNewView_def by (metis (no_types, lifting) sum.inject(2))
  then show ?thesis
  proof cases
    case 2
    have "step_ok E X s ?s1"
    proof (rule step_okI)
      show "extends E s ?s1" by (simp add: extends_def)
    next
      assume inv: "core_inv X (sentMsgs E s) s"
      then have "config_ok s" by (simp only: core_inv_def)
      then have "(primaryOf (i_N s) (nv_View nv), MNewView nv) \<in> X"
        using primary_primaryOf 2(1) X(1) by metis
      then show "core_inv X (sentMsgs E ?s1) ?s1"
        using core_inv_recv_newview [OF inv 2(2) X(2)] by simp
    qed
    then show ?thesis using processNewView_step_ok [OF codec 2(3)] by (rule step_ok_trans)
  qed simp
qed

subsection \<open>What the normal case leaves alone\<close>

definition viewState :: "'w pbftCore \<Rightarrow> _" where
  "viewState s = ((i_h s, i_L s, i_K s, i_N s, i_f s, i_id s, i_replicaCount s, i_byzantine s),
     (i_view s, i_activeView s, i_newViewStore s, i_viewChangeStore s, i_missingReqs s),
     (i_chkpts s, i_pset s, i_qset s, i_checkpointStore s, i_hChkpts s, i_skipInProgress s))"

lemma viewState_updates [simp]:
  "viewState (i_certStore_update g1 s) = viewState s" "viewState (i_trace_update g2 s) = viewState s"
  "viewState (i_now_update g3 s) = viewState s" "viewState (i_lastExec_update g4 s) = viewState s"
  "viewState (i_outstandingReqs_update g5 s) = viewState s" "viewState (i_reqStore_update g6 s) = viewState s"
  "viewState (i_lastNewViewTimeout_update g7 s) = viewState s" "viewState (i_seqNo_update g8 s) = viewState s"
  by (simp_all add: viewState_def)

lemma viewState_small [simp]:
  "viewState (act a s) = viewState s" "viewState (startTimer t s) = viewState s"
  "viewState (stopTimer s) = viewState s" "viewState (watchOutstanding s) = viewState s"
  "viewState (setCert v n c s) = viewState s"
  by (simp_all add: act_def startTimer_def stopTimer_def watchOutstanding_def setCert_def viewState_def)

lemma viewState_getCert: "getCert v n s = (c, s1) \<Longrightarrow> viewState s1 = viewState s"
  by (erule getCert_cases) simp_all

lemma viewState_byzantineSend [simp]: "viewState (byzantineSend k raw s) = viewState s"
proof -
  have "viewState (foldl (\<lambda>s i. if i \<noteq> k \<and> word_of_nat i \<noteq> i_id s then act (AUnicast raw (word_of_nat i)) s else s) s is)
      = viewState s" for "is"
    by (induction "is" rule: rev_induct) auto
  then show ?thesis by (simp add: byzantineSend_def)
qed

text \<open>A broadcast leaves the view state alone if the local delivery does.\<close>

lemma viewState_innerBroadcast:
  assumes "innerBroadcast E m toSelf s = Inr s'"
    and "\<And>d t t'. toSelf = Some d \<Longrightarrow> d t = Inr t' \<Longrightarrow> viewState t' = viewState t"
  shows "viewState s' = viewState s"
proof (cases "e_marshal E m")
  case (Inr raw)
  define t where "t = (if i_byzantine s \<and> e_random E (i_now s) mod 3 = 1
    then byzantineSend (e_random E (i_now s + 1) mod i_N s) raw (s\<lparr>i_now := i_now s + 2\<rparr>)
    else act (ABroadcast raw) (s\<lparr>i_now := i_now s + 2\<rparr>))"
  have t: "viewState t = viewState s" by (simp add: t_def)
  have "(case toSelf of None \<Rightarrow> Inr t | Some deliver \<Rightarrow> deliver t) = Inr s'"
    using assms(1) Inr unfolding innerBroadcast_def Let_def t_def by simp
  then show ?thesis using assms(2) t by (cases toSelf) auto
qed (use assms(1) in \<open>simp add: innerBroadcast_def\<close>)

lemma executeOne_viewState: "executeOne idx s = Inr (b, s') \<Longrightarrow> viewState s' = viewState s"
  by (auto simp: executeOne_defs Let_def split: option.splits if_splits)

lemma executePass_viewState: "executePass idxs s = Inr (b, s') \<Longrightarrow> viewState s' = viewState s"
proof (induction idxs arbitrary: s)
  case (Cons idx idxs)
  from Cons.prems obtain b1 s1 where 1: "executeOne idx s = Inr (b1, s1)"
    and 2: "(if b1 then Inr (True, s1) else executePass idxs s1) = Inr (b, s')"
    by (auto simp: rbind_Inr_conv)
  from 2 Cons.IH [of s1] have "viewState s' = viewState s1" by (auto split: if_splits)
  with executeOne_viewState [OF 1] show ?case by simp
qed simp

lemma executeOutstanding_viewState:
  assumes "executeOutstanding s = Inr s'"
  shows "viewState s' = viewState s"
proof -
  from assms have "executeLoop s = Some (Inr s')" by (auto simp: executeOutstanding_def split: option.splits)
  then have "\<forall>t'. Inr s' = (Inr t' :: pstop + 'a pbftCore) \<longrightarrow> viewState t' = viewState s"
  proof (rule executeLoop.raw_induct [where P = "\<lambda>t r. \<forall>t'. r = Inr t' \<longrightarrow> viewState t' = viewState t", rotated], goal_cases)
    case (1 f t r)
    show ?case
    proof (cases "executePass (map fst (i_certStore t)) t")
      case (Inr x)
      then have x: "viewState (snd x) = viewState t" using executePass_viewState by (cases x) auto
      show ?thesis
      proof (cases "fst x")
        case True
        with 1(2) Inr have "f (snd x) = Some r" by simp
        from 1(1) [OF this] x show ?thesis by simp
      next
        case False
        with 1(2) Inr x show ?thesis by auto
      qed
    qed (use 1(2) in auto)
  qed
  then show ?thesis by simp
qed

lemma recvCommit_viewState:
  assumes "recvCommit commit s = Inr s'"
  shows "viewState s' = viewState s"
proof (cases "inWV s (cm_View commit) (cm_SequenceNumber commit)")
  case True
  obtain c s1 where g: "getCert (cm_View commit) (cm_SequenceNumber commit) s = (c, s1)" by fastforce
  let ?s2 = "setCert (cm_View commit) (cm_SequenceNumber commit) (c\<lparr>mc_commit := mc_commit c @ [commit]\<rparr>) s1"
  from assms True have "(if \<exists>p \<in> set (mc_commit c). cm_ReplicaId p = cm_ReplicaId commit then Inr s1
      else executeOutstanding ?s2) = Inr s'"
    by (simp add: recvCommit_def g)
  then consider "s' = s1" | "executeOutstanding ?s2 = Inr s'"
    by (metis (no_types, lifting) sum.inject(2))
  then show ?thesis
  proof cases
    case 2
    from executeOutstanding_viewState [OF 2] viewState_getCert [OF g] show ?thesis by simp
  qed (simp add: viewState_getCert [OF g])
next
  case False
  with assms show ?thesis by (simp add: recvCommit_def)
qed

lemma maybeSendCommit_viewState:
  assumes "maybeSendCommit E d v n s = Inr s'"
  shows "viewState s' = viewState s"
proof -
  obtain c s1 where g: "getCert v n s = (c, s1)" by fastforce
  let ?m = "\<lparr>cm_View = v, cm_SequenceNumber = n, cm_RequestDigest = d, cm_ReplicaId = i_id s\<rparr>"
  let ?s2 = "setCert v n (c\<lparr>mc_sentCommit := True\<rparr>) s1"
  from assms have "(if prepared s1 d v n \<and> \<not> mc_sentCommit c then
      if mc_prePrepare c = None then Inl (Crash ''nil pre-prepare'')
      else innerBroadcast E (MCommit ?m) (Some (fromSender (i_id s) (i_id s) (recvCommit ?m))) ?s2
      else Inr s1) = Inr s'"
    by (simp only: maybeSendCommit_def Let_def g prod.case Commit.select_convs)
  then consider "s' = s1" | "innerBroadcast E (MCommit ?m)
      (Some (fromSender (i_id s) (i_id s) (recvCommit ?m))) ?s2 = Inr s'"
    by (metis (no_types, lifting) sum.inject(2) sum.distinct(1))
  then show ?thesis
  proof cases
    case 2
    have "viewState s' = viewState ?s2"
      by (rule viewState_innerBroadcast [OF 2]) (auto simp: fromSender_def recvCommit_viewState)
    then show ?thesis using viewState_getCert [OF g] by simp
  qed (simp add: viewState_getCert [OF g])
qed

lemma recvRequest_viewState:
  assumes "recvRequest E req s = Inr s'"
  shows "viewState s' = viewState s"
proof (cases "e_validate E (rq_Payload req)")
  case True
  let ?d = "hashReq E (Some req)"
  define s1 where "s1 = s\<lparr>i_reqStore := mput ?d req (i_reqStore s), i_outstandingReqs := mput ?d req (i_outstandingReqs s)\<rparr>"
  define s2 where "s2 = (if \<not> i_timerActive s1 \<and> i_activeView s1 then startTimer (i_requestTimeout s1) s1 else s1)"
  let ?v = "i_view s2" and ?n = "i_seqNo s2 + 1"
  have v2: "viewState s2 = viewState s" by (simp add: s2_def s1_def)
  obtain c s3 where g: "getCert ?v ?n (s2\<lparr>i_seqNo := ?n\<rparr>) = (c, s3)" by fastforce
  from assms True consider "s' = s2"
    | p s4 where "innerBroadcast E (MPrePrepare p) None (setCert ?v ?n (c\<lparr>mc_prePrepare := Some p\<rparr>) s3) = Inr s4"
        "maybeSendCommit E ?d ?v ?n s4 = Inr s'"
    unfolding recvRequest_def Let_def s1_def [symmetric] s2_def [symmetric] g
    by (auto simp: rbind_Inr_conv split: if_splits)
  then show ?thesis
  proof cases
    case (2 p s4)
    have "viewState s4 = viewState s3" using viewState_innerBroadcast [OF 2(1)] by simp
    moreover have "viewState s3 = viewState s2" using viewState_getCert [OF g] by simp
    ultimately show ?thesis using maybeSendCommit_viewState [OF 2(2)] v2 by simp
  qed (simp add: v2)
next
  case False
  with assms show ?thesis by (simp add: recvRequest_def)
qed

lemma resubmitRequests_viewState:
  assumes "resubmitRequests E s = Inr s'"
  shows "viewState s' = viewState s"
proof (cases "primary s (i_view s) = i_id s")
  case True
  show ?thesis
  proof (rule rfold_preserves [where P = "\<lambda>t. viewState t = viewState s"])
    show "rfold (\<lambda>s d. case mget (i_outstandingReqs s) d of
          None \<Rightarrow> Inr s
        | Some req \<Rightarrow>
            if \<exists>cert \<in> snd ` set (i_certStore s). map_option pp_RequestDigest (mc_prePrepare cert) = Some d
            then Inr s
            else recvRequest E req s) (map fst (i_outstandingReqs s)) s = Inr s'"
      using assms True unfolding resubmitRequests_def by simp
  qed (auto split: option.splits if_splits simp: recvRequest_viewState)
qed (use assms in \<open>simp add: resubmitRequests_def\<close>)

lemma moveWatermarks_h:
  assumes "moveWatermarks E h s = Inr s'"
  shows "i_h s' = h"
  using resubmitRequests_viewState [OF assms [unfolded moveWatermarks_def Let_def]]
  by (simp add: viewState_def)

end
