(* ===== verification/PbftSteps.thy ===== *)
theory PbftSteps
  imports PbftRun
begin

text \<open>
  The invariant of \<open>PbftInv\<close> holds in every state that a correct PBFT replica reaches. The
  remaining handlers (checkpoints, returned requests, the dispatcher and the timer) are put
  together here, and \<open>prun\<close> describes the runs.
\<close>

subsection \<open>Checkpoints\<close>

lemma weakCheckpoint_not_out:
  assumes "weakCheckpointSetOutOfRange E chkpt s = Inr (False, s')"
  shows "i_h s' = i_h s" "i_L s' = i_L s"
  using assms unfolding weakCheckpointSetOutOfRange_def Let_def
  by (auto simp: rbind_Inr_conv split: if_splits)

lemma witnessCheckpoint_h:
  assumes r: "witnessCheckpointWeakCert E chkpt s = Inr s'"
  shows "i_h s' = i_h s \<or> i_h s' = ck_SequenceNumber chkpt"
proof -
  consider "s' = s" | n cid ms ei where "s' = act (AValidState n cid ms ei) s"
    | n cid ms ei s1 where "moveWatermarks E (ck_SequenceNumber chkpt) (s\<lparr>i_skipInProgress := False\<rparr>) = Inr s1"
      "s' = act (ASkipTo n cid ms ei) (s1\<lparr>i_lastExec := ck_SequenceNumber chkpt\<rparr>)"
    using r unfolding witnessCheckpointWeakCert_def Let_def
    by (auto simp: rbind_Inr_conv split: if_splits option.splits)
  then show ?thesis
  proof cases
    case 3
    then show ?thesis using moveWatermarks_h [OF 3(1)] by (simp add: act_def)
  qed (simp_all add: act_def)
qed

lemma recvCheckpoint_step_ok:
  assumes codec: "codec_ok E" and r: "recvCheckpoint E chkpt s = Inr s'"
    and w: "unat (i_h s) + unat (i_L s) < 2 ^ 64"
  shows "step_ok E X s s'"
proof -
  let ?n = "ck_SequenceNumber chkpt"
  from r obtain b s1 where wk: "weakCheckpointSetOutOfRange E chkpt s = Inr (b, s1)"
    by (auto simp: recvCheckpoint_def rbind_Inr_conv)
  have a: "step_ok E X s s1" by (rule weakCheckpoint_step_ok [OF codec wk w])
  let ?s2 = "s1\<lparr>i_checkpointStore := mput chkpt True (i_checkpointStore s1)\<rparr>"
  have b2: "step_ok E X s1 ?s2" by (rule step_ok_logs) simp_all
  show ?thesis
  proof (cases "b \<or> \<not> inW s1 ?n")
    case True
    with r wk have "s' = s1" by (cases b) (simp_all add: recvCheckpoint_def)
    with a show ?thesis by simp
  next
    case False
    with wk have "i_h s1 = i_h s" "i_L s1 = i_L s" using weakCheckpoint_not_out [of E chkpt s s1] by simp_all
    with False w have lt: "i_h s1 < ?n" using inW_above [of s1 ?n] by simp
    define wit where "wit = (if length (matchingCheckpoints ?s2 chkpt) = i_f ?s2 + 1 then witnessCheckpointWeakCert E chkpt ?s2 else Inr ?s2)"
    from r wk False obtain s3 where s3: "wit = Inr s3"
      and t: "(if length (matchingCheckpoints ?s2 chkpt) < intersectionQuorum s3 then Inr s3
        else if mget (i_chkpts s3) ?n = None then Inr s3
        else rbind (moveWatermarks E ?n s3) (processNewView E)) = Inr s'"
      by (auto simp: recvCheckpoint_def Let_def rbind_Inr_conv wit_def)
    have le: "i_h ?s2 \<le> ?n" using lt by simp
    have c: "step_ok E X ?s2 s3" and h3: "i_h s3 \<le> ?n"
      using s3 witnessCheckpoint_step_ok [OF codec _ le, of s3 X] witnessCheckpoint_h [of E chkpt ?s2 s3] le
      by (auto simp: wit_def split: if_splits)
    from t consider "s' = s3" | s4 where "moveWatermarks E ?n s3 = Inr s4" "processNewView E s4 = Inr s'"
      by (auto simp: rbind_Inr_conv split: if_splits)
    then show ?thesis
    proof cases
      case 1
      with a b2 c show ?thesis by (metis step_ok_trans)
    next
      case (2 s4)
      from moveWatermarks_step_ok [OF codec 2(1) h3] processNewView_step_ok [OF codec 2(2)] a b2 c
      show ?thesis by (meson step_ok_trans)
    qed
  qed
qed

lemma Checkpoint_step_ok:
  assumes codec: "codec_ok E" and r: "Checkpoint_op E seqNo cid s = Inr s'"
    and w: "unat (i_h s) + unat (i_L s) < 2 ^ 64"
  shows "step_ok E X s s'"
proof (cases "i_byzantine s")
  case False
  define c where "c = \<lparr>ck_SequenceNumber = i_lastExec s, ck_ReplicaId = i_id s, ck_Id = EncodeToString cid\<rparr>"
  let ?s1 = "s\<lparr>i_chkpts := mput (i_lastExec s) (EncodeToString cid) (i_chkpts s)\<rparr>"
  let ?s2 = "emit E (MCheckpoint c) ?s1"
  have nb: "\<not> i_byzantine ?s1" using False by simp
  have "innerBroadcast E (MCheckpoint c) (Some (fromSender (i_id s) (ck_ReplicaId c) (recvCheckpoint E c))) ?s1
      = recvCheckpoint E c ?s2"
    by (simp add: innerBroadcast_emit [OF codec nb] fromSender_def c_def)
  then have "Checkpoint_op E seqNo cid s = (if i_K s = 0 then Inl (Crash ''integer divide by zero'')
      else if seqNo mod i_K s \<noteq> 0 then Inr s else recvCheckpoint E c ?s2)"
    unfolding Checkpoint_op_def Let_def c_def by simp
  with r consider "s' = s" | "recvCheckpoint E c ?s2 = Inr s'"
    by (metis (no_types, lifting) sum.inject(2) sum.distinct(1))
  then show ?thesis
  proof cases
    case 2
    have "step_ok E X s ?s1" by (rule step_ok_logs) simp_all
    moreover have "step_ok E X ?s1 ?s2" by (rule emit_step_ok [OF codec]) (simp add: neutral_def)
    moreover have "step_ok E X ?s2 s'" by (rule recvCheckpoint_step_ok [OF codec 2]) (use w in simp)
    ultimately show ?thesis by (meson step_ok_trans)
  qed simp
qed (simp add: step_ok_def)

lemma recvReturnRequest_step_ok:
  assumes codec: "codec_ok E" and r: "recvReturnRequest E req s = Inr s'"
  shows "step_ok E X s s'"
proof -
  let ?d = "hashReq E (Some req)"
  let ?s1 = "s\<lparr>i_reqStore := mput ?d req (i_reqStore s), i_missingReqs := mdel ?d (i_missingReqs s)\<rparr>"
  from r consider "s' = s" | "processNewView E ?s1 = Inr s'"
    unfolding recvReturnRequest_def Let_def by (metis (no_types, lifting) sum.inject(2))
  then show ?thesis
  proof cases
    case 2
    have "step_ok E X s ?s1" by (rule step_ok_logs) simp_all
    then show ?thesis using processNewView_step_ok [OF codec 2] by (rule step_ok_trans)
  qed simp
qed

subsection \<open>The dispatcher\<close>

text \<open>A message as the codec delivers it: the assignments of a new view are a map.\<close>

definition message_ok :: "Message \<Rightarrow> bool" where
  "message_ok m \<longleftrightarrow> (case m of MNewView nv \<Rightarrow> gomap_ok (nv_Xset nv) | _ \<Rightarrow> True)"

lemma fromSender_Inr: "fromSender a b f s = Inr s' \<Longrightarrow> s' = s \<or> (a = b \<and> f s = Inr s')"
  by (auto simp: fromSender_def split: if_splits)

lemma recvMsgSync_step_ok:
  assumes codec: "codec_ok E" and r: "recvMsgSync E m sender s = Inr s'"
    and X: "(sender, m) \<in> X" "message_ok m" "sender \<noteq> i_id s" and cfg: "config_ok s"
    and w: "unat (i_h s) + unat (i_L s) < 2 ^ 64"
  shows "step_ok E X s s'"
proof (cases m)
  case (MRequest req)
  with r show ?thesis
    using recvRequest_step_ok [OF codec] by (auto simp: recvMsgSync_def dest!: fromSender_Inr)
next
  case (MPrePrepare p)
  with r X(1) show ?thesis
    using recvPrePrepare_step_ok [OF codec _ _ cfg, of p s' X] by (auto simp: recvMsgSync_def dest!: fromSender_Inr)
next
  case (MPrepare p)
  with r X(1,3) show ?thesis
    using recvPrepare_step_ok [OF codec, of p s s' X]
    by (auto simp: recvMsgSync_def evidence_def dest!: fromSender_Inr)
next
  case (MCommit c)
  with r show ?thesis using recvCommit_step_ok [of c s s' E X] by (auto simp: recvMsgSync_def dest!: fromSender_Inr)
next
  case (MCheckpoint c)
  with r show ?thesis
    using recvCheckpoint_step_ok [OF codec _ w] by (auto simp: recvMsgSync_def dest!: fromSender_Inr)
next
  case (MViewChange vc)
  with r show ?thesis
    using recvViewChange_step_ok [OF codec] by (auto simp: recvMsgSync_def dest!: fromSender_Inr)
next
  case (MNewView nv)
  with r X(1,2) show ?thesis
    using recvNewView_step_ok [OF codec, of nv s s' X]
    by (auto simp: recvMsgSync_def message_ok_def dest!: fromSender_Inr)
next
  case (MFetchRequest fr)
  with r show ?thesis
    using recvFetchRequest_step_ok [OF codec] by (auto simp: recvMsgSync_def dest!: fromSender_Inr)
next
  case (MReturnRequest req)
  with r show ?thesis using recvReturnRequest_step_ok [OF codec] by (simp add: recvMsgSync_def)
qed (use r in \<open>simp add: recvMsgSync_def\<close>)

subsection \<open>Runs\<close>

text \<open>
  The runs of a correct replica with environment \<open>E\<close>: it is started by \<open>newPbftCore\<close> without the
  byzantine flag and handles inputs one at a time. A received message comes from another replica;
  \<open>X\<close> collects the messages received so far with their senders, \<open>hist\<close> the states passed through, the
  current one first.
\<close>

inductive prun :: "'w penv \<Rightarrow> evidence \<Rightarrow> 'w pbftCore list \<Rightarrow> 'w pbftCore \<Rightarrow> bool" for E where
  start: "newPbftCore rid config startupID = Inr s \<Longrightarrow> \<not> cfg_byzantine config \<Longrightarrow> cfg_N config < 2 ^ 64 \<Longrightarrow> prun E {} [s] s"
| receives: "prun E X hist s \<Longrightarrow> e_unmarshal E w = Inr m \<Longrightarrow> sender \<noteq> i_id s \<Longrightarrow> unat sender < i_N s \<Longrightarrow> message_ok m \<Longrightarrow>
    pstep E (Receive w sender) s = Inr s' \<Longrightarrow> prun E (insert (sender, m) X) (s' # hist) s'"
| takes: "prun E X hist s \<Longrightarrow> (\<nexists>w sender. x = Receive w sender) \<Longrightarrow>
    pstep E x s = Inr s' \<Longrightarrow> prun E X (s' # hist) s'"

inductive_cases prunE: "prun E X hist s"

text \<open>
  Nothing has wrapped around in a run: the watermark window stayed below \<open>2 ^ 64\<close> and the replica
  never announced the view 0 again.
\<close>

definition unwrapped :: "'w penv \<Rightarrow> 'w pbftCore list \<Rightarrow> bool" where
  "unwrapped E hist \<longleftrightarrow> (\<forall>t \<in> set hist. in_range (sentMsgs E t) t)"

lemma newPbftCore_inv:
  assumes "newPbftCore rid config startupID = Inr s" and "\<not> cfg_byzantine config" "cfg_N config < 2 ^ 64"
  shows "core_inv {} (sentMsgs E s) s" "in_range (sentMsgs E s) s"
proof -
  from assms(1) have s: "i_certStore s = []" "i_pset s = []" "i_qset s = []" "i_newViewStore s = []"
    "i_trace s = []" "i_view s = 0" "i_activeView s" "i_h s = 0" "\<not> i_byzantine s" "i_replicaCount s = i_N s"
    "3 * i_f s + 1 \<le> i_N s" "i_N s < 2 ^ 64"
    using assms(2,3) by (auto simp: newPbftCore_def Let_def split: if_splits option.splits)
  have M: "sentMsgs E s = {}" by (simp add: sentMsgs_def s)
  show "core_inv {} (sentMsgs E s) s" using s(11,12) by (simp add: M core_inv_defs s(1-10))
  show "in_range (sentMsgs E s) s" using unsigned_less [of "i_L s"] by (simp add: M in_range_def s)
qed

lemma timers_step_ok:
  "step_ok E X s (timerFire s)" "step_ok E X s (timerReceive s)" "step_ok E X s (close s)"
  by (rule step_ok_logs; simp add: timerFire_def timerReceive_def close_def)+

lemma timerHander_step_ok:
  assumes "codec_ok E" and r: "timerHander E s = Inr s'"
  shows "step_ok E X s s'"
proof -
  let ?s1 = "s\<lparr>i_timerWaiting := False\<rparr>"
  from r consider "s' = s" | "s' = ?s1" | "sendViewChange E ?s1 = Inr s'"
    unfolding timerHander_def Let_def by (metis (no_types, lifting) sum.inject(2))
  then show ?thesis
  proof cases
    case 2
    show ?thesis unfolding 2 by (rule step_ok_logs) simp_all
  next
    case 3
    have "step_ok E X s ?s1" by (rule step_ok_logs) simp_all
    then show ?thesis using sendViewChange_step_ok [OF assms(1) 3] by (rule step_ok_trans)
  qed simp
qed

lemma local_step_ok:
  assumes codec: "codec_ok E" and r: "pstep E x s = Inr s'" and "\<nexists>w sender. x = Receive w sender"
    and w: "unat (i_h s) + unat (i_L s) < 2 ^ 64"
  shows "step_ok E X s s'"
proof (cases x)
  case (NewRequest payload sender)
  with r show ?thesis
    using recvRequest_step_ok [OF codec]
    by (auto simp: pstep_def request_def recvMsgSync_def dest!: fromSender_Inr)
next
  case (CheckpointDone n cid)
  with r show ?thesis using Checkpoint_step_ok [OF codec _ w] by (simp add: pstep_def)
next
  case TimerLocked
  with r show ?thesis using timerHander_step_ok [OF codec] by (simp add: pstep_def)
qed (use r assms(3) timers_step_ok in \<open>auto simp: pstep_def\<close>)

theorem prun_inv:
  assumes codec: "codec_ok E" and "prun E X hist s" and "unwrapped E hist"
  shows "core_inv X (sentMsgs E s) s \<and> in_range (sentMsgs E s) s"
  using assms(2,3)
proof (induction rule: prun.induct)
  case (start rid config startupID s)
  then show ?case using newPbftCore_inv by blast
next
  case (receives X hist s w m sender s')
  have u: "unwrapped E hist" "in_range (sentMsgs E s') s'" using receives.prems by (simp_all add: unwrapped_def)
  from receives.IH [OF u(1)] have inv: "core_inv X (sentMsgs E s) s" and ir: "in_range (sentMsgs E s) s" by simp_all
  let ?X = "insert (sender, m) X"
  have "core_inv ?X (sentMsgs E s) s" by (rule core_inv_evidence_mono [OF inv]) auto
  moreover have "config_ok s" using inv by (simp only: core_inv_def)
  moreover have "recvMsgSync E m sender s = Inr s'"
    using receives.hyps(2,6) by (simp add: pstep_def receive_def)
  then have "step_ok E ?X s s'"
    using receives.hyps ir calculation(2)
    by (intro recvMsgSync_step_ok [OF codec]) (simp_all add: in_range_def)
  ultimately show ?case using u(2) by (auto simp: step_ok_def config_ok_def)
next
  case (takes X hist s x s')
  have u: "unwrapped E hist" "in_range (sentMsgs E s') s'" using takes.prems by (simp_all add: unwrapped_def)
  note ih = takes.IH [OF u(1)]
  then have "step_ok E X s s'" using local_step_ok [OF codec takes.hyps(3,2)] by (simp add: in_range_def)
  moreover have "config_ok s" using ih by (simp only: core_inv_def)
  ultimately show ?case using ih u(2) by (auto simp: step_ok_def config_ok_def)
qed

end
