(* ===== verification/PbftFrame.thy ===== *)
theory PbftFrame
  imports PbftViewChange
begin

text \<open>
  A proof rule for invariants of the replica. Whatever a handler does is built from a few changes
  of the state: an entry of a map is written or removed, a counter moves, a timer is started or
  stopped, a call is recorded. The locale \<open>replica_invariant\<close> asks that a predicate survives each
  of these and shows that it survives every handler, hence every step of the replica apart from
  those of the timer itself.
\<close>

locale replica_invariant =
  fixes E :: "'w penv" and P :: "'w pbftCore \<Rightarrow> bool"
  assumes cert_put: "P s \<Longrightarrow> P (s\<lparr>i_certStore := mput idx c (i_certStore s)\<rparr>)"
    and cert_filter: "P s \<Longrightarrow> P (s\<lparr>i_certStore := filter ga (i_certStore s)\<rparr>)"
    and acts: "P s \<Longrightarrow> P (act a s)"
    and ticks: "P s \<Longrightarrow> P (s\<lparr>i_now := k\<rparr>)"
    and starts: "P s \<Longrightarrow> P (startTimer d s)"
    and stops: "P s \<Longrightarrow> P (stopTimer s)"
    and timeout: "P s \<Longrightarrow> P (s\<lparr>i_lastNewViewTimeout := d\<rparr>)"
    and executed: "P s \<Longrightarrow> P (s\<lparr>i_lastExec := n\<rparr>)"
    and numbered: "P s \<Longrightarrow> P (s\<lparr>i_seqNo := n\<rparr>)"
    and viewed: "P s \<Longrightarrow> P (s\<lparr>i_view := v\<rparr>)"
    and activity: "P s \<Longrightarrow> P (s\<lparr>i_activeView := b\<rparr>)"
    and watermark: "P s \<Longrightarrow> P (s\<lparr>i_h := n\<rparr>)"
    and skipping: "P s \<Longrightarrow> P (s\<lparr>i_skipInProgress := b\<rparr>)"
    and req_put: "P s \<Longrightarrow> P (s\<lparr>i_reqStore := mput (hashReq E (Some req)) req (i_reqStore s)\<rparr>)"
    and req_del: "P s \<Longrightarrow> P (s\<lparr>i_reqStore := mdel dg (i_reqStore s)\<rparr>)"
    and req_clear: "P s \<Longrightarrow> P (s\<lparr>i_reqStore := []\<rparr>)"
    and out_put: "P s \<Longrightarrow> P (s\<lparr>i_outstandingReqs := mput (hashReq E (Some req)) req (i_outstandingReqs s)\<rparr>)"
    and out_del: "P s \<Longrightarrow> P (s\<lparr>i_outstandingReqs := mdel dg (i_outstandingReqs s)\<rparr>)"
    and missing_put: "P s \<Longrightarrow> P (s\<lparr>i_missingReqs := mput dg True (i_missingReqs s)\<rparr>)"
    and missing_del: "P s \<Longrightarrow> P (s\<lparr>i_missingReqs := mdel dg (i_missingReqs s)\<rparr>)"
    and chkpt_put: "P s \<Longrightarrow> P (s\<lparr>i_chkpts := mput n cid (i_chkpts s)\<rparr>)"
    and chkpt_filter: "P s \<Longrightarrow> P (s\<lparr>i_chkpts := filter gb (i_chkpts s)\<rparr>)"
    and cks_put: "P s \<Longrightarrow> P (s\<lparr>i_checkpointStore := mput ck True (i_checkpointStore s)\<rparr>)"
    and cks_filter: "P s \<Longrightarrow> P (s\<lparr>i_checkpointStore := filter gc (i_checkpointStore s)\<rparr>)"
    and hck_put: "P s \<Longrightarrow> P (s\<lparr>i_hChkpts := mput r n (i_hChkpts s)\<rparr>)"
    and hck_del: "P s \<Longrightarrow> P (s\<lparr>i_hChkpts := mdel r (i_hChkpts s)\<rparr>)"
    and hck_filter: "P s \<Longrightarrow> P (s\<lparr>i_hChkpts := filter gd (i_hChkpts s)\<rparr>)"
    and pset_put: "P s \<Longrightarrow> P (s\<lparr>i_pset := mput n pq (i_pset s)\<rparr>)"
    and pset_filter: "P s \<Longrightarrow> P (s\<lparr>i_pset := filter ge (i_pset s)\<rparr>)"
    and qset_put: "P s \<Longrightarrow> P (s\<lparr>i_qset := mput qi pq (i_qset s)\<rparr>)"
    and qset_filter: "P s \<Longrightarrow> P (s\<lparr>i_qset := filter gf (i_qset s)\<rparr>)"
    and vcs_put: "P s \<Longrightarrow> P (s\<lparr>i_viewChangeStore := mput vi vc (i_viewChangeStore s)\<rparr>)"
    and vcs_filter: "P s \<Longrightarrow> P (s\<lparr>i_viewChangeStore := filter gg (i_viewChangeStore s)\<rparr>)"
    and nvs_put: "P s \<Longrightarrow> P (s\<lparr>i_newViewStore := mput v nv (i_newViewStore s)\<rparr>)"
    and nvs_del: "P s \<Longrightarrow> P (s\<lparr>i_newViewStore := mdel v (i_newViewStore s)\<rparr>)"
begin

lemmas changes = cert_put cert_filter acts ticks starts stops timeout executed numbered viewed activity
  watermark skipping req_put req_del req_clear out_put out_del missing_put missing_del chkpt_put chkpt_filter
  cks_put cks_filter hck_put hck_del hck_filter pset_put pset_filter qset_put qset_filter vcs_put vcs_filter
  nvs_put nvs_del

text \<open>A result is fine if its state, when there is one, satisfies the predicate.\<close>

definition fine :: "'w presult \<Rightarrow> bool" where
  "fine r \<longleftrightarrow> (\<forall>s. r = Inr s \<longrightarrow> P s)"

definition fine2 :: "pstop + bool \<times> 'w pbftCore \<Rightarrow> bool" where
  "fine2 r \<longleftrightarrow> (\<forall>b s. r = Inr (b, s) \<longrightarrow> P s)"

lemma fine_Inr [intro]: "P s \<Longrightarrow> fine (Inr s)"
  by (simp add: fine_def)

lemma fine_Inl [intro, simp]: "fine (Inl e)"
  by (simp add: fine_def)

lemma fine_if: "(b \<Longrightarrow> fine x) \<Longrightarrow> (\<not> b \<Longrightarrow> fine y) \<Longrightarrow> fine (if b then x else y)"
  by simp

lemma fine_option:
  "(x = None \<Longrightarrow> fine a) \<Longrightarrow> (\<And>y. x = Some y \<Longrightarrow> fine (g y)) \<Longrightarrow> fine (case x of None \<Rightarrow> a | Some y \<Rightarrow> g y)"
  by (cases x) simp_all

lemma fine_prod: "(\<And>a b. x = (a, b) \<Longrightarrow> fine (g a b)) \<Longrightarrow> fine (case x of (a, b) \<Rightarrow> g a b)"
  by (cases x) simp

lemma fine_sum:
  "(\<And>e. x = Inl e \<Longrightarrow> fine (g e)) \<Longrightarrow> (\<And>y. x = Inr y \<Longrightarrow> fine (g' y)) \<Longrightarrow> fine (case x of Inl e \<Rightarrow> g e | Inr y \<Rightarrow> g' y)"
  by (cases x) simp_all

lemma fine_rbind: "fine m \<Longrightarrow> (\<And>t. P t \<Longrightarrow> fine (g t)) \<Longrightarrow> fine (rbind m g)"
  by (cases m) (simp_all add: fine_def)

lemma fine_rbind2: "fine2 m \<Longrightarrow> (\<And>b t. P t \<Longrightarrow> fine (g (b, t))) \<Longrightarrow> fine (rbind m g)"
  by (cases m) (auto simp: fine_def fine2_def)

lemma fine_rfold:
  assumes "\<And>t x. P t \<Longrightarrow> fine (g t x)" and "P s"
  shows "fine (rfold g xs s)"
  using assms(2)
proof (induction xs arbitrary: s)
  case Nil
  then show ?case by (simp add: fine_def)
next
  case (Cons x xs)
  show ?case unfolding rfold.simps by (rule fine_rbind [OF assms(1) [OF Cons.prems]]) (rule Cons.IH)
qed

lemma P_if: "P s \<Longrightarrow> P t \<Longrightarrow> P (if b then s else t)"
  by simp

lemma P_foldl:
  assumes "\<And>t x. P t \<Longrightarrow> P (g t x)" and "P s"
  shows "P (foldl g s xs)"
  using assms(2) by (induction xs arbitrary: s) (simp_all add: assms(1))

lemma P_getCert: "P s \<Longrightarrow> getCert v n s = (c, s1) \<Longrightarrow> P s1"
  by (auto simp: getCert_def split: option.splits intro: cert_put)

lemma P_setCert: "P s \<Longrightarrow> P (setCert v n c s)"
  by (simp add: setCert_def cert_put)

lemma P_innerBroadcast:
  assumes "P s" and "\<And>d t. toSelf = Some d \<Longrightarrow> P t \<Longrightarrow> fine (d t)"
  shows "fine (innerBroadcast E m toSelf s)"
proof (cases "e_marshal E m")
  case (Inr raw)
  define t where "t = (if i_byzantine s \<and> e_random E (i_now s) mod 3 = 1
    then byzantineSend (e_random E (i_now s + 1) mod i_N s) raw (s\<lparr>i_now := i_now s + 2\<rparr>)
    else act (ABroadcast raw) (s\<lparr>i_now := i_now s + 2\<rparr>))"
  have "P t" unfolding t_def byzantineSend_def
    by (intro P_if P_foldl acts ticks assms(1))
  moreover have "innerBroadcast E m toSelf s = (case toSelf of None \<Rightarrow> Inr t | Some deliver \<Rightarrow> deliver t)"
    unfolding innerBroadcast_def Let_def t_def by (simp add: Inr)
  ultimately show ?thesis using assms(2) by (cases toSelf) (auto simp: fine_def)
qed (use assms(1) in \<open>simp add: innerBroadcast_def fine_def\<close>)

lemma P_fromSender: "P s \<Longrightarrow> (P s \<Longrightarrow> fine (g s)) \<Longrightarrow> fine (fromSender a b g s)"
  by (simp add: fromSender_def fine_def)

end

subsection \<open>The handlers\<close>

context replica_invariant
begin

lemma out_del': "P s \<Longrightarrow> m = i_outstandingReqs s \<Longrightarrow> P (s\<lparr>i_outstandingReqs := mdel dg m\<rparr>)"
  by (simp add: out_del)

lemma P_store:
  assumes "P s" and "d = hashReq E (Some req)"
  shows "P (s\<lparr>i_reqStore := mput d req (i_reqStore s), i_outstandingReqs := mput d req (i_outstandingReqs s)\<rparr>)"
  using out_put [OF req_put [OF assms(1)], of req req] by (simp add: assms(2))

lemma P_executeOne: "P s \<Longrightarrow> executeOne idx s = Inr (b, s') \<Longrightarrow> P s'"
  by (auto simp: executeOne_defs Let_def watchOutstanding_def split: option.splits if_splits
      intro!: starts acts stops executed timeout out_del')

lemma P_executePass: "P s \<Longrightarrow> executePass idxs s = Inr (b, s') \<Longrightarrow> P s'"
proof (induction idxs arbitrary: s)
  case (Cons idx idxs)
  from Cons.prems(2) obtain b1 s1 where 1: "executeOne idx s = Inr (b1, s1)"
    and 2: "(if b1 then Inr (True, s1) else executePass idxs s1) = Inr (b, s')"
    by (auto simp: rbind_Inr_conv)
  from P_executeOne [OF Cons.prems(1) 1] Cons.IH [of s1] 2 show ?case by (auto split: if_splits)
qed simp

lemma P_executeOutstanding:
  assumes "P s"
  shows "fine (executeOutstanding s)"
proof (cases "executeLoop s")
  case (Some r)
  then have "P s \<longrightarrow> fine r"
  proof (rule executeLoop.raw_induct [where P = "\<lambda>t r. P t \<longrightarrow> fine r", rotated], goal_cases)
    case (1 f t r)
    show ?case
    proof
      assume t: "P t"
      show "fine r"
      proof (cases "executePass (map fst (i_certStore t)) t")
        case (Inr x)
        then have x: "P (snd x)" using P_executePass [OF t] by (cases x) auto
        show ?thesis
        proof (cases "fst x")
          case True
          with 1(2) Inr have "f (snd x) = Some r" by simp
          from 1(1) [OF this] x show ?thesis by simp
        next
          case False
          with 1(2) Inr x show ?thesis by (auto simp: fine_def)
        qed
      qed (use 1(2) in \<open>auto simp: fine_def\<close>)
    qed
  qed
  with Some assms show ?thesis by (simp add: executeOutstanding_def)
qed (simp add: executeOutstanding_def)

lemma P_recvCommit: "P s \<Longrightarrow> fine (recvCommit c s)"
  unfolding recvCommit_def Let_def
  by (intro fine_if fine_prod fine_Inr P_executeOutstanding P_setCert) (auto intro: P_getCert)

lemma P_maybeSendCommit: "P s \<Longrightarrow> fine (maybeSendCommit E d v n s)"
  unfolding maybeSendCommit_def Let_def
  by (intro fine_if fine_prod fine_Inr fine_Inl P_innerBroadcast P_setCert)
    (auto intro: P_getCert intro!: P_fromSender P_recvCommit)

lemma P_recvPrepare: "P s \<Longrightarrow> fine (recvPrepare E p s)"
  unfolding recvPrepare_def Let_def
  by (intro fine_if fine_prod fine_Inr P_maybeSendCommit P_setCert) (auto intro: P_getCert)

lemma P_broadcastPrepare: "P s \<Longrightarrow> fine (broadcastPrepare E p s)"
  unfolding broadcastPrepare_def
  by (intro P_innerBroadcast) (auto intro!: P_fromSender P_recvPrepare)

lemma P_storePrePrepare: "P s \<Longrightarrow> P (storePrePrepare pp s)"
  by (auto simp: storePrePrepare_def split: prod.splits option.splits intro: P_setCert P_getCert)

lemma P_storeCarriedRequest: "P s \<Longrightarrow> fine2 (storeCarriedRequest E pp s)"
  by (auto simp: storeCarriedRequest_def fine2_def Let_def split: if_splits option.splits
      intro!: P_store)

lemma P_recvPrePrepare: "P s \<Longrightarrow> fine (recvPrePrepare E pp s)"
  unfolding recvPrePrepare_def Let_def
  by (intro fine_if fine_Inr fine_rbind2 P_storeCarriedRequest P_storePrePrepare)
    (auto intro!: fine_prod fine_if fine_Inr P_broadcastPrepare P_setCert starts intro: P_getCert)

lemma P_recvRequest:
  assumes "P s"
  shows "fine (recvRequest E req s)"
proof -
  let ?d = "hashReq E (Some req)"
  define s1 where "s1 = s\<lparr>i_reqStore := mput ?d req (i_reqStore s), i_outstandingReqs := mput ?d req (i_outstandingReqs s)\<rparr>"
  define s2 where "s2 = (if \<not> i_timerActive s1 \<and> i_activeView s1 then startTimer (i_requestTimeout s1) s1 else s1)"
  have "P s1" unfolding s1_def by (rule P_store [OF assms refl])
  then have "P s2" by (simp add: s2_def starts)
  then have n: "P (s2\<lparr>i_seqNo := n\<rparr>)" for n by (rule numbered)
  show ?thesis
    unfolding recvRequest_def Let_def s1_def [symmetric] s2_def [symmetric]
    by (intro fine_if fine_Inr fine_prod fine_rbind P_innerBroadcast P_maybeSendCommit P_setCert assms \<open>P s2\<close>)
      (auto intro: P_getCert [OF n])
qed

lemma P_resubmitRequests: "P s \<Longrightarrow> fine (resubmitRequests E s)"
  unfolding resubmitRequests_def
  by (intro fine_if fine_Inr fine_rfold fine_option P_recvRequest)

lemma P_moveWatermarks: "P s \<Longrightarrow> fine (moveWatermarks E n s)"
proof -
  assume s: "P s"
  have del: "P (t\<lparr>i_reqStore := foldl (\<lambda>reqs (idx, cert). case mc_prePrepare cert of
      None \<Rightarrow> reqs | Some p \<Rightarrow> mdel (pp_RequestDigest p) reqs) (i_reqStore t) (old :: (msgID \<times> msgCert) list)\<rparr>)"
    if "P t" for t old
    using that
  proof (induction old arbitrary: t)
    case (Cons x old)
    define g :: "(gostring, Request) gomap \<Rightarrow> msgID \<times> msgCert \<Rightarrow> (gostring, Request) gomap"
      where "g = (\<lambda>reqs (idx, cert). case mc_prePrepare cert of
        None \<Rightarrow> reqs | Some p \<Rightarrow> mdel (pp_RequestDigest p) reqs)"
    have "P (t\<lparr>i_reqStore := g (i_reqStore t) x\<rparr>)"
      using Cons.prems by (auto simp: g_def split: prod.splits option.splits intro: req_del)
    from Cons.IH [OF this] show ?case by (simp add: g_def)
  qed simp
  note f = cert_filter [where ga = "\<lambda>(idx, cert). \<not> snd idx \<le> n", OF del [OF s]]
  note f = cks_filter [where gc = "\<lambda>(testChkpt, b). \<not> ck_SequenceNumber testChkpt \<le> n", OF f]
  note f = pset_filter [where ge = "\<lambda>(m, p). \<not> m \<le> n", OF f]
  note f = qset_filter [where gf = "\<lambda>(idx, q). \<not> snd idx \<le> n", OF f]
  note f = chkpt_filter [where gb = "\<lambda>(m, c). \<not> m < n", OF f]
  show ?thesis unfolding moveWatermarks_def Let_def
    by (rule P_resubmitRequests) (use watermark [OF f, of n] in simp)
qed

lemma P_weakCheckpoint:
  assumes s: "P s"
  shows "fine2 (weakCheckpointSetOutOfRange E chkpt s)"
proof -
  let ?H = "i_h s + i_L s" and ?r = "ck_ReplicaId chkpt"
  let ?s1 = "s\<lparr>i_hChkpts := mput ?r (ck_SequenceNumber chkpt) (i_hChkpts s)\<rparr>"
  let ?s2 = "?s1\<lparr>i_hChkpts := filter (\<lambda>(replicaID, hChkpt). \<not> hChkpt < ?H) (i_hChkpts ?s1)\<rparr>"
  let ?a = "sort (map snd (i_hChkpts ?s1))"
  let ?m = "?a ! (length ?a - (i_f ?s1 + 1))"
  have 1: "P ?s1" by (rule hck_put [OF s])
  have 2: "P ?s2" by (rule hck_filter [OF 1])
  have "fine2 (rbind (moveWatermarks E ?m (?s2\<lparr>i_reqStore := []\<rparr>)) (\<lambda>s3. Inr (True, s3\<lparr>i_skipInProgress := True\<rparr>)))"
    using P_moveWatermarks [OF req_clear [OF 2], of ?m] skipping
    by (auto simp: fine2_def fine_def rbind_Inr_conv)
  moreover have "fine2 (Inr (False, ?s1))" "fine2 (Inr (False, ?s2))"
    "fine2 (Inr (False, s\<lparr>i_hChkpts := mdel ?r (i_hChkpts s)\<rparr>))"
    using 1 2 hck_del [OF s, of ?r] by (simp_all add: fine2_def)
  ultimately show ?thesis
    unfolding weakCheckpointSetOutOfRange_def Let_def by (simp only: if_split) blast
qed

lemma P_witness: "P s \<Longrightarrow> fine (witnessCheckpointWeakCert E chkpt s)"
  unfolding witnessCheckpointWeakCert_def Let_def
  by (intro fine_if fine_Inl fine_option fine_Inr fine_rbind P_moveWatermarks acts executed skipping)

lemma P_fetchRequests: "P s \<Longrightarrow> fine (fetchRequests E s)"
  unfolding fetchRequests_def by (intro fine_rfold P_innerBroadcast) auto

lemma P_recvFetchRequest: "P s \<Longrightarrow> fine (recvFetchRequest E fr s)"
  unfolding recvFetchRequest_def by (intro fine_option fine_sum fine_Inr acts)

subsection \<open>The view change\<close>

lemma P_install: "P s \<Longrightarrow> P (installPrePrepare s x)"
  by (auto simp: installPrePrepare_def Let_def split: prod.splits intro!: P_setCert numbered intro: P_getCert)

lemma P_prepareAssigned: "P s \<Longrightarrow> fine (prepareAssigned E s x)"
  unfolding prepareAssigned_def Let_def
  by (intro fine_prod P_broadcastPrepare P_setCert) (auto intro: P_getCert)

lemma P_processNewView2: "P s \<Longrightarrow> fine (processNewView2 E nv s)"
proof -
  assume s: "P s"
  let ?s1 = "s\<lparr>i_activeView := True, i_newViewStore := mdel (i_view s - 1) (i_newViewStore s)\<rparr>"
  have "P ?s1" using nvs_del [OF activity [OF s, of True], of "i_view s - 1"] by simp
  then have "P (foldl installPrePrepare ?s1 (nv_Xset nv))" by (intro P_foldl P_install)
  then show ?thesis unfolding processNewView2_def Let_def
    by (intro fine_rbind fine_if fine_rfold P_prepareAssigned P_resubmitRequests fine_Inr acts)
qed

lemma P_noteMissing: "P (snd r) \<Longrightarrow> P (snd (noteMissing r x))"
  by (auto simp: noteMissing_def Let_def intro: missing_put)

lemma P_acceptNewView: "P s \<Longrightarrow> fine (acceptNewView E nv s)"
proof -
  assume s: "P s"
  have "P (snd (foldl noteMissing (False, s) xs))" for xs
    by (induction xs rule: rev_induct) (simp_all add: s P_noteMissing)
  then show ?thesis unfolding acceptNewView_def Let_def
    by (intro fine_prod fine_if P_processNewView2 P_fetchRequests fine_Inr) (metis snd_conv)+
qed

lemma P_processNewViewWith:
  assumes "P s" and "\<And>t. P t \<Longrightarrow> fine (sendVC t)"
  shows "fine (processNewViewWith E sendVC s)"
  unfolding processNewViewWith_def Let_def
  by (intro fine_option fine_if fine_prod fine_Inr fine_Inl fine_rbind P_moveWatermarks P_acceptNewView
      executed acts assms)

lemma P_sendNewViewWith:
  assumes "P s" and "\<And>t. P t \<Longrightarrow> fine (sendVC t)"
  shows "fine (sendNewViewWith E sendVC s)"
  unfolding sendNewViewWith_def Let_def
  by (intro fine_option fine_if fine_prod fine_sum fine_Inr fine_Inl fine_rbind P_innerBroadcast
      P_processNewViewWith nvs_put assms) auto

lemma P_recvViewChangeWith:
  assumes "P s" and "\<And>t. P t \<Longrightarrow> fine (sendVC t)"
  shows "fine (recvViewChangeWith E sendVC vc s)"
  unfolding recvViewChangeWith_def Let_def
  by (intro fine_if fine_Inr P_processNewViewWith P_sendNewViewWith timeout starts vcs_put viewed assms)

lemma P_addPset: "P s \<Longrightarrow> P (addPset s x)"
proof -
  assume s: "P s"
  have "P (s\<lparr>i_pset := i_pset s\<rparr>)" using s by simp
  with s show ?thesis
    by (auto simp: addPset_def Let_def split: prod.splits option.splits intro: pset_put)
qed

lemma P_addQset: "P s \<Longrightarrow> P (addQset s x)"
  by (auto simp: addQset_def Let_def split: prod.splits option.splits intro: qset_put)

lemma P_enterNextView: "P s \<Longrightarrow> P (enterNextView s)"
proof -
  assume "P s"
  then have "P (collectPQ t)" if "P t" for t
    unfolding collectPQ_def Let_def by (intro P_foldl P_addPset P_addQset that)
  moreover have "P (clearOldMessages t)" if "P t" for t
    using vcs_filter [OF cert_filter [OF that]] unfolding clearOldMessages_def by simp
  moreover have "P ((stopTimer s)\<lparr>i_newViewStore := mdel (i_view s) (i_newViewStore s), i_view := i_view s + 1, i_activeView := False\<rparr>)"
    using activity [OF viewed [OF nvs_del [OF stops [OF \<open>P s\<close>], of "i_view s"], of "i_view s + 1"], of False]
    by (simp add: stopTimer_def)
  ultimately show ?thesis unfolding enterNextView_def by blast
qed

lemma P_sendViewChangeN: "P s \<Longrightarrow> fine (sendViewChangeN E k s)"
proof (induction k arbitrary: s)
  case (Suc k)
  have "P (enterNextView s)" by (rule P_enterNextView [OF Suc.prems])
  then show ?case unfolding sendViewChangeN.simps Let_def
    by (intro P_innerBroadcast) (auto intro!: P_fromSender P_recvViewChangeWith Suc.IH)
qed simp

lemma P_sendViewChange: "P s \<Longrightarrow> fine (sendViewChange E s)"
  unfolding sendViewChange_def by (rule P_sendViewChangeN)

lemma P_processNewView: "P s \<Longrightarrow> fine (processNewView E s)"
  by (simp add: processNewView_def P_processNewViewWith P_sendViewChange)

lemma P_recvNewView: "P s \<Longrightarrow> fine (recvNewView E nv s)"
  unfolding recvNewView_def by (intro fine_if fine_Inr P_processNewView nvs_put)

lemma P_recvCheckpoint: "P s \<Longrightarrow> fine (recvCheckpoint E chkpt s)"
  unfolding recvCheckpoint_def Let_def
  by (rule fine_rbind2 [OF P_weakCheckpoint])
    (auto intro!: fine_if fine_Inr fine_rbind P_witness cks_put P_moveWatermarks P_processNewView)

lemma P_Checkpoint_op: "P s \<Longrightarrow> fine (Checkpoint_op E n cid s)"
  unfolding Checkpoint_op_def Let_def
  by (intro fine_if fine_Inl fine_Inr P_innerBroadcast chkpt_put) (auto intro!: P_fromSender P_recvCheckpoint)

lemma P_recvReturnRequest: "P s \<Longrightarrow> fine (recvReturnRequest E req s)"
proof -
  assume "P s"
  then have "P (s\<lparr>i_reqStore := mput (hashReq E (Some req)) req (i_reqStore s),
      i_missingReqs := mdel (hashReq E (Some req)) (i_missingReqs s)\<rparr>)"
    using missing_del [OF req_put [OF \<open>P s\<close>]] by simp
  with \<open>P s\<close> show ?thesis unfolding recvReturnRequest_def Let_def
    by (intro fine_if fine_Inr P_processNewView)
qed

lemma P_recvMsgSync: "P s \<Longrightarrow> fine (recvMsgSync E m sender s)"
  unfolding recvMsgSync_def
  by (cases m) (auto intro!: P_fromSender P_recvRequest P_recvPrePrepare P_recvPrepare P_recvCommit
      P_recvCheckpoint P_recvNewView P_recvFetchRequest P_recvReturnRequest
      P_recvViewChangeWith P_sendViewChange simp: recvViewChange_def)

text \<open>Every step but the timer's own keeps the predicate.\<close>

theorem invariant_step:
  assumes "P s" and "pstep E x s = Inr s'"
    and "case x of Receive _ _ \<Rightarrow> True | NewRequest _ _ \<Rightarrow> True | CheckpointDone _ _ \<Rightarrow> True | _ \<Rightarrow> False"
  shows "P s'"
proof -
  have "fine (pstep E x s)"
    using assms(1,3)
    by (cases x) (auto simp: pstep_def receive_def request_def split: sum.splits
        intro!: P_recvMsgSync P_Checkpoint_op)
  with assms(2) show ?thesis by (simp add: fine_def)
qed

end

end
