(* ===== verification/PbftSample.thy ===== *)
theory PbftSample
  imports PbftViewChange
begin

text \<open>
  Sequences of steps of a replica, and a concrete environment and configuration on which they can
  be computed: the codec is the identity, the hash of a request is its payload, every payload is
  valid and the signature of a message is the message. The rules collected in \<open>sample_simps\<close>
  evaluate a step on a concrete state.
\<close>

fun psteps :: "'w penv \<Rightarrow> 'w pinput list \<Rightarrow> 'w pbftCore \<Rightarrow> 'w presult" where
  "psteps E [] s = Inr s"
| "psteps E (x # xs) s = rbind (pstep E x s) (psteps E xs)"

definition sampleEnv :: "Message penv" where
  "sampleEnv = \<lparr>e_validate = (\<lambda>_. True), e_sign = (\<lambda>raw. Inr raw), e_verify = (\<lambda>_ sig raw. sig = raw),
     e_hash = (\<lambda>raw. raw),
     e_marshalRequest = (\<lambda>r. Inr (case r of None \<Rightarrow> [] | Some req \<Rightarrow> rq_Payload req)),
     e_marshalViewChange = (\<lambda>vc. Inr []), e_marshal = Inr, e_unmarshal = Inr, e_random = (\<lambda>_. 0)\<rparr>"

definition sampleConfig :: "nat \<Rightarrow> nat \<Rightarrow> int \<Rightarrow> pbft_config" where
  "sampleConfig N f K = \<lparr>cfg_N = N, cfg_f = f, cfg_K = K, cfg_logmultiplier = 1, cfg_byzantine = False,
     cfg_timeout_request = Some 2, cfg_timeout_viewchange = Some 2\<rparr>"

lemma sampleEnv_sel [simp]:
  "e_validate sampleEnv p" "e_hash sampleEnv b = b" "e_marshal sampleEnv m = Inr m"
  "e_unmarshal sampleEnv m = Inr m" "e_sign sampleEnv raw = Inr raw"
  "e_marshalRequest sampleEnv (Some req) = Inr (rq_Payload req)" "e_marshalRequest sampleEnv None = Inr []"
  "e_marshalViewChange sampleEnv vc = Inr []" "e_verify sampleEnv r sig raw = (sig = raw)"
  by (simp_all add: sampleEnv_def)

lemma sample_hash:
  "EncodeToString [1] = [65, 81, 61, 61]" "EncodeToString [2] = [65, 103, 61, 61]"
  "EncodeToString [3] = [65, 119, 61, 61]" "EncodeToString [4] = [66, 65, 61, 61]"
  "EncodeToString [5] = [66, 81, 61, 61]"
  by (simp_all add: sextets_def pad64_def alphabet64_def lit_def)

lemma sample_less: "\<not> (2 :: u64) \<le> 1"
  by (simp add: word_le_nat_alt)

lemma sample_decode: "DecodeString [] = Some []"
  by (simp add: DecodeString_def)

text \<open>The loop of \<open>executeOutstanding\<close>, one pass at a time.\<close>

lemma executeOutstanding_pass:
  "executePass (map fst (i_certStore s)) s = Inr (False, s') \<Longrightarrow> executeOutstanding s = Inr s'"
  "executePass (map fst (i_certStore s)) s = Inr (True, s') \<Longrightarrow> executeOutstanding s = executeOutstanding s'"
  by (subst executeOutstanding_def, subst executeLoop.simps, simp add: executeOutstanding_def)+

lemmas sample_simps = psteps.simps pstep_def receive_def request_def recvMsgSync_def recvRequest_def
  recvPrePrepare_def recvPrepare_def recvCommit_def fromSender_def primary_def inW_def inWV_def
  getCert_def setCert_def emptyCert_def intersectionQuorum_def prePrepared_def prepared_def
  committed_def prepareCount_def commitCount_def maybeSendCommit_def innerBroadcast_def act_def
  startTimer_def stopTimer_def timerFire_def timerReceive_def watchOutstanding_def
  broadcastPrepare_def storePrePrepare_def storeCarriedRequest_def haveOther_def hashReq_def
  executeOutstanding_pass executePass.simps executeOne_defs Checkpoint_op_def recvCheckpoint_def
  weakCheckpointSetOutOfRange_def witnessCheckpointWeakCert_def matchingCheckpoints_def
  moveWatermarks_def resubmitRequests_def processNewView_def processNewViewWith_def Let_def

lemmas sample_init = newPbftCore_def sampleConfig_def

text \<open>
  A single replica with a window of one: a request waits for the checkpoint of the one before it
  with the timer running. The timer has run out twice before the goroutine gets the lock, so one
  expiry is in the channel, and the timer is running again.
\<close>

definition gapRun :: "Message pinput list" where
  "gapRun = [NewRequest [1] 0, NewRequest [2] 0, TimerFires, TimerReceived, CheckpointDone 1 [],
     NewRequest [3] 0, TimerFires, CheckpointDone 2 [], NewRequest [4] 0]"

text \<open>The timer runs out a third time and finds the channel full; then it is stopped.\<close>

definition closeGap :: "Message pinput list" where
  "closeGap = [CheckpointDone 3 []]"

text \<open>Later the goroutine gets the lock, the old expiry is dealt with, and a request is not executed in time.\<close>

definition lateRun :: "Message pinput list" where
  "lateRun = [TimerLocked, TimerReceived, TimerLocked, NewRequest [5] 0, TimerFires, TimerReceived]"

lemma gapRun_state:
  "\<exists>x s s1 s2. newPbftCore 0 (sampleConfig 1 0 1) [] = Inr x \<and> psteps sampleEnv gapRun x = Inr s
     \<and> tm_running (i_newViewTimer s) \<and> tm_C (i_newViewTimer s)
     \<and> psteps sampleEnv (TimerFires # closeGap) s = Inr s1 \<and> i_timerWaiting s1 \<and> \<not> i_timerActive s1
     \<and> psteps sampleEnv (TimerFires # closeGap @ lateRun) s = Inr s2
     \<and> i_timerWaiting s2 \<and> i_timerActive s2 \<and> \<not> tm_running (i_newViewTimer s2)"
  by (simp add: sample_simps timerHander_def sample_hash sample_init gapRun_def closeGap_def lateRun_def sample_decode sample_less
      del: EncodeToString.simps(2))

end
