(* ===== verification/PbftReach.thy ===== *)
theory PbftReach
  imports PbftFrame PbftSample
begin

text \<open>
  Invariants of every state a replica can reach, whatever it receives: the maps of the state are
  maps and every stored request is filed under its digest; and the two counters of the view change
  timer do their work, so that a view change is sent for an expiry only while that expiry stands.
  Both are interpretations of \<open>replica_invariant\<close>.
\<close>

subsection \<open>Reachable states\<close>

text \<open>\<open>preach E k s\<close>: the replica is in state \<open>s\<close> after \<open>k\<close> steps.\<close>

inductive preach :: "'w penv \<Rightarrow> nat \<Rightarrow> 'w pbftCore \<Rightarrow> bool" for E where
  init: "newPbftCore rid config startupID = Inr s \<Longrightarrow> preach E 0 s"
| step: "preach E k s \<Longrightarrow> pstep E x s = Inr s' \<Longrightarrow> preach E (Suc k) s'"

inductive_cases preach_initE: "preach E 0 s"
inductive_cases preach_stepE: "preach E (Suc k) s"

subsection \<open>Invariants of every step\<close>

text \<open>An invariant of the handlers that the steps of the timer and of its goroutine keep as well.\<close>

lemma timerHander_cases:
  assumes "timerHander E s = Inr s'"
  obtains "s' = s" "\<not> i_timerWaiting s"
  | "s' = s\<lparr>i_timerWaiting := False\<rparr>" "i_timerWaiting s" "i_timerResetCount s > i_timerExpiredCount s"
  | "sendViewChange E (s\<lparr>i_timerWaiting := False\<rparr>) = Inr s'" "i_timerWaiting s"
      "\<not> i_timerResetCount s > i_timerExpiredCount s"
proof (cases "i_timerWaiting s")
  case True
  then show thesis
    using that assms by (cases "i_timerResetCount s > i_timerExpiredCount s") (simp_all add: timerHander_def Let_def)
qed (use that assms in \<open>simp add: timerHander_def\<close>)

locale step_invariant = replica_invariant +
  assumes fire: "P s \<Longrightarrow> P (timerFire s)"
    and timer_receive: "P s \<Longrightarrow> P (timerReceive s)"
    and closes: "P s \<Longrightarrow> P (close s)"
    and waiting: "P s \<Longrightarrow> P (s\<lparr>i_timerWaiting := False\<rparr>)"
begin

lemma every_step:
  assumes "P s" and r: "pstep E x s = Inr s'"
  shows "P s'"
proof (cases x)
  case TimerLocked
  with r have "timerHander E s = Inr s'" by (simp add: pstep_def)
  then show ?thesis
  proof (cases rule: timerHander_cases)
    case 3
    from P_sendViewChange [OF waiting [OF assms(1)]] 3(1) show ?thesis by (simp add: fine_def)
  qed (simp_all add: assms(1) waiting)
qed (use assms invariant_step [OF assms] fire timer_receive closes in \<open>auto simp: pstep_def\<close>)

end

subsection \<open>Well-formed states\<close>

definition filed :: "'w penv \<Rightarrow> (gostring, Request) gomap \<Rightarrow> bool" where
  "filed E m \<longleftrightarrow> gomap_ok m \<and> (\<forall>(d, req) \<in> set m. d = hashReq E (Some req))"

definition wellformed :: "'w penv \<Rightarrow> 'w pbftCore \<Rightarrow> bool" where
  "wellformed E s \<longleftrightarrow>
     filed E (i_reqStore s) \<and> filed E (i_outstandingReqs s) \<and> gomap_ok (i_missingReqs s)
     \<and> gomap_ok (i_certStore s) \<and> gomap_ok (i_chkpts s) \<and> gomap_ok (i_checkpointStore s)
     \<and> gomap_ok (i_hChkpts s) \<and> gomap_ok (i_pset s) \<and> gomap_ok (i_qset s)
     \<and> gomap_ok (i_viewChangeStore s) \<and> gomap_ok (i_newViewStore s)"

lemma filed_put: "filed E m \<Longrightarrow> filed E (mput (hashReq E (Some req)) req m)"
  by (auto simp: filed_def gomap_in_set split: if_splits)

lemma filed_del: "filed E m \<Longrightarrow> filed E (mdel d m)"
  by (auto simp: filed_def gomap_in_set split: if_splits)

lemma wellformed_timers:
  "wellformed E (act a s) = wellformed E s" "wellformed E (startTimer d s) = wellformed E s"
  "wellformed E (stopTimer s) = wellformed E s" "wellformed E (timerFire s) = wellformed E s"
  "wellformed E (timerReceive s) = wellformed E s" "wellformed E (close s) = wellformed E s"
  "wellformed E (s\<lparr>i_timerWaiting := b\<rparr>) = wellformed E s"
  by (simp_all add: wellformed_def act_def startTimer_def stopTimer_def timerFire_def timerReceive_def close_def)

interpretation wf: step_invariant E "wellformed E" for E :: "'w penv"
  by unfold_locales (simp_all add: wellformed_timers, simp_all add: wellformed_def filed_put filed_del, simp add: filed_def)

lemma newPbftCore_wellformed:
  assumes "newPbftCore rid config startupID = Inr s"
  shows "wellformed E s"
proof -
  from assms have "i_reqStore s = []" "i_outstandingReqs s = []" "i_missingReqs s = []" "i_certStore s = []"
    "i_chkpts s = [(0, EncodeToString startupID)]" "i_checkpointStore s = []" "i_hChkpts s = []" "i_pset s = []"
    "i_qset s = []" "i_viewChangeStore s = []" "i_newViewStore s = []"
    by (auto simp: newPbftCore_def Let_def split: if_splits option.splits)
  then show ?thesis by (simp add: wellformed_def filed_def gomap_ok_def)
qed

lemma preach_wellformed: "preach E k s \<Longrightarrow> wellformed E s"
  by (induction rule: preach.induct) (auto intro: newPbftCore_wellformed wf.every_step)

text \<open>The number of replicas is fixed.\<close>

interpretation size: step_invariant E "\<lambda>s. i_N s = N" for E :: "'w penv" and N
  by unfold_locales (simp_all add: act_def startTimer_def stopTimer_def timerFire_def timerReceive_def close_def)

subsection \<open>The view change timer\<close>

text \<open>The timer was started, and it has run out since and was neither stopped nor started again.\<close>

definition expired :: "'w pbftCore \<Rightarrow> bool" where
  "expired s \<longleftrightarrow> i_timerActive s \<and> \<not> tm_running (i_newViewTimer s)"

text \<open>
  What a handler does to the timer, seen from the state \<open>s0\<close> in which it was called: if it starts or
  stops a timer that has expired, the reset counter moves by one.
\<close>

definition timer_effect :: "'w pbftCore \<Rightarrow> 'w pbftCore \<Rightarrow> bool" where
  "timer_effect s0 s \<longleftrightarrow>
     tm_C (i_newViewTimer s) = tm_C (i_newViewTimer s0) \<and> i_timerWaiting s = i_timerWaiting s0
     \<and> i_timerExpiredCount s = i_timerExpiredCount s0
     \<and> (tm_running (i_newViewTimer s0) \<longrightarrow> i_timerActive s0) \<and> (tm_running (i_newViewTimer s) \<longrightarrow> i_timerActive s)
     \<and> (if expired s then expired s0 \<and> i_timerResetCount s = i_timerResetCount s0
        else i_timerResetCount s = i_timerResetCount s0 + (if expired s0 then 1 else 0))"

lemma timer_effect_timers:
  "timer_effect s0 s \<Longrightarrow> timer_effect s0 (startTimer d s)" "timer_effect s0 s \<Longrightarrow> timer_effect s0 (stopTimer s)"
  by (auto simp: timer_effect_def startTimer_def stopTimer_def expired_def split: if_splits)

interpretation tm: replica_invariant E "timer_effect s0" for E :: "'w penv" and s0 :: "'w pbftCore"
  by unfold_locales (simp_all add: timer_effect_timers, auto simp: timer_effect_def expired_def act_def split: if_splits)

text \<open>
  The counters: every expiry that was counted, or waits to be, was answered by a reset or is the one
  that stands.
\<close>

definition timer_ok :: "'w pbftCore \<Rightarrow> bool" where
  "timer_ok s \<longleftrightarrow> (tm_running (i_newViewTimer s) \<longrightarrow> i_timerActive s) \<and>
     unat (i_timerExpiredCount s) + (if tm_C (i_newViewTimer s) then 1 else 0) + 1
       \<le> unat (i_timerResetCount s) + (if expired s then 1 else 0)"

lemma timer_effect_refl: "timer_ok s \<Longrightarrow> timer_effect s s"
  by (simp add: timer_ok_def timer_effect_def)

lemma unat_succ: "unat (x :: u64) + 1 < 2 ^ 64 \<Longrightarrow> unat (x + 1) = unat x + 1"
  by (simp add: unat_word_ariths)

lemma timer_effect_ok:
  assumes "timer_effect s0 s" and "timer_ok s0" and "unat (i_timerResetCount s0) + 1 < 2 ^ 64"
  shows "timer_ok s" "unat (i_timerResetCount s) \<le> unat (i_timerResetCount s0) + 1"
  using assms unat_succ [OF assms(3)]
  by (auto simp: timer_effect_def timer_ok_def split: if_splits)

text \<open>
  A gap between the counters: more resets than expiries that were counted, or can still be. An expiry
  that finds the channel of the timer full is not counted, its reset is.
\<close>

definition timer_gap :: "'w pbftCore \<Rightarrow> bool" where
  "timer_gap s \<longleftrightarrow>
     unat (i_timerExpiredCount s) + (if tm_C (i_newViewTimer s) then 1 else 0) + 2
       \<le> unat (i_timerResetCount s) + (if expired s then 1 else 0)"

lemma timer_effect_gap:
  assumes "timer_effect s0 s" and "timer_gap s0" and "unat (i_timerResetCount s0) + 1 < 2 ^ 64"
  shows "timer_gap s"
  using assms unat_succ [OF assms(3)]
  by (auto simp: timer_effect_def timer_gap_def split: if_splits)

text \<open>Every step is a step of the timer itself, or has the effect of a handler.\<close>

lemma expired_waiting [simp]: "expired (s\<lparr>i_timerWaiting := b\<rparr>) = expired s"
  by (simp add: expired_def)

lemma timer_ok_waiting [simp]: "timer_ok (s\<lparr>i_timerWaiting := b\<rparr>) = timer_ok s"
  by (simp add: timer_ok_def)

lemma timer_gap_waiting [simp]: "timer_gap (s\<lparr>i_timerWaiting := b\<rparr>) = timer_gap s"
  by (simp add: timer_gap_def)

lemma timer_effect_waiting: "timer_effect (s\<lparr>i_timerWaiting := b\<rparr>) s' \<Longrightarrow> timer_effect s (s'\<lparr>i_timerWaiting := i_timerWaiting s\<rparr>)"
  by (auto simp: timer_effect_def split: if_splits)

lemma pstep_timer:
  assumes "timer_ok s" and r: "pstep E x s = Inr s'"
  obtains "s' = timerFire s" | "s' = timerReceive s" | "s' = close s"
  | b where "timer_effect s (s'\<lparr>i_timerWaiting := b\<rparr>)"
proof -
  note refl = timer_effect_refl [OF assms(1)]
  show thesis
  proof (cases x)
    case TimerLocked
    with r have "timerHander E s = Inr s'" by (simp add: pstep_def)
    then show ?thesis
    proof (cases rule: timerHander_cases)
      case 3
      have "timer_effect (s\<lparr>i_timerWaiting := False\<rparr>) (s\<lparr>i_timerWaiting := False\<rparr>)"
        using refl by (auto simp: timer_effect_def split: if_splits)
      from tm.P_sendViewChange [OF this] 3(1) show ?thesis
        by (auto simp: tm.fine_def dest: timer_effect_waiting intro: that(4))
    next
      case 1
      show ?thesis by (rule that(4) [of "i_timerWaiting s"]) (simp add: 1(1) refl)
    next
      case 2
      show ?thesis by (rule that(4) [of "i_timerWaiting s"]) (simp add: 2(1) refl)
    qed
  next
    case (Receive w snd)
    with tm.invariant_step [OF refl r] show ?thesis by (intro that(4) [of "i_timerWaiting s'"]) simp
  next
    case (NewRequest w t)
    with tm.invariant_step [OF refl r] show ?thesis by (intro that(4) [of "i_timerWaiting s'"]) simp
  next
    case (CheckpointDone n w)
    with tm.invariant_step [OF refl r] show ?thesis by (intro that(4) [of "i_timerWaiting s'"]) simp
  qed (use r that(1,2,3) in \<open>simp_all add: pstep_def\<close>)
qed

lemma timer_receive_count:
  assumes "timer_ok s" and "tm_C (i_newViewTimer s)"
  shows "unat (i_timerExpiredCount s + 1) = unat (i_timerExpiredCount s) + 1"
proof (rule unat_succ)
  have "unat (i_timerResetCount s) < 2 ^ 64" using unsigned_less [of "i_timerResetCount s"] by simp
  then show "unat (i_timerExpiredCount s) + 1 < 2 ^ 64"
    using assms by (auto simp: timer_ok_def split: if_splits)
qed

lemma timer_own_steps:
  assumes "timer_ok s"
  shows "timer_ok (timerFire s)" "timer_ok (timerReceive s)" "timer_ok (close s)"
  using assms timer_receive_count [OF assms]
  by (auto simp: timer_ok_def timerFire_def timerReceive_def close_def expired_def split: if_splits)

lemma timer_own_steps_gap:
  assumes "timer_ok s" and "timer_gap s"
  shows "timer_gap (timerFire s)" "timer_gap (timerReceive s)" "timer_gap (close s)"
  using assms timer_receive_count [OF assms(1)]
  by (auto simp: timer_gap_def timer_ok_def timerFire_def timerReceive_def close_def expired_def split: if_splits)

lemma pstep_timer_ok:
  assumes "timer_ok s" and r: "pstep E x s = Inr s'" and b: "unat (i_timerResetCount s) + 1 < 2 ^ 64"
  shows "timer_ok s'" and "unat (i_timerResetCount s') \<le> unat (i_timerResetCount s) + 1"
    and "timer_gap s \<Longrightarrow> timer_gap s'"
proof -
  have own: "i_timerResetCount (timerFire s) = i_timerResetCount s" "i_timerResetCount (close s) = i_timerResetCount s"
    "i_timerResetCount (timerReceive s) = i_timerResetCount s"
    by (simp_all add: timerFire_def close_def timerReceive_def)
  have "timer_ok s' \<and> unat (i_timerResetCount s') \<le> unat (i_timerResetCount s) + 1 \<and> (timer_gap s \<longrightarrow> timer_gap s')"
    using assms(1) r
  proof (cases rule: pstep_timer)
    case (4 b')
    from timer_effect_ok [OF 4 assms(1) b] timer_effect_gap [OF 4 _ b] show ?thesis by simp
  qed (simp_all add: own timer_own_steps [OF assms(1)] timer_own_steps_gap [OF assms(1)])
  then show "timer_ok s'" and "unat (i_timerResetCount s') \<le> unat (i_timerResetCount s) + 1"
    and "timer_gap s \<Longrightarrow> timer_gap s'" by blast+
qed

lemma newPbftCore_timer:
  assumes "newPbftCore rid config startupID = Inr s"
  shows "timer_ok s" "i_timerResetCount s = 1"
  using assms by (auto simp: newPbftCore_def Let_def timer_ok_def expired_def split: if_splits option.splits)

lemma preach_timer:
  "preach E k s \<Longrightarrow> k < 2 ^ 64 - 2 \<Longrightarrow> timer_ok s \<and> unat (i_timerResetCount s) \<le> k + 1"
proof (induction rule: preach.induct)
  case (step k s x s')
  then have ih: "timer_ok s" "unat (i_timerResetCount s) \<le> k + 1" by simp_all
  then have "unat (i_timerResetCount s) + 1 < 2 ^ 64" using step.prems by simp
  from pstep_timer_ok(1,2) [OF ih(1) step.hyps(2) this] ih(2) show ?case by simp
qed (simp add: newPbftCore_timer)

lemma timer_stale:
  assumes "timer_ok s" and "\<not> expired s \<or> timer_gap s"
  shows "timerHander E s = Inr (s\<lparr>i_timerWaiting := False\<rparr>)"
proof -
  have "unat (i_timerExpiredCount s) < unat (i_timerResetCount s)"
    using assms by (auto simp: timer_ok_def timer_gap_def split: if_splits)
  then have "i_timerResetCount s > i_timerExpiredCount s" by (simp add: word_less_nat_alt)
  then show ?thesis by (simp add: timerHander_def Let_def)
qed

lemma preach_psteps:
  "psteps E xs s = Inr s' \<Longrightarrow> preach E k s \<Longrightarrow> preach E (k + length xs) s'"
proof (induction xs arbitrary: k s)
  case (Cons x xs)
  then obtain t where t: "pstep E x s = Inr t" "psteps E xs t = Inr s'" by (auto simp: rbind_Inr_conv)
  from Cons.IH [OF t(2) preach.step [OF Cons.prems(2) t(1)]] show ?case by simp
qed simp

lemma psteps_gap:
  "psteps E xs s = Inr s' \<Longrightarrow> preach E k s \<Longrightarrow> k + length xs < 2 ^ 64 - 2 \<Longrightarrow> timer_gap s \<Longrightarrow> timer_gap s'"
proof (induction xs arbitrary: k s)
  case (Cons x xs)
  then obtain t where t: "pstep E x s = Inr t" "psteps E xs t = Inr s'" by (auto simp: rbind_Inr_conv)
  have "timer_ok s" "unat (i_timerResetCount s) \<le> k + 1" using preach_timer [OF Cons.prems(2)] Cons.prems(3) by auto
  then have "timer_gap t" using pstep_timer_ok(3) [OF _ t(1)] Cons.prems(3,4) by simp
  from Cons.IH [OF t(2) preach.step [OF Cons.prems(2) t(1)] _ this] Cons.prems(3) show ?case by simp
qed simp

subsection \<open>Properties\<close>

text \<open>
  C16: In every state a replica can reach, whatever messages it is sent, each map of the state has
  one entry per key, and each request in \<open>reqStore\<close> and \<open>outstandingReqs\<close> is filed under its own
  digest.
\<close>

theorem replica_wellformed: "preach E k s \<Longrightarrow> wellformed E s"
  by (rule preach_wellformed)

text \<open>An expiry that finds the channel full opens the gap.\<close>

lemma full_channel_gap:
  assumes "preach E k s" "k < 2 ^ 64 - 2" and "tm_running (i_newViewTimer s)" "tm_C (i_newViewTimer s)"
  shows "timer_gap (timerFire s)"
proof -
  have "timer_ok s" using preach_timer [OF assms(1,2)] by blast
  then show ?thesis using assms(3,4) by (simp add: timer_gap_def timer_ok_def expired_def timerFire_def)
qed

lemma sample_reach:
  obtains s s1 s2 where "preach sampleEnv 9 s" "tm_running (i_newViewTimer s)" "tm_C (i_newViewTimer s)"
    "psteps sampleEnv (TimerFires # closeGap) s = Inr s1" "preach sampleEnv 11 s1" "i_timerWaiting s1" "\<not> expired s1"
    "psteps sampleEnv (TimerFires # closeGap @ lateRun) s = Inr s2" "i_timerWaiting s2" "expired s2"
proof -
  obtain x s s1 s2 where s: "newPbftCore 0 (sampleConfig 1 0 1) [] = Inr x" "psteps sampleEnv gapRun x = Inr s"
    "tm_running (i_newViewTimer s)" "tm_C (i_newViewTimer s)"
    "psteps sampleEnv (TimerFires # closeGap) s = Inr s1" "i_timerWaiting s1" "\<not> i_timerActive s1"
    "psteps sampleEnv (TimerFires # closeGap @ lateRun) s = Inr s2" "i_timerWaiting s2" "expired s2"
    using gapRun_state unfolding expired_def by blast
  from preach_psteps [OF s(2) preach.init [OF s(1)]] have r: "preach sampleEnv (0 + length gapRun) s" .
  have l: "0 + length gapRun = 9" "9 + length (TimerFires # closeGap) = 11" by (simp_all add: gapRun_def closeGap_def)
  have 9: "preach sampleEnv 9 s" using r by (simp only: l)
  have "preach sampleEnv 11 s1" using preach_psteps [OF s(5) 9] by (simp only: l)
  with 9 s show thesis by (intro that [of s s1 s2]) (simp_all add: expired_def)
qed

theorem replica_wellformed_witness: "\<exists>s. preach sampleEnv 11 s \<and> wellformed sampleEnv s"
  using sample_reach replica_wellformed by metis

text \<open>
  C17: The race of the view change timer. An expiry that the goroutine \<open>timerHander\<close> has received is
  ignored if the timer was stopped or started again before the goroutine got the lock: in every
  state reached in fewer than \<open>2 ^ 64 - 2\<close> steps, no view change is sent unless the timer is still
  expired.
\<close>

theorem stale_expiry_ignored:
  assumes "preach E k s" and "k < 2 ^ 64 - 2" and "\<not> expired s"
  shows "timerHander E s = Inr (s\<lparr>i_timerWaiting := False\<rparr>)"
  using timer_stale preach_timer [OF assms(1,2)] assms(3) by blast

theorem stale_expiry_ignored_witness:
  "\<exists>s. preach sampleEnv 11 s \<and> (11 :: nat) < 2 ^ 64 - 2 \<and> i_timerWaiting s \<and> \<not> expired s
     \<and> timerHander sampleEnv s = Inr (s\<lparr>i_timerWaiting := False\<rparr>)"
proof -
  obtain s where "preach sampleEnv 11 s" "i_timerWaiting s" "\<not> expired s" by (rule sample_reach)
  then show ?thesis using stale_expiry_ignored [of sampleEnv 11 s] by auto
qed

text \<open>
  C33: An expiry that is lost disables the timer for good. If the timer runs out while its channel
  still holds an earlier expiry, the new one is dropped, so \<open>timerExpiredCount\<close> never counts it while
  \<open>timerResetCount\<close> counts its reset. From then on, whatever the replica does in fewer than
  \<open>2 ^ 64 - 2\<close> steps in all, the goroutine \<open>timerHander\<close> never sends a view change again, also when
  the timer has expired and nothing has reset it.
\<close>

theorem lost_expiry_disables_timer:
  assumes "preach E k s" and "tm_running (i_newViewTimer s)" "tm_C (i_newViewTimer s)"
    and "psteps E (TimerFires # xs) s = Inr s'" and "k + length (TimerFires # xs) < 2 ^ 64 - 2"
  shows "timerHander E s' = Inr (s'\<lparr>i_timerWaiting := False\<rparr>)"
proof -
  have f: "pstep E TimerFires s = Inr (timerFire s)" by (simp add: pstep_def)
  with assms(4) have xs: "psteps E xs (timerFire s) = Inr s'" by simp
  have "timer_gap (timerFire s)" using full_channel_gap [OF assms(1) _ assms(2,3)] assms(5) by simp
  then have "timer_gap s'" using psteps_gap [OF xs preach.step [OF assms(1) f]] assms(5) by simp
  with timer_stale preach_timer [OF preach_psteps [OF assms(4,1)] assms(5)] show ?thesis by blast
qed

theorem lost_expiry_disables_timer_witness:
  "\<exists>s s'. preach sampleEnv 9 s \<and> tm_running (i_newViewTimer s) \<and> tm_C (i_newViewTimer s)
     \<and> psteps sampleEnv (TimerFires # closeGap @ lateRun) s = Inr s'
     \<and> 9 + length (TimerFires # closeGap @ lateRun) < 2 ^ 64 - 2
     \<and> i_timerWaiting s' \<and> expired s' \<and> timerHander sampleEnv s' = Inr (s'\<lparr>i_timerWaiting := False\<rparr>)"
proof -
  obtain s s' where s: "preach sampleEnv 9 s" "tm_running (i_newViewTimer s)" "tm_C (i_newViewTimer s)"
    "psteps sampleEnv (TimerFires # closeGap @ lateRun) s = Inr s'" "i_timerWaiting s'" "expired s'" by (rule sample_reach)
  have l: "9 + length (TimerFires # closeGap @ lateRun) < 2 ^ 64 - 2" by (simp add: closeGap_def lateRun_def)
  from lost_expiry_disables_timer [OF s(1-4) l] s l show ?thesis by blast
qed

end
