(* ===== verification/PbftAgreement.thy ===== *)
theory PbftAgreement
  imports PbftSteps PbftReach
begin

text \<open>
  Agreement between replicas. \<open>quorum_system\<close> is what the protocol needs of the quorum size of a
  replica, \<open>intersectionQuorum\<close>; it is interpreted on the state of the replica. A \<open>deployment\<close> is a
  group of correct replicas, each in a state it can reach, together with at most \<open>f\<close> others that
  may do anything: the network delivers to a correct replica, as coming from another correct
  replica, only what that one sent. Two correct replicas never hold prepared certificates with
  different digests for the same view and sequence number.
\<close>

subsection \<open>Quorums\<close>

locale quorum_system =
  fixes valid :: "'s \<Rightarrow> bool" and total faulty quorum :: "'s \<Rightarrow> nat"
  assumes intersect: "valid s \<Longrightarrow> total s + faulty s < 2 * quorum s"
    and available: "valid s \<Longrightarrow> quorum s + faulty s \<le> total s"
begin

lemma common_member:
  assumes "valid s" and R: "finite R" "card R = total s - k" and AB: "A \<subseteq> R" "B \<subseteq> R"
    and c: "quorum s \<le> card A + k" "quorum s \<le> card B + k" and F: "finite F" "card F + k \<le> faulty s"
  shows "\<exists>r. r \<in> A \<and> r \<in> B \<and> r \<notin> F"
proof -
  have fin: "finite A" "finite B" using AB R(1) by (auto intro: finite_subset)
  have "card A + card B = card (A \<union> B) + card (A \<inter> B)" using fin by (rule card_Un_Int)
  moreover have "card (A \<union> B) \<le> card R" using AB R(1) by (intro card_mono) auto
  ultimately have "card F < card (A \<inter> B)" using R(2) c F(2) intersect [OF assms(1)] available [OF assms(1)] by linarith
  then have "\<not> A \<inter> B \<subseteq> F" using card_mono [OF F(1), of "A \<inter> B"] by auto
  then show ?thesis by blast
qed

lemma correct_quorum:
  assumes "valid s" and "card R = total s" and "finite F" "card F \<le> faulty s"
  shows "quorum s \<le> card (R - F)"
  using diff_card_le_card_Diff [OF assms(3), of R] available [OF assms(1)] assms by simp

end

definition enough_replicas :: "'w pbftCore \<Rightarrow> bool" where
  "enough_replicas s \<longleftrightarrow> 3 * i_f s + 1 \<le> i_N s"

lemma intersectionQuorum_bounds:
  assumes "enough_replicas s"
  shows "i_N s + i_f s < 2 * intersectionQuorum s" "intersectionQuorum s + i_f s \<le> i_N s"
  using assms by (auto simp: enough_replicas_def intersectionQuorum_def)

interpretation qs: quorum_system enough_replicas i_N i_f intersectionQuorum
  by unfold_locales (auto simp: intersectionQuorum_bounds)

subsection \<open>Deployments\<close>

definition replicaIds :: "nat \<Rightarrow> u64 set" where
  "replicaIds N = {r. unat r < N}"

lemma card_replicaIds: "N < 2 ^ 64 \<Longrightarrow> finite (replicaIds N) \<and> card (replicaIds N) = N"
proof -
  assume N: "N < 2 ^ 64"
  have "replicaIds N = word_of_nat ` {..<N}"
  proof (intro set_eqI iffI)
    fix r assume "r \<in> replicaIds N"
    then show "r \<in> word_of_nat ` {..<N}"
      by (intro image_eqI [of _ _ "unat r"]) (simp_all add: replicaIds_def)
  qed (use N in \<open>auto simp: replicaIds_def unat_of_nat take_bit_nat_eq_self\<close>)
  moreover have "inj_on (word_of_nat :: nat \<Rightarrow> u64) {..<N}"
    using N by (auto intro!: inj_onI simp: word_of_nat_eq_iff take_bit_nat_eq_self)
  ultimately show ?thesis by (simp add: card_image)
qed

definition deployment ::
  "nat \<Rightarrow> nat \<Rightarrow> u64 set \<Rightarrow> (u64 \<Rightarrow> 'w penv) \<Rightarrow> (u64 \<Rightarrow> evidence) \<Rightarrow> (u64 \<Rightarrow> 'w pbftCore list) \<Rightarrow>
     (u64 \<Rightarrow> 'w pbftCore) \<Rightarrow> bool" where
  "deployment N f C E X hist s \<longleftrightarrow> C \<subseteq> replicaIds N \<and> card (replicaIds N - C) \<le> f
     \<and> (\<forall>i \<in> C. codec_ok (E i) \<and> prun (E i) (X i) (hist i) (s i) \<and> i_id (s i) = i \<and> i_N (s i) = N \<and> i_f (s i) = f)
     \<and> (\<forall>i \<in> C. \<forall>j \<in> C. \<forall>m. (j, m) \<in> X i \<longrightarrow> m \<in> sentMsgs (E j) (s j))"

lemma deployment_inv:
  assumes "deployment N f C E X hist s" and "\<forall>k \<in> C. unwrapped (E k) (hist k)" and "i \<in> C"
  shows "core_inv (X i) (sentMsgs (E i) (s i)) (s i)" "config_ok (s i)"
    "i_id (s i) = i" "i_N (s i) = N" "i_f (s i) = f"
proof -
  have i: "codec_ok (E i)" "prun (E i) (X i) (hist i) (s i)" "unwrapped (E i) (hist i)"
    using assms by (auto simp: deployment_def)
  then show "core_inv (X i) (sentMsgs (E i) (s i)) (s i)" using prun_inv by blast
  then show "config_ok (s i)" by (simp only: core_inv_def)
qed (use assms in \<open>auto simp: deployment_def\<close>)

text \<open>What a correct replica has from a correct replica, that one sent.\<close>

definition evidenceOf :: "(u64 \<Rightarrow> 'w penv) \<Rightarrow> (u64 \<Rightarrow> evidence) \<Rightarrow> (u64 \<Rightarrow> 'w pbftCore) \<Rightarrow> u64 \<Rightarrow> evidence" where
  "evidenceOf E X s i = evidence (X i) (sentMsgs (E i) (s i)) (s i)"

lemma deployment_sent:
  assumes "deployment N f C E X hist s" "i \<in> C" "j \<in> C" and "(j, m) \<in> evidenceOf E X s i"
  shows "m \<in> sentMsgs (E j) (s j)"
  using assms
  by (auto simp: deployment_def evidenceOf_def evidence_def)

lemma prun_senders: "prun E X hist s \<Longrightarrow> (r, m) \<in> X \<Longrightarrow> unat r < i_N s"
proof (induction rule: prun.induct)
  case (receives X hist s w m' sender s')
  have "i_N s' = i_N s" by (rule size.every_step [OF refl receives.hyps(6)])
  with receives show ?case by auto
next
  case (takes X hist s x s')
  have "i_N s' = i_N s" by (rule size.every_step [OF refl takes.hyps(3)])
  with takes show ?case by simp
qed simp

lemma deployment_senders:
  assumes "deployment N f C E X hist s" "i \<in> C" and "(r, m) \<in> evidenceOf E X s i"
  shows "r \<in> replicaIds N"
proof -
  have i: "prun (E i) (X i) (hist i) (s i)" "i_id (s i) = i" "i_N (s i) = N" "i \<in> replicaIds N"
    using assms(1,2) by (auto simp: deployment_def)
  with assms(3) prun_senders [OF i(1)] show ?thesis
    by (auto simp: evidenceOf_def evidence_def replicaIds_def)
qed

lemma assigned_unique:
  assumes d: "deployment N f C E X hist s" and u: "\<forall>k \<in> C. unwrapped (E k) (hist k)" and ij: "i \<in> C" "j \<in> C" and p: "primaryOf N v \<in> C"
    and a: "assigned (evidenceOf E X s i) N d v n" and b: "assigned (evidenceOf E X s j) N d' v n"
  shows "d = d'"
proof -
  let ?M = "sentMsgs (E (primaryOf N v)) (s (primaryOf N v))"
  have inv: "preprepares_ok ?M (s (primaryOf N v))" "sentviews_ok ?M (s (primaryOf N v))"
    using deployment_inv(1) [OF d u p] by (simp_all only: core_inv_def)
  have sent: "(\<exists>pp. MPrePrepare pp \<in> ?M \<and> pp_View pp = v \<and> pp_SequenceNumber pp = n \<and> pp_RequestDigest pp = e)
      \<or> (\<exists>nv. MNewView nv \<in> ?M \<and> nv_View nv = v \<and> v > 0 \<and> mget (nv_Xset nv) n = Some e)"
    if "assigned (evidenceOf E X s k) N e v n" "k \<in> C" for k e
    using that(1) deployment_sent [OF d that(2) p] unfolding assigned_def by blast
  have pp: "pp_RequestDigest p1 = pp_RequestDigest p2"
    if "MPrePrepare p1 \<in> ?M" "MPrePrepare p2 \<in> ?M" "pp_View p1 = v" "pp_View p2 = v"
      "pp_SequenceNumber p1 = n" "pp_SequenceNumber p2 = n" for p1 p2
    using inv(1) that unfolding preprepares_ok_def by metis
  have nn: "nv1 = nv2" if "MNewView nv1 \<in> ?M" "MNewView nv2 \<in> ?M" "nv_View nv1 = v" "nv_View nv2 = v" "v > 0" for nv1 nv2
    using inv(2) that unfolding sentviews_ok_def by metis
  have np: "mget (nv_Xset nv) n = None" if "MNewView nv \<in> ?M" "MPrePrepare p1 \<in> ?M" "nv_View nv = v" "pp_View p1 = v"
      "pp_SequenceNumber p1 = n" "v > 0" for nv p1
    using inv(2) that unfolding sentviews_ok_def by metis
  from sent [OF a ij(1)] sent [OF b ij(2)] show ?thesis
    using pp nn np by (metis option.distinct(1) option.inject)
qed

lemma votes_unique:
  assumes d: "deployment N f C E X hist s" and u: "\<forall>k \<in> C. unwrapped (E k) (hist k)" and ij: "i \<in> C" "j \<in> C" and r: "r \<in> C"
    and v: "voted (evidenceOf E X s i) d v n r" "voted (evidenceOf E X s j) d' v n r"
  shows "d = d'"
proof -
  have "prepares_ok (sentMsgs (E r) (s r)) (s r)"
    using deployment_inv(1) [OF d u r] by (simp only: core_inv_def)
  then show ?thesis
    using v deployment_sent [OF d ij(1) r] deployment_sent [OF d ij(2) r]
    unfolding voted_def prepares_ok_def by metis
qed

lemma certified_unique:
  assumes d: "deployment N f C E X hist s" and u: "\<forall>k \<in> C. unwrapped (E k) (hist k)" and ij: "i \<in> C" "j \<in> C"
    and c: "certified (evidenceOf E X s i) N f d v n" "certified (evidenceOf E X s j) N f d' v n"
  shows "d = d'"
proof (cases "primaryOf N v \<in> C")
  case True
  with assigned_unique [OF d u ij True] c show ?thesis unfolding certified_def by blast
next
  case False
  let ?p = "primaryOf N v"
  have cfg: "config_ok (s i)" "i_N (s i) = N" "i_f (s i) = f" using deployment_inv [OF d u ij(1)] by simp_all
  have N: "0 < N" "N < 2 ^ 64" "enough_replicas (s i)" using cfg by (auto simp: config_ok_def enough_replicas_def)
  note ids = card_replicaIds [OF N(2)]
  have p: "?p \<in> replicaIds N" using N by (simp add: primaryOf_def replicaIds_def unat_mod_distrib unat_of_nat take_bit_nat_eq_self)
  obtain A B where A: "quorumOf N f - 1 \<le> card A" "?p \<notin> A" "\<forall>r \<in> A. voted (evidenceOf E X s i) d v n r"
    and B: "quorumOf N f - 1 \<le> card B" "?p \<notin> B" "\<forall>r \<in> B. voted (evidenceOf E X s j) d' v n r"
    using c unfolding certified_def by blast
  have sub: "A \<subseteq> replicaIds N - {?p}" "B \<subseteq> replicaIds N - {?p}"
    using A(2,3) B(2,3) deployment_senders [OF d ij(1)] deployment_senders [OF d ij(2)] by (auto simp: voted_def)
  have "card (replicaIds N - C) = Suc (card (replicaIds N - C - {?p}))"
    using p False ids by (intro card.remove) auto
  then have "card (replicaIds N - C - {?p}) + 1 \<le> i_f (s i)" using d cfg(3) by (simp add: deployment_def)
  moreover have "finite (replicaIds N - {?p})" "card (replicaIds N - {?p}) = i_N (s i) - 1"
    using p ids cfg(2) by simp_all
  moreover have "intersectionQuorum (s i) \<le> card A + 1" "intersectionQuorum (s i) \<le> card B + 1"
    using A(1) B(1) by (simp_all add: intersectionQuorum_quorumOf cfg)
  ultimately obtain r where "r \<in> A" "r \<in> B" "r \<notin> replicaIds N - C - {?p}"
    using qs.common_member [OF N(3) _ _ sub, of 1 "replicaIds N - C - {?p}"] by auto
  moreover have "r \<in> C" using calculation sub by auto
  ultimately show ?thesis using votes_unique [OF d u ij] A(3) B(3) by blast
qed

subsection \<open>A deployment of four replicas\<close>

text \<open>
  Replica 0 is the primary and is given a request, replicas 1 and 2 receive its pre-prepare and the
  prepare of each other, replica 3 may do anything.
\<close>

definition netPrePrepare :: Message where
  "netPrePrepare = MPrePrepare \<lparr>pp_View = 0, pp_SequenceNumber = 1, pp_RequestDigest = EncodeToString [1],
     pp_Request = Some \<lparr>rq_Timestamp = None, rq_Payload = [1], rq_ReplicaId = 0\<rparr>, pp_ReplicaId = 0\<rparr>"

definition netPrepare :: "u64 \<Rightarrow> Message" where
  "netPrepare i = MPrepare \<lparr>pr_View = 0, pr_SequenceNumber = 1, pr_RequestDigest = EncodeToString [1], pr_ReplicaId = i\<rparr>"

definition netInputs :: "u64 \<Rightarrow> Message pinput list" where
  "netInputs i = (if i = 0 then [NewRequest [1] 0]
     else [Receive netPrePrepare 0, Receive (netPrepare (3 - i)) (3 - i)])"

definition netAfter :: "nat \<Rightarrow> u64 \<Rightarrow> Message pbftCore" where
  "netAfter k i = projr (rbind (newPbftCore i (sampleConfig 4 1 10) []) (psteps sampleEnv (take k (netInputs i))))"

definition netMid :: "u64 \<Rightarrow> Message pbftCore" where
  "netMid i = netAfter 1 i"

definition netState :: "u64 \<Rightarrow> Message pbftCore" where
  "netState i = netAfter (length (netInputs i)) i"

definition netReceived :: "u64 \<Rightarrow> evidence" where
  "netReceived i = (if i = 0 then {} else {(3 - i, netPrepare (3 - i)), (0, netPrePrepare)})"

lemmas net_simps = sample_simps sample_hash sample_init netInputs_def netAfter_def netMid_def netState_def netPrePrepare_def
  netPrepare_def

lemma net_runs:
  "newPbftCore 0 (sampleConfig 4 1 10) [] = Inr (netAfter 0 0)"
  "pstep sampleEnv (NewRequest [1] 0) (netAfter 0 0) = Inr (netState 0)"
  "newPbftCore 1 (sampleConfig 4 1 10) [] = Inr (netAfter 0 1)"
  "pstep sampleEnv (Receive netPrePrepare 0) (netAfter 0 1) = Inr (netMid 1)"
  "pstep sampleEnv (Receive (netPrepare 2) 2) (netMid 1) = Inr (netState 1)"
  "newPbftCore 2 (sampleConfig 4 1 10) [] = Inr (netAfter 0 2)"
  "pstep sampleEnv (Receive netPrePrepare 0) (netAfter 0 2) = Inr (netMid 2)"
  "pstep sampleEnv (Receive (netPrepare 1) 1) (netMid 2) = Inr (netState 2)"
  by (simp_all add: net_simps del: EncodeToString.simps(2))

definition netCommit :: "u64 \<Rightarrow> Message" where
  "netCommit i = MCommit \<lparr>cm_View = 0, cm_SequenceNumber = 1, cm_RequestDigest = EncodeToString [1], cm_ReplicaId = i\<rparr>"

lemma net_trace:
  "i_trace (netState 0) = [ABroadcast netPrePrepare]"
  "i_trace (netMid 1) = [ABroadcast (netPrepare 1)]"
  "i_trace (netState 1) = [ABroadcast (netPrepare 1), ABroadcast (netCommit 1)]"
  "i_trace (netMid 2) = [ABroadcast (netPrepare 2)]"
  "i_trace (netState 2) = [ABroadcast (netPrepare 2), ABroadcast (netCommit 2)]"
  by (simp_all add: net_simps netCommit_def del: EncodeToString.simps(2))

lemma net_config:
  assumes "i \<in> {0, 1, 2}"
  shows "i_id (netState i) = i" "i_N (netState i) = 4" "i_f (netState i) = 1"
    "i_h (netState i) = 0" "i_L (netState i) = 10" "i_h (netMid i) = 0" "i_L (netMid i) = 10"
    "i_id (netAfter 0 i) = i" "i_N (netAfter 0 i) = 4" "i_id (netMid i) = i" "i_N (netMid i) = 4"
  using assms by (elim insertE emptyE; simp add: net_simps del: EncodeToString.simps(2))+

lemma net_prepared: "prepared (netState 1) (EncodeToString [1]) 0 1" "prepared (netState 2) (EncodeToString [1]) 0 1"
  by (simp_all add: net_simps del: EncodeToString.simps(2))

lemma net_sent:
  "sentMsgs sampleEnv (netState 0) = {netPrePrepare}"
  "sentMsgs sampleEnv (netMid 1) = {netPrepare 1}" "sentMsgs sampleEnv (netState 1) = {netPrepare 1, netCommit 1}"
  "sentMsgs sampleEnv (netMid 2) = {netPrepare 2}" "sentMsgs sampleEnv (netState 2) = {netPrepare 2, netCommit 2}"
  by (auto simp: sentMsgs_def net_trace)

lemma net_message_ok: "message_ok netPrePrepare" "message_ok (netPrepare i)"
  by (simp_all add: message_ok_def netPrePrepare_def netPrepare_def)

lemma net_in_range:
  "in_range (sentMsgs sampleEnv (netState 0)) (netState 0)"
  "in_range (sentMsgs sampleEnv (netMid 1)) (netMid 1)" "in_range (sentMsgs sampleEnv (netState 1)) (netState 1)"
  "in_range (sentMsgs sampleEnv (netMid 2)) (netMid 2)" "in_range (sentMsgs sampleEnv (netState 2)) (netState 2)"
  by (simp_all add: in_range_def net_sent net_config, simp_all add: netPrePrepare_def netPrepare_def netCommit_def)

definition netHist :: "u64 \<Rightarrow> Message pbftCore list" where
  "netHist i = (if i = 0 then [netState 0, netAfter 0 0] else [netState i, netMid i, netAfter 0 i])"

lemma net_unwrapped:
  assumes "i \<in> {0, 1, 2}"
  shows "unwrapped sampleEnv (netHist i)"
proof -
  have cfg: "\<not> cfg_byzantine (sampleConfig 4 1 10)" "cfg_N (sampleConfig 4 1 10) < 2 ^ 64"
    by (simp_all add: sampleConfig_def)
  note start = newPbftCore_inv(2) [OF net_runs(1) cfg, of sampleEnv] newPbftCore_inv(2) [OF net_runs(3) cfg, of sampleEnv]
    newPbftCore_inv(2) [OF net_runs(6) cfg, of sampleEnv]
  from assms show ?thesis
    by (elim insertE emptyE) (simp_all add: unwrapped_def netHist_def net_in_range start)
qed

lemma net_prun:
  "prun sampleEnv (netReceived 0) (netHist 0) (netState 0)"
  "prun sampleEnv (netReceived 1) (netHist 1) (netState 1)"
  "prun sampleEnv (netReceived 2) (netHist 2) (netState 2)"
proof -
  have cfg: "\<not> cfg_byzantine (sampleConfig 4 1 10)" "cfg_N (sampleConfig 4 1 10) < 2 ^ 64"
    by (simp_all add: sampleConfig_def)
  note start = prun.start [OF net_runs(1) cfg] prun.start [OF net_runs(3) cfg] prun.start [OF net_runs(6) cfg]
  show "prun sampleEnv (netReceived 0) (netHist 0) (netState 0)"
    using prun.takes [OF start(1) _ net_runs(2)] by (simp add: netReceived_def netHist_def)
  have "prun sampleEnv {(0, netPrePrepare)} [netMid 1, netAfter 0 1] (netMid 1)"
    "prun sampleEnv {(0, netPrePrepare)} [netMid 2, netAfter 0 2] (netMid 2)"
    using prun.receives [OF start(2) _ _ _ net_message_ok(1) net_runs(4)]
      prun.receives [OF start(3) _ _ _ net_message_ok(1) net_runs(7)] by (simp_all add: net_config)
  note mid = this
  show "prun sampleEnv (netReceived 1) (netHist 1) (netState 1)" "prun sampleEnv (netReceived 2) (netHist 2) (netState 2)"
    using prun.receives [OF mid(1) _ _ _ net_message_ok(2) net_runs(5)]
      prun.receives [OF mid(2) _ _ _ net_message_ok(2) net_runs(8)]
    by (simp_all add: net_config netReceived_def netHist_def)
qed

lemma net_deployment: "deployment 4 1 {0, 1, 2} (\<lambda>_. sampleEnv) netReceived netHist netState"
proof -
  have ids: "finite (replicaIds 4)" "card (replicaIds 4) = 4" using card_replicaIds [of 4] by simp_all
  have sub: "{0, 1, 2} \<subseteq> replicaIds 4" by (simp add: replicaIds_def)
  have "card (replicaIds 4 - {0, 1, 2}) = card (replicaIds 4) - card {0, 1, 2 :: u64}"
    using sub by (rule card_Diff_subset [rotated]) simp
  then have "card (replicaIds 4 - {0, 1, 2}) \<le> 1" using ids(2) by simp
  moreover have "codec_ok sampleEnv" by (simp add: codec_ok_def)
  ultimately show ?thesis
    using sub net_prun net_config unfolding deployment_def
    by (auto simp: netReceived_def net_sent)
qed

subsection \<open>Properties\<close>

lemma deployment_prepared:
  assumes "deployment N f C E X hist s" "\<forall>k \<in> C. unwrapped (E k) (hist k)" "i \<in> C" and "prepared (s i) d v n"
  shows "certified (evidenceOf E X s i) N f d v n"
  using prepared_certified [OF _ _ assms(4)] deployment_inv [OF assms(1-3)]
  unfolding core_inv_def evidenceOf_def by metis

lemma deployment_pset:
  assumes "deployment N f C E X hist s" "\<forall>k \<in> C. unwrapped (E k) (hist k)" "i \<in> C" and "mget (i_pset (s i)) n = Some p"
  shows "certified (evidenceOf E X s i) N f (pq_Digest p) (pq_View p) n"
  using assms(4) deployment_inv [OF assms(1-3)]
  unfolding core_inv_def pqsets_ok_def evidenceOf_def by metis

text \<open>
  C1: Agreement as long as nothing wraps around. In a group of \<open>N\<close> replicas of which at most \<open>f\<close> are
  faulty, two correct replicas never have prepared certificates with different request digests for
  the same view and sequence number, in whatever order messages arrive and whatever the faulty
  replicas send, provided that in no state a correct replica has passed through the watermark window
  reached \<open>2 ^ 64\<close> (\<open>h + L < 2 ^ 64\<close>) and no correct replica announced view 0 again. The proviso is
  needed: a faulty primary can move the window of a correct replica to the end of the 64-bit range,
  and \<open>agreement_lost\<close> shows that agreement then fails.
\<close>

theorem pbft_agreement:
  assumes "deployment N f C E X hist s" and "\<forall>k \<in> C. unwrapped (E k) (hist k)" and "i \<in> C" "j \<in> C"
    and "prepared (s i) d v n" "prepared (s j) d' v n"
  shows "d = d'"
  by (rule certified_unique [OF assms(1-4) deployment_prepared [OF assms(1-3,5)] deployment_prepared [OF assms(1,2,4,6)]])

theorem pbft_agreement_witness:
  "deployment 4 1 {0, 1, 2} (\<lambda>_. sampleEnv) netReceived netHist netState
   \<and> (\<exists>d d'. prepared (netState 1) d 0 1 \<and> prepared (netState 2) d' 0 1 \<and> d = d')"
proof -
  have c: "(1 :: u64) \<in> {0, 1, 2}" "(2 :: u64) \<in> {0, 1, 2}" by simp_all
  have u: "\<forall>k \<in> {0, 1, 2}. unwrapped sampleEnv (netHist k)" using net_unwrapped by blast
  from pbft_agreement [OF net_deployment u c net_prepared] net_deployment net_prepared show ?thesis by blast
qed

text \<open>
  C19: Quorums of \<open>intersectionQuorum\<close> replicas. A replica that starts has a configuration in which,
  whichever \<open>f\<close> replicas are faulty, any two quorums have a correct replica in common, and the
  correct replicas are themselves a quorum and as many as \<open>allCorrectReplicasQuorum\<close> asks for.
\<close>

theorem quorum_intersection:
  assumes "newPbftCore rid config startupID = Inr s"
    and "finite R" "card R = i_N s" and "finite F" "card F \<le> i_f s"
  shows "(\<forall>A B. A \<subseteq> R \<and> B \<subseteq> R \<and> intersectionQuorum s \<le> card A \<and> intersectionQuorum s \<le> card B \<longrightarrow>
            (\<exists>r. r \<in> A \<and> r \<in> B \<and> r \<notin> F))
         \<and> intersectionQuorum s \<le> card (R - F) \<and> allCorrectReplicasQuorum s \<le> card (R - F)"
proof -
  have ok: "enough_replicas s"
    using assms(1) by (auto simp: newPbftCore_def enough_replicas_def Let_def split: if_splits option.splits)
  have "\<exists>r. r \<in> A \<and> r \<in> B \<and> r \<notin> F"
    if "A \<subseteq> R" "B \<subseteq> R" "intersectionQuorum s \<le> card A" "intersectionQuorum s \<le> card B" for A B
    using qs.common_member [OF ok assms(2) _ that(1,2), of 0 F] that(3,4) assms by simp
  moreover have "allCorrectReplicasQuorum s \<le> card (R - F)"
    using diff_card_le_card_Diff [OF assms(4), of R] assms(3,5) by (simp add: allCorrectReplicasQuorum_def)
  ultimately show ?thesis using qs.correct_quorum [OF ok assms(3-5)] by blast
qed

theorem quorum_intersection_witness:
  "newPbftCore 1 (sampleConfig 4 1 10) [] = Inr (netAfter 0 1) \<and> {0, 1, 2} \<inter> {1, 2, 3} - {2} \<noteq> ({} :: nat set)
   \<and> intersectionQuorum (netAfter 0 1) = 3 \<and> 3 \<le> card ({0, 1, 2, 3} - {2 :: nat})"
proof -
  have i: "i_N (netAfter 0 1) = 4" "i_f (netAfter 0 1) = 1" "intersectionQuorum (netAfter 0 1) = 3"
    by (simp_all add: net_simps)
  note q = quorum_intersection [OF net_runs(3), of "{0, 1, 2, 3 :: nat}" "{2}"]
  have "(\<forall>A B. A \<subseteq> {0, 1, 2, 3} \<and> B \<subseteq> {0, 1, 2, 3} \<and> 3 \<le> card A \<and> 3 \<le> card B \<longrightarrow>
      (\<exists>r. r \<in> A \<and> r \<in> B \<and> r \<notin> {2 :: nat})) \<and> 3 \<le> card ({0, 1, 2, 3} - {2 :: nat})"
    using q by (simp add: i)
  from this [THEN conjunct1, THEN spec, of "{0, 1, 2}", THEN spec, of "{1, 2, 3}"] this [THEN conjunct2]
  show ?thesis using net_runs(3) i(3) by auto
qed

text \<open>
  C15: The P sets that correct replicas put into their view change messages agree: two entries for
  the same sequence number that name the same view have the same digest. As for agreement, no
  watermark window and no view number of a correct replica has wrapped around.
\<close>

theorem pset_agreement:
  assumes "deployment N f C E X hist s" and "\<forall>k \<in> C. unwrapped (E k) (hist k)" and "i \<in> C" "j \<in> C"
    and "mget (i_pset (s i)) n = Some p" "mget (i_pset (s j)) n = Some p'" "pq_View p = pq_View p'"
  shows "pq_Digest p = pq_Digest p'"
  using certified_unique [OF assms(1-4)] deployment_pset [OF assms(1-3,5)] deployment_pset [OF assms(1,2,4,6)] assms(7)
  by metis

text \<open>The witness: replicas 1 and 2 of the deployment above time out and send view changes.\<close>

lemma sendViewChange_unfold:
  "sendViewChange E s =
     (let s1 = enterNextView s; vc = makeViewChange E s1
      in innerBroadcast E (MViewChange vc)
           (Some (fromSender (i_id s1) (vc_ReplicaId vc) (recvViewChangeWith E
             (sendViewChangeN E (length (i_newViewStore s) + length (i_viewChangeStore s) + 1)) vc))) s1)"
  by (simp add: sendViewChange_def)

definition lateState :: "u64 \<Rightarrow> Message pbftCore" where
  "lateState i = (if i = 0 then netState 0 else projr (timerHander sampleEnv (timerReceive (timerFire (netState i)))))"

definition netVC :: "u64 \<Rightarrow> ViewChange" where
  "netVC i = (let pq = \<lparr>pq_SequenceNumber = 1, pq_Digest = EncodeToString [1], pq_View = 0\<rparr>
     in \<lparr>vc_View = 1, vc_H = 0, vc_Cset = [\<lparr>vcc_SequenceNumber = 0, vcc_Id = []\<rparr>], vc_Pset = [pq], vc_Qset = [pq],
          vc_ReplicaId = i, vc_Signature = []\<rparr>)"

lemmas late_simps = net_simps timerHander_def sendViewChange_unfold enterNextView_def makeViewChange_def sign_def
  clearOldMessages_def collectPQ_def addPset_def addQset_def recvViewChangeWith_def correctViewChange_def verify_def
  smallestView_def allCorrectReplicasQuorum_def

lemma late_runs:
  assumes "i \<in> {1, 2}"
  shows "\<exists>s. timerHander sampleEnv (timerReceive (timerFire (netState i))) = Inr s
     \<and> i_trace s = [ABroadcast (netPrepare i), ABroadcast (netCommit i), ABroadcast (MViewChange (netVC i))]
     \<and> i_id s = i \<and> i_N s = 4 \<and> i_f s = 1 \<and> i_h s = 0 \<and> i_L s = 10
     \<and> mget (i_pset s) 1 = Some \<lparr>pq_SequenceNumber = 1, pq_Digest = EncodeToString [1], pq_View = 0\<rparr>"
  using assms by (elim insertE emptyE; simp add: late_simps netCommit_def netVC_def
    del: EncodeToString.simps(2) sendViewChangeN.simps)

lemma late_state:
  assumes "i \<in> {1, 2}"
  shows "timerHander sampleEnv (timerReceive (timerFire (netState i))) = Inr (lateState i)"
    "i_trace (lateState i) = [ABroadcast (netPrepare i), ABroadcast (netCommit i), ABroadcast (MViewChange (netVC i))]"
    "i_id (lateState i) = i" "i_N (lateState i) = 4" "i_f (lateState i) = 1" "i_h (lateState i) = 0" "i_L (lateState i) = 10"
    "mget (i_pset (lateState i)) 1 = Some \<lparr>pq_SequenceNumber = 1, pq_Digest = EncodeToString [1], pq_View = 0\<rparr>"
  using late_runs [OF assms] assms by (auto simp: lateState_def simp del: EncodeToString.simps(2))

lemma late_sent:
  "i \<in> {1, 2} \<Longrightarrow> sentMsgs sampleEnv (lateState i) = {netPrepare i, netCommit i, MViewChange (netVC i)}"
  by (simp add: sentMsgs_def late_state) blast

lemma prun_timers:
  assumes "prun E X hist s"
  shows "prun E X ([timerReceive (timerFire s), timerFire s] @ hist) (timerReceive (timerFire s))"
proof -
  have "prun E X (timerFire s # hist) (timerFire s)"
    by (rule prun.takes [OF assms, of TimerFires]) (simp_all add: pstep_def)
  from prun.takes [OF this, of TimerReceived] show ?thesis by (simp add: pstep_def)
qed

definition lateHist :: "u64 \<Rightarrow> Message pbftCore list" where
  "lateHist i = (if i = 0 then netHist 0
     else [lateState i, timerReceive (timerFire (netState i)), timerFire (netState i)] @ netHist i)"

lemma late_prun:
  assumes "i \<in> {1, 2}"
  shows "prun sampleEnv (netReceived i) (lateHist i) (lateState i)"
proof -
  have "prun sampleEnv (netReceived i) (netHist i) (netState i)" using assms net_prun by auto
  from prun.takes [OF prun_timers [OF this], of TimerLocked] late_state(1) [OF assms] assms show ?thesis
    by (auto simp: pstep_def lateHist_def)
qed

lemma late_unwrapped:
  assumes "i \<in> {0, 1, 2}"
  shows "unwrapped sampleEnv (lateHist i)"
proof (cases "i = 0")
  case False
  then have i: "i \<in> {1, 2}" using assms by simp
  have "in_range (sentMsgs sampleEnv (lateState i)) (lateState i)"
    by (simp add: in_range_def late_sent [OF i] late_state [OF i] netPrepare_def netCommit_def netVC_def Let_def)
  moreover have "in_range (sentMsgs sampleEnv (netState i)) (netState i)" using i net_in_range by auto
  then have "in_range (sentMsgs sampleEnv (timerFire (netState i))) (timerFire (netState i))"
    "in_range (sentMsgs sampleEnv (timerReceive (timerFire (netState i)))) (timerReceive (timerFire (netState i)))"
    by (simp_all add: timerFire_def timerReceive_def in_range_def sentMsgs_def)
  ultimately show ?thesis using net_unwrapped [OF assms] False by (simp add: unwrapped_def lateHist_def)
qed (use net_unwrapped in \<open>simp add: lateHist_def\<close>)

lemma late_deployment: "deployment 4 1 {0, 1, 2} (\<lambda>_. sampleEnv) netReceived lateHist lateState"
proof -
  have d: "C \<subseteq> replicaIds 4" "card (replicaIds 4 - C) \<le> 1" if "C = {0, 1, 2}" for C
    using net_deployment unfolding deployment_def that by blast+
  have "codec_ok sampleEnv" by (simp add: codec_ok_def)
  moreover have "lateState 0 = netState 0" "lateHist 0 = netHist 0" by (simp_all add: lateState_def lateHist_def)
  ultimately show ?thesis
    using d net_prun(1) net_config late_prun late_state late_sent unfolding deployment_def
    by (auto simp: netReceived_def net_sent late_sent)
qed

theorem pset_agreement_witness:
  "deployment 4 1 {0, 1, 2} (\<lambda>_. sampleEnv) netReceived lateHist lateState
   \<and> (\<exists>p p'. mget (i_pset (lateState 1)) 1 = Some p \<and> mget (i_pset (lateState 2)) 1 = Some p' \<and> pq_View p = pq_View p'
        \<and> pq_Digest p = pq_Digest p')"
proof -
  have 1: "(1 :: u64) \<in> {0, 1, 2}" "(2 :: u64) \<in> {0, 1, 2}" "(1 :: u64) \<in> {1, 2}" "(2 :: u64) \<in> {1, 2}" by simp_all
  have u: "\<forall>k \<in> {0, 1, 2}. unwrapped sampleEnv (lateHist k)" using late_unwrapped by blast
  from pset_agreement [OF late_deployment u 1(1,2) late_state(8) [OF 1(3)] late_state(8) [OF 1(4)] refl]
  show ?thesis using late_deployment late_state(8) [OF 1(3)] late_state(8) [OF 1(4)] by blast
qed

end
