(* ===== verification/PbftExecution.thy ===== *)
theory PbftExecution
  imports PbftSample "HOL-Library.Multiset"
begin

text \<open>
  Execution of committed requests, \<open>executeOne\<close> and \<open>executeOutstanding\<close> of \<open>pbft-core.go\<close>. The code
  releases the lock while it calls the consumer. \<open>exstep\<close> describes what goroutines do to a replica
  around these calls: whatever they do, sequence numbers are taken one after the other and each call
  is made once, but the calls need not come in order. Without interference the loop returns, and
  when it does no certificate can be executed any more.
\<close>

text \<open>The part of the state that execution reads and does not change.\<close>

definition execLogs :: "'w pbftCore \<Rightarrow> _" where
  "execLogs s = (i_certStore s, i_reqStore s, i_pset s, i_qset s, i_N s, i_f s, i_K s, i_skipInProgress s)"

text \<open>The call of \<open>executeOne\<close> on the consumer for a request it executes.\<close>

definition execCall :: "'w pbftCore \<Rightarrow> msgID \<Rightarrow> 'w action list" where
  "execCall s idx = (case Option.bind (mget (i_certStore s) idx) mc_prePrepare of
     None \<Rightarrow> []
   | Some pp \<Rightarrow>
       let checkpoint = (snd idx mod i_K s = 0)
       in if pp_RequestDigest pp = [] then
            if checkpoint then [AExecute (snd idx) None \<lparr>ei_Checkpoint = True, ei_Validate = False, ei_Null = True\<rparr>] else []
          else [AExecute (snd idx) (map_option rq_Payload (mget (i_reqStore s) (pp_RequestDigest pp)))
                  \<lparr>ei_Checkpoint = checkpoint, ei_Validate = False, ei_Null = False\<rparr>])"

text \<open>A certificate that is ready: committed, and the next one after \<open>lastExec\<close>.\<close>

definition ready :: "'w pbftCore \<Rightarrow> msgID \<Rightarrow> bool" where
  "ready s idx \<longleftrightarrow> snd idx = i_lastExec s + 1 \<and> \<not> i_skipInProgress s
     \<and> (\<exists>pp. Option.bind (mget (i_certStore s) idx) mc_prePrepare = Some pp
          \<and> committed s (pp_RequestDigest pp) (fst idx) (snd idx))"

lemma execLogs_cong:
  assumes "execLogs s' = execLogs s"
  shows "execCall s' = execCall s" "committed s' = committed s"
proof -
  from assms have eq: "i_certStore s' = i_certStore s" "i_reqStore s' = i_reqStore s" "i_pset s' = i_pset s"
    "i_qset s' = i_qset s" "i_N s' = i_N s" "i_f s' = i_f s" "i_K s' = i_K s"
    by (simp_all add: execLogs_def)
  show "execCall s' = execCall s" "committed s' = committed s"
    by (intro ext, simp only: execCall_def committed_def prepared_def prePrepared_def intersectionQuorum_def eq)+
qed

lemma exec_sel [simp]:
  "execLogs (act a s) = execLogs s" "execLogs (startTimer t s) = execLogs s" "execLogs (stopTimer s) = execLogs s"
  "execLogs (watchOutstanding s) = execLogs s" "execLogs (i_lastExec_update g s) = execLogs s"
  "execLogs (i_lastNewViewTimeout_update h s) = execLogs s" "execLogs (i_outstandingReqs_update k s) = execLogs s"
  "i_lastExec (act a s) = i_lastExec s" "i_lastExec (startTimer t s) = i_lastExec s" "i_lastExec (stopTimer s) = i_lastExec s"
  "i_lastExec (watchOutstanding s) = i_lastExec s"
  "i_trace (act a s) = i_trace s @ [a]" "i_trace (startTimer t s) = i_trace s" "i_trace (stopTimer s) = i_trace s"
  "i_trace (watchOutstanding s) = i_trace s"
  by (simp_all add: execLogs_def act_def startTimer_def stopTimer_def watchOutstanding_def)

lemma committed_request:
  "committed s d v n \<Longrightarrow> d \<noteq> [] \<Longrightarrow> mget (i_reqStore s) d \<noteq> None"
  by (auto simp: committed_def prepared_def prePrepared_def split: if_splits)

lemma executeOne_idle: "\<not> ready s idx \<Longrightarrow> executeOne idx s = Inr (False, s)"
  by (auto simp: executeOne_defs ready_def split: option.splits)

lemma executeOne_ready:
  assumes "ready s idx" and "i_K s \<noteq> 0"
  obtains s' where "executeOne idx s = Inr (True, s')" "i_lastExec s' = snd idx" "execLogs s' = execLogs s"
    "i_trace s' = i_trace s @ execCall s idx"
proof -
  from assms(1) obtain cert pp where c: "mget (i_certStore s) idx = Some cert" "mc_prePrepare cert = Some pp"
    "committed s (pp_RequestDigest pp) (fst idx) (snd idx)" "snd idx = i_lastExec s + 1" "\<not> i_skipInProgress s"
    by (auto simp: ready_def bind_eq_Some_conv)
  have "\<exists>s'. executeOne idx s = Inr (True, s') \<and> i_lastExec s' = snd idx \<and> execLogs s' = execLogs s
      \<and> i_trace s' = i_trace s @ execCall s idx"
  proof (cases "pp_RequestDigest pp = []")
    case True
    then show ?thesis using c assms(2) by (simp add: executeOne_defs execCall_def Let_def)
  next
    case False
    then obtain req where "mget (i_reqStore s) (pp_RequestDigest pp) = Some req"
      using committed_request [OF c(3)] by auto
    then show ?thesis using c assms(2) False by (simp add: executeOne_defs execCall_def Let_def)
  qed
  then show thesis using that by blast
qed

text \<open>One pass finds a certificate that is ready, if there is one.\<close>

lemma executePass_cases:
  assumes "i_K s \<noteq> 0"
  obtains "\<forall>idx \<in> set idxs. \<not> ready s idx" "executePass idxs s = Inr (False, s)"
  | idx s' where "idx \<in> set idxs" "ready s idx" "executePass idxs s = Inr (True, s')" "executeOne idx s = Inr (True, s')"
  using assms
proof (induction idxs arbitrary: thesis)
  case (Cons idx idxs)
  show ?case
  proof (cases "ready s idx")
    case True
    from executeOne_ready [OF this Cons.prems(3)] obtain s' where "executeOne idx s = Inr (True, s')" by blast
    with True show ?thesis by (intro Cons.prems(2) [of idx s']) (simp_all add: rbind_Inr_conv)
  next
    case False
    then have p: "executePass (idx # idxs) s = executePass idxs s" by (simp add: executeOne_idle)
    show ?thesis
    proof (rule Cons.IH)
      show ?thesis if "\<forall>idx \<in> set idxs. \<not> ready s idx" "executePass idxs s = Inr (False, s)"
        by (rule Cons.prems(1)) (use that False p in simp_all)
      show ?thesis if "idx' \<in> set idxs" "ready s idx'" "executePass idxs s = Inr (True, s')" "executeOne idx' s = Inr (True, s')"
        for idx' s'
        by (rule Cons.prems(2) [of idx' s']) (use that p in simp_all)
    qed (rule Cons.prems(3))
  qed
qed simp

definition committedCert :: "'w pbftCore \<Rightarrow> msgID \<Rightarrow> bool" where
  "committedCert s idx \<longleftrightarrow> (\<exists>pp. Option.bind (mget (i_certStore s) idx) mc_prePrepare = Some pp
     \<and> committed s (pp_RequestDigest pp) (fst idx) (snd idx))"

text \<open>\<open>s'\<close> is \<open>s\<close> after the certificates \<open>ms\<close> were executed one after the other.\<close>

definition executed :: "'w pbftCore \<Rightarrow> msgID list \<Rightarrow> 'w pbftCore \<Rightarrow> bool" where
  "executed s ms s' \<longleftrightarrow> (\<forall>k < length ms. snd (ms ! k) = i_lastExec s + word_of_nat (k + 1))
     \<and> (\<forall>idx \<in> set ms. committedCert s idx)
     \<and> i_lastExec s' = i_lastExec s + word_of_nat (length ms)
     \<and> i_trace s' = i_trace s @ concat (map (execCall s) ms)
     \<and> execLogs s' = execLogs s"

lemma executed_Nil: "executed s [] s"
  by (simp add: executed_def)

lemma executed_Cons:
  assumes "ready s idx" and "executeOne idx s = Inr (True, s1)" and "i_K s \<noteq> 0" and "executed s1 ms s'"
  shows "executed s (idx # ms) s'"
proof -
  from executeOne_ready [OF assms(1,3)] assms(2)
  have s1: "i_lastExec s1 = i_lastExec s + 1" "execLogs s1 = execLogs s" "i_trace s1 = i_trace s @ execCall s idx"
    using assms(1) by (auto simp: ready_def)
  have c: "i_certStore s1 = i_certStore s" using s1(2) by (simp add: execLogs_def)
  have "snd ((idx # ms) ! k) = i_lastExec s + word_of_nat (k + 1)" if "k < length (idx # ms)" for k
    using that assms(1,4) s1(1) by (cases k) (auto simp: executed_def ready_def)
  moreover have "committedCert s1 = committedCert s" "execCall s1 = execCall s"
    using execLogs_cong [OF s1(2)] by (auto intro!: ext simp: committedCert_def c)
  moreover have "committedCert s idx" using assms(1) by (auto simp: ready_def committedCert_def)
  ultimately show ?thesis
    using assms(4) s1 by (auto simp: executed_def)
qed

lemma free_number:
  assumes "length xs < 2 ^ 64"
  obtains x :: u64 where "x \<notin> set xs"
proof -
  have "card (set xs) < card (UNIV :: u64 set)" using card_length [of xs] assms by (simp add: card_word)
  then have "set xs \<noteq> UNIV" by (metis less_irrefl)
  then show thesis using that by blast
qed

lemma executeOutstanding_run:
  assumes "i_K s \<noteq> 0" and "x \<notin> set (map (snd \<circ> fst) (i_certStore s))"
  shows "\<exists>ms s'. executeOutstanding s = Inr s' \<and> executed s ms s' \<and> (\<forall>idx. \<not> ready s' idx)"
  using assms
proof (induction "unat (x - i_lastExec s - 1)" arbitrary: s rule: less_induct)
  case less
  let ?ids = "map fst (i_certStore s)"
  show ?case
    using less.prems(1)
  proof (cases rule: executePass_cases [where idxs = ?ids])
    case 1
    have "\<not> ready s idx" for idx
    proof (cases "idx \<in> set ?ids")
      case False
      then have "mget (i_certStore s) idx = None" by (simp add: mget_None_conv)
      then show ?thesis by (simp add: ready_def)
    qed (use 1 in blast)
    then show ?thesis
      using executeOutstanding_pass(1) [OF 1(2)] executed_Nil by (intro exI [of _ "[]"] exI [of _ s]) simp
  next
    case (2 idx s1)
    from executeOne_ready [OF 2(2) less.prems(1)] 2(4)
    have s1: "i_lastExec s1 = i_lastExec s + 1" "execLogs s1 = execLogs s" using 2(2) by (auto simp: ready_def)
    have inv: "i_K s1 \<noteq> 0" "x \<notin> set (map (snd \<circ> fst) (i_certStore s1))"
      using s1(2) less.prems by (simp_all add: execLogs_def)
    have "x \<noteq> i_lastExec s + 1" using less.prems(2) 2(1,2) by (force simp: ready_def)
    then have "x - i_lastExec s - 1 \<noteq> 0" by (simp add: algebra_simps)
    then have "unat (x - i_lastExec s - 1 - 1) < unat (x - i_lastExec s - 1)"
      using unat_minus_one [of "x - i_lastExec s - 1"] unat_eq_0 [of "x - i_lastExec s - 1"] by linarith
    also have "x - i_lastExec s - 1 - 1 = x - i_lastExec s1 - 1" by (simp only: s1(1) diff_diff_eq add.assoc)
    finally have "unat (x - i_lastExec s1 - 1) < unat (x - i_lastExec s - 1)" .
    from less.hyps [OF this inv] obtain ms s' where "executeOutstanding s1 = Inr s'" "executed s1 ms s'"
      "\<forall>idx. \<not> ready s' idx" by blast
    then show ?thesis
      using executeOutstanding_pass(2) [OF 2(3)] executed_Cons [OF 2(2,4) less.prems(1)]
      by (intro exI [of _ "idx # ms"] exI [of _ s']) simp
  qed
qed

text \<open>
  A replica shared by goroutines. Under the lock, a goroutine takes the next certificate
  (\<open>executeBegin\<close>) and releases the lock with a call to make; the call is made at some later time, and
  the goroutine takes the lock again for the end of \<open>executeOne\<close>. Meanwhile other goroutines hold the
  lock: they may change anything but \<open>lastExec\<close>, which outside \<open>executeOne\<close> is assigned only where
  the state is transferred (\<open>witnessCheckpointWeakCert\<close> and \<open>processNewView\<close>). \<open>x_claims\<close> is the history
  of the certificates taken, with the states in which they were; \<open>x_base\<close> and \<open>x_from\<close> are \<open>lastExec\<close> and
  the length of that history after the last transfer.
\<close>

record 'w exsys =
  x_core :: "'w pbftCore"
  x_pending :: "'w action list"
  x_calls :: "'w action list"
  x_claims :: "('w pbftCore \<times> msgID) list"
  x_base :: u64
  x_from :: nat

definition exstart :: "'w pbftCore \<Rightarrow> 'w exsys" where
  "exstart s = \<lparr>x_core = s, x_pending = [], x_calls = [], x_claims = [], x_base = i_lastExec s, x_from = 0\<rparr>"

inductive exstep :: "'w exsys \<Rightarrow> 'w exsys \<Rightarrow> bool" where
  claims: "executeBegin idx (x_core x) = Inr (Some (calls, s1)) \<Longrightarrow>
    exstep x (x\<lparr>x_core := s1, x_pending := x_pending x @ calls, x_claims := x_claims x @ [(x_core x, idx)]\<rparr>)"
| makes: "x_pending x = ps @ a # qs \<Longrightarrow> exstep x (x\<lparr>x_pending := ps @ qs, x_calls := x_calls x @ [a]\<rparr>)"
| resumes: "exstep x (x\<lparr>x_core := watchOutstanding (x_core x)\<rparr>)"
| others: "i_lastExec s' = i_lastExec (x_core x) \<Longrightarrow> exstep x (x\<lparr>x_core := s'\<rparr>)"
| transfers: "exstep x (x\<lparr>x_core := s', x_base := i_lastExec s', x_from := length (x_claims x)\<rparr>)"

definition x_since :: "'w exsys \<Rightarrow> ('w pbftCore \<times> msgID) list" where
  "x_since x = drop (x_from x) (x_claims x)"

definition exinv :: "'w exsys \<Rightarrow> bool" where
  "exinv x \<longleftrightarrow> x_from x \<le> length (x_claims x)
     \<and> map (\<lambda>c. snd (snd c)) (x_since x) = map (\<lambda>k. x_base x + word_of_nat (Suc k)) [0..<length (x_since x)]
     \<and> i_lastExec (x_core x) = x_base x + word_of_nat (length (x_since x))
     \<and> (\<forall>(s, idx) \<in> set (x_claims x). ready s idx)
     \<and> mset (x_calls x) + mset (x_pending x) = mset (concat (map (\<lambda>(s, idx). execCall s idx) (x_claims x)))"

text \<open>What \<open>executeBegin\<close> takes is ready, and the call is the one for it.\<close>

lemma executeBegin_ready:
  assumes "executeBegin idx s = Inr (Some (calls, s1))"
  shows "ready s idx" "calls = execCall s idx" "i_lastExec s1 = i_lastExec s + 1"
proof -
  from assms obtain cert pp where c: "mget (i_certStore s) idx = Some cert" "mc_prePrepare cert = Some pp"
    "snd idx = i_lastExec s + 1" "\<not> i_skipInProgress s" "committed s (pp_RequestDigest pp) (fst idx) (snd idx)" "i_K s \<noteq> 0"
    by (auto simp: executeBegin_def Let_def split: option.splits if_splits)
  then show "ready s idx" by (simp add: ready_def)
  show "calls = execCall s idx" "i_lastExec s1 = i_lastExec s + 1"
    using assms unfolding executeBegin_def Let_def
    by (simp_all add: c execCall_def split: option.splits if_splits) auto
qed

lemma exstep_inv:
  assumes "exinv x" and "exstep x x'"
  shows "exinv x'"
  using assms(2)
proof cases
  case (claims idx calls s1)
  note b = executeBegin_ready [OF claims(2)]
  have num: "snd idx = i_lastExec (x_core x) + 1" using b(1) by (simp add: ready_def)
  have "x_since x' = x_since x @ [(x_core x, idx)]" using assms(1) by (simp add: x_since_def exinv_def claims(1))
  then show ?thesis
    using assms(1) b num by (auto simp: exinv_def claims(1) algebra_simps)
next
  case (makes ps a qs)
  then show ?thesis using assms(1) by (auto simp: exinv_def x_since_def)
next
  case resumes
  then show ?thesis using assms(1) by (auto simp: exinv_def x_since_def)
next
  case (others s')
  then show ?thesis using assms(1) by (auto simp: exinv_def x_since_def)
next
  case (transfers s')
  then show ?thesis using assms(1) by (auto simp: exinv_def x_since_def)
qed

lemma exrun_inv: "rtranclp exstep (exstart s) x \<Longrightarrow> exinv x"
proof (induction rule: rtranclp_induct)
  case base
  then show ?case by (simp add: exinv_def exstart_def x_since_def)
qed (rule exstep_inv)

subsection \<open>Properties\<close>

text \<open>A replica of one with two null requests committed and not executed.\<close>

definition idleCert :: "u64 \<Rightarrow> msgCert" where
  "idleCert n = \<lparr>mc_prePrepare = Some \<lparr>pp_View = 0, pp_SequenceNumber = n, pp_RequestDigest = [], pp_Request = None,
       pp_ReplicaId = 0\<rparr>, mc_sentPrepare = False, mc_prepare = [], mc_sentCommit = True,
     mc_commit = [\<lparr>cm_View = 0, cm_SequenceNumber = n, cm_RequestDigest = [], cm_ReplicaId = 0\<rparr>]\<rparr>"

definition idleState :: "Message pbftCore" where
  "idleState = (projr (newPbftCore 0 (sampleConfig 1 0 2) []))\<lparr>i_certStore := [((0, 2), idleCert 2), ((0, 1), idleCert 1)]\<rparr>"

lemma idleState_run:
  "\<exists>s'. executeOutstanding idleState = Inr s' \<and> i_lastExec s' = 2 \<and> i_lastExec idleState = 0
     \<and> i_trace s' = [AExecute 2 None \<lparr>ei_Checkpoint = True, ei_Validate = False, ei_Null = True\<rparr>]"
  "i_K idleState = 2" "length (i_certStore idleState) = 2" "ready idleState (0, 1)"
  by (simp_all add: idleState_def idleCert_def sample_simps sample_init ready_def)

text \<open>
  C7: Taking requests for execution. Whatever goroutines run while the lock is released around the
  calls of the consumer, the sequence numbers taken since the last state transfer are the
  consecutive 64-bit numbers after \<open>lastExec\<close> at that transfer, and \<open>lastExec\<close> is the last of them; each was committed, and next in line, when it was taken; and the calls made, together
  with those still to be made, are exactly one for each request taken (none for a null request that
  is not a checkpoint).
\<close>

theorem execution_claims:
  assumes "rtranclp exstep (exstart s) x"
  shows "map (\<lambda>c. snd (snd c)) (x_since x) = map (\<lambda>k. x_base x + word_of_nat (Suc k)) [0..<length (x_since x)]
    \<and> i_lastExec (x_core x) = x_base x + word_of_nat (length (x_since x))
    \<and> (\<forall>(s, idx) \<in> set (x_claims x). ready s idx)
    \<and> mset (x_calls x) + mset (x_pending x) = mset (concat (map (\<lambda>(s, idx). execCall s idx) (x_claims x)))"
  using exrun_inv [OF assms] unfolding exinv_def by blast

text \<open>
  A schedule in which two goroutines take the requests 1 and 2 and the call for request 2 is made
  first.
\<close>

definition nullCall :: "u64 \<Rightarrow> Message action" where
  "nullCall n = AExecute n None \<lparr>ei_Checkpoint = True, ei_Validate = False, ei_Null = True\<rparr>"

definition sharedState :: "Message pbftCore" where
  "sharedState = (projr (newPbftCore 0 (sampleConfig 1 0 1) []))\<lparr>i_certStore := [((0, 2), idleCert 2), ((0, 1), idleCert 1)]\<rparr>"

lemma calls_out_of_order:
  "\<exists>x. rtranclp exstep (exstart sharedState) x \<and> map (\<lambda>c. snd (snd c)) (x_claims x) = [1, 2] \<and>
     x_calls x = [nullCall 2, nullCall 1] \<and> x_pending x = []"
proof -
  obtain s1 s2 where b: "executeBegin (0, 1) sharedState = Inr (Some ([nullCall 1], s1))"
    "executeBegin (0, 2) s1 = Inr (Some ([nullCall 2], s2))"
    by (simp add: sharedState_def idleCert_def nullCall_def sample_simps sample_init)
  let ?x1 = "(exstart sharedState)\<lparr>x_core := s1, x_pending := [nullCall 1], x_claims := [(sharedState, (0, 1))]\<rparr>"
  let ?x2 = "?x1\<lparr>x_core := s2, x_pending := [nullCall 1, nullCall 2], x_claims := [(sharedState, (0, 1)), (s1, (0, 2))]\<rparr>"
  let ?x3 = "?x2\<lparr>x_pending := [nullCall 1], x_calls := [nullCall 2]\<rparr>"
  let ?x4 = "?x3\<lparr>x_pending := [], x_calls := [nullCall 2, nullCall 1]\<rparr>"
  have 1: "exstep (exstart sharedState) ?x1" "exstep ?x1 ?x2"
    using exstep.claims [of "(0, 1)" "exstart sharedState" "[nullCall 1]" s1] exstep.claims [of "(0, 2)" ?x1 "[nullCall 2]" s2] b
    by (simp_all add: exstart_def)
  have 2: "exstep ?x2 ?x3" "exstep ?x3 ?x4"
    using exstep.makes [of ?x2 "[nullCall 1]" "nullCall 2" "[]"] exstep.makes [of ?x3 "[]" "nullCall 1" "[]"]
    by (simp_all add: exstart_def)
  note run = converse_rtranclp_into_rtranclp [of exstep]
  have r: "rtranclp exstep (exstart sharedState) ?x4" by (rule run [OF 1(1) run [OF 1(2) run [OF 2(1) r_into_rtranclp [of exstep, OF 2(2)]]]])
  have c: "map (\<lambda>c. snd (snd c)) (x_claims ?x4) = [1, 2]" "x_calls ?x4 = [nullCall 2, nullCall 1]" "x_pending ?x4 = []"
    by simp_all
  show ?thesis by (rule exI [of _ ?x4]) (intro conjI r c)
qed

theorem execution_claims_witness:
  "\<exists>x. rtranclp exstep (exstart sharedState) x \<and> x_calls x = [nullCall 2, nullCall 1] \<and>
     i_lastExec (x_core x) = x_base x + word_of_nat (length (x_since x)) \<and>
     (\<exists>s idx. (s, idx) \<in> set (x_claims x) \<and> ready s idx \<and> snd idx = 2)"
proof -
  obtain x where x: "rtranclp exstep (exstart sharedState) x" "map (\<lambda>c. snd (snd c)) (x_claims x) = [1, 2]"
    "x_calls x = [nullCall 2, nullCall 1]" by (rule exE [OF calls_out_of_order]) (elim conjE, rule that)
  have "2 \<in> set (map (\<lambda>c. snd (snd c)) (x_claims x))" by (simp only: x(2)) simp
  then obtain s idx where c: "(s, idx) \<in> set (x_claims x)" "snd idx = 2" by auto
  note e = execution_claims [OF x(1)]
  have "case (s, idx) of (s, idx) \<Rightarrow> ready s idx" by (rule bspec [OF e [THEN conjunct2, THEN conjunct2, THEN conjunct1] c(1)])
  then have "ready s idx" by simp
  then show ?thesis by (intro exI [of _ x] conjI x(1,3) e [THEN conjunct2, THEN conjunct1] exI [of _ s] exI [of _ idx] c)
qed

text \<open>
  C8: Execution makes progress. \<open>executeOutstanding\<close> always returns, without a panic, as long as the
  checkpoint interval is not zero and the certificates are fewer than the sequence numbers there
  are; when it returns no certificate can be executed, and if one could before, \<open>lastExec\<close> has
  moved.
\<close>

theorem execution_progress:
  assumes "i_K s \<noteq> 0" and "length (i_certStore s) < 2 ^ 64"
  shows "\<exists>s'. executeOutstanding s = Inr s' \<and> (\<forall>idx. executeOne idx s' = Inr (False, s'))
           \<and> ((\<exists>idx. ready s idx) \<longrightarrow> i_lastExec s' \<noteq> i_lastExec s)"
proof -
  obtain x where "x \<notin> set (map (snd \<circ> fst) (i_certStore s))"
    using free_number [of "map (snd \<circ> fst) (i_certStore s)"] assms(2) by auto
  from executeOutstanding_run [OF assms(1) this] obtain ms s' where
    r: "executeOutstanding s = Inr s'" "executed s ms s'" "\<forall>idx. \<not> ready s' idx" by blast
  have "i_lastExec s' \<noteq> i_lastExec s" if "ready s idx" for idx
  proof
    assume "i_lastExec s' = i_lastExec s"
    moreover have "execLogs s' = execLogs s" using r(2) by (simp only: executed_def)
    ultimately have "ready s' idx" using that execLogs_cong(2) [of s' s] by (auto simp: ready_def execLogs_def)
    with r(3) show False by blast
  qed
  then show ?thesis using r(1,3) executeOne_idle by blast
qed

theorem execution_progress_witness:
  "i_K idleState \<noteq> 0 \<and> length (i_certStore idleState) < 2 ^ 64 \<and> ready idleState (0, 1)
   \<and> (\<exists>s'. executeOutstanding idleState = Inr s' \<and> (\<forall>idx. executeOne idx s' = Inr (False, s')) \<and> i_lastExec s' = 2)"
  using execution_progress [of idleState] idleState_run by auto

end
