(* ===== verification/PbftNewView.thy ===== *)
theory PbftNewView
  imports PbftSteps PbftReach
begin

text \<open>
  The decisions of a new view, \<open>viewchange.go\<close>: which request \<open>assignSequenceNumbers\<close> gives to each
  sequence number, that it returns as long as the window above the checkpoint does not reach the
  largest 64-bit number, and that it does not return when it does; and how far the checks on a
  new-view message can be satisfied by its sender alone.
\<close>

subsection \<open>Assigning sequence numbers\<close>

text \<open>The digest for one sequence number: that of the selected request, empty for the null request.\<close>

definition choice :: "'w pbftCore \<Rightarrow> ViewChange list \<Rightarrow> u64 \<Rightarrow> gostring option" where
  "choice s vset n =
     (case selectRequest s vset n of
        Some em \<Rightarrow> Some (pq_Digest em)
      | None \<Rightarrow> if quorumNull vset n \<ge> intersectionQuorum s then Some [] else None)"

text \<open>The loop of \<open>assignSequenceNumbers\<close> over a list of sequence numbers.\<close>

fun assignAll :: "'w pbftCore \<Rightarrow> ViewChange list \<Rightarrow> u64 list \<Rightarrow> (u64, gostring) gomap \<Rightarrow> u64
    \<Rightarrow> ((u64, gostring) gomap \<times> u64) option" where
  "assignAll s vset [] m k = Some (m, k)"
| "assignAll s vset (n # ns) m k =
     (case choice s vset n of
        None \<Rightarrow> None
      | Some d \<Rightarrow> assignAll s vset ns (mput n d m) (if selectRequest s vset n = None then k else n))"

definition window :: "u64 \<Rightarrow> nat \<Rightarrow> u64 list" where
  "window n H = map word_of_nat [unat n..<H + 1]"

lemma unat_u64 [simp]: "k < 2 ^ 64 \<Longrightarrow> unat (word_of_nat k :: u64) = k"
  by (simp add: unat_of_nat take_bit_nat_eq_self)

lemma nLoop_assignAll:
  assumes "unat h + unat (i_L s) = H" and "H < 2 ^ 64 - 1" and "unat n \<le> H + 1"
  shows "nLoop s vset h n m k = Some (assignAll s vset (window n H) m k)"
  using assms(3)
proof (induction "H + 1 - unat n" arbitrary: n m k)
  case 0
  then have "unat n = H + 1" by simp
  moreover have u: "unat (h + i_L s) = H" using assms(1,2) by (simp add: unat_word_ariths)
  ultimately have "\<not> n \<le> h + i_L s" by (simp add: word_le_nat_alt)
  then show ?case using \<open>unat n = H + 1\<close> by (subst nLoop.simps) (simp add: window_def)
next
  case (Suc d)
  then have lt: "unat n \<le> H" by simp
  moreover have u: "unat (h + i_L s) = H" using assms(1,2) by (simp add: unat_word_ariths)
  ultimately have le: "n \<le> h + i_L s" by (simp add: word_le_nat_alt)
  have n1: "unat (n + 1) = unat n + 1" by (rule unat_succ) (use lt assms(2) in simp)
  have w: "window n H = n # window (n + 1) H"
    using lt by (simp add: window_def n1 upt_conv_Cons del: upt_Suc)
  have IH: "nLoop s vset h (n + 1) m' k' = Some (assignAll s vset (window (n + 1) H) m' k')" for m' k'
    by (rule Suc.hyps(1)) (use Suc.hyps(2) Suc.prems n1 lt in simp_all)
  show ?case
    using le by (subst nLoop.simps) (simp add: w IH choice_def split: option.splits)
qed

lemma assignAll_None: "assignAll s vset ns m k = None \<longleftrightarrow> (\<exists>n \<in> set ns. choice s vset n = None)"
  by (induction ns arbitrary: m k) (auto split: option.splits)

lemma assignAll_get:
  assumes "assignAll s vset ns m k = Some (m', k')" and "distinct ns"
  shows "mget m' n = (if n \<in> set ns then choice s vset n else mget m n)"
  using assms by (induction ns arbitrary: m k) (auto split: option.splits if_splits)

lemma assignAll_max:
  assumes "assignAll s vset ns m k = Some (m', k')" and "sorted_wrt (<) ns" and "\<forall>n \<in> set ns. k \<le> n"
  shows "k' \<in> insert k (set ns) \<and> (k' = k \<or> selectRequest s vset k' \<noteq> None)
     \<and> (\<forall>n \<in> set ns. k' < n \<longrightarrow> selectRequest s vset n = None)"
  using assms
proof (induction ns arbitrary: m k)
  case (Cons n ns)
  let ?k = "if selectRequest s vset n = None then k else n"
  from Cons.prems(1) obtain d where "assignAll s vset ns (mput n d m) ?k = Some (m', k')"
    by (auto split: option.splits)
  moreover have "\<forall>x \<in> set ns. ?k \<le> x" using Cons.prems(2,3) by (auto simp: less_imp_le)
  moreover have "sorted_wrt (<) ns" using Cons.prems(2) by simp
  ultimately have IH: "k' \<in> insert ?k (set ns)" "k' = ?k \<or> selectRequest s vset k' \<noteq> None"
    "\<forall>x \<in> set ns. k' < x \<longrightarrow> selectRequest s vset x = None"
    using Cons.IH by blast+
  have "n \<le> k'" if "selectRequest s vset n \<noteq> None"
    using that IH(1) Cons.prems(2) by (auto simp: less_imp_le)
  then have "k' < n \<longrightarrow> selectRequest s vset n = None" by (metis leD)
  then show ?case using IH by (auto split: if_splits)
qed simp

lemma sorted_window:
  assumes "H < 2 ^ 64 - 1"
  shows "sorted_wrt (<) (window n H)"
  unfolding window_def sorted_wrt_map
  by (rule sorted_wrt_mono_rel [OF _ sorted_wrt_upt]) (use assms in \<open>auto simp: word_less_nat_alt\<close>)

lemma distinct_window: "H < 2 ^ 64 - 1 \<Longrightarrow> distinct (window n H)"
  using sorted_window [of H n] by (simp add: strict_sorted_iff)

lemma set_window: "H < 2 ^ 64 - 1 \<Longrightarrow> x \<in> set (window n H) \<longleftrightarrow> unat n \<le> unat x \<and> unat x \<le> H"
proof
  assume "H < 2 ^ 64 - 1" and "unat n \<le> unat x \<and> unat x \<le> H"
  then show "x \<in> set (window n H)"
    unfolding window_def set_map by (intro image_eqI [of _ _ "unat x"]) auto
qed (auto simp: window_def)

lemma mget_filter_entries:
  "gomap_ok m \<Longrightarrow> mget (filter (\<lambda>(k, v). P k v) m) k = (case mget m k of Some v \<Rightarrow> if P k v then Some v else None | None \<Rightarrow> None)"
proof (induction m)
  case (Cons x m)
  have "mget m (fst x) = None" using Cons.prems by (simp add: gomap_ok_def map_of_eq_None_iff)
  with Cons show ?case by (cases x) (auto simp: gomap_ok_def split: option.splits)
qed simp

lemma assignSequenceNumbers_spec:
  assumes "unat h + unat (i_L s) < 2 ^ 64 - 1"
  shows "\<exists>r. assignSequenceNumbers s vset h = Some r
     \<and> (r = None \<longleftrightarrow> (\<exists>n. h < n \<and> n \<le> h + i_L s \<and> choice s vset n = None))
     \<and> (\<forall>m. r = Some m \<longrightarrow> (\<exists>top. (top = h + 1 \<or> h < top \<and> top \<le> h + i_L s \<and> selectRequest s vset top \<noteq> None)
          \<and> (\<forall>n. h < n \<and> n \<le> h + i_L s \<and> top < n \<longrightarrow> selectRequest s vset n = None)
          \<and> (\<forall>n. mget m n = (if h < n \<and> n \<le> h + i_L s \<and> \<not> (top < n \<and> choice s vset n = Some []) then choice s vset n else None))))"
proof -
  define H where "H = unat h + unat (i_L s)"
  have H: "H < 2 ^ 64 - 1" using assms by (simp add: H_def)
  have u: "unat (h + i_L s) = H" "unat (h + 1) = unat h + 1"
    using assms by (simp_all add: H_def unat_word_ariths)
  let ?ns = "window (h + 1) H"
  have ns: "x \<in> set ?ns \<longleftrightarrow> h < x \<and> x \<le> h + i_L s" for x
    using set_window [OF H, of x "h + 1"] by (auto simp: u word_less_nat_alt word_le_nat_alt)
  have loop: "nLoop s vset h (h + 1) [] (h + 1) = Some (assignAll s vset ?ns [] (h + 1))"
    by (rule nLoop_assignAll) (use H u H_def in auto)
  show ?thesis
  proof (cases "assignAll s vset ?ns [] (h + 1)")
    case None
    then have "assignSequenceNumbers s vset h = Some None" by (simp add: assignSequenceNumbers_def loop)
    with None show ?thesis using ns by (auto simp: assignAll_None)
  next
    case (Some mk)
    then obtain m top where mk: "assignAll s vset ?ns [] (h + 1) = Some (m, top)" by (cases mk) simp
    let ?m = "filter (\<lambda>(n, msg). \<not> (n > top \<and> msg = [])) m"
    have r: "assignSequenceNumbers s vset h = Some (Some ?m)"
      using mk by (simp add: assignSequenceNumbers_def loop)
    have "gomap_ok m" by (rule nLoop_gomap_ok [OF loop]) (simp_all add: mk)
    then have get: "mget ?m n = (if n \<in> set ?ns \<and> \<not> (top < n \<and> choice s vset n = Some []) then choice s vset n else None)" for n
      using assignAll_get [OF mk distinct_window [OF H], of n] by (auto simp: mget_filter_entries split: option.splits)
    have "\<forall>n \<in> set ?ns. h + 1 \<le> n" using u by (auto simp: ns word_less_nat_alt word_le_nat_alt)
    note max = assignAll_max [OF mk sorted_window [OF H] this]
    have some: "\<not> (\<exists>n. h < n \<and> n \<le> h + i_L s \<and> choice s vset n = None)"
      using mk assignAll_None [of s vset ?ns "[]" "h + 1"] ns by auto
    show ?thesis
      unfolding r using max get some by (intro exI [of _ "Some ?m"]) (auto simp: ns intro!: exI [of _ top])
  qed
qed

text \<open>
  C14: \<open>assignSequenceNumbers\<close> returns, and gives exactly the sequence numbers in \<open>(h, h + L]\<close> their
  requests: it gives up if and only if some number has neither a selectable request nor a quorum
  for the null request; otherwise every number up to the last one with a request has its choice,
  the null requests above it are pruned, and no other number has an entry.
\<close>

theorem assignSequenceNumbers_correct:
  assumes "unat h + unat (i_L s) < 2 ^ 64 - 1"
  shows "\<exists>r. assignSequenceNumbers s vset h = Some r
     \<and> (r = None \<longleftrightarrow> (\<exists>n. h < n \<and> n \<le> h + i_L s \<and> choice s vset n = None))
     \<and> (\<forall>m. r = Some m \<longrightarrow> (\<exists>top. (top = h + 1 \<or> h < top \<and> top \<le> h + i_L s \<and> selectRequest s vset top \<noteq> None)
          \<and> (\<forall>n. h < n \<and> n \<le> h + i_L s \<and> top < n \<longrightarrow> selectRequest s vset n = None)
          \<and> (\<forall>n. mget m n = (if h < n \<and> n \<le> h + i_L s \<and> \<not> (top < n \<and> choice s vset n = Some []) then choice s vset n else None))))"
  using assms by (rule assignSequenceNumbers_spec)

text \<open>The witness: three replicas have prepared a request for number 2, none one for number 1.\<close>

definition sampleReplica :: "Message pbftCore" where
  "sampleReplica = projr (newPbftCore 1 (sampleConfig 4 1 10) [])"

definition sampleVC :: "u64 \<Rightarrow> ViewChange" where
  "sampleVC r = (let pq = \<lparr>pq_SequenceNumber = 2, pq_Digest = EncodeToString [1], pq_View = 0\<rparr>
     in \<lparr>vc_View = 1, vc_H = 0, vc_Cset = [zeroC], vc_Pset = [pq], vc_Qset = [pq], vc_ReplicaId = r, vc_Signature = []\<rparr>)"

lemma sampleReplica_sel:
  "i_L sampleReplica = 10" "i_f sampleReplica = 1" "i_N sampleReplica = 4" "intersectionQuorum sampleReplica = 3"
  by (simp_all add: sampleReplica_def sample_init intersectionQuorum_def)

lemma sample_choice:
  "choice sampleReplica [sampleVC 0, sampleVC 2, sampleVC 3] n = Some (if n = 2 then EncodeToString [1] else [])"
  by (simp add: choice_def selectRequest_def quorumA1_def quorumA2_def quorumNull_def sampleVC_def Let_def
      sampleReplica_sel word_le_nat_alt sample_hash del: EncodeToString.simps(2))

theorem assignSequenceNumbers_correct_witness:
  "unat (0 :: u64) + unat (i_L sampleReplica) < 2 ^ 64 - 1
   \<and> (\<exists>m. assignSequenceNumbers sampleReplica [sampleVC 0, sampleVC 2, sampleVC 3] 0 = Some (Some m))"
proof -
  have "unat (0 :: u64) + unat (i_L sampleReplica) < 2 ^ 64 - 1" by (simp add: sampleReplica_sel)
  with assignSequenceNumbers_correct [OF this, of "[sampleVC 0, sampleVC 2, sampleVC 3]"] show ?thesis
    by (auto simp: sample_choice simp del: EncodeToString.simps(2))
qed

subsection \<open>A new view that never ends\<close>

lemma nLoop_diverges:
  assumes "h + i_L s = - 1" and "\<forall>n. choice s vset n \<noteq> None"
  shows "nLoop s vset h n m k = None"
proof (rule ccontr)
  assume "nLoop s vset h n m k \<noteq> None"
  then obtain r where r: "nLoop s vset h n m k = Some r" by blast
  have "\<not> (h + i_L s = - 1 \<and> (\<forall>n. choice s vset n \<noteq> None))"
    using r
  proof (rule nLoop.raw_induct [where P = "\<lambda>s vset h n m k r. \<not> (h + i_L s = - 1 \<and> (\<forall>n. choice s vset n \<noteq> None))",
      rotated], goal_cases)
    case (1 f s vset h n m k r)
    show ?case
    proof
      assume a: "h + i_L s = - 1 \<and> (\<forall>n. choice s vset n \<noteq> None)"
      then have "n \<le> h + i_L s" "choice s vset n \<noteq> None" by simp_all
      with 1(2) obtain m' k' where "f s vset h (n + 1) m' k' = Some r"
        by (auto simp: choice_def split: option.splits if_splits)
      from 1(1) [OF this] a show False by blast
    qed
  qed
  with assms show False by blast
qed

lemma assign_diverges:
  "h + i_L s = - 1 \<Longrightarrow> \<forall>n. choice s vset n \<noteq> None \<Longrightarrow> assignSequenceNumbers s vset h = None"
  by (simp add: assignSequenceNumbers_def nLoop_diverges)

text \<open>A set of view changes that is one message, repeated.\<close>

lemma collectCheckpoints_replicate:
  assumes "vc_Cset vc = [c]"
  shows "collectCheckpoints (replicate (Suc k) vc) = [(c, replicate (Suc k) vc)]"
proof -
  have "foldl (\<lambda>m (vc, c). mput c ((case mget m c of None \<Rightarrow> [] | Some vcs \<Rightarrow> vcs) @ [vc]) m) [(c, replicate (Suc j) vc)]
      (replicate k (vc, c)) = [(c, replicate (Suc (j + k)) vc)]" for j
  proof (induction k arbitrary: j)
    case (Suc k)
    have "replicate (Suc j) vc @ [vc] = replicate (Suc (Suc j)) vc" by (simp add: replicate_append_same)
    then show ?case using Suc.IH [of "Suc j"] by simp
  qed simp
  from this [of 0] show ?thesis by (simp add: collectCheckpoints_def assms concat_replicate_single)
qed

text \<open>
  A new-view message whose proof is one view change, repeated as often as a quorum has members, with
  one checkpoint of the sender's choice and empty P set. The primary can make it alone.
\<close>

definition solo :: "'w pbftCore \<Rightarrow> NewView \<Rightarrow> ViewChange \<Rightarrow> ViewChange_C \<Rightarrow> bool" where
  "solo s nv vc c \<longleftrightarrow> nv_View nv = i_view s \<and> nv_View nv > 0 \<and> nv_ReplicaId nv = primary s (i_view s)
     \<and> nv_Vset nv = replicate (intersectionQuorum s) vc \<and> vc_Cset vc = [c] \<and> vc_H vc \<le> vcc_SequenceNumber c
     \<and> vc_Pset vc = []"

lemma solo_checkpoint:
  assumes "solo s nv vc c" and "3 * i_f s + 1 \<le> i_N s"
  shows "selectInitialCheckpoint s (nv_Vset nv) = (c, True, replicate (intersectionQuorum s) (vc_ReplicaId vc))"
proof -
  obtain k where k: "intersectionQuorum s = Suc k" "i_f s \<le> k"
    using assms(2) by (cases "intersectionQuorum s") (auto simp: intersectionQuorum_def)
  have "collectCheckpoints (nv_Vset nv) = [(c, replicate (intersectionQuorum s) vc)]"
    using collectCheckpoints_replicate [of vc c k] assms(1) by (simp add: solo_def k)
  then show ?thesis
    using assms(1) k by (simp add: selectInitialCheckpoint_def solo_def zeroC_def)
qed

lemma solo_choice: "solo s nv vc c \<Longrightarrow> choice s (nv_Vset nv) n = Some [] \<and> selectRequest s (nv_Vset nv) n = None"
  by (simp add: solo_def choice_def selectRequest_def quorumNull_def find_None_iff)

lemma recvNewView_solo:
  assumes "solo s nv vc c" and "verify E vc" and "mget (i_newViewStore s) (i_view s) = None"
  shows "recvNewView E nv s = processNewView E (s\<lparr>i_newViewStore := mput (nv_View nv) nv (i_newViewStore s)\<rparr>)"
  using assms by (auto simp: recvNewView_def solo_def)

lemma solo_update [simp]: "solo (s\<lparr>i_newViewStore := x\<rparr>) = solo s"
  by (intro ext) (simp add: solo_def primary_def intersectionQuorum_def)

text \<open>
  C32: A faulty primary can stop a correct replica for good. A replica that waits for the new view of
  that primary accepts as proof a quorum of copies of one view change signed by the primary; if the
  checkpoint it names lies just below the largest sequence number, the loop of
  \<open>assignSequenceNumbers\<close> wraps around and the handler never returns.
\<close>

theorem new_view_hang:
  assumes "solo s nv vc c" and "verify E vc" and "mget (i_newViewStore s) (i_view s) = None" and "\<not> i_activeView s"
    and "3 * i_f s + 1 \<le> i_N s" and "vcc_SequenceNumber c + i_L s = - 1"
  shows "recvNewView E nv s = Inl Diverges"
proof -
  let ?s = "s\<lparr>i_newViewStore := mput (nv_View nv) nv (i_newViewStore s)\<rparr>"
  have solo: "solo ?s nv vc c" using assms(1) by simp
  have "assignSequenceNumbers ?s (nv_Vset nv) (vcc_SequenceNumber c) = None"
    by (rule assign_diverges) (use solo_choice [OF solo] assms(6) in simp_all)
  moreover have "mget (i_newViewStore ?s) (i_view ?s) = Some nv" using assms(1) by (simp add: solo_def)
  moreover have "selectInitialCheckpoint ?s (nv_Vset nv) = (c, True, replicate (intersectionQuorum ?s) (vc_ReplicaId vc))"
    by (rule solo_checkpoint [OF solo]) (use assms(5) in simp)
  ultimately show ?thesis
    using assms(4) unfolding recvNewView_solo [OF assms(1-3)] by (simp add: processNewView_def processNewViewWith_def)
qed

text \<open>A backup that waits for the new view of replica 1, and the message of that replica.\<close>

definition waitingReplica :: "Message pbftCore" where
  "waitingReplica = (projr (newPbftCore 2 (sampleConfig 4 1 10) []))\<lparr>i_view := 1, i_activeView := False\<rparr>"

definition soloVC :: "u64 \<Rightarrow> ViewChange" where
  "soloVC n = \<lparr>vc_View = 1, vc_H = 0, vc_Cset = [\<lparr>vcc_SequenceNumber = n, vcc_Id = EncodeToString [7]\<rparr>], vc_Pset = [],
     vc_Qset = [], vc_ReplicaId = 1, vc_Signature = []\<rparr>"

definition soloNV :: "u64 \<Rightarrow> NewView" where
  "soloNV n = \<lparr>nv_View = 1, nv_Vset = replicate 3 (soloVC n), nv_Xset = [(n + 1, [])], nv_ReplicaId = 1\<rparr>"

lemma waiting_solo:
  "solo waitingReplica (soloNV n) (soloVC n) \<lparr>vcc_SequenceNumber = n, vcc_Id = EncodeToString [7]\<rparr>"
  "verify sampleEnv (soloVC n)" "mget (i_newViewStore waitingReplica) (i_view waitingReplica) = None"
  "\<not> i_activeView waitingReplica" "3 * i_f waitingReplica + 1 \<le> i_N waitingReplica" "i_L waitingReplica = 10" "i_h waitingReplica = 0"
  by (simp_all add: solo_def waitingReplica_def soloNV_def soloVC_def sample_init primary_def intersectionQuorum_def verify_def)

theorem new_view_hang_witness:
  "solo waitingReplica (soloNV (- 11)) (soloVC (- 11)) \<lparr>vcc_SequenceNumber = - 11, vcc_Id = EncodeToString [7]\<rparr>
   \<and> verify sampleEnv (soloVC (- 11)) \<and> \<not> i_activeView waitingReplica \<and> (- 11) + i_L waitingReplica = - 1
   \<and> recvNewView sampleEnv (soloNV (- 11)) waitingReplica = Inl Diverges"
  using new_view_hang [OF waiting_solo(1) [of "- 11"] waiting_solo(2) waiting_solo(3-5)] waiting_solo by simp

interpretation says: replica_invariant E "\<lambda>s. a \<in> set (i_trace s)" for E :: "'w penv" and a
  by unfold_locales (simp_all add: act_def startTimer_def stopTimer_def)

lemma solo_assign:
  assumes "solo s nv vc c" and "unat (vcc_SequenceNumber c) + unat (i_L s) < 2 ^ 64 - 1" and "0 < i_L s"
  shows "assignSequenceNumbers s (nv_Vset nv) (vcc_SequenceNumber c) = Some (Some [(vcc_SequenceNumber c + 1, [])])"
proof -
  let ?n = "vcc_SequenceNumber c"
  have n: "?n < ?n + 1" "?n + 1 \<le> ?n + i_L s"
    using assms(2,3) by (simp_all add: word_less_nat_alt word_le_nat_alt unat_word_ariths)
  from assignSequenceNumbers_spec [OF assms(2), of "nv_Vset nv"] solo_choice [OF assms(1)]
  obtain m where m: "assignSequenceNumbers s (nv_Vset nv) ?n = Some (Some m)"
    and get: "\<And>x. mget m x = (if ?n < x \<and> x \<le> ?n + i_L s \<and> \<not> ?n + 1 < x then Some [] else None)"
    by fastforce
  have "x = ?n + 1" if "?n < x" "\<not> ?n + 1 < x" for x
    using that assms(2) by (simp add: word_less_nat_alt unat_word_ariths word_unat_eq_iff)
  then have g: "mget m = [?n + 1 \<mapsto> []]" using n by (intro ext) (auto simp: get)
  then have "dom (mget m) = {?n + 1}" by simp
  then have keys: "set (map fst m) = {?n + 1}" by (simp add: dom_map_of_conv_image_fst)
  have "gomap_ok m" by (rule assign_gomap_ok [OF m])
  then have "length m = card (set (map fst m))" unfolding gomap_ok_def by (metis distinct_card length_map)
  then obtain x where x: "m = [x]" using keys by (auto simp: length_Suc_conv)
  with g have "m = [(?n + 1, [])]" by (cases x) (auto simp: fun_eq_iff split: if_splits)
  with m show ?thesis by simp
qed

lemma recvNewView_forged:
  assumes "solo s nv vc c" and "verify E vc" and "mget (i_newViewStore s) (i_view s) = None" and "\<not> i_activeView s"
    and "3 * i_f s + 1 \<le> i_N s" and "nv_Xset nv = [(vcc_SequenceNumber c + 1, [])]"
    and "i_h s < vcc_SequenceNumber c" and "unat (vcc_SequenceNumber c) + unat (i_L s) < 2 ^ 64 - 1" and "0 < i_L s"
    and "DecodeString (vcc_Id c) = Some snapshotID"
  shows "recvNewView E nv s =
     rbind (moveWatermarks E (vcc_SequenceNumber c) (s\<lparr>i_newViewStore := mput (nv_View nv) nv (i_newViewStore s)\<rparr>)) (\<lambda>s1.
       acceptNewView E nv ((act (ASkipTo (vcc_SequenceNumber c) snapshotID (replicate (intersectionQuorum s) (vc_ReplicaId vc))
         \<lparr>ei_Checkpoint = True, ei_Validate = False, ei_Null = False\<rparr>) s1)\<lparr>i_lastExec := vcc_SequenceNumber c\<rparr>))"
proof -
  let ?s = "s\<lparr>i_newViewStore := mput (nv_View nv) nv (i_newViewStore s)\<rparr>"
  have solo: "solo ?s nv vc c" using assms(1) by simp
  have "assignSequenceNumbers ?s (nv_Vset nv) (vcc_SequenceNumber c) = Some (Some [(vcc_SequenceNumber c + 1, [])])"
    by (rule solo_assign [OF solo]) (use assms(8,9) in simp_all)
  moreover have "mget (i_newViewStore ?s) (i_view ?s) = Some nv" using assms(1) by (simp add: solo_def)
  moreover have "selectInitialCheckpoint ?s (nv_Vset nv) = (c, True, replicate (intersectionQuorum ?s) (vc_ReplicaId vc))"
    by (rule solo_checkpoint [OF solo]) (use assms(5) in simp)
  moreover have "intersectionQuorum ?s = intersectionQuorum s" by (simp add: intersectionQuorum_def)
  ultimately show ?thesis
    using assms(4,6,7,10) unfolding recvNewView_solo [OF assms(1-3)]
    by (simp add: processNewView_def processNewViewWith_def deepEqual_def)
qed

text \<open>
  C31: A faulty primary can make a correct replica adopt any state. If the checkpoint of such a message
  is above the low watermark, the replica tells its consumer to skip to that checkpoint, with the
  snapshot the primary named and the primary as its only witness.
\<close>

theorem forged_checkpoint:
  assumes "solo s nv vc c" and "verify E vc" and "mget (i_newViewStore s) (i_view s) = None" and "\<not> i_activeView s"
    and "3 * i_f s + 1 \<le> i_N s" and "nv_Xset nv = [(vcc_SequenceNumber c + 1, [])]"
    and "i_h s < vcc_SequenceNumber c" and "unat (vcc_SequenceNumber c) + unat (i_L s) < 2 ^ 64 - 1" and "0 < i_L s"
    and "DecodeString (vcc_Id c) = Some snapshotID" and r: "recvNewView E nv s = Inr s'"
  shows "ASkipTo (vcc_SequenceNumber c) snapshotID (replicate (intersectionQuorum s) (vc_ReplicaId vc))
           \<lparr>ei_Checkpoint = True, ei_Validate = False, ei_Null = False\<rparr> \<in> set (i_trace s')"
    (is "?skip \<in> _")
proof -
  from r obtain s1 where acc: "acceptNewView E nv ((act ?skip s1)\<lparr>i_lastExec := vcc_SequenceNumber c\<rparr>) = Inr s'"
    unfolding recvNewView_forged [OF assms(1-10)] by (auto simp: rbind_Inr_conv)
  have t: "?skip \<in> set (i_trace ((act ?skip s1)\<lparr>i_lastExec := vcc_SequenceNumber c\<rparr>))"
    by (simp add: act_def)
  from says.P_acceptNewView [OF t, of E nv] acc show ?thesis unfolding says.fine_def by blast
qed

lemma waiting_forged:
  "nv_Xset (soloNV 20) = [(20 + 1, [])]" "i_h waitingReplica < 20" "unat (20 :: u64) + unat (i_L waitingReplica) < 2 ^ 64 - 1"
  "0 < i_L waitingReplica" "DecodeString (EncodeToString [7]) = Some [7]" "intersectionQuorum waitingReplica = 3"
  "vc_ReplicaId (soloVC 20) = 1"
  by (simp_all add: soloNV_def waiting_solo base64_decode_encode del: EncodeToString.simps(2))
    (simp_all add: waitingReplica_def sample_init intersectionQuorum_def soloVC_def)

lemma forged_run: "\<exists>s'. recvNewView sampleEnv (soloNV 20) waitingReplica = Inr s'"
  unfolding recvNewView_forged [OF waiting_solo(1) [of 20] waiting_solo(2) waiting_solo(3-5), simplified, OF waiting_forged(1-5) [simplified]]
  by (simp add: waitingReplica_def soloNV_def sample_init sample_simps acceptNewView_def noteMissing_def processNewView2_def
      installPrePrepare_def prepareAssigned_def)

theorem forged_checkpoint_witness:
  "\<exists>s'. recvNewView sampleEnv (soloNV 20) waitingReplica = Inr s'
     \<and> ASkipTo 20 [7] [1, 1, 1] \<lparr>ei_Checkpoint = True, ei_Validate = False, ei_Null = False\<rparr> \<in> set (i_trace s')"
proof -
  obtain s' where r: "recvNewView sampleEnv (soloNV 20) waitingReplica = Inr s'" using forged_run by blast
  have "replicate 3 (1 :: u64) = [1, 1, 1]" by (simp add: numeral_3_eq_3)
  with forged_checkpoint [OF waiting_solo(1) [of 20] waiting_solo(2) waiting_solo(3-5) _ _ _ waiting_forged(4) _ r, of "[7]"]
  show ?thesis using r waiting_forged by (auto simp del: EncodeToString.simps(2))
qed

subsection \<open>A pre-prepare without a request\<close>

text \<open>
  C34: A faulty primary can crash a correct replica. A pre-prepare in the current view and window that
  carries no request, with the digest that \<open>hashReq\<close> computes for a missing one, makes the handler
  read the payload of a nil request, unless a request with that digest is stored already.
\<close>

theorem nil_request_crash:
  assumes "i_activeView s" and "pp_ReplicaId pp = primary s (i_view s)" and "inWV s (pp_View pp) (pp_SequenceNumber pp)"
    and "pp_Request pp = None" and "pp_RequestDigest pp = hashReq E None"
    and "mget (i_reqStore s) (pp_RequestDigest pp) = None"
  shows "recvMsgSync E (MPrePrepare pp) (pp_ReplicaId pp) s = Inl (Crash ''nil request'')"
proof -
  have "i_reqStore (storePrePrepare pp s) = i_reqStore s"
    by (simp add: storePrePrepare_def getCert_def setCert_def Let_def split: option.splits prod.splits)
  then have "storeCarriedRequest E pp (storePrePrepare pp s) = Inl (Crash ''nil request'')"
    using assms(4-6) by (simp add: storeCarriedRequest_def Let_def)
  then show ?thesis
    using assms(1-3) by (simp add: recvMsgSync_def fromSender_def recvPrePrepare_def Let_def)
qed

definition emptyPrePrepare :: PrePrepare where
  "emptyPrePrepare = \<lparr>pp_View = 0, pp_SequenceNumber = 1, pp_RequestDigest = [], pp_Request = None, pp_ReplicaId = 0\<rparr>"

theorem nil_request_crash_witness:
  "recvMsgSync sampleEnv (MPrePrepare emptyPrePrepare) 0 sampleReplica = Inl (Crash ''nil request'')"
  using nil_request_crash [of sampleReplica emptyPrePrepare sampleEnv]
  by (simp add: emptyPrePrepare_def sampleReplica_def sample_init sample_simps)

subsection \<open>The watermark window\<close>

text \<open>The window \<open>(h, h + L]\<close> over the natural numbers.\<close>

definition inWindow :: "'w pbftCore \<Rightarrow> u64 \<Rightarrow> bool" where
  "inWindow s n \<longleftrightarrow> unat (i_h s) < unat n \<and> unat n \<le> unat (i_h s) + unat (i_L s)"

lemma inW_window:
  assumes "unat (i_h s) + unat (i_L s) < 2 ^ 64"
  shows "inW s n \<longleftrightarrow> inWindow s n"
proof
  assume r: "inWindow s n"
  then have "unat (n - i_h s) = unat n - unat (i_h s)" by (intro unat_sub) (simp add: inWindow_def word_le_nat_alt)
  with r show "inW s n" by (auto simp: inWindow_def inW_def word_le_nat_alt word_less_nat_alt)
qed (use inW_bound assms in \<open>auto simp: inWindow_def\<close>)

text \<open>
  C20: The test \<open>inW\<close>, which subtracts 64-bit numbers, is the test that \<open>n\<close> is above the low watermark
  and at most \<open>L\<close> above it, as long as the high watermark does not wrap around; and a pre-prepare, a
  prepare or a commit with a number outside that window changes nothing.
\<close>

theorem watermark_window:
  assumes "unat (i_h s) + unat (i_L s) < 2 ^ 64"
  shows "(inW s n \<longleftrightarrow> inWindow s n)
     \<and> (\<not> inWindow s (pp_SequenceNumber pp) \<longrightarrow> recvPrePrepare E pp s = Inr s)
     \<and> (\<not> inWindow s (pr_SequenceNumber p) \<longrightarrow> recvPrepare E p s = Inr s)
     \<and> (\<not> inWindow s (cm_SequenceNumber c) \<longrightarrow> recvCommit c s = Inr s)"
  by (simp add: inW_window [OF assms] inWV_def recvPrePrepare_def recvPrepare_def recvCommit_def Let_def)

theorem watermark_window_witness:
  "unat (i_h sampleReplica) + unat (i_L sampleReplica) < 2 ^ 64 \<and> inW sampleReplica 10 \<and> \<not> inW sampleReplica 11
   \<and> recvCommit \<lparr>cm_View = 0, cm_SequenceNumber = 11, cm_RequestDigest = [], cm_ReplicaId = 0\<rparr> sampleReplica = Inr sampleReplica"
proof -
  have h: "i_h sampleReplica = 0" by (simp add: sampleReplica_def sample_init)
  then have w: "unat (i_h sampleReplica) + unat (i_L sampleReplica) < 2 ^ 64" by (simp add: sampleReplica_sel)
  have i: "inWindow sampleReplica 10" "\<not> inWindow sampleReplica 11" by (simp_all add: inWindow_def h sampleReplica_sel)
  from watermark_window [OF w, of 10] watermark_window [OF w, of 11 _ _ _ "\<lparr>cm_View = 0, cm_SequenceNumber = 11, cm_RequestDigest = [], cm_ReplicaId = 0\<rparr>"]
  show ?thesis using w i by simp
qed

end
