(* ===== verification/PbftRecursion.thy ===== *)
theory PbftRecursion
  imports PbftSteps PbftSample
begin

text \<open>
  The recursion of the view change. \<open>sendViewChange\<close> delivers its own message to \<open>recvViewChange\<close>,
  which may move to a later view or reject a stored new-view message and so call \<open>sendViewChange\<close>
  again. Each call leaves behind a view for which messages are stored, so the recursion is bounded
  by the number of stored messages, and the fuel of \<open>sendViewChange\<close> is never used up.
\<close>

text \<open>What the choice of a new view depends on.\<close>

lemma nLoop_same:
  assumes "nLoop s vset h n m k = Some r" and "i_L s' = i_L s" "i_N s' = i_N s" "i_f s' = i_f s"
  shows "nLoop s' vset h n m k = Some r"
proof -
  let ?P = "\<lambda>s vset h n m k r. i_L s' = i_L s \<longrightarrow> i_N s' = i_N s \<longrightarrow> i_f s' = i_f s \<longrightarrow> nLoop s' vset h n m k = Some r"
  have "?P s vset h n m k r"
    using assms(1)
  proof (rule nLoop.raw_induct [where P = ?P, rotated], goal_cases)
    case (1 f s vset h n m k r)
    show ?case
    proof (intro impI)
      assume eq: "i_L s' = i_L s" "i_N s' = i_N s" "i_f s' = i_f s"
      have q: "intersectionQuorum s' = intersectionQuorum s" "selectRequest s' = selectRequest s"
        by (auto intro!: ext simp: selectRequest_def intersectionQuorum_def eq)
      have IH: "nLoop s' vset h (n + 1) m' k' = Some r" if "f s vset h (n + 1) m' k' = Some r" for m' k'
        using 1(1) [OF that] eq by blast
      show "nLoop s' vset h n m k = Some r"
        using 1(2) by (subst nLoop.simps) (auto simp: q eq IH split: if_splits option.splits)
    qed
  qed
  with assms show ?thesis by blast
qed

lemma assign_same:
  assumes "i_L s' = i_L s" "i_N s' = i_N s" "i_f s' = i_f s"
  shows "assignSequenceNumbers s' vset h = assignSequenceNumbers s vset h"
proof -
  have "nLoop s' vset h (h + 1) [] (h + 1) = nLoop s vset h (h + 1) [] (h + 1)"
    using nLoop_same [of s vset h "h + 1" "[]" "h + 1"] nLoop_same [of s' vset h "h + 1" "[]" "h + 1"] assms
    by (metis not_None_eq)
  then show ?thesis by (simp add: assignSequenceNumbers_def)
qed

lemma select_same:
  assumes "i_N s' = i_N s" "i_f s' = i_f s"
  shows "selectInitialCheckpoint s' vset = selectInitialCheckpoint s vset"
  unfolding selectInitialCheckpoint_def intersectionQuorum_def assms ..

subsection \<open>Where the recursive calls are\<close>

lemma processNewViewWith_cong:
  "(mget (i_newViewStore s) (i_view s) \<noteq> None \<Longrightarrow> f s = g s) \<Longrightarrow> processNewViewWith E f s = processNewViewWith E g s"
  by (simp add: processNewViewWith_def split: option.splits prod.splits)

lemma deepEqual_refl: "gomap_ok m \<Longrightarrow> deepEqual m m"
  by (auto simp: deepEqual_def gomap_in_set)

text \<open>The primary does not reject the new view it has made itself.\<close>

lemma processNewViewWith_own:
  assumes "selectInitialCheckpoint s (nv_Vset nv) = (cp, True, rs)"
    and "assignSequenceNumbers s (nv_Vset nv) (vcc_SequenceNumber cp) = Some (Some (nv_Xset nv))"
    and "viewState t = viewState s"
  shows "processNewViewWith E f (t\<lparr>i_newViewStore := mput (i_view t) nv (i_newViewStore t)\<rparr>) =
     processNewViewWith E g (t\<lparr>i_newViewStore := mput (i_view t) nv (i_newViewStore t)\<rparr>)"
proof -
  let ?t = "t\<lparr>i_newViewStore := mput (i_view t) nv (i_newViewStore t)\<rparr>"
  have eq: "i_L ?t = i_L s" "i_N ?t = i_N s" "i_f ?t = i_f s" using assms(3) by (simp_all add: viewState_def)
  have "selectInitialCheckpoint ?t (nv_Vset nv) = (cp, True, rs)"
    unfolding select_same [OF eq(2,3)] by (rule assms(1))
  moreover have "assignSequenceNumbers ?t (nv_Vset nv) (vcc_SequenceNumber cp) = Some (Some (nv_Xset nv))"
    unfolding assign_same [OF eq] by (rule assms(2))
  moreover have "deepEqual (nv_Xset nv) (nv_Xset nv)" by (rule deepEqual_refl [OF assign_gomap_ok [OF assms(2)]])
  ultimately show ?thesis by (simp add: processNewViewWith_def)
qed

lemma sendNewViewWith_cong: "sendNewViewWith E f s = sendNewViewWith E g s"
proof -
  obtain cp ok rs where sel: "selectInitialCheckpoint s (getViewChanges s) = (cp, ok, rs)" by (metis prod_cases3)
  show ?thesis
  proof (cases "ok \<and> (\<exists>m. assignSequenceNumbers s (getViewChanges s) (vcc_SequenceNumber cp) = Some (Some m))")
    case True
    then obtain m where m: "ok" "assignSequenceNumbers s (getViewChanges s) (vcc_SequenceNumber cp) = Some (Some m)" by blast
    let ?nv = "\<lparr>nv_View = i_view s, nv_Vset = getViewChanges s, nv_Xset = m, nv_ReplicaId = i_id s\<rparr>"
    have "rbind (innerBroadcast E (MNewView ?nv) None s) (\<lambda>t. processNewViewWith E f
           (t\<lparr>i_newViewStore := mput (i_view t) ?nv (i_newViewStore t)\<rparr>)) =
        rbind (innerBroadcast E (MNewView ?nv) None s) (\<lambda>t. processNewViewWith E g
           (t\<lparr>i_newViewStore := mput (i_view t) ?nv (i_newViewStore t)\<rparr>))"
    proof (cases "innerBroadcast E (MNewView ?nv) None s")
      case (Inr t)
      then have "viewState t = viewState s" by (rule viewState_innerBroadcast) simp
      then show ?thesis using Inr sel m processNewViewWith_own [of s ?nv cp rs t] by simp
    qed simp
    then show ?thesis
      using sel m by (cases "e_marshal E (MNewView ?nv)") (simp_all add: sendNewViewWith_def Let_def)
  qed (use sel in \<open>auto simp: sendNewViewWith_def Let_def split: option.splits\<close>)
qed

lemma recvViewChangeWith_cong:
  fixes s vc
  defines "s1 \<equiv> s\<lparr>i_viewChangeStore := mput (vc_View vc, vc_ReplicaId vc) vc (i_viewChangeStore s)\<rparr>"
  assumes later: "\<And>w. w \<in> fst ` set (map fst (i_viewChangeStore s1)) \<Longrightarrow> i_view s < w \<Longrightarrow>
      f (s1\<lparr>i_view := w - 1\<rparr>) = g (s1\<lparr>i_view := w - 1\<rparr>)"
    and stored: "\<And>t. mget (i_newViewStore s) (i_view s) \<noteq> None \<Longrightarrow> viewState t = viewState s1 \<Longrightarrow> f t = g t"
  shows "recvViewChangeWith E f vc s = recvViewChangeWith E g vc s"
proof -
  define later where "later = filter (\<lambda>idx. \<not> fst idx \<le> i_view s1) (map fst (i_viewChangeStore s1))"
  define s3 where "s3 = (startTimer (i_lastNewViewTimeout s1) s1)\<lparr>i_lastNewViewTimeout :=
    2 * i_lastNewViewTimeout (startTimer (i_lastNewViewTimeout s1) s1)\<rparr>"
  have e: "recvViewChangeWith E h vc s =
     (if \<not> verify E vc then Inr s
      else if \<not> (vc_View vc \<ge> i_view s \<and> correctViewChange s vc
                 \<and> mget (i_viewChangeStore s) (vc_View vc, vc_ReplicaId vc) = None) then Inr s
      else if length (remdups (map snd later)) \<ge> i_f s1 + 1 then h (s1\<lparr>i_view := smallestView 0 later - 1\<rparr>)
      else if vc_View vc = i_view s1 \<and>
          length (filter (\<lambda>idx. fst idx = i_view s1) (map fst (i_viewChangeStore s1))) = allCorrectReplicasQuorum s1
        then if primary s3 (i_view s3) = i_id s3 then sendNewViewWith E h s3 else processNewViewWith E h s3
        else processNewViewWith E h s1)" for h
    unfolding recvViewChangeWith_def Let_def s1_def later_def s3_def ..
  have a: "f (s1\<lparr>i_view := smallestView 0 later - 1\<rparr>) = g (s1\<lparr>i_view := smallestView 0 later - 1\<rparr>)"
    if "length (remdups (map snd later)) \<ge> i_f s1 + 1"
  proof -
    have ne: "later \<noteq> []" using that by auto
    have gt: "\<forall>idx \<in> set later. i_view s < fst idx" by (auto simp: later_def s1_def)
    have "smallestView 0 later \<in> fst ` set later" by (rule smallestView_later(2) [OF ne gt])
    moreover have "set later \<subseteq> set (map fst (i_viewChangeStore s1))" by (auto simp: later_def)
    ultimately show ?thesis using assms(2) smallestView_later(1) [OF ne gt] by blast
  qed
  have "viewState s3 = viewState s1" by (simp add: s3_def)
  then have "processNewViewWith E f s3 = processNewViewWith E g s3" "processNewViewWith E f s1 = processNewViewWith E g s1"
    using stored by (auto intro!: processNewViewWith_cong simp: viewState_def s1_def)
  then show ?thesis unfolding e using a sendNewViewWith_cong [of E f s3 g] by presburger
qed

subsection \<open>The bound\<close>

definition vcViews :: "'w pbftCore \<Rightarrow> u64 set" where
  "vcViews s = fst ` set (map fst (i_viewChangeStore s))"

definition nvViews :: "'w pbftCore \<Rightarrow> u64 set" where
  "nvViews s = set (map fst (i_newViewStore s))"

text \<open>The stored views that a call in the current view can still lead to.\<close>

definition level :: "'w pbftCore \<Rightarrow> nat" where
  "level s = card {w \<in> nvViews s. i_view s < w} + card {w \<in> vcViews s. i_view s + 1 < w}"

lemma level_bound: "level s \<le> length (i_newViewStore s) + length (i_viewChangeStore s)"
proof -
  have "card {w \<in> nvViews s. i_view s < w} \<le> card (nvViews s)" "card {w \<in> vcViews s. i_view s + 1 < w} \<le> card (vcViews s)"
    by (intro card_mono; simp add: nvViews_def vcViews_def)+
  moreover have "card (nvViews s) \<le> length (i_newViewStore s)" "card (vcViews s) \<le> length (i_viewChangeStore s)"
    unfolding nvViews_def vcViews_def
    by (metis card_length length_map, metis card_length length_map image_set)
  ultimately show ?thesis by (simp add: level_def)
qed

lemma innerBroadcast_cong:
  assumes "\<And>t. viewState t = viewState s \<Longrightarrow> d t = d' t"
  shows "innerBroadcast E m (Some d) s = innerBroadcast E m (Some d') s"
  using assms by (simp add: innerBroadcast_def Let_def split: sum.splits)

text \<open>The two recursive calls lower the level.\<close>

lemma level_later:
  assumes "nvViews u \<subseteq> nvViews s" and "vcViews u \<subseteq> insert (i_view s + 1) (vcViews s)" and "i_view u = w - 1"
    and "w \<in> vcViews s" "i_view s + 1 < w" "i_view s \<noteq> - 1"
  shows "level u < level s"
proof -
  have v: "i_view s < i_view s + 1" by (rule less_succ_word) (use assms(6) in \<open>simp add: eq_neg_iff_add_eq_0\<close>)
  have "i_view s \<le> w - 1" by (rule le_pred_word) (use assms(5) v in simp)
  then have "{x \<in> nvViews u. i_view u < x} \<subseteq> {x \<in> nvViews s. i_view s < x}" using assms(1,3) by auto
  then have a: "card {x \<in> nvViews u. i_view u < x} \<le> card {x \<in> nvViews s. i_view s < x}" by (intro card_mono) simp_all
  have "{x \<in> vcViews u. i_view u + 1 < x} \<subset> {x \<in> vcViews s. i_view s + 1 < x}"
    using assms(2-5) by auto
  then have "card {x \<in> vcViews u. i_view u + 1 < x} < card {x \<in> vcViews s. i_view s + 1 < x}"
    by (intro psubset_card_mono) simp_all
  with a show ?thesis by (simp add: level_def)
qed

lemma level_stored:
  assumes "nvViews u \<subseteq> nvViews s" and "vcViews u \<subseteq> insert (i_view s + 1) (vcViews s)" and "i_view u = i_view s + 1"
    and "i_view s + 1 \<in> nvViews s" "i_view s \<noteq> - 1" "i_view s + 1 \<noteq> - 1"
  shows "level u < level s"
proof -
  have v: "i_view s < i_view s + 1" "i_view s + 1 < i_view s + 1 + 1"
    by (rule less_succ_word, use assms(5,6) in \<open>simp add: eq_neg_iff_add_eq_0\<close>)+
  have "{x \<in> nvViews u. i_view u < x} \<subset> {x \<in> nvViews s. i_view s < x}" using assms(1,3,4) v(1) by auto
  then have a: "card {x \<in> nvViews u. i_view u < x} < card {x \<in> nvViews s. i_view s < x}"
    by (intro psubset_card_mono) simp_all
  have "{x \<in> vcViews u. i_view u + 1 < x} \<subseteq> {x \<in> vcViews s. i_view s + 1 < x}"
    using assms(2,3) v(2) by auto
  then have "card {x \<in> vcViews u. i_view u + 1 < x} \<le> card {x \<in> vcViews s. i_view s + 1 < x}"
    by (intro card_mono) simp_all
  with a show ?thesis by (simp add: level_def)
qed

lemma mput_keys: "set (map fst (mput k v m)) = insert k (set (map fst m))"
  by (rule gomap_keys_mput)

lemma nvViews_get: "w \<in> nvViews s \<longleftrightarrow> mget (i_newViewStore s) w \<noteq> None"
  by (simp add: nvViews_def mget_None_conv)

text \<open>The level of the states in which \<open>recvViewChange\<close> calls \<open>sendViewChange\<close> again.\<close>

lemma recvViewChange_level:
  assumes t: "viewState t = viewState (enterNextView s)" and vc: "vc_View vc = i_view s + 1"
    and s: "i_view s \<noteq> - 1" "- 1 \<notin> nvViews s"
  defines "t1 \<equiv> t\<lparr>i_viewChangeStore := mput (vc_View vc, vc_ReplicaId vc) vc (i_viewChangeStore t)\<rparr>"
  shows "w \<in> vcViews t1 \<Longrightarrow> i_view t < w \<Longrightarrow> level (t1\<lparr>i_view := w - 1\<rparr>) < level s"
    and "viewState u = viewState t1 \<Longrightarrow> mget (i_newViewStore t) (i_view t) \<noteq> None \<Longrightarrow> level u < level s \<and> i_view u \<noteq> - 1"
    and "viewState u = viewState t1 \<Longrightarrow> nvViews u \<subseteq> nvViews s" and "nvViews (t1\<lparr>i_view := w - 1\<rparr>) \<subseteq> nvViews s"
proof -
  have views: "i_view t = i_view s + 1" "i_newViewStore t = mdel (i_view s) (i_newViewStore s)"
    "i_viewChangeStore t = filter (\<lambda>(idx, vc). \<not> fst idx < i_view s + 1) (i_viewChangeStore s)"
    using t by (simp_all add: viewState_def)
  have nv: "nvViews t1 \<subseteq> nvViews s" by (auto simp: t1_def nvViews_get views split: if_splits)
  have "i_viewChangeStore t1 = mput (vc_View vc, vc_ReplicaId vc) vc (i_viewChangeStore t)" by (simp add: t1_def)
  then have "vcViews t1 = insert (i_view s + 1) (vcViews t)"
    by (simp only: vcViews_def mput_keys vc image_insert fst_conv)
  then have vcs: "vcViews t1 \<subseteq> insert (i_view s + 1) (vcViews s)" by (auto simp: vcViews_def views)
  show "nvViews (t1\<lparr>i_view := w - 1\<rparr>) \<subseteq> nvViews s" using nv by (simp add: nvViews_def)
  show "level (t1\<lparr>i_view := w - 1\<rparr>) < level s" if "w \<in> vcViews t1" "i_view t < w"
  proof (rule level_later [where w = w])
    show "w \<in> vcViews s" "i_view s + 1 < w" using that vcs views(1) by auto
    show "nvViews (t1\<lparr>i_view := w - 1\<rparr>) \<subseteq> nvViews s" using nv by (simp add: nvViews_def)
    show "vcViews (t1\<lparr>i_view := w - 1\<rparr>) \<subseteq> insert (i_view s + 1) (vcViews s)" using vcs by (simp add: vcViews_def)
  qed (simp_all add: s(1))
  assume u: "viewState u = viewState t1"
  then have eq: "i_view u = i_view s + 1" "nvViews u = nvViews t1" "vcViews u = vcViews t1"
    by (simp_all add: viewState_def nvViews_def vcViews_def t1_def views)
  show "nvViews u \<subseteq> nvViews s" using nv eq by simp
  show "level u < level s \<and> i_view u \<noteq> - 1" if "mget (i_newViewStore t) (i_view t) \<noteq> None"
  proof -
    have "i_view t \<in> nvViews t" using that by (simp add: nvViews_get)
    then have m: "i_view s + 1 \<in> nvViews s"
      by (auto simp: nvViews_get views split: if_splits)
    have n: "i_view s + 1 \<noteq> - 1" by (metis m s(2))
    show ?thesis
      using level_stored [OF _ _ eq(1) m s(1) n] nv vcs n by (simp only: eq simp_thms)
  qed
qed

text \<open>
  \<open>sendViewChange\<close> with at most \<open>k\<close> nested calls, where \<open>deeper\<close> stands for a call nested more deeply.
\<close>

fun nestedVC :: "'w penv \<Rightarrow> ('w pbftCore \<Rightarrow> 'w presult) \<Rightarrow> nat \<Rightarrow> 'w pbftCore \<Rightarrow> 'w presult" where
  "nestedVC E deeper 0 s = deeper s"
| "nestedVC E deeper (Suc k) s =
     (let s1 = enterNextView s; vc = makeViewChange E s1
      in innerBroadcast E (MViewChange vc)
           (Some (fromSender (i_id s1) (vc_ReplicaId vc) (recvViewChangeWith E (nestedVC E deeper k) vc))) s1)"

lemma nestedVC_fuel: "nestedVC E (\<lambda>_. Inl Diverges) k = sendViewChangeN E k"
  by (induction k) (auto intro!: ext)

lemma nestedVC_enough:
  assumes "level s < k" "level s < k'" and "i_view s \<noteq> - 1" and "- 1 \<notin> nvViews s"
  shows "nestedVC E d k s = nestedVC E d' k' s"
  using assms
proof (induction "level s" arbitrary: s k k' rule: less_induct)
  case less
  obtain j j' where k: "k = Suc j" "k' = Suc j'" using less.prems(1,2) by (metis less_imp_Suc_add)
  let ?vc = "makeViewChange E (enterNextView s)"
  have IH: "nestedVC E d j u = nestedVC E d' j' u"
    if "level u < level s" "i_view u \<noteq> - 1" "nvViews u \<subseteq> nvViews s" for u
    by (rule less.hyps [OF that(1)]) (use that less.prems k in auto)
  have "recvViewChangeWith E (nestedVC E d j) ?vc t = recvViewChangeWith E (nestedVC E d' j') ?vc t"
    if t: "viewState t = viewState (enterNextView s)" for t
  proof (rule recvViewChangeWith_cong)
    have vc: "vc_View ?vc = i_view s + 1" by simp
    note lev = recvViewChange_level [OF t vc less.prems(3,4)]
    let ?t1 = "t\<lparr>i_viewChangeStore := mput (vc_View ?vc, vc_ReplicaId ?vc) ?vc (i_viewChangeStore t)\<rparr>"
    fix w assume w: "w \<in> fst ` set (map fst (i_viewChangeStore ?t1))" "i_view t < w"
    have "w - 1 \<noteq> - 1" using w(2) by auto
    then show "nestedVC E d j (?t1\<lparr>i_view := w - 1\<rparr>) = nestedVC E d' j' (?t1\<lparr>i_view := w - 1\<rparr>)"
      using lev(1) [of w] lev(4) w by (intro IH) (simp_all add: vcViews_def)
  next
    have vc: "vc_View ?vc = i_view s + 1" by simp
    note lev = recvViewChange_level [OF t vc less.prems(3,4)]
    fix u :: "'a pbftCore"
    assume "mget (i_newViewStore t) (i_view t) \<noteq> None"
      and "viewState u = viewState (t\<lparr>i_viewChangeStore := mput (vc_View ?vc, vc_ReplicaId ?vc) ?vc (i_viewChangeStore t)\<rparr>)"
    then show "nestedVC E d j u = nestedVC E d' j' u" using lev(2,3) by (intro IH) blast+
  qed
  note same = this
  show ?case
    unfolding k nestedVC.simps Let_def
    by (rule innerBroadcast_cong) (simp only: fromSender_def same)
qed

text \<open>
  C18: The recursion of \<open>sendViewChange\<close> ends. Allowing more nested calls than there are stored
  new-view and view-change messages, the result is that of \<open>sendViewChange\<close> whatever a call nested
  more deeply would do: no such call is made, and the bound the model uses is never what stops the
  recursion. Views are assumed not to reach the largest 64-bit number.
\<close>

theorem sendViewChange_recursion:
  assumes "i_view s \<noteq> - 1" and "mget (i_newViewStore s) (- 1) = None"
    and "length (i_newViewStore s) + length (i_viewChangeStore s) < k"
  shows "nestedVC E deeper k s = sendViewChange E s"
  unfolding sendViewChange_def nestedVC_fuel [symmetric]
  by (rule nestedVC_enough) (use assms level_bound [of s] in \<open>simp_all add: nvViews_get\<close>)

definition freshReplica :: "Message pbftCore" where
  "freshReplica = projr (newPbftCore 1 (sampleConfig 4 1 10) [])"

lemma freshReplica_run:
  "\<exists>s. nestedVC sampleEnv (\<lambda>_. Inl (Crash ''not reached'')) (Suc 0) freshReplica = Inr s \<and> i_view s = 1 \<and> \<not> i_activeView s"
  by (simp add: freshReplica_def sample_simps sample_init enterNextView_def makeViewChange_def sign_def clearOldMessages_def
      collectPQ_def recvViewChangeWith_def correctViewChange_def verify_def smallestView_def allCorrectReplicasQuorum_def
      del: EncodeToString.simps(2))

theorem sendViewChange_recursion_witness:
  "i_view freshReplica \<noteq> - 1 \<and> mget (i_newViewStore freshReplica) (- 1) = None
   \<and> length (i_newViewStore freshReplica) + length (i_viewChangeStore freshReplica) < Suc 0
   \<and> nestedVC sampleEnv (\<lambda>_. Inl (Crash ''not reached'')) (Suc 0) freshReplica = sendViewChange sampleEnv freshReplica
   \<and> (\<exists>s. sendViewChange sampleEnv freshReplica = Inr s \<and> i_view s = 1)"
proof -
  have f: "i_view freshReplica \<noteq> - 1" "mget (i_newViewStore freshReplica) (- 1) = None"
    "length (i_newViewStore freshReplica) + length (i_viewChangeStore freshReplica) < Suc 0"
    by (simp_all add: freshReplica_def sample_init)
  note r = sendViewChange_recursion [OF f, of sampleEnv "\<lambda>_. Inl (Crash ''not reached'')"]
  from freshReplica_run obtain s where "sendViewChange sampleEnv freshReplica = Inr s" "i_view s = 1" unfolding r by blast
  with f r show ?thesis by blast
qed

end
