(* ===== verification/PbftWrap.thy ===== *)
theory PbftWrap
  imports PbftAgreement PbftNewView
begin

text \<open>
  Agreement needs the proviso that nothing wraps around. Four replicas, of which replica 1 is
  faulty and the primary of view 1. Its new-view message repeats its own view change and names a
  checkpoint six below \<open>2 ^ 64\<close>, so the window of a correct replica wraps and contains sequence
  number 1. Replica 2 prepares a request there, but a checkpoint message then makes it drop the
  certificate, because number 1 is below its low watermark, and it prepares another request under
  the same number.
\<close>

subsection \<open>Runs of a list of inputs\<close>

definition receivedIn :: "'w penv \<Rightarrow> 'w pinput list \<Rightarrow> evidence" where
  "receivedIn E xs = {(sender, m). \<exists>w. Receive w sender \<in> set xs \<and> e_unmarshal E w = Inr m}"

interpretation ident: step_invariant E "\<lambda>s. i_id s = i \<and> i_N s = N" for E :: "'w penv" and i N
  by unfold_locales (simp_all add: act_def startTimer_def stopTimer_def timerFire_def timerReceive_def close_def)

lemma prun_psteps:
  assumes "prun E X hist s" and "psteps E xs s = Inr s'"
    and "\<forall>w sender. Receive w sender \<in> set xs \<longrightarrow>
      (\<exists>m. e_unmarshal E w = Inr m \<and> message_ok m) \<and> sender \<noteq> i_id s \<and> unat sender < i_N s"
  shows "\<exists>hist'. prun E (receivedIn E xs \<union> X) hist' s'"
  using assms
proof (induction xs arbitrary: X hist s)
  case Nil
  then show ?case by (auto simp: receivedIn_def)
next
  case (Cons x xs)
  from Cons.prems(2) obtain t where t: "pstep E x s = Inr t" "psteps E xs t = Inr s'" by (auto simp: rbind_Inr_conv)
  have same: "i_id t = i_id s" "i_N t = i_N s" using ident.every_step [of s _ _ E, OF _ t(1)] by auto
  have ok: "\<forall>w sender. Receive w sender \<in> set xs \<longrightarrow>
      (\<exists>m. e_unmarshal E w = Inr m \<and> message_ok m) \<and> sender \<noteq> i_id t \<and> unat sender < i_N t"
    using Cons.prems(3) by (auto simp: same)
  show ?case
  proof (cases "\<exists>w sender. x = Receive w sender")
    case True
    then obtain w sender m where x: "x = Receive w sender" "e_unmarshal E w = Inr m" "message_ok m"
      "sender \<noteq> i_id s" "unat sender < i_N s" using Cons.prems(3) by fastforce
    from prun.receives [OF Cons.prems(1) x(2,4,5,3) t(1) [unfolded x(1)]]
    have "prun E (insert (sender, m) X) (t # hist) t" .
    from Cons.IH [OF this t(2) ok] obtain hist' where "prun E (receivedIn E xs \<union> insert (sender, m) X) hist' s'" by blast
    moreover have "receivedIn E xs \<union> insert (sender, m) X = receivedIn E (x # xs) \<union> X"
      using x(1,2) by (auto simp: receivedIn_def)
    ultimately show ?thesis by auto
  next
    case False
    from prun.takes [OF Cons.prems(1) _ t(1)] False have "prun E X (t # hist) t" by blast
    moreover have "receivedIn E (x # xs) = receivedIn E xs" using False by (auto simp: receivedIn_def)
    ultimately show ?thesis using Cons.IH [OF _ t(2) ok] by metis
  qed
qed

subsection \<open>The run\<close>

definition wrapNV :: NewView where
  "wrapNV = \<lparr>nv_View = 1, nv_Vset = [soloVC (- 6), soloVC (- 6), soloVC (- 6)], nv_Xset = [], nv_ReplicaId = 1\<rparr>"

definition wrapPrePrepare :: "byte \<Rightarrow> Message" where
  "wrapPrePrepare b = MPrePrepare \<lparr>pp_View = 1, pp_SequenceNumber = 1, pp_RequestDigest = EncodeToString [b],
     pp_Request = Some \<lparr>rq_Timestamp = None, rq_Payload = [b], rq_ReplicaId = 1\<rparr>, pp_ReplicaId = 1\<rparr>"

definition wrapPrepare :: "byte \<Rightarrow> Message" where
  "wrapPrepare b = MPrepare \<lparr>pr_View = 1, pr_SequenceNumber = 1, pr_RequestDigest = EncodeToString [b], pr_ReplicaId = 2\<rparr>"

definition wrapCheckpoint :: Message where
  "wrapCheckpoint = MCheckpoint \<lparr>ck_SequenceNumber = - 6, ck_ReplicaId = 1, ck_Id = []\<rparr>"

definition wrapInputs :: "u64 \<Rightarrow> Message pinput list" where
  "wrapInputs i = [NewRequest [3] i, TimerFires, TimerReceived, TimerLocked, Receive (MNewView wrapNV) 1] @
     (if i = 2 then [Receive (wrapPrePrepare 1) 1, CheckpointDone 0 [], Receive wrapCheckpoint 1, Receive (wrapPrePrepare 2) 1]
      else [Receive (wrapPrePrepare (if i = 0 then 1 else 2)) 1, Receive (wrapPrepare (if i = 0 then 1 else 2)) 2])"

lemma nLoop_stop: "\<not> n \<le> h + i_L s \<Longrightarrow> nLoop s vset h n m k = Some (Some (m, k))"
  by (subst nLoop.simps) simp

lemma wrap_words: "(0 :: u64) < - 6" "(0 :: u64) \<le> - 6" "(1 :: u64) \<le> - 6" "\<not> (- 5 :: u64) \<le> 4" "\<not> (- 6 :: u64) < 0"
  by (simp_all add: word_less_nat_alt word_le_nat_alt)

lemmas wrap_simps = late_simps sample_hash sample_decode wrapInputs_def wrapNV_def soloNV_def soloVC_def
  wrapPrePrepare_def wrapPrepare_def wrapCheckpoint_def recvNewView_def selectInitialCheckpoint_def collectCheckpoints_def
  zeroC_def assignSequenceNumbers_def deepEqual_def acceptNewView_def processNewView2_def
  nLoop_stop wrap_words base64_decode_encode intersectionQuorum_def

lemma wrap_run_0:
  "\<exists>s. rbind (newPbftCore 0 (sampleConfig 4 1 10) []) (psteps sampleEnv (wrapInputs 0)) = Inr s
     \<and> i_id s = 0 \<and> i_N s = 4 \<and> i_f s = 1 \<and> prepared s (EncodeToString [1]) 1 1"
  by (simp add: wrap_simps del: EncodeToString.simps(2) sendViewChangeN.simps)

lemma wrap_run_3:
  "\<exists>s. rbind (newPbftCore 3 (sampleConfig 4 1 10) []) (psteps sampleEnv (wrapInputs 3)) = Inr s
     \<and> i_id s = 3 \<and> i_N s = 4 \<and> i_f s = 1 \<and> prepared s (EncodeToString [2]) 1 1"
  by (simp add: wrap_simps del: EncodeToString.simps(2) sendViewChangeN.simps)

lemma wrap_run_2:
  "\<exists>s. rbind (newPbftCore 2 (sampleConfig 4 1 10) []) (psteps sampleEnv (wrapInputs 2)) = Inr s
     \<and> i_id s = 2 \<and> i_N s = 4 \<and> i_f s = 1 \<and> wrapPrepare 1 \<in> sentMsgs sampleEnv s \<and> wrapPrepare 2 \<in> sentMsgs sampleEnv s"
  by (simp add: wrap_simps sentMsgs_def del: EncodeToString.simps(2) sendViewChangeN.simps)

lemma wrap_received:
  "receivedIn sampleEnv (wrapInputs 2) = {(1, MNewView wrapNV), (1, wrapPrePrepare 1), (1, wrapCheckpoint), (1, wrapPrePrepare 2)}"
  "receivedIn sampleEnv (wrapInputs 0) = {(1, MNewView wrapNV), (1, wrapPrePrepare 1), (2, wrapPrepare 1)}"
  "receivedIn sampleEnv (wrapInputs 3) = {(1, MNewView wrapNV), (1, wrapPrePrepare 2), (2, wrapPrepare 2)}"
  by (auto simp: receivedIn_def wrapInputs_def sampleEnv_def)

lemma wrap_prun:
  assumes "i \<in> {0, 2, 3}" and "rbind (newPbftCore i (sampleConfig 4 1 10) []) (psteps sampleEnv (wrapInputs i)) = Inr s"
  shows "\<exists>hist. prun sampleEnv (receivedIn sampleEnv (wrapInputs i)) hist s"
proof -
  from assms(2) obtain s0 where s0: "newPbftCore i (sampleConfig 4 1 10) [] = Inr s0" "psteps sampleEnv (wrapInputs i) s0 = Inr s"
    by (auto simp: rbind_Inr_conv)
  have "prun sampleEnv {} [s0] s0" by (rule prun.start [OF s0(1)]) (simp_all add: sampleConfig_def)
  moreover have "i_id s0 = i" "i_N s0 = 4" using s0(1) by (auto simp: newPbftCore_def sampleConfig_def Let_def split: if_splits)
  moreover from this have "\<forall>w sender. Receive w sender \<in> set (wrapInputs i) \<longrightarrow>
      (\<exists>m. e_unmarshal sampleEnv w = Inr m \<and> message_ok m) \<and> sender \<noteq> i_id s0 \<and> unat sender < i_N s0"
    using assms(1) by (auto simp: wrapInputs_def wrapNV_def wrapPrePrepare_def wrapPrepare_def wrapCheckpoint_def sampleEnv_def message_ok_def soloVC_def)
  ultimately show ?thesis using prun_psteps [OF _ s0(2)] by fastforce
qed

lemma agreement_lost:
  "\<exists>X hist s d d'. deployment 4 1 {0, 2, 3} (\<lambda>_. sampleEnv) X hist s
     \<and> prepared (s 0) d 1 1 \<and> prepared (s 3) d' 1 1 \<and> d \<noteq> d'"
proof -
  let ?run = "\<lambda>i. rbind (newPbftCore i (sampleConfig 4 1 10) []) (psteps sampleEnv (wrapInputs i))"
  obtain s0 where s0: "?run 0 = Inr s0" "i_id s0 = 0" "i_N s0 = 4" "i_f s0 = 1" "prepared s0 (EncodeToString [1]) 1 1"
    using wrap_run_0 by (elim exE conjE)
  obtain s2 where s2: "?run 2 = Inr s2" "i_id s2 = 2" "i_N s2 = 4" "i_f s2 = 1"
      "wrapPrepare 1 \<in> sentMsgs sampleEnv s2" "wrapPrepare 2 \<in> sentMsgs sampleEnv s2"
    using wrap_run_2 by (elim exE conjE)
  obtain s3 where s3: "?run 3 = Inr s3" "i_id s3 = 3" "i_N s3 = 4" "i_f s3 = 1" "prepared s3 (EncodeToString [2]) 1 1"
    using wrap_run_3 by (elim exE conjE)
  obtain h0 h2 h3 where h: "prun sampleEnv (receivedIn sampleEnv (wrapInputs 0)) h0 s0"
      "prun sampleEnv (receivedIn sampleEnv (wrapInputs 2)) h2 s2" "prun sampleEnv (receivedIn sampleEnv (wrapInputs 3)) h3 s3"
    using wrap_prun [OF _ s0(1)] wrap_prun [OF _ s2(1)] wrap_prun [OF _ s3(1)] by auto
  let ?s = "\<lambda>i. if i = 0 then s0 else if i = 2 then s2 else s3"
  let ?h = "\<lambda>i. if i = (0 :: u64) then h0 else if i = 2 then h2 else h3"
  have sub: "{0, 2, 3} \<subseteq> replicaIds 4" by (simp add: replicaIds_def)
  have "card (replicaIds 4 - {0, 2, 3}) = card (replicaIds 4) - card {0, 2, 3 :: u64}"
    using sub by (rule card_Diff_subset [rotated]) simp
  then have "card (replicaIds 4 - {0, 2, 3}) \<le> 1" using card_replicaIds [of 4] by simp
  moreover have "codec_ok sampleEnv" by (simp add: codec_ok_def)
  ultimately have "deployment 4 1 {0, 2, 3} (\<lambda>_. sampleEnv) (\<lambda>i. receivedIn sampleEnv (wrapInputs i)) ?h ?s"
    using sub h s0(2-4) s2(2-6) s3(2-4) unfolding deployment_def by (simp add: wrap_received)
  moreover have "EncodeToString [1] \<noteq> EncodeToString [2]"
    using base64_decode_encode [of "[1]"] base64_decode_encode [of "[2]"] by (auto simp del: EncodeToString.simps(2))
  ultimately show ?thesis using s0(5) s3(5) by (intro exI conjI) (assumption, simp_all del: EncodeToString.simps(2))
qed

end
