(* ===== verification/Spec2Isabelle.thy ===== *)
theory Spec2Isabelle
  imports BucketProps StateProps LedgerRecovery ScanTheorems PbftAgreement PbftExecution PbftNewView PbftRecursion PbftWrap
begin

text \<open>
  A verification library for the two parts of a fabric peer that decide what is on the chain: the
  \<^bold>\<open>ledger\<close> (\<open>src/core/ledger\<close>), which keeps the world state, its hash and the blocks in a database,
  and the \<^bold>\<open>PBFT replica\<close> (\<open>src/consensus/obcpbft\<close>), which agrees with other replicas on the order
  of requests. Consensus calls its consumer to execute requests, the consumer runs transactions
  against the ledger, and the ledger commits a block per batch.

  \<^bold>\<open>How the program is modelled.\<close> Definitions keep the names of the Go functions. A struct is a
  record, a Go map an association list with \<open>mget\<close>, \<open>mput\<close>, \<open>mdel\<close> (\<open>gomap_ok\<close>: no key twice), a
  \<open>[]byte\<close> is \<open>bytes option\<close> where \<open>nil\<close> matters, \<open>uint64\<close> is \<open>64 word\<close> with its wrap-around. A
  function that can fail returns \<open>gerr + 'a\<close>; a panic is an error value of its own, so that every
  error return and every panic is a branch. Methods take and return the state of their receiver,
  and when a method fails the changes it made before are kept. A loop is structural recursion, a
  \<open>function\<close> with its measure, or \<open>partial_function (option)\<close> where the code may loop forever.
  Code outside the repository is a parameter: RocksDB is \<open>D :: 'db gorocksdb\<close> with the law
  \<open>rocksdb_ok\<close> (which says nothing about memory that a closed iterator leaves behind: \<open>ItrMem\<close>), the
  protocol buffer library is \<open>P :: protolib\<close> with the round trip \<open>proto_ok\<close>, the
  hash function is \<open>H\<close>, and the surroundings of a replica are the record \<open>penv\<close>, with \<open>codec_ok\<close>
  for its codec. Each law is shown to hold for a concrete instance (\<open>memdb\<close>, \<open>table_proto\<close>,
  \<open>sampleEnv\<close>), on which the witnesses run.

  \<^bold>\<open>Foundations.\<close>
  \<^item> \<open>Prelude\<close>: Go values, the error monad, maps and lists.
  \<^item> \<open>ProtoWire\<close>: varints, raw bytes and strings of \<open>proto.Buffer\<close>; the locale \<open>codec\<close> (decoding
    returns what was encoded and the rest of the buffer) and its three interpretations.
  \<^item> \<open>LedgerUtil\<close>: \<open>util/util.go\<close>, \<open>statemgmt/commons.go\<close>, big-endian keys: decodable, injective,
    order preserving.
  \<^item> \<open>Base64\<close>: Go's standard base64 and its round trip.
  \<^item> \<open>DB\<close>: \<open>core/db/db.go\<close> over the parameter \<open>D\<close>.

  \<^bold>\<open>The world state.\<close>
  \<^item> \<open>StateDelta\<close>: \<open>state_delta.go\<close>. The locale \<open>overlay\<close> says what a delta does to a state; merging
    composes, rolling back restores, marshalling round-trips, the hash does not depend on map order
    (and is ambiguous between different deltas).
  \<^item> \<open>BucketTree\<close>, \<open>BucketState\<close>: the data structures and the state manager of \<open>buckettree\<close>.
    \<open>BucketMerkle\<close>, \<open>BucketStore\<close>: the reference, the hash of a tree node computed from the whole
    state (\<open>node_hash\<close>), and the database that stores a state and its tree (\<open>tree_db\<close>).
    \<open>BucketDelta\<close>, \<open>BucketIncremental\<close>, \<open>BucketPersist\<close>: the incremental computation reproduces the
    reference and the commit stores it. \<open>BucketProps\<close> has the properties. The cache that is filled at
    start keeps slices of iterator memory (\<open>aliasedNode\<close>), so the invariant holds after a restart if
    that memory keeps its contents (\<open>itr_kept\<close>) or the cache is off; the hash is right in any case.
  \<^item> \<open>HashableState\<close>: the Go interface as a record of methods, and the contract \<open>hashable_state\<close>,
    interpreted on the bucket tree and on \<open>raw/state_impl.go\<close>.
  \<^item> \<open>LedgerState\<close>: \<open>state/state.go\<close>. In the locale \<open>forward_state\<close>, which extends that contract, the
    operations refine \<open>world_spec\<close>, three layers of key-value pairs. \<open>StateProps\<close> has the
    properties.
  \<^item> \<open>StateIterators\<close>, \<open>StateScan\<close>, \<open>ScanTheorems\<close>: range scans and snapshots. \<open>range_scan\<close> is the
    contract of an iterator, \<open>composite_scan\<close> the stack of iterators that \<open>state.go\<close> builds.

  \<^bold>\<open>The chain.\<close>
  \<^item> \<open>Blockchain\<close>: \<open>protos/block.go\<close>, \<open>blockchain.go\<close>, \<open>blockchain_indexes.go\<close>. \<open>ChainStore\<close>: a
    stored chain as a list of linked blocks.
  \<^item> \<open>Ledger\<close>: \<open>ledger.go\<close>. \<open>LedgerInv\<close>: the invariant that ties chain, indexes, state, deltas and
    tip together. \<open>LedgerProps\<close>: the step relation \<open>ledger_step\<close> of a peer that runs transaction
    batches; \<open>PutRawBlock\<close>, \<open>CommitStateDelta\<close> and \<open>DeleteALLStateKeysAndValues\<close>, by which state
    transfer replaces chain and state piece by piece, are modelled but not steps of it. \<open>LedgerTheorems\<close>,
    \<open>LedgerRecovery\<close>: commits, previews, chain verification, restart, undoing a block, lookups,
    failed reads and writes.

  \<^bold>\<open>The replica.\<close>
  \<^item> \<open>PbftCore\<close>, \<open>PbftViewChange\<close>: \<open>pbft-core.go\<close>, \<open>viewchange.go\<close> and the signatures of \<open>sign.go\<close>,
    all handlers over the record \<open>pbftCore\<close>. Calls on the consumer are appended to \<open>i_trace\<close>. The
    steps of a replica are \<open>pstep\<close>: a message, a request, a finished checkpoint, and the steps of the
    timer and of its goroutine.
  \<^item> \<open>PbftInv\<close>, \<open>PbftHandlers\<close>, \<open>PbftViewInv\<close>, \<open>PbftActivate\<close>, \<open>PbftRun\<close>, \<open>PbftSteps\<close>: the invariant
    of a correct replica, one lemma per handler, and the reachability relation \<open>prun\<close>, which records
    the states a replica passed through. \<open>PbftAgreement\<close>: quorums (\<open>quorum_system\<close>), deployments with
    faulty replicas, agreement as long as nothing wraps around (\<open>unwrapped\<close>). \<open>PbftWrap\<close>: a deployment
    in which the window of correct replicas wraps around and agreement is lost.
  \<^item> \<open>PbftFrame\<close>: the proof rule \<open>replica_invariant\<close>; \<open>PbftReach\<close> extends it to every step
    (\<open>step_invariant\<close>) and uses it for well-formed states and for the timer.
  \<^item> \<open>PbftExecution\<close>: \<open>executeOne\<close> in two parts, as the code releases the lock between them, with other
    goroutines in between (\<open>exstep\<close>); that the loop ends and leaves nothing executable.
    \<open>PbftNewView\<close>: the choice of requests for a new view, the watermark window, and what a faulty
    primary can do. \<open>PbftRecursion\<close>: the recursion of the view change. \<open>PbftSample\<close>: a concrete
    environment on which runs are computed.

  \<^bold>\<open>Bounds and fuel.\<close>
  \<^item> \<open>sendViewChange\<close> and \<open>recvViewChange\<close> call each other; the model bounds the nesting by the number
    of stored new-view and view-change messages plus two. \<open>sendViewChange_recursion\<close> shows that
    what is put in place of the calls nested deeper makes no difference: they are never reached.
  \<^item> \<open>executeOutstanding\<close>, \<open>assignSequenceNumbers\<close>, \<open>newConfig\<close> and the iterators are partial
    functions without fuel; \<open>execution_progress\<close>, \<open>assignSequenceNumbers_correct\<close>,
    \<open>newConfig_returns\<close>, \<open>range_scan_complete\<close> and \<open>snapshot_complete\<close> show that they return, and
    \<open>new_view_hang\<close> and \<open>newConfig_returns\<close> when they do not.
  \<^item> \<open>conf_wf\<close> keeps bucket numbers within 64 bits; the timer theorems count fewer than \<open>2 ^ 64 - 2\<close>
    steps; \<open>unwrapped\<close> excludes runs in which views or watermarks wrap around, and is a hypothesis of
    the agreement theorems.

  \<^bold>\<open>Not modelled.\<close>
  \<^item> The plugins over the PBFT core (\<open>obc-batch.go\<close>, \<open>obc-classic.go\<close>, \<open>obc-sieve.go\<close>), the executor
    queue, state transfer, the consensus helper and \<open>noops\<close>: goroutines and channels around the
    operations that are modelled. Agreement is shown within a view; across views the choice of the
    new view is proved, but the checks on new-view messages are too weak for agreement
    (\<open>forged_checkpoint\<close>).
  \<^item> The trie state (\<open>statemgmt/trie\<close>), an alternative to the bucket tree selected by configuration,
    and the asynchronous indexer, which a constant switches off.
  \<^item> Chaincode support and shim, peer, events, REST interface, containers, command line: input and
    output. Cryptography and membership services: calls of cryptographic libraries; hashing and
    signing are parameters.
  \<^item> The lock of the replica is modelled by one step per handler. \<open>consumer.execute\<close> runs with the
    lock released; \<open>pstep\<close> makes the call within the step, and \<open>exstep\<close> is the model of what other
    goroutines do meanwhile. Logging, block events and performance counters are left out; the block
    event also strips the code package from the caller's deploy transactions after they are stored.
  \<^item> Where Go leaves a result open the model fixes one: the order of a map (certificates, checkpoints
    of a new view), an iterator moved while it is not valid (an error value). \<open>N\<close> and \<open>f\<close> are not
    negative, and memory does not run out.
\<close>

end
